(* ===== verification/Vek_Prelude.thy ===== *)
theory Vek_Prelude
  imports Main "HOL-Library.Word"
begin

section \<open>Prelude: machine types, fact collections and generic lemmas\<close>

text \<open>
  The types and generic lemmas that the components share: names for the C integer types,
  the fact collections of the development, and facts about lists and words that several
  components use.  A C integer type of width \<open>w\<close> is a \<open>w word\<close>; a signed one is the same
  word read by \<open>sint\<close>.  Byte strings of text (program source, URLs, HTTP requests) are
  Isabelle strings, whose characters are bytes; binary buffers are lists of \<open>8 word\<close>.
\<close>

unbundle bit_operations_syntax

type_synonym u8 = "8 word"
type_synonym u16 = "16 word"
type_synonym u32 = "32 word"
type_synonym u64 = "64 word"

named_theorems vek_defs \<open>definitions that the evaluation of closed terms unfolds\<close>
named_theorems inv_intros \<open>introduction rules of the component invariants\<close>

subsection \<open>Lists\<close>

lemma nth_append_drop:
  assumes "drop n xs = ys @ zs" and "i < length ys"
  shows "xs ! (n + i) = ys ! i"
proof -
  have "n \<le> length xs"
    using assms by (metis append_is_Nil_conv drop_all length_0_conv nat_le_linear not_less_zero)
  then have "xs ! (n + i) = drop n xs ! i" by simp
  with assms show ?thesis by (simp add: nth_append)
qed

lemma drop_append_drop: "drop n xs = ys @ zs \<Longrightarrow> drop (n + length ys) xs = zs"
  by (metis add.commute append_eq_conv_conj drop_drop)

lemma takeWhile_length_le: "length (takeWhile P xs) \<le> length xs"
  by (rule length_takeWhile_le)

lemma map_of_filter_distinct:
  "distinct (map fst xs) \<Longrightarrow> (k, v) \<in> set xs \<Longrightarrow> map_of xs k = Some v"
  by (rule map_of_is_SomeI)

lemma map_ext_Some: "(\<And>k v. f k = Some v \<longleftrightarrow> g k = Some v) \<Longrightarrow> f = g"
  by (rule ext) (metis not_Some_eq)

subsection \<open>Words of a power-of-two size\<close>

text \<open>The tables of the program are indexed by \<open>hash & (capacity - 1)\<close>.\<close>

lemma unat_and_mask_pow2:
  fixes h c :: "'a::len word"
  assumes "unat c = 2 ^ n"
  shows "unat (h AND (c - 1)) = unat h mod 2 ^ n"
proof -
  have "(2::nat) ^ n < 2 ^ LENGTH('a)"
    using unsigned_less [of c] by (simp only: flip: assms)
  then have n: "n < LENGTH('a)" by simp
  have "c = of_nat (unat c)" by simp
  also have "\<dots> = 2 ^ n" by (simp add: assms)
  finally have "c = 2 ^ n" .
  then have "c - 1 = mask n" by (simp add: mask_eq_decr_exp)
  then have "h AND (c - 1) = take_bit n h" by (simp add: take_bit_eq_mask)
  then show ?thesis by (simp add: unsigned_take_bit_eq flip: take_bit_eq_mod)
qed

lemma unat_pow2: "n < LENGTH('a) \<Longrightarrow> unat (2 ^ n :: 'a::len word) = 2 ^ n"
  using unat_of_nat [of "2 ^ n", where 'a = 'a] by simp

lemma take_bit_word_less:
  fixes w :: "'a::len word"
  assumes "w < 2 ^ n" and "n < LENGTH('a)"
  shows "take_bit n w = w"
proof -
  have "unat w < 2 ^ n"
    using assms by (simp add: word_less_nat_alt unat_pow2)
  then have "unat (take_bit n w) = unat w"
    by (simp add: unsigned_take_bit_eq take_bit_nat_eq_self)
  then show ?thesis by (rule unsigned_word_eqI)
qed

lemma of_nat_word_eq_iff:
  "m < 2 ^ LENGTH('a) \<Longrightarrow> n < 2 ^ LENGTH('a) \<Longrightarrow> (of_nat m :: 'a::len word) = of_nat n \<longleftrightarrow> m = n"
  by (metis mod_less unat_of_nat)

end
