(* ===== verification/Probing.thy ===== *)
theory Probing
  imports Vek_Prelude
begin

section \<open>Open addressing with linear probing and tombstones\<close>

text \<open>
  The hash map of \<open>object.c\<close> and its string-interning table are arrays of a power-of-two
  size, indexed by \<open>hash & (capacity - 1)\<close> and probed by
  \<open>index = (index + 1) & (capacity - 1)\<close>.  A slot is free (\<open>NULL\<close>), deleted (a tombstone)
  or holds a key.  This theory holds what the two tables share: the probe sequence, the
  generic probe loop (a loop that may run forever, so its result is an option), and the
  invariant that makes probing find every key.
\<close>

datatype 'a slot = is_Empty: Empty | is_Tomb: Tomb | is_Live: Live (live_key: 'a)

subsection \<open>The hash of a string\<close>

text \<open>FNV-1a; the second argument of the XOR is the character's byte.\<close>

fun hash_loop :: "string \<Rightarrow> u32 \<Rightarrow> u32" where
  "hash_loop [] hash = hash"
| "hash_loop (c # cs) hash = hash_loop cs ((hash XOR of_char c) * 16777619)"

definition hash_string :: "string \<Rightarrow> u32" where
  "hash_string key = hash_loop key 2166136261"

subsection \<open>The probe sequence\<close>

definition probe_next :: "u32 \<Rightarrow> u32 \<Rightarrow> u32" where
  "probe_next cap i = (i + 1) AND (cap - 1)"

definition probe_at :: "u32 \<Rightarrow> u32 \<Rightarrow> nat \<Rightarrow> u32" where
  "probe_at cap i d = (i + of_nat d) AND (cap - 1)"

definition pow2_cap :: "u32 \<Rightarrow> bool" where
  "pow2_cap cap \<longleftrightarrow> (\<exists>n. unat cap = 2 ^ n)"

lemma pow2_cap_and: "pow2_cap cap \<Longrightarrow> unat (h AND (cap - 1)) = unat h mod unat cap"
  unfolding pow2_cap_def by (auto simp: unat_and_mask_pow2)

lemma pow2_cap_pos: "pow2_cap cap \<Longrightarrow> 0 < unat cap"
  by (auto simp: pow2_cap_def)

lemma pow2_cap_dvd: "pow2_cap cap \<Longrightarrow> unat cap dvd 2 ^ 32"
proof -
  assume "pow2_cap cap"
  then obtain n where n: "unat cap = 2 ^ n" by (auto simp: pow2_cap_def)
  have "(2::nat) ^ n < 2 ^ 32"
    using unsigned_less [of cap] by (simp only: flip: n) simp
  then have "n \<le> 32" using power_less_imp_less_exp [of "2::nat" n 32] by simp
  then show ?thesis unfolding n by (rule le_imp_power_dvd)
qed

lemma pow2_cap_half: "pow2_cap cap \<Longrightarrow> unat cap < 2 ^ 30 \<Longrightarrow> unat cap \<le> 2 ^ 29"
proof -
  assume "pow2_cap cap" and c: "unat cap < 2 ^ 30"
  then obtain n where n: "unat cap = 2 ^ n" by (auto simp: pow2_cap_def)
  with c have "n < 30" using power_less_imp_less_exp [of "2::nat" n 30] by simp
  then have "(2::nat) ^ n \<le> 2 ^ 29" by (intro power_increasing) auto
  then show ?thesis using n by simp
qed

lemma unat_probe_at:
  assumes "pow2_cap cap"
  shows "unat (probe_at cap i d) = (unat i + d) mod unat cap"
  using assms pow2_cap_dvd [OF assms]
  by (simp add: probe_at_def pow2_cap_and unat_word_ariths unat_of_nat mod_mod_cancel mod_simps)

lemma probe_at_less: "pow2_cap cap \<Longrightarrow> probe_at cap i d < cap"
  by (simp add: word_less_nat_alt unat_probe_at pow2_cap_pos)

lemma probe_at_0: "pow2_cap cap \<Longrightarrow> i < cap \<Longrightarrow> probe_at cap i 0 = i"
  by (simp add: word_unat_eq_iff unat_probe_at word_less_nat_alt)

lemma probe_next_less: "pow2_cap cap \<Longrightarrow> probe_next cap i < cap"
  by (simp add: probe_next_def word_less_nat_alt pow2_cap_and pow2_cap_pos)

lemma probe_at_next:
  assumes "pow2_cap cap"
  shows "probe_at cap (probe_next cap i) d = probe_at cap i (Suc d)"
proof -
  have "unat (i + 1) mod unat cap = (unat i + 1) mod unat cap"
    using pow2_cap_dvd [OF assms] by (simp add: unat_word_ariths mod_mod_cancel)
  then have "(unat (i + 1) mod unat cap + d) mod unat cap = (unat i + Suc d) mod unat cap"
    by (metis add.assoc mod_add_left_eq plus_1_eq_Suc)
  then show ?thesis
    using assms by (simp add: word_unat_eq_iff unat_probe_at probe_next_def pow2_cap_and)
qed

lemma probe_at_covers:
  assumes "pow2_cap cap" and "p < cap"
  shows "\<exists>d < unat cap. probe_at cap i d = p"
proof -
  define n where "n = unat cap"
  define a where "a = unat i mod n"
  define d where "d = (unat p + n - a) mod n"
  have n: "0 < n" "a < n" "unat p < n"
    using assms by (simp_all add: n_def a_def pow2_cap_pos word_less_nat_alt)
  have "(unat i + d) mod n = (a + d) mod n" by (simp add: a_def mod_add_left_eq)
  also have "\<dots> = (a + (unat p + n - a)) mod n" by (simp add: d_def mod_add_right_eq)
  also have "\<dots> = unat p" using n by simp
  finally have "probe_at cap i d = p"
    using assms by (simp add: word_unat_eq_iff unat_probe_at n_def)
  moreover have "d < unat cap" using n by (simp add: d_def n_def)
  ultimately show ?thesis by blast
qed

subsection \<open>The probe loop as an interface\<close>

text \<open>
  Every loop over a table has this shape: stop at some slots with a result, else carry a
  state to the next slot.  \<open>unfold\<close> is the loop's own equation; \<open>diverge\<close> says that it
  does not return from a set of slots that it never leaves.
\<close>

locale probe_loop =
  fixes loop :: "u32 \<Rightarrow> 's \<Rightarrow> 'r option"
    and stop :: "u32 \<Rightarrow> bool"
    and upd :: "u32 \<Rightarrow> 's \<Rightarrow> 's"
    and res :: "u32 \<Rightarrow> 's \<Rightarrow> 'r"
    and cap :: u32
  assumes unfold: "loop i s = (if stop i then Some (res i s) else loop (probe_next cap i) (upd i s))"
    and diverge: "(\<And>j. j \<in> I \<Longrightarrow> \<not> stop j \<and> probe_next cap j \<in> I) \<Longrightarrow> i \<in> I \<Longrightarrow> loop i s = None"
begin

lemma loop_at:
  assumes "pow2_cap cap" and "i < cap" and "stop (probe_at cap i d)"
    and "\<And>e. e < d \<Longrightarrow> \<not> stop (probe_at cap i e)"
  shows "loop i s = Some (res (probe_at cap i d) (fold upd (map (probe_at cap i) [0..<d]) s))"
  using assms
proof (induction d arbitrary: i s)
  case 0
  then show ?case by (simp add: probe_at_0 unfold [of i])
next
  case (Suc d)
  have i: "\<not> stop i" using Suc.prems(4) [of 0] Suc.prems(1,2) by (simp add: probe_at_0)
  have n: "probe_at cap (probe_next cap i) = (\<lambda>e. probe_at cap i (Suc e))"
    using Suc.prems(1) by (simp add: fun_eq_iff probe_at_next)
  have "loop (probe_next cap i) (upd i s) = Some (res (probe_at cap i (Suc d))
      (fold upd (map (\<lambda>e. probe_at cap i (Suc e)) [0..<d]) (upd i s)))"
    using Suc.IH [of "probe_next cap i" "upd i s"] Suc.prems by (simp add: probe_next_less n)
  moreover have "map (probe_at cap i) [0..<Suc d] = i # map (\<lambda>e. probe_at cap i (Suc e)) [0..<d]"
    using Suc.prems(1,2)
    by (simp add: probe_at_0 upt_conv_Cons map_Suc_upt [symmetric] del: upt_Suc)
  ultimately show ?case using i by (simp add: unfold [of i] del: upt_Suc)
qed

lemma loop_first:
  assumes "pow2_cap cap" and "p < cap" and "stop p"
  shows "\<exists>d < unat cap. stop (probe_at cap i d) \<and> (\<forall>e < d. \<not> stop (probe_at cap i e))"
proof -
  obtain d where d: "d < unat cap" "stop (probe_at cap i d)"
    using probe_at_covers [OF assms(1,2)] assms(3) by metis
  define m where "m = (LEAST d. stop (probe_at cap i d))"
  have "stop (probe_at cap i m)" "m \<le> d"
    unfolding m_def using d(2) by (auto intro: LeastI Least_le)
  moreover have "\<forall>e < m. \<not> stop (probe_at cap i e)"
    unfolding m_def using not_less_Least by blast
  ultimately show ?thesis using d(1) by (metis le_less_trans)
qed

lemma loop_diverges:
  assumes "pow2_cap cap" and "i < cap" and "\<And>p. p < cap \<Longrightarrow> \<not> stop p"
  shows "loop i s = None"
  using assms by (intro diverge [of "{p. p < cap}"]) (auto simp: probe_next_less)

lemma loop_returns_iff:
  assumes "pow2_cap cap" and "i < cap"
  shows "loop i s \<noteq> None \<longleftrightarrow> (\<exists>p < cap. stop p)"
proof
  assume "loop i s \<noteq> None"
  then show "\<exists>p < cap. stop p" using loop_diverges assms by metis
next
  assume "\<exists>p < cap. stop p"
  then obtain d where "stop (probe_at cap i d)" "\<forall>e < d. \<not> stop (probe_at cap i e)"
    using loop_first assms(1) by metis
  then show "loop i s \<noteq> None" using loop_at assms by (metis option.distinct(1))
qed

lemma loop_result:
  assumes "pow2_cap cap" and "i < cap" and "loop i s = Some r"
  shows "\<exists>d < unat cap. stop (probe_at cap i d) \<and> (\<forall>e < d. \<not> stop (probe_at cap i e)) \<and>
     r = res (probe_at cap i d) (fold upd (map (probe_at cap i) [0..<d]) s)"
proof -
  have "\<exists>p < cap. stop p" using loop_returns_iff assms by (metis option.distinct(1))
  then obtain d where "d < unat cap" "stop (probe_at cap i d)" "\<forall>e < d. \<not> stop (probe_at cap i e)"
    using loop_first assms(1) by metis
  then show ?thesis using loop_at [of i d s] assms by auto
qed

end


subsection \<open>The table invariant\<close>

text \<open>
  \<open>slot_pos h n k d\<close> is the slot that the probe for \<open>k\<close> visits at its \<open>d\<close>-th step.  A
  table is well formed when the probe for every key it holds meets no free slot before the
  key's own, and no key is held twice.
\<close>

definition slot_pos :: "('k \<Rightarrow> u32) \<Rightarrow> nat \<Rightarrow> 'k \<Rightarrow> nat \<Rightarrow> nat" where
  "slot_pos h n k d = (unat (h k) + d) mod n"

definition path_ok :: "('k \<Rightarrow> u32) \<Rightarrow> 'k slot list \<Rightarrow> 'k \<Rightarrow> nat \<Rightarrow> bool" where
  "path_ok h ks k p \<longleftrightarrow> (\<exists>d < length ks. slot_pos h (length ks) k d = p \<and>
     (\<forall>e < d. ks ! slot_pos h (length ks) k e \<noteq> Empty))"

definition slots_ok :: "('k \<Rightarrow> u32) \<Rightarrow> 'k slot list \<Rightarrow> bool" where
  "slots_ok h ks \<longleftrightarrow>
     (\<forall>p < length ks. case ks ! p of Live k \<Rightarrow> path_ok h ks k p | _ \<Rightarrow> True) \<and>
     (\<forall>p < length ks. \<forall>q < length ks. is_Live (ks ! p) \<and> ks ! p = ks ! q \<longrightarrow> p = q)"

definition count_live :: "'k slot list \<Rightarrow> nat" where
  "count_live ks = length (filter is_Live ks)"

lemma slots_ok_path: "slots_ok h ks \<Longrightarrow> p < length ks \<Longrightarrow> ks ! p = Live k \<Longrightarrow> path_ok h ks k p"
  by (auto simp: slots_ok_def split: slot.splits)

lemma slots_ok_unique:
  "slots_ok h ks \<Longrightarrow> p < length ks \<Longrightarrow> q < length ks \<Longrightarrow> ks ! p = Live k \<Longrightarrow> ks ! q = Live k \<Longrightarrow> p = q"
  by (auto simp: slots_ok_def)

lemma slots_okI:
  assumes "\<And>p k. p < length ks \<Longrightarrow> ks ! p = Live k \<Longrightarrow> path_ok h ks k p"
    and "\<And>p q k. p < length ks \<Longrightarrow> q < length ks \<Longrightarrow> ks ! p = Live k \<Longrightarrow> ks ! q = Live k \<Longrightarrow> p = q"
  shows "slots_ok h ks"
  using assms unfolding slots_ok_def by (auto simp: is_Live_def split: slot.splits) metis

lemma slot_pos_less: "0 < n \<Longrightarrow> slot_pos h n k d < n"
  by (simp add: slot_pos_def)

lemma slots_ok_fresh: "slots_ok h (replicate n Empty)"
  by (rule slots_okI) simp_all

text \<open>Filling a slot keeps every path; the new key needs a path of its own.\<close>

lemma nonempty_update: "ks ! i \<noteq> Empty \<Longrightarrow> x \<noteq> Empty \<Longrightarrow> ks[q := x] ! i \<noteq> Empty"
  by (cases "q < length ks"; cases "i = q") (auto simp: list_update_beyond)

lemma path_ok_update:
  assumes "path_ok h ks k p" and "x \<noteq> Empty"
  shows "path_ok h (ks[q := x]) k p"
  using assms nonempty_update [of ks _ x q] unfolding path_ok_def by fastforce

lemma live_update:
  "q < length ks \<Longrightarrow> ks[p := x] ! q = Live k \<Longrightarrow> ks ! q = Live k \<or> p = q \<and> x = Live k"
  by (cases "p = q") auto

lemma slots_ok_delete:
  assumes "slots_ok h ks" shows "slots_ok h (ks[p := Tomb])"
proof (rule slots_okI)
  fix q k assume "q < length (ks[p := Tomb])" "ks[p := Tomb] ! q = Live k"
  then show "path_ok h (ks[p := Tomb]) k q"
    using live_update [of q ks p Tomb k] by (auto intro!: path_ok_update slots_ok_path [OF assms])
next
  fix q r k
  assume "q < length (ks[p := Tomb])" "r < length (ks[p := Tomb])"
    "ks[p := Tomb] ! q = Live k" "ks[p := Tomb] ! r = Live k"
  then show "q = r"
    using live_update [of q ks p Tomb k] live_update [of r ks p Tomb k]
    by (auto intro: slots_ok_unique [OF assms])
qed

lemma slots_ok_insert:
  assumes ok: "slots_ok h ks" and new: "Live k \<notin> set ks" and d: "d < length ks"
    and path: "\<And>e. e < d \<Longrightarrow> ks ! slot_pos h (length ks) k e \<noteq> Empty"
    and p: "p = slot_pos h (length ks) k d"
  shows "slots_ok h (ks[p := Live k])"
proof (rule slots_okI)
  fix q j assume q: "q < length (ks[p := Live k])" "ks[p := Live k] ! q = Live j"
  show "path_ok h (ks[p := Live k]) j q"
  proof (cases "q = p")
    case True
    then have "j = k" using q by (simp add: nth_list_update)
    with True d p nonempty_update [OF path, of _ "Live k" p] show ?thesis
      by (auto simp: path_ok_def intro!: exI [of _ d])
  next
    case False
    then show ?thesis using q by (auto intro!: path_ok_update slots_ok_path [OF ok])
  qed
next
  fix q r j
  assume a: "q < length (ks[p := Live k])" "r < length (ks[p := Live k])"
    "ks[p := Live k] ! q = Live j" "ks[p := Live k] ! r = Live j"
  have "j \<noteq> k" if "i < length ks" "ks ! i = Live j" for i using that new nth_mem by metis
  then show "q = r"
    using a live_update [of q ks p "Live k" j] live_update [of r ks p "Live k" j]
    by (auto intro: slots_ok_unique [OF ok])
qed

text \<open>A probe that meets a free slot before the key proves that the key is not in the table.\<close>

lemma first_free_absent:
  assumes ok: "slots_ok h ks" and n: "d < length ks"
    and free: "ks ! slot_pos h (length ks) k d = Empty"
    and first: "\<And>e. e < d \<Longrightarrow> ks ! slot_pos h (length ks) k e \<noteq> Live k"
  shows "Live k \<notin> set ks"
proof
  assume "Live k \<in> set ks"
  then obtain p where p: "p < length ks" "ks ! p = Live k" by (auto simp: in_set_conv_nth)
  then obtain c where c: "slot_pos h (length ks) k c = p"
      "\<forall>e < c. ks ! slot_pos h (length ks) k e \<noteq> Empty"
    using slots_ok_path [OF ok] by (auto simp: path_ok_def)
  show False
    using p(2) c free first [of c] by (metis linorder_neqE_nat slot.distinct(3))
qed

subsection \<open>Counting live slots\<close>

lemma count_live_update:
  "p < length ks \<Longrightarrow>
   count_live (ks[p := x]) + of_bool (is_Live (ks ! p)) = count_live ks + of_bool (is_Live x)"
proof (induction ks arbitrary: p)
  case (Cons y ks)
  then show ?case
  proof (cases p)
    case (Suc q)
    then show ?thesis using Cons.IH [of q] Cons.prems by (cases "is_Live y") (simp_all add: count_live_def)
  qed (auto simp: count_live_def)
qed simp

lemma count_live_le: "count_live ks \<le> length ks"
  by (simp add: count_live_def)

lemma count_live_fresh [simp]: "count_live (replicate n Empty) = 0"
  by (simp add: count_live_def)

lemma free_slot_exists:
  assumes "count_live ks < length ks" and "Tomb \<notin> set ks"
  shows "\<exists>p < length ks. ks ! p = Empty"
proof (rule ccontr)
  assume "\<not> ?thesis"
  then have "\<forall>x \<in> set ks. is_Live x"
    using assms(2) by (metis in_set_conv_nth slot.exhaust slot.disc(6) is_Live_def)
  then have "count_live ks = length ks" by (simp add: count_live_def)
  with assms(1) show False by simp
qed

subsection \<open>Slots by index word\<close>

lemma probe_at_slot:
  "pow2_cap cap \<Longrightarrow> unat (probe_at cap (hs k AND (cap - 1)) d) = slot_pos hs (unat cap) k d"
  by (simp add: unat_probe_at pow2_cap_and slot_pos_def mod_add_left_eq)

lemma start_less: "pow2_cap cap \<Longrightarrow> hs k AND (cap - 1) < cap" for hs :: "'k \<Rightarrow> u32"
  by (simp add: word_less_nat_alt pow2_cap_and pow2_cap_pos)

lemma ex_word_index:
  fixes cap :: "'a::len word"
  assumes "length ks = unat cap"
  shows "(\<exists>p < cap. Q (ks ! unat p)) \<longleftrightarrow> (\<exists>x \<in> set ks. Q x)"
proof
  assume "\<exists>p < cap. Q (ks ! unat p)"
  then show "\<exists>x \<in> set ks. Q x" using assms by (auto simp: word_less_nat_alt)
next
  assume "\<exists>x \<in> set ks. Q x"
  then obtain n where n: "n < unat cap" "Q (ks ! n)" using assms by (auto simp: in_set_conv_nth)
  then have "unat (of_nat n :: 'a word) = n"
    by (metis unat_of_nat mod_less order_less_trans unsigned_less)
  then show "\<exists>p < cap. Q (ks ! unat p)"
    using n by (intro exI [of _ "of_nat n"]) (simp add: word_less_nat_alt)
qed

lemma slots_ok_distinct:
  assumes "slots_ok h ks" shows "distinct (filter is_Live ks)"
proof -
  have "distinct (filter P xs)"
    if "\<forall>p < length xs. \<forall>q < length xs. P (xs ! p) \<and> xs ! p = xs ! q \<longrightarrow> p = q" for P and xs :: "'b list"
    using that
  proof (induction xs)
    case (Cons x xs)
    then have "distinct (filter P xs)" by fastforce
    moreover have "x \<notin> set xs" if "P x"
      using Cons.prems [rule_format, of 0 "Suc _"] that by (auto simp: in_set_conv_nth)
    ultimately show ?case by auto
  qed simp
  then show ?thesis using assms by (auto simp: slots_ok_def)
qed

subsection \<open>Filling a free or deleted slot\<close>

lemma live_set_update:
  assumes "p < length ks" and "\<not> is_Live (ks ! p)"
  shows "Live j \<in> set (ks[p := Live k]) \<longleftrightarrow> j = k \<or> Live j \<in> set ks"
proof -
  have "ks ! p \<noteq> Live j" using assms(2) by auto
  then have "Live j \<in> set (take p ks) \<union> set (drop (Suc p) ks) \<longleftrightarrow> Live j \<in> set ks"
    using id_take_nth_drop [OF assms(1)] by (metis Un_iff set_append set_ConsD list.set_intros(2))
  then show ?thesis using assms(1) by (auto simp: upd_conv_take_nth_drop)
qed

lemma fill_slot:
  assumes ok: "slots_ok h ks" and new: "Live k \<notin> set ks" and d: "d < length ks"
    and path: "\<And>e. e < d \<Longrightarrow> ks ! slot_pos h (length ks) k e \<noteq> Empty"
    and p: "p = slot_pos h (length ks) k d" and dead: "\<not> is_Live (ks ! p)"
  shows "slots_ok h (ks[p := Live k])" and "count_live (ks[p := Live k]) = count_live ks + 1"
    and "Live j \<in> set (ks[p := Live k]) \<longleftrightarrow> j = k \<or> Live j \<in> set ks"
proof -
  have pl: "p < length ks" unfolding p using d by (intro slot_pos_less) linarith
  show "slots_ok h (ks[p := Live k])" by (rule slots_ok_insert [OF ok new d path p])
  show "count_live (ks[p := Live k]) = count_live ks + 1"
    using count_live_update [OF pl, of "Live k"] dead by simp
  show "Live j \<in> set (ks[p := Live k]) \<longleftrightarrow> j = k \<or> Live j \<in> set ks"
    by (rule live_set_update [OF pl dead])
qed

lemma slots_ok_cong:
  assumes "\<And>k. Live k \<in> set ks \<Longrightarrow> h' k = h k" and "slots_ok h ks"
  shows "slots_ok h' ks"
proof (rule slots_okI)
  fix p k assume p: "p < length ks" "ks ! p = Live k"
  then have "h' k = h k" using assms(1) nth_mem by metis
  then show "path_ok h' ks k p"
    using slots_ok_path [OF assms(2) p] by (simp add: path_ok_def slot_pos_def)
qed (use slots_ok_unique [OF assms(2)] in blast)

end
