(* ===== verification/Value.thy ===== *)
theory Value
  imports Vek_Prelude
begin

section \<open>NaN-boxed values (value.h)\<close>

text \<open>
  A vek value is one 64-bit word.  A double is its IEEE-754 bit pattern; every other type
  hides in the positive quiet NaNs: the top 16 bits are a tag, the rest is the payload.
\<close>

type_synonym val64 = "64 word"

subsection \<open>Tags and masks\<close>

definition TAG_PTR :: val64 where [vek_defs]: "TAG_PTR = 0x7FF8000000000000"
definition TAG_INT :: val64 where [vek_defs]: "TAG_INT = 0x7FF9000000000000"
definition VAL_FALSE :: val64 where [vek_defs]: "VAL_FALSE = 0x7FFA000000000000"
definition VAL_TRUE :: val64 where [vek_defs]: "VAL_TRUE = 0x7FFA800000000000"
definition VAL_NIL :: val64 where [vek_defs]: "VAL_NIL = 0x7FFB000000000000"
definition VAL_UNDEFINED :: val64 where [vek_defs]: "VAL_UNDEFINED = 0x7FFB800000000000"

definition TAG_MASK :: val64 where [vek_defs]: "TAG_MASK = 0xFFFF000000000000"
definition QNAN_BITS :: val64 where [vek_defs]: "QNAN_BITS = 0x7FF8000000000000"
definition QNAN_MASK :: val64 where [vek_defs]: "QNAN_MASK = 0xFFF8000000000000"
definition PAYLOAD_MASK :: val64 where [vek_defs]: "PAYLOAD_MASK = 0x0000FFFFFFFFFFFF"
definition PTR_MASK :: val64 where [vek_defs]: "PTR_MASK = 0x00007FFFFFFFFFFF"

subsection \<open>Type checks\<close>

definition IS_FLOAT :: "val64 \<Rightarrow> bool" where
  [vek_defs]: "IS_FLOAT v \<longleftrightarrow> (v AND QNAN_MASK) \<noteq> QNAN_BITS"

definition IS_INT :: "val64 \<Rightarrow> bool" where
  [vek_defs]: "IS_INT v \<longleftrightarrow> (v AND TAG_MASK) = TAG_INT"

definition IS_PTR :: "val64 \<Rightarrow> bool" where
  [vek_defs]: "IS_PTR v \<longleftrightarrow> (v AND TAG_MASK) = TAG_PTR \<and> (v AND 0xF) = 0"

definition IS_BOOL :: "val64 \<Rightarrow> bool" where
  [vek_defs]: "IS_BOOL v \<longleftrightarrow> v = VAL_TRUE \<or> v = VAL_FALSE"

definition IS_NIL :: "val64 \<Rightarrow> bool" where
  [vek_defs]: "IS_NIL v \<longleftrightarrow> v = VAL_NIL"

definition IS_UNDEFINED :: "val64 \<Rightarrow> bool" where
  [vek_defs]: "IS_UNDEFINED v \<longleftrightarrow> v = VAL_UNDEFINED"

subsection \<open>Decoding\<close>

text \<open>
  \<open>value_as_double\<close> and \<open>double_val\<close> copy the bits (\<open>memcpy\<close>), so on bit patterns they
  are the identity.  \<open>value_as_int\<close> returns the \<open>int64_t\<close> as a word to be read by
  \<open>sint\<close>.
\<close>

definition value_as_double :: "val64 \<Rightarrow> 64 word" where
  [vek_defs]: "value_as_double v = v"

definition value_as_int :: "val64 \<Rightarrow> 64 word" where
  [vek_defs]: "value_as_int v =
     (let raw = v AND PAYLOAD_MASK
      in if raw AND push_bit 47 1 \<noteq> 0 then raw OR push_bit 48 0xFFFF else raw)"

definition value_as_ptr :: "val64 \<Rightarrow> 64 word" where
  [vek_defs]: "value_as_ptr v = v AND PTR_MASK"

definition AS_BOOL :: "val64 \<Rightarrow> bool" where
  [vek_defs]: "AS_BOOL v \<longleftrightarrow> v = VAL_TRUE"

subsection \<open>Encoding\<close>

definition double_val :: "64 word \<Rightarrow> val64" where
  [vek_defs]: "double_val d = d"

definition int_val :: "64 word \<Rightarrow> val64" where
  [vek_defs]: "int_val i = TAG_INT OR (i AND PAYLOAD_MASK)"

definition ptr_val :: "64 word \<Rightarrow> val64" where
  [vek_defs]: "ptr_val p = TAG_PTR OR (p AND PTR_MASK)"

definition BOOL_VAL :: "bool \<Rightarrow> val64" where
  [vek_defs]: "BOOL_VAL b = (if b then VAL_TRUE else VAL_FALSE)"

definition IS_FALSY :: "val64 \<Rightarrow> bool" where
  [vek_defs]: "IS_FALSY v \<longleftrightarrow> v = VAL_NIL \<or> v = VAL_FALSE"

subsection \<open>Equality\<close>

text \<open>C's \<open>==\<close> and \<open><\<close> on doubles, on the bit patterns of IEEE-754 binary64.\<close>

definition dbl_abs :: "64 word \<Rightarrow> 64 word" where
  [vek_defs]: "dbl_abs d = d AND 0x7FFFFFFFFFFFFFFF"

definition dbl_is_nan :: "64 word \<Rightarrow> bool" where
  [vek_defs]: "dbl_is_nan d \<longleftrightarrow> 0x7FF0000000000000 < dbl_abs d"

definition dbl_eq :: "64 word \<Rightarrow> 64 word \<Rightarrow> bool" where
  [vek_defs]: "dbl_eq a b \<longleftrightarrow>
     \<not> dbl_is_nan a \<and> \<not> dbl_is_nan b \<and> (a = b \<or> dbl_abs a = 0 \<and> dbl_abs b = 0)"

definition value_equal :: "val64 \<Rightarrow> val64 \<Rightarrow> bool" where
  [vek_defs]: "value_equal a b =
     (if IS_FLOAT a \<and> IS_FLOAT b then dbl_eq (value_as_double a) (value_as_double b)
      else a = b)"

subsection \<open>Tags and payloads of a word\<close>

lemma mask_forms:
  "PAYLOAD_MASK = mask 48" "PTR_MASK = mask 47" "TAG_MASK = push_bit 48 (mask 16)"
  "TAG_INT = push_bit 48 0x7FF9" "TAG_PTR = push_bit 48 0x7FF8"
  "QNAN_MASK = push_bit 51 (mask 13)" "QNAN_BITS = push_bit 51 0xFFF"
  by (simp_all add: vek_defs mask_eq_exp_minus_1 push_bit_eq_mult)

lemma high_bits_eq_iff:
  fixes v t :: "64 word"
  assumes "n + m = 64" and t: "take_bit m t = t"
  shows "v AND push_bit n (mask m) = push_bit n t \<longleftrightarrow> drop_bit n v = t"
proof -
  have v: "v AND push_bit n (mask m) = push_bit n (drop_bit n v)"
    using assms(1) by (intro bit_word_eqI) (auto simp: bit_simps)
  have d: "drop_bit n (push_bit n x) = take_bit m x" for x :: "64 word"
    using assms(1) by (intro bit_word_eqI) (auto simp: bit_simps)
  have "take_bit m (drop_bit n v) = drop_bit n v"
    using assms(1) by (intro bit_word_eqI) (auto simp: bit_simps dest: bit_imp_le_length)
  then show ?thesis using v d t by metis
qed

lemma tag_iffs:
  "IS_INT v \<longleftrightarrow> drop_bit 48 v = 0x7FF9"
  "IS_PTR v \<longleftrightarrow> drop_bit 48 v = 0x7FF8 \<and> take_bit 4 v = 0"
  "IS_FLOAT v \<longleftrightarrow> drop_bit 51 v \<noteq> 0xFFF"
proof -
  have m4: "(0xF :: 64 word) = mask 4" by (simp add: mask_eq_exp_minus_1)
  show "IS_INT v \<longleftrightarrow> drop_bit 48 v = 0x7FF9"
    unfolding IS_INT_def mask_forms by (rule high_bits_eq_iff) (simp_all add: take_bit_eq_mod)
  show "IS_PTR v \<longleftrightarrow> drop_bit 48 v = 0x7FF8 \<and> take_bit 4 v = 0"
    unfolding IS_PTR_def mask_forms m4
    by (subst high_bits_eq_iff [of 48 16]) (simp_all add: take_bit_eq_mod take_bit_eq_mask [symmetric])
  show "IS_FLOAT v \<longleftrightarrow> drop_bit 51 v \<noteq> 0xFFF"
    unfolding IS_FLOAT_def mask_forms by (subst high_bits_eq_iff [of 51 13]) (simp_all add: take_bit_eq_mod)
qed

lemma drop_bit_51_48: "drop_bit 51 v = drop_bit 3 (drop_bit 48 v)" for v :: val64
  by (simp add: drop_bit_drop_bit)

lemma value_tags_exclusive:
  "length (filter (\<lambda>p. p v) [IS_FLOAT, IS_INT, IS_PTR, IS_BOOL, IS_NIL, IS_UNDEFINED]) \<le> 1"
proof -
  define t where "t = drop_bit 48 v"
  define k :: nat where "k = (if t = 0x7FF8 then 1 else if t = 0x7FF9 then 2
     else if t = 0x7FFA then 3 else if v = VAL_NIL then 4 else if v = VAL_UNDEFINED then 5 else 6)"
  have f: "IS_FLOAT v \<Longrightarrow> k = 6"
    by (auto simp: tag_iffs drop_bit_51_48 k_def VAL_NIL_def VAL_UNDEFINED_def simp flip: t_def)
      (auto simp: t_def)
  have "IS_INT v \<Longrightarrow> k = 2" "IS_PTR v \<Longrightarrow> k = 1" by (simp_all add: tag_iffs k_def t_def)
  moreover have "IS_BOOL v \<Longrightarrow> k = 3" "IS_NIL v \<Longrightarrow> k = 4" "IS_UNDEFINED v \<Longrightarrow> k = 5"
    by (auto simp: IS_BOOL_def IS_NIL_def IS_UNDEFINED_def VAL_TRUE_def VAL_FALSE_def VAL_NIL_def
        VAL_UNDEFINED_def k_def t_def)
  ultimately show ?thesis using f by auto
qed

lemma is_float_range:
  "IS_FLOAT v \<longleftrightarrow> \<not> (0x7FF8000000000000 \<le> v \<and> v \<le> 0x7FFFFFFFFFFFFFFF)"
proof -
  have u: "unat (drop_bit 51 v) = unat v div 2 ^ 51"
    by (subst unat_drop_bit_eq) (rule drop_bit_eq_div)
  have "drop_bit 51 v = 0xFFF \<longleftrightarrow> unat (drop_bit 51 v) = unat (0xFFF :: 64 word)"
    by (rule word_unat_eq_iff)
  also have "\<dots> \<longleftrightarrow> unat v div 2 ^ 51 = 0xFFF"
    unfolding u by simp
  also have "\<dots> \<longleftrightarrow> 0x7FF8000000000000 \<le> unat v \<and> unat v \<le> 0x7FFFFFFFFFFFFFFF"
    by (simp add: div_eq_dividend_iff) arith
  finally show ?thesis
    by (simp add: tag_iffs word_le_nat_alt)
qed
lemma int_tag_payload:
  "drop_bit 48 (int_val i) = 0x7FF9" "take_bit 48 (int_val i) = take_bit 48 i"
  "drop_bit 48 (ptr_val i) = 0x7FF8" "take_bit 47 (ptr_val i) = take_bit 47 i"
  subgoal unfolding int_val_def mask_forms by (intro bit_word_eqI) (auto simp: bit_simps dest: bit_imp_le_length)
  subgoal unfolding int_val_def mask_forms by (intro bit_word_eqI) (auto simp: bit_simps)
  subgoal unfolding ptr_val_def mask_forms by (intro bit_word_eqI) (auto simp: bit_simps dest: bit_imp_le_length)
  subgoal unfolding ptr_val_def mask_forms by (intro bit_word_eqI) (auto simp: bit_simps)
  done

lemma value_as_int_signed: "value_as_int v = signed_take_bit 47 v"
proof -
  have b: "((v AND mask 48) AND push_bit 47 1 \<noteq> 0) = bit v 47"
    using bit_iff_and_push_bit_not_eq_0 [of "v AND mask 48" 47] by (simp add: bit_simps)
  have h: "(0xFFFF :: 64 word) = mask 16" by (simp add: mask_eq_exp_minus_1)
  show ?thesis
    unfolding value_as_int_def Let_def mask_forms b h
    by (rule bit_word_eqI) (auto simp: bit_simps min_def not_less le_less)
qed

definition wrap48 :: "int \<Rightarrow> int" where
  "wrap48 i = (i + 2 ^ 47) mod 2 ^ 48 - 2 ^ 47"

lemma wrap48_id: "- (2 ^ 47) \<le> i \<Longrightarrow> i < 2 ^ 47 \<Longrightarrow> wrap48 i = i"
  by (simp add: wrap48_def)

lemma wrap48_range: "- (2 ^ 47) \<le> wrap48 i" "wrap48 i < 2 ^ 47"
  using pos_mod_bound [of "2 ^ 48" "i + 2 ^ 47"] pos_mod_sign [of "2 ^ 48" "i + 2 ^ 47"]
  by (simp_all add: wrap48_def)

lemma sint_value_as_int: "sint (value_as_int v) = wrap48 (sint v)"
proof -
  have "sint (signed_take_bit 47 v) = signed_take_bit 47 (sint v)"
    by (rule bit_eqI) (simp add: bit_simps min_def)
  then show ?thesis
    by (simp add: value_as_int_signed signed_take_bit_eq_take_bit_shift take_bit_eq_mod wrap48_def)
qed

lemma value_as_int_int_val: "value_as_int (int_val i) = value_as_int i"
proof (rule bit_word_eqI)
  fix n
  have "bit (take_bit 48 (int_val i)) (min 47 n) = bit (take_bit 48 i) (min 47 n)"
    by (simp add: int_tag_payload)
  then show "bit (value_as_int (int_val i)) n = bit (value_as_int i) n"
    by (simp add: value_as_int_signed bit_simps min_less_iff_disj)
qed

lemma int_val_roundtrip:
  "IS_INT (int_val i) \<and> sint (value_as_int (int_val i)) = wrap48 (sint i)"
  by (simp add: value_as_int_int_val sint_value_as_int tag_iffs int_tag_payload)

lemma int_val_exact:
  assumes "- (2 ^ 47) \<le> sint i" and "sint i < 2 ^ 47"
  shows "value_as_int (int_val i) = i"
proof -
  have "sint (value_as_int (int_val i)) = sint i"
    using assms by (simp add: int_val_roundtrip wrap48_id)
  then show ?thesis by (rule signed_word_eqI)
qed
lemma take_bit_4_ptr: "take_bit 4 (ptr_val p) = take_bit 4 p"
  unfolding ptr_val_def mask_forms by (intro bit_word_eqI) (auto simp: bit_simps)

lemma ptr_val_roundtrip:
  assumes "take_bit 4 p = 0" and "p < 2 ^ 47"
  shows "IS_PTR (ptr_val p) \<and> value_as_ptr (ptr_val p) = p"
proof -
  have "take_bit 47 p = p" using assms(2) by (simp add: take_bit_word_less)
  then show ?thesis
    using assms(1) int_tag_payload(4) [of p]
    by (simp add: tag_iffs int_tag_payload take_bit_4_ptr value_as_ptr_def mask_forms flip: take_bit_eq_mask)
qed
lemma dbl_eq_sym: "dbl_eq a b \<Longrightarrow> dbl_eq b a" by (auto simp: dbl_eq_def)
lemma dbl_eq_trans: "dbl_eq a b \<Longrightarrow> dbl_eq b c \<Longrightarrow> dbl_eq a c" by (auto simp: dbl_eq_def)
lemma not_float_is_nan:
  assumes "\<not> IS_FLOAT v" shows "dbl_is_nan v"
proof -
  have r: "0x7FF8000000000000 \<le> v" "v \<le> 0x7FFFFFFFFFFFFFFF"
    using assms by (simp_all add: is_float_range)
  have m: "(0x7FFFFFFFFFFFFFFF :: 64 word) = mask 63" by (simp add: mask_eq_exp_minus_1)
  have "v < 2 ^ 63" using r(2) by (rule order_le_less_trans) simp
  then have "dbl_abs v = v"
    by (simp add: dbl_abs_def m take_bit_word_less flip: take_bit_eq_mask)
  moreover have "(0x7FF0000000000000 :: 64 word) < v" using _ r(1) by (rule order_less_le_trans) simp
  ultimately show ?thesis by (simp add: dbl_is_nan_def)
qed

subsection \<open>Properties\<close>

text \<open>C14: no word satisfies two of the six type checks, and every encoder makes a value of its
  own type: an int, a bool, nil, undefined, and a 16-byte aligned 47-bit address a pointer that
  decodes to the address.\<close>

theorem value_types:
  "length (filter (\<lambda>p. p v) [IS_FLOAT, IS_INT, IS_PTR, IS_BOOL, IS_NIL, IS_UNDEFINED]) \<le> 1 \<and>
   IS_INT (int_val i) \<and> IS_BOOL (BOOL_VAL b) \<and> AS_BOOL (BOOL_VAL b) = b \<and>
   IS_NIL VAL_NIL \<and> IS_UNDEFINED VAL_UNDEFINED \<and>
   (take_bit 4 p = 0 \<and> p < 2 ^ 47 \<longrightarrow> IS_PTR (ptr_val p) \<and> value_as_ptr (ptr_val p) = p)"
  using value_tags_exclusive [of v] int_val_roundtrip [of i] ptr_val_roundtrip [of p]
  by (auto simp: IS_BOOL_def BOOL_VAL_def AS_BOOL_def IS_NIL_def IS_UNDEFINED_def vek_defs)

theorem value_types_witness:
  "take_bit 4 (0x7F0012345670 :: 64 word) = 0 \<and> (0x7F0012345670 :: 64 word) < 2 ^ 47 \<and>
   IS_PTR (ptr_val 0x7F0012345670) \<and> value_as_ptr (ptr_val 0x7F0012345670) = 0x7F0012345670"
proof -
  have h: "take_bit 4 (0x7F0012345670 :: 64 word) = 0 \<and> (0x7F0012345670 :: 64 word) < 2 ^ 47"
    by simp
  show ?thesis using h value_types [of 0 0 True "0x7F0012345670"] by blast
qed

text \<open>C15: an int value holds the low 48 bits of the integer, read back with its sign: the
  round trip is the identity on the 48-bit range and wraps around outside it.\<close>

theorem int_boxing:
  "sint (value_as_int (int_val i)) = (sint i + 2 ^ 47) mod 2 ^ 48 - 2 ^ 47 \<and>
   (- (2 ^ 47) \<le> sint i \<and> sint i < 2 ^ 47 \<longrightarrow> value_as_int (int_val i) = i)"
  using int_val_roundtrip [of i] int_val_exact [of i] by (auto simp: wrap48_def)

theorem int_boxing_witness:
  "sint (value_as_int (int_val (2 ^ 47))) = - (2 ^ 47) \<and>
   - (2 ^ 47) \<le> sint (- 5 :: 64 word) \<and> sint (- 5 :: 64 word) < 2 ^ 47 \<and>
   value_as_int (int_val (- 5)) = - 5"
proof -
  have h: "- (2 ^ 47) \<le> sint (- 5 :: 64 word) \<and> sint (- 5 :: 64 word) < 2 ^ 47" by simp
  have "sint (2 ^ 47 :: 64 word) = 2 ^ 47" by simp
  then show ?thesis using h int_boxing [of "- 5"] int_boxing [of "2 ^ 47"] by simp
qed

text \<open>C16: a double keeps its type exactly when its bits are not a positive quiet NaN; every
  double that is not a NaN is stored and read back unchanged.\<close>

theorem double_boxing:
  "(IS_FLOAT (double_val d) \<longleftrightarrow> \<not> (0x7FF8000000000000 \<le> d \<and> d \<le> 0x7FFFFFFFFFFFFFFF)) \<and>
   (\<not> dbl_is_nan d \<longrightarrow> IS_FLOAT (double_val d) \<and> value_as_double (double_val d) = d)"
  using not_float_is_nan [of d] by (auto simp: double_val_def value_as_double_def is_float_range)
theorem double_boxing_witness:
  "\<not> dbl_is_nan 0x3FF8000000000000 \<and> IS_FLOAT (double_val 0x3FF8000000000000)"
proof -
  have h: "\<not> dbl_is_nan 0x3FF8000000000000" by (simp add: dbl_is_nan_def dbl_abs_def)
  show ?thesis using h double_boxing [of "0x3FF8000000000000"] by blast
qed

text \<open>C27: the NaN patterns are not canonicalised when a double is boxed: for every aligned
  47-bit address some NaN double, once boxed, is a pointer value to that address.\<close>

theorem nan_forges_pointer:
  assumes "take_bit 4 p = 0" and "p < 2 ^ 47"
  shows "\<exists>d. dbl_is_nan d \<and> IS_PTR (double_val d) \<and> value_as_ptr (double_val d) = p"
proof (intro exI conjI)
  have "\<not> IS_FLOAT (ptr_val p)" 
    by (simp add: tag_iffs drop_bit_51_48 int_tag_payload)
  then show "dbl_is_nan (ptr_val p)" by (rule not_float_is_nan)
  show "IS_PTR (double_val (ptr_val p))"  "value_as_ptr (double_val (ptr_val p)) = p"
   using assms by (simp_all add: double_val_def ptr_val_roundtrip)
qed

theorem nan_forges_pointer_witness:
  "take_bit 4 (0x4140 :: 64 word) = 0 \<and> (0x4140 :: 64 word) < 2 ^ 47 \<and>
   (\<exists>d. dbl_is_nan d \<and> IS_PTR (double_val d) \<and> value_as_ptr (double_val d) = 0x4140)"
proof -
  have h: "take_bit 4 (0x4140 :: 64 word) = 0" "(0x4140 :: 64 word) < 2 ^ 47" by simp_all
  show ?thesis using h nan_forges_pointer [OF h] by blast
qed

text \<open>the equality of values is symmetric and transitive, and it is reflexive except on
  the doubles that are NaNs.\<close>

theorem value_equal_per:
  "(value_equal a b \<longrightarrow> value_equal b a) \<and>
   (value_equal a b \<and> value_equal b c \<longrightarrow> value_equal a c) \<and>
   (value_equal a a \<longleftrightarrow> \<not> (IS_FLOAT a \<and> dbl_is_nan a))"
  by (auto simp: value_equal_def value_as_double_def dest: dbl_eq_sym dbl_eq_trans split: if_splits)
    (auto simp: dbl_eq_def)

theorem value_equal_per_witness:
  "value_equal 0 0x8000000000000000 \<and> value_equal 0x8000000000000000 0 \<and> value_equal 0 0"
proof -
  have h: "value_equal 0 0x8000000000000000"
    by (simp add: vek_defs)
  show ?thesis using h value_equal_per [of 0 "0x8000000000000000" 0] by blast
qed

end
