(* ===== verification/Obj_Map.thy ===== *)
theory Obj_Map
  imports Probing Value
begin

section \<open>The hash map object (object.c)\<close>

text \<open>
  \<open>ObjMap\<close>: an open-addressing map from interned strings to values.  Keys are compared by
  pointer, so a key is a value of the type of pointers \<open>'k\<close>, and \<open>hs k\<close> is the read of
  \<open>key->hash\<close> through the pointer.  The probe loops of the code have no bound: they are
  partial functions, \<open>None\<close> meaning that the loop runs forever.
\<close>

record 'k map_entry =
  me_key :: "'k slot"
  me_value :: val64

record 'k obj_map =
  om_length :: u32
  om_capacity :: u32
  om_entries :: "'k map_entry list"

definition obj_map_new :: "'k obj_map" where
  "obj_map_new = \<lparr>om_length = 0, om_capacity = 0, om_entries = []\<rparr>"

subsection \<open>Growing and rehashing\<close>

partial_function (option) map_grow_probe ::
  "'k map_entry list \<Rightarrow> u32 \<Rightarrow> u32 \<Rightarrow> u32 option" where
  "map_grow_probe new_entries new_cap idx =
     (if me_key (new_entries ! unat idx) \<noteq> Empty
      then map_grow_probe new_entries new_cap ((idx + 1) AND (new_cap - 1))
      else Some idx)"

fun map_rehash ::
  "('k \<Rightarrow> u32) \<Rightarrow> u32 \<Rightarrow> 'k map_entry list \<Rightarrow> 'k map_entry list \<Rightarrow> 'k map_entry list option" where
  "map_rehash hs new_cap new_entries [] = Some new_entries"
| "map_rehash hs new_cap new_entries (e # es) =
     (case me_key e of
        Live k \<Rightarrow> Option.bind (map_grow_probe new_entries new_cap (hs k AND (new_cap - 1)))
          (\<lambda>idx. map_rehash hs new_cap (new_entries[unat idx := e]) es)
      | _ \<Rightarrow> map_rehash hs new_cap new_entries es)"

definition grown_capacity :: "u32 \<Rightarrow> u32" where
  "grown_capacity cap = (if cap < 8 then 8 else cap * 2)"

definition map_grow :: "('k \<Rightarrow> u32) \<Rightarrow> 'k obj_map \<Rightarrow> 'k obj_map option" where
  "map_grow hs m =
     (let new_cap = grown_capacity (om_capacity m);
          new_entries = replicate (unat new_cap) \<lparr>me_key = Empty, me_value = 0\<rparr>
      in map_option (\<lambda>es. m\<lparr>om_entries := es, om_capacity := new_cap\<rparr>)
           (map_rehash hs new_cap new_entries (om_entries m)))"

subsection \<open>Set, get, delete\<close>

partial_function (option) map_set_probe ::
  "'k map_entry list \<Rightarrow> u32 \<Rightarrow> 'k \<Rightarrow> val64 \<Rightarrow> u32 \<Rightarrow> u32 option \<Rightarrow> ('k map_entry list \<times> bool) option" where
  "map_set_probe es cap k v index tombstone_slot =
     (case me_key (es ! unat index) of
        Empty \<Rightarrow>
          (case tombstone_slot of
             Some t \<Rightarrow> Some (es[unat t := \<lparr>me_key = Live k, me_value = v\<rparr>], True)
           | None \<Rightarrow> Some (es[unat index := \<lparr>me_key = Live k, me_value = v\<rparr>], True))
      | Tomb \<Rightarrow>
          map_set_probe es cap k v ((index + 1) AND (cap - 1))
            (if tombstone_slot = None then Some index else tombstone_slot)
      | Live k' \<Rightarrow>
          if k' = k then Some (es[unat index := (es ! unat index)\<lparr>me_value := v\<rparr>], False)
          else map_set_probe es cap k v ((index + 1) AND (cap - 1)) tombstone_slot)"

definition obj_map_set ::
  "('k \<Rightarrow> u32) \<Rightarrow> 'k obj_map \<Rightarrow> 'k \<Rightarrow> val64 \<Rightarrow> ('k obj_map \<times> bool) option" where
  "obj_map_set hs m k v =
     Option.bind (if om_capacity m * 3 div 4 < om_length m + 1 then map_grow hs m else Some m)
       (\<lambda>m. map_option
          (\<lambda>(es, is_new). (m\<lparr>om_entries := es,
              om_length := (if is_new then om_length m + 1 else om_length m)\<rparr>, is_new))
          (map_set_probe (om_entries m) (om_capacity m) k v
             (hs k AND (om_capacity m - 1)) None))"

partial_function (option) map_get_probe ::
  "'k map_entry list \<Rightarrow> u32 \<Rightarrow> 'k \<Rightarrow> u32 \<Rightarrow> val64 option option" where
  "map_get_probe es cap k index =
     (case me_key (es ! unat index) of
        Empty \<Rightarrow> Some None
      | Tomb \<Rightarrow> map_get_probe es cap k ((index + 1) AND (cap - 1))
      | Live k' \<Rightarrow>
          if k' = k then Some (Some (me_value (es ! unat index)))
          else map_get_probe es cap k ((index + 1) AND (cap - 1)))"

definition obj_map_get :: "('k \<Rightarrow> u32) \<Rightarrow> 'k obj_map \<Rightarrow> 'k \<Rightarrow> val64 option option" where
  "obj_map_get hs m k =
     (if om_capacity m = 0 then Some None
      else map_get_probe (om_entries m) (om_capacity m) k (hs k AND (om_capacity m - 1)))"

partial_function (option) map_delete_probe ::
  "'k map_entry list \<Rightarrow> u32 \<Rightarrow> 'k \<Rightarrow> u32 \<Rightarrow> ('k map_entry list \<times> bool) option" where
  "map_delete_probe es cap k index =
     (case me_key (es ! unat index) of
        Empty \<Rightarrow> Some (es, False)
      | Tomb \<Rightarrow> map_delete_probe es cap k ((index + 1) AND (cap - 1))
      | Live k' \<Rightarrow>
          if k' = k then Some (es[unat index := \<lparr>me_key = Tomb, me_value = VAL_NIL\<rparr>], True)
          else map_delete_probe es cap k ((index + 1) AND (cap - 1)))"

definition obj_map_delete ::
  "('k \<Rightarrow> u32) \<Rightarrow> 'k obj_map \<Rightarrow> 'k \<Rightarrow> ('k obj_map \<times> bool) option" where
  "obj_map_delete hs m k =
     (if om_capacity m = 0 then Some (m, False)
      else map_option
        (\<lambda>(es, found). (m\<lparr>om_entries := es,
            om_length := (if found then om_length m - 1 else om_length m)\<rparr>, found))
        (map_delete_probe (om_entries m) (om_capacity m) k (hs k AND (om_capacity m - 1))))"

subsection \<open>The loops are probe loops\<close>

abbreviation entry_key :: "'k map_entry list \<Rightarrow> u32 \<Rightarrow> 'k slot" where
  "entry_key es i \<equiv> me_key (es ! unat i)"

interpretation grow_loop: probe_loop "\<lambda>i (_::unit). map_grow_probe es cap i"
  "\<lambda>i. entry_key es i = Empty" "\<lambda>_ s. s" "\<lambda>i _. i" cap for es cap
proof
  show "map_grow_probe es cap i = (if entry_key es i = Empty then Some i
      else map_grow_probe es cap (probe_next cap i))" for i
    by (subst map_grow_probe.simps) (simp add: probe_next_def)
next
  fix I i assume I: "\<And>j. j \<in> I \<Longrightarrow> entry_key es j \<noteq> Empty \<and> probe_next cap j \<in> I" "i \<in> I"
  have "i \<notin> I" if r: "map_grow_probe es cap i = Some r" for r
  proof -
    have "es = es \<and> cap = cap \<longrightarrow> i \<notin> I"
      by (rule map_grow_probe.raw_induct [where P = "\<lambda>es' c j r. es' = es \<and> c = cap \<longrightarrow> j \<notin> I", OF _ r])
        (use I in \<open>fastforce simp: probe_next_def split: if_splits\<close>)
    then show ?thesis by simp
  qed
  with I(2) show "map_grow_probe es cap i = None" by (metis not_Some_eq)
qed

interpretation set_loop: probe_loop "map_set_probe es cap k v"
  "\<lambda>i. entry_key es i = Empty \<or> entry_key es i = Live k"
  "\<lambda>i t. if entry_key es i = Tomb \<and> t = None then Some i else t"
  "\<lambda>i t. if entry_key es i = Empty
     then (es[unat (case t of Some j \<Rightarrow> j | None \<Rightarrow> i) := \<lparr>me_key = Live k, me_value = v\<rparr>], True)
     else (es[unat i := (es ! unat i)\<lparr>me_value := v\<rparr>], False)" cap for es cap k v
proof
  show "map_set_probe es cap k v i t =
     (if entry_key es i = Empty \<or> entry_key es i = Live k
      then Some (if entry_key es i = Empty
        then (es[unat (case t of Some j \<Rightarrow> j | None \<Rightarrow> i) := \<lparr>me_key = Live k, me_value = v\<rparr>], True)
        else (es[unat i := (es ! unat i)\<lparr>me_value := v\<rparr>], False))
      else map_set_probe es cap k v (probe_next cap i)
        (if entry_key es i = Tomb \<and> t = None then Some i else t))" for i t
    by (subst map_set_probe.simps) (auto simp: probe_next_def split: slot.splits option.splits)
next
  fix I i t
  assume I: "\<And>j. j \<in> I \<Longrightarrow> \<not> (entry_key es j = Empty \<or> entry_key es j = Live k) \<and> probe_next cap j \<in> I"
    "i \<in> I"
  have "i \<notin> I" if r: "map_set_probe es cap k v i t = Some r" for r
  proof -
    have "es = es \<and> cap = cap \<and> k = k \<longrightarrow> i \<notin> I"
      by (rule map_set_probe.raw_induct [where P = "\<lambda>es' c k' v' j t r. es' = es \<and> c = cap \<and> k' = k \<longrightarrow> j \<notin> I", OF _ r])
        (use I in \<open>fastforce simp: probe_next_def split: slot.splits if_splits option.splits\<close>)
    then show ?thesis by simp
  qed
  with I(2) show "map_set_probe es cap k v i t = None" by (metis not_Some_eq)
qed

interpretation get_loop: probe_loop "\<lambda>i (_::unit). map_get_probe es cap k i"
  "\<lambda>i. entry_key es i = Empty \<or> entry_key es i = Live k" "\<lambda>_ s. s"
  "\<lambda>i _. if entry_key es i = Empty then None else Some (me_value (es ! unat i))" cap for es cap k
proof
  show "map_get_probe es cap k i =
     (if entry_key es i = Empty \<or> entry_key es i = Live k
      then Some (if entry_key es i = Empty then None else Some (me_value (es ! unat i)))
      else map_get_probe es cap k (probe_next cap i))" for i
    by (subst map_get_probe.simps) (auto simp: probe_next_def split: slot.splits)
next
  fix I i
  assume I: "\<And>j. j \<in> I \<Longrightarrow> \<not> (entry_key es j = Empty \<or> entry_key es j = Live k) \<and> probe_next cap j \<in> I"
    "i \<in> I"
  have "i \<notin> I" if r: "map_get_probe es cap k i = Some r" for r
  proof -
    have "es = es \<and> cap = cap \<and> k = k \<longrightarrow> i \<notin> I"
      by (rule map_get_probe.raw_induct [where P = "\<lambda>es' c k' j r. es' = es \<and> c = cap \<and> k' = k \<longrightarrow> j \<notin> I", OF _ r])
        (use I in \<open>fastforce simp: probe_next_def split: slot.splits if_splits\<close>)
    then show ?thesis by simp
  qed
  with I(2) show "map_get_probe es cap k i = None" by (metis not_Some_eq)
qed

interpretation delete_loop: probe_loop "\<lambda>i (_::unit). map_delete_probe es cap k i"
  "\<lambda>i. entry_key es i = Empty \<or> entry_key es i = Live k" "\<lambda>_ s. s"
  "\<lambda>i _. if entry_key es i = Empty then (es, False)
     else (es[unat i := \<lparr>me_key = Tomb, me_value = VAL_NIL\<rparr>], True)" cap for es cap k
proof
  show "map_delete_probe es cap k i =
     (if entry_key es i = Empty \<or> entry_key es i = Live k
      then Some (if entry_key es i = Empty then (es, False)
        else (es[unat i := \<lparr>me_key = Tomb, me_value = VAL_NIL\<rparr>], True))
      else map_delete_probe es cap k (probe_next cap i))" for i
    by (subst map_delete_probe.simps) (auto simp: probe_next_def split: slot.splits)
next
  fix I i
  assume I: "\<And>j. j \<in> I \<Longrightarrow> \<not> (entry_key es j = Empty \<or> entry_key es j = Live k) \<and> probe_next cap j \<in> I"
    "i \<in> I"
  have "i \<notin> I" if r: "map_delete_probe es cap k i = Some r" for r
  proof -
    have "es = es \<and> cap = cap \<and> k = k \<longrightarrow> i \<notin> I"
      by (rule map_delete_probe.raw_induct [where P = "\<lambda>es' c k' j r. es' = es \<and> c = cap \<and> k' = k \<longrightarrow> j \<notin> I", OF _ r])
        (use I in \<open>fastforce simp: probe_next_def split: slot.splits if_splits\<close>)
    then show ?thesis by simp
  qed
  with I(2) show "map_delete_probe es cap k i = None" by (metis not_Some_eq)
qed


subsection \<open>Specification: the map a table stands for\<close>

definition entries_map :: "'k map_entry list \<Rightarrow> 'k \<Rightarrow> val64 option" where
  "entries_map es k = map_option me_value (List.find (\<lambda>e. me_key e = Live k) es)"

abbreviation entry_keys :: "'k map_entry list \<Rightarrow> 'k slot list" where
  "entry_keys es \<equiv> map me_key es"

definition om_abs :: "'k obj_map \<Rightarrow> ('k \<rightharpoonup> val64)" where
  "om_abs m = entries_map (om_entries m)"

definition om_inv :: "('k \<Rightarrow> u32) \<Rightarrow> 'k obj_map \<Rightarrow> bool" where
  "om_inv hs m \<longleftrightarrow>
     unat (om_length m) = count_live (entry_keys (om_entries m)) \<and>
     length (om_entries m) = unat (om_capacity m) \<and>
     slots_ok hs (entry_keys (om_entries m)) \<and>
     unat (om_length m) \<le> unat (om_capacity m) * 3 div 4 \<and>
     (om_capacity m = 0 \<or> pow2_cap (om_capacity m) \<and> unat (om_capacity m) \<le> 2 ^ 30)"

definition om_clean :: "'k obj_map \<Rightarrow> bool" where
  "om_clean m \<longleftrightarrow> Tomb \<notin> set (entry_keys (om_entries m))"

definition om_free :: "'k obj_map \<Rightarrow> bool" where
  "om_free m \<longleftrightarrow> Empty \<in> set (entry_keys (om_entries m))"

lemma entries_map_None: "entries_map es k = None \<longleftrightarrow> Live k \<notin> set (entry_keys es)"
  by (auto simp: entries_map_def find_None_iff) (metis imageI)

lemma entries_map_Some:
  assumes "slots_ok h (entry_keys es)"
  shows "entries_map es k = Some v \<longleftrightarrow>
    (\<exists>p < length es. me_key (es ! p) = Live k \<and> me_value (es ! p) = v)" (is "?l = ?r")
proof
  assume ?l then show ?r by (auto simp: entries_map_def find_Some_iff)
next
  assume ?r
  then obtain p where p: "p < length es" "me_key (es ! p) = Live k" "me_value (es ! p) = v" by auto
  then have "Live k \<in> set (entry_keys es)" by (metis in_set_conv_nth length_map nth_map)
  then have "entries_map es k \<noteq> None" by (simp only: entries_map_None not_not)
  then obtain w where w: "entries_map es k = Some w" by auto
  then obtain q where q: "q < length es" "me_key (es ! q) = Live k" "me_value (es ! q) = w"
    by (auto simp: entries_map_def find_Some_iff)
  have "p = q" using slots_ok_unique [OF assms, of p q k] p q by simp
  with p q w show ?l by simp
qed

lemma fold_first: "fold (\<lambda>i t. if P i \<and> t = None then Some i else t) xs None = List.find P xs"
proof -
  have "fold (\<lambda>i t. if P i \<and> t = None then Some i else t) xs (Some j) = Some j" for j
    by (induction xs) auto
  then show ?thesis by (induction xs) auto
qed

lemma ex_nth_update:
  "p < length es \<Longrightarrow> (\<exists>q < length es. Q (es[p := x] ! q)) \<longleftrightarrow> Q x \<or> (\<exists>q < length es. q \<noteq> p \<and> Q (es ! q))"
  by (auto simp: nth_list_update)

lemma entries_map_store:
  assumes ok: "slots_ok h (entry_keys es)" "slots_ok h (entry_keys (es[p := e]))"
    and p: "p < length es" and e: "me_key e = Live k"
    and k: "\<And>q. q < length es \<Longrightarrow> me_key (es ! q) = Live k \<Longrightarrow> q = p"
    and j: "\<And>j. me_key (es ! p) = Live j \<Longrightarrow> j = k"
  shows "entries_map (es[p := e]) = (entries_map es)(k \<mapsto> me_value e)"
proof (rule map_ext_Some)
  fix i w
  have "entries_map (es[p := e]) i = Some w \<longleftrightarrow>
      (me_key e = Live i \<and> me_value e = w) \<or>
      (\<exists>q < length es. q \<noteq> p \<and> me_key (es ! q) = Live i \<and> me_value (es ! q) = w)"
    using ex_nth_update [OF p, of "\<lambda>x. me_key x = Live i \<and> me_value x = w"]
    by (simp add: entries_map_Some [OF ok(2)])
  also have "\<dots> \<longleftrightarrow> (if i = k then w = me_value e else entries_map es i = Some w)"
    using k j e by (auto simp: entries_map_Some [OF ok(1)])
  finally show "entries_map (es[p := e]) i = Some w \<longleftrightarrow> ((entries_map es)(k \<mapsto> me_value e)) i = Some w"
    by auto
qed

text \<open>Storing a new key in a free or deleted slot on its probe path.\<close>

lemma insert_entry:
  assumes ok: "slots_ok hs (entry_keys es)" and new: "Live k \<notin> set (entry_keys es)"
    and d: "d < length es" and path: "\<And>e. e < d \<Longrightarrow> entry_keys es ! slot_pos hs (length es) k e \<noteq> Empty"
    and p: "p = slot_pos hs (length es) k d" and dead: "\<not> is_Live (me_key (es ! p))"
  shows "slots_ok hs (entry_keys (es[p := \<lparr>me_key = Live k, me_value = v\<rparr>]))"
    and "entries_map (es[p := \<lparr>me_key = Live k, me_value = v\<rparr>]) = (entries_map es)(k \<mapsto> v)"
    and "count_live (entry_keys (es[p := \<lparr>me_key = Live k, me_value = v\<rparr>])) =
      count_live (entry_keys es) + 1"
proof -
  let ?es' = "es[p := \<lparr>me_key = Live k, me_value = v\<rparr>]"
  have pl: "p < length es" unfolding p using d by (intro slot_pos_less) linarith
  show ok': "slots_ok hs (entry_keys ?es')"
    using slots_ok_insert [OF ok new, of d p] d path p by (simp add: map_update)
  have old: "me_key (es ! q) = Live k \<Longrightarrow> q < length es \<Longrightarrow> False" for q
    using new nth_mem [of q "entry_keys es"] by auto
  show "entries_map ?es' = (entries_map es)(k \<mapsto> v)"
  proof -
    have "entries_map ?es' = (entries_map es)(k \<mapsto> me_value \<lparr>me_key = Live k, me_value = v\<rparr>)"
      by (rule entries_map_store [OF ok ok' pl]) (use old dead in auto)
    then show ?thesis by simp
  qed
  show "count_live (entry_keys ?es') = count_live (entry_keys es) + 1"
    using count_live_update [of p "entry_keys es" "Live k"] pl dead by (simp add: map_update)
qed

subsection \<open>The probe loops on well-formed tables\<close>

lemma set_probe_correct:
  assumes cap: "pow2_cap cap" "length es = unat cap" and ok: "slots_ok hs (entry_keys es)"
    and r: "map_set_probe es cap k v (hs k AND (cap - 1)) None = Some (es', is_new)"
  shows "slots_ok hs (entry_keys es')" and "length es' = length es"
    and "entries_map es' = (entries_map es)(k \<mapsto> v)" and "is_new \<longleftrightarrow> entries_map es k = None"
    and "count_live (entry_keys es') = count_live (entry_keys es) + of_bool is_new"
    and "Tomb \<in> set (entry_keys es') \<Longrightarrow> Tomb \<in> set (entry_keys es)"
proof -
  let ?i = "hs k AND (cap - 1)" and ?pos = "slot_pos hs (length es) k"
  have at: "unat (probe_at cap ?i d) = ?pos d" for d using cap by (simp add: probe_at_slot)
  have i: "?i < cap" using cap by (simp add: word_less_nat_alt pow2_cap_and pow2_cap_pos)
  have pos: "?pos d < length es" for d using cap by (simp add: slot_pos_less pow2_cap_pos)
  define t where "t = List.find (\<lambda>j. entry_key es j = Tomb)"
  obtain d where d: "d < length es"
    and stop: "me_key (es ! ?pos d) = Empty \<or> me_key (es ! ?pos d) = Live k"
    and first: "\<And>e. e < d \<Longrightarrow> me_key (es ! ?pos e) \<noteq> Empty \<and> me_key (es ! ?pos e) \<noteq> Live k"
    and res: "(es', is_new) = (if me_key (es ! ?pos d) = Empty
      then (es[unat (case t (map (probe_at cap ?i) [0..<d]) of Some j \<Rightarrow> j | None \<Rightarrow> probe_at cap ?i d)
               := \<lparr>me_key = Live k, me_value = v\<rparr>], True)
      else (es[?pos d := (es ! ?pos d)\<lparr>me_value := v\<rparr>], False))"
    using set_loop.loop_result [OF cap(1) i r] cap(2) by (auto simp: at fold_first t_def)
  have concl: "slots_ok hs (entry_keys es') \<and> entries_map es' = (entries_map es)(k \<mapsto> v) \<and>
     (is_new \<longleftrightarrow> entries_map es k = None) \<and>
     count_live (entry_keys es') = count_live (entry_keys es) + of_bool is_new \<and>
     (Tomb \<in> set (entry_keys es') \<longrightarrow> Tomb \<in> set (entry_keys es)) \<and> length es' = length es"
  proof (cases "me_key (es ! ?pos d) = Empty")
    case True
    have absent: "Live k \<notin> set (entry_keys es)"
      using first_free_absent [OF ok, of d k] d True first pos by auto
    obtain c where c: "c \<le> d" "es' = es[?pos c := \<lparr>me_key = Live k, me_value = v\<rparr>]"
      "\<not> is_Live (me_key (es ! ?pos c))"
    proof (cases "t (map (probe_at cap ?i) [0..<d])")
      case None
      then show ?thesis using that [of d] res True at by simp
    next
      case (Some j)
      then obtain c where "c < d" "j = probe_at cap ?i c" "entry_key es j = Tomb"
        by (auto simp: t_def find_Some_iff)
      then show ?thesis using that [of c] res True at Some by simp
    qed
    have path: "entry_keys es ! ?pos e \<noteq> Empty" if "e < c" for e
      using first [of e] that c(1) pos by simp
    have "set (entry_keys es') \<subseteq> insert (Live k) (set (entry_keys es))"
      unfolding c(2) map_update using set_update_subset_insert by force
    then show ?thesis
      using insert_entry [OF ok absent, of c "?pos c" v] d c path absent res True
      by (auto simp: entries_map_None)
  next
    case False
    then have L: "me_key (es ! ?pos d) = Live k" and es': "es' = es[?pos d := (es ! ?pos d)\<lparr>me_value := v\<rparr>]"
      and new: "\<not> is_new" using stop res by auto
    have keys: "entry_keys es' = entry_keys es"
      using pos [of d] by (simp add: es' map_update list_update_same_conv)
    have "slots_ok hs (entry_keys (es[?pos d := (es ! ?pos d)\<lparr>me_value := v\<rparr>]))"
      using ok keys es' by simp
    then have "entries_map es' = (entries_map es)(k \<mapsto> v)"
      using entries_map_store [OF ok _ pos [of d], of "(es ! ?pos d)\<lparr>me_value := v\<rparr>" k]
        slots_ok_unique [OF ok, of _ "?pos d" k] L pos es' by simp
    moreover have "entries_map es k \<noteq> None"
      using L pos [of d] nth_mem [of "?pos d" "entry_keys es"] by (auto simp: entries_map_None)
    ultimately show ?thesis using keys ok new by (simp add: es')
  qed
  then show "slots_ok hs (entry_keys es')" "length es' = length es"
    "entries_map es' = (entries_map es)(k \<mapsto> v)" "is_new \<longleftrightarrow> entries_map es k = None"
    "count_live (entry_keys es') = count_live (entry_keys es) + of_bool is_new"
    "Tomb \<in> set (entry_keys es') \<Longrightarrow> Tomb \<in> set (entry_keys es)"
    by blast+
qed


text \<open>What the stop of a search means, shared by get and delete.\<close>

lemma search_stop:
  assumes cap: "pow2_cap cap" "length es = unat cap" and ok: "slots_ok hs (entry_keys es)"
    and d: "d < unat cap" and i: "i = hs k AND (cap - 1)"
    and stop: "entry_key es (probe_at cap i d) = Empty \<or> entry_key es (probe_at cap i d) = Live k"
    and first: "\<And>e. e < d \<Longrightarrow> \<not> (entry_key es (probe_at cap i e) = Empty \<or>
       entry_key es (probe_at cap i e) = Live k)"
  shows "if entry_key es (probe_at cap i d) = Empty then Live k \<notin> set (entry_keys es)
    else unat (probe_at cap i d) < length es \<and> entry_key es (probe_at cap i d) = Live k"
proof -
  have at: "unat (probe_at cap i e) = slot_pos hs (length es) k e" for e
    using cap by (simp add: i probe_at_slot)
  have pos: "slot_pos hs (length es) k e < length es" for e
    using cap by (simp add: slot_pos_less pow2_cap_pos)
  show ?thesis
    using first_free_absent [OF ok, of d k] d first pos stop cap(2) by (auto simp: at)
qed

lemma get_probe_correct:
  assumes cap: "pow2_cap cap" "length es = unat cap" and ok: "slots_ok hs (entry_keys es)"
    and r: "map_get_probe es cap k (hs k AND (cap - 1)) = Some r"
  shows "r = entries_map es k"
proof -
  define i where "i = hs k AND (cap - 1)"
  have "i < cap" using cap by (simp add: i_def start_less)
  from get_loop.loop_result [OF cap(1) this r [folded i_def]] obtain d where
    d: "d < unat cap" "entry_key es (probe_at cap i d) = Empty \<or> entry_key es (probe_at cap i d) = Live k"
    "\<forall>e < d. \<not> (entry_key es (probe_at cap i e) = Empty \<or> entry_key es (probe_at cap i e) = Live k)"
    and r': "r = (if entry_key es (probe_at cap i d) = Empty then None
       else Some (me_value (es ! unat (probe_at cap i d))))" by auto
  have s: "if entry_key es (probe_at cap i d) = Empty then Live k \<notin> set (entry_keys es)
    else unat (probe_at cap i d) < length es \<and> entry_key es (probe_at cap i d) = Live k"
    using search_stop [OF cap ok d(1) i_def d(2)] d(3) by blast
  show ?thesis
  proof (cases "entry_key es (probe_at cap i d) = Empty")
    case True
    then show ?thesis using s r' entries_map_None [of es k] by simp
  next
    case False
    then have "entries_map es k = Some (me_value (es ! unat (probe_at cap i d)))"
      using s entries_map_Some [OF ok, of k] by auto
    then show ?thesis using False r' by simp
  qed
qed

lemma delete_probe_correct:
  assumes cap: "pow2_cap cap" "length es = unat cap" and ok: "slots_ok hs (entry_keys es)"
    and r: "map_delete_probe es cap k (hs k AND (cap - 1)) = Some (es', found)"
  shows "slots_ok hs (entry_keys es')" and "length es' = length es"
    and "entries_map es' = (entries_map es)(k := None)" and "found \<longleftrightarrow> entries_map es k \<noteq> None"
    and "count_live (entry_keys es') + of_bool found = count_live (entry_keys es)"
proof -
  define i where "i = hs k AND (cap - 1)"
  have "i < cap" using cap by (simp add: i_def start_less)
  from delete_loop.loop_result [OF cap(1) this r [folded i_def]] obtain d where
    d: "d < unat cap" "entry_key es (probe_at cap i d) = Empty \<or> entry_key es (probe_at cap i d) = Live k"
    "\<forall>e < d. \<not> (entry_key es (probe_at cap i e) = Empty \<or> entry_key es (probe_at cap i e) = Live k)"
    and r': "(es', found) = (if entry_key es (probe_at cap i d) = Empty then (es, False)
       else (es[unat (probe_at cap i d) := \<lparr>me_key = Tomb, me_value = VAL_NIL\<rparr>], True))" by auto
  define p where "p = unat (probe_at cap i d)"
  have stop: "if entry_key es (probe_at cap i d) = Empty then Live k \<notin> set (entry_keys es)
    else p < length es \<and> me_key (es ! p) = Live k"
    using search_stop [OF cap ok d(1) i_def d(2)] d(3) unfolding p_def by blast
  have concl: "slots_ok hs (entry_keys es') \<and> length es' = length es \<and>
      entries_map es' = (entries_map es)(k := None) \<and> (found \<longleftrightarrow> entries_map es k \<noteq> None) \<and>
      count_live (entry_keys es') + of_bool found = count_live (entry_keys es)"
  proof (cases "entry_key es (probe_at cap i d) = Empty")
    case True
    then show ?thesis using stop r' ok entries_map_None [of es k] by (auto simp: fun_eq_iff)
  next
    case False
    then have p: "p < length es" "me_key (es ! p) = Live k" using stop by auto
    have es': "es' = es[p := \<lparr>me_key = Tomb, me_value = VAL_NIL\<rparr>]" "found"
      using r' False by (auto simp: p_def)
    have ok': "slots_ok hs (entry_keys es')"
      using slots_ok_delete [OF ok, of p] by (simp add: es' map_update)
    have u: "me_key (es ! q) \<noteq> Live k" if "q < length es" "q \<noteq> p" for q
      using slots_ok_unique [OF ok, of q p k] that p by auto
    have "entries_map es' = (entries_map es)(k := None)"
    proof (rule map_ext_Some)
      fix j w
      have "entries_map es' j = Some w \<longleftrightarrow>
         (\<exists>q < length es. q \<noteq> p \<and> me_key (es ! q) = Live j \<and> me_value (es ! q) = w)"
        using ex_nth_update [OF p(1), of "\<lambda>x. me_key x = Live j \<and> me_value x = w"]
          entries_map_Some [OF ok', of j w] by (simp add: es')
      also have "\<dots> \<longleftrightarrow> j \<noteq> k \<and> entries_map es j = Some w"
        using p(2) u by (auto simp: entries_map_Some [OF ok])
      finally show "entries_map es' j = Some w \<longleftrightarrow> ((entries_map es)(k := None)) j = Some w" by auto
    qed
    moreover have "entries_map es k \<noteq> None"
      using p entries_map_Some [OF ok, of k] by auto
    moreover have "count_live (entry_keys es') + 1 = count_live (entry_keys es)"
      using count_live_update [of p "entry_keys es" Tomb] p by (simp add: es' map_update)
    moreover have "length es' = length es" by (simp add: es'(1))
    ultimately show ?thesis by (simp only: ok' es'(2) of_bool_eq simp_thms)
  qed
  then show "slots_ok hs (entry_keys es')" "length es' = length es"
    "entries_map es' = (entries_map es)(k := None)" "found \<longleftrightarrow> entries_map es k \<noteq> None"
    "count_live (entry_keys es') + of_bool found = count_live (entry_keys es)"
    by blast+
qed

lemma probes_return_iff:
  assumes "pow2_cap cap" "length es = unat cap" and "i < cap"
  shows "map_get_probe es cap k i \<noteq> None \<longleftrightarrow>
      Empty \<in> set (entry_keys es) \<or> Live k \<in> set (entry_keys es)"
    and "map_delete_probe es cap k i \<noteq> None \<longleftrightarrow>
      Empty \<in> set (entry_keys es) \<or> Live k \<in> set (entry_keys es)"
    and "map_set_probe es cap k v i t \<noteq> None \<longleftrightarrow>
      Empty \<in> set (entry_keys es) \<or> Live k \<in> set (entry_keys es)"
    and "map_grow_probe es cap i \<noteq> None \<longleftrightarrow> Empty \<in> set (entry_keys es)"
proof -
  have 1: "(\<exists>p < cap. entry_key es p = Empty \<or> entry_key es p = Live k) \<longleftrightarrow>
      Empty \<in> set (entry_keys es) \<or> Live k \<in> set (entry_keys es)"
    using ex_word_index [of es cap "\<lambda>e. me_key e = Empty \<or> me_key e = Live k"] assms(2)
    by (force simp: image_iff)
  have 2: "(\<exists>p < cap. entry_key es p = Empty) \<longleftrightarrow> Empty \<in> set (entry_keys es)"
    using ex_word_index [of es cap "\<lambda>e. me_key e = Empty"] assms(2) by (force simp: image_iff)
  show "map_get_probe es cap k i \<noteq> None \<longleftrightarrow>
      Empty \<in> set (entry_keys es) \<or> Live k \<in> set (entry_keys es)"
    using get_loop.loop_returns_iff [OF assms(1,3), of es k] 1 by simp
  show "map_delete_probe es cap k i \<noteq> None \<longleftrightarrow>
      Empty \<in> set (entry_keys es) \<or> Live k \<in> set (entry_keys es)"
    using delete_loop.loop_returns_iff [OF assms(1,3), of es k] 1 by simp
  show "map_set_probe es cap k v i t \<noteq> None \<longleftrightarrow>
      Empty \<in> set (entry_keys es) \<or> Live k \<in> set (entry_keys es)"
    using set_loop.loop_returns_iff [OF assms(1,3), of es k v t] 1 by simp
  show "map_grow_probe es cap i \<noteq> None \<longleftrightarrow> Empty \<in> set (entry_keys es)"
    using grow_loop.loop_returns_iff [OF assms(1,3), of es] 2 by simp
qed

end
