(* ===== verification/Obj_Map_Correct.thy ===== *)
theory Obj_Map_Correct
  imports Obj_Map
begin

section \<open>Correctness of the hash map object\<close>

text \<open>
  The operations of \<open>ObjMap\<close> refine a partial function from keys to values, whenever they
  return; they return exactly when a free slot or the key stops the probe.  A map that was
  only ever filled is total; a history with deletions can leave a table without a free
  slot, and then a lookup of an absent key does not return.
\<close>

subsection \<open>Rehashing into a fresh table\<close>

lemma grow_probe_correct:
  assumes cap: "pow2_cap cap" "length es = unat cap" and ok: "slots_ok hs (entry_keys es)"
    and room: "count_live (entry_keys es) < unat cap" and clean: "Tomb \<notin> set (entry_keys es)"
    and new: "Live k \<notin> set (entry_keys es)" and e: "me_key e = Live k"
  shows "\<exists>idx. map_grow_probe es cap (hs k AND (cap - 1)) = Some idx \<and>
     slots_ok hs (entry_keys (es[unat idx := e])) \<and>
     entries_map (es[unat idx := e]) = (entries_map es)(k \<mapsto> me_value e) \<and>
     count_live (entry_keys (es[unat idx := e])) = count_live (entry_keys es) + 1 \<and>
     Tomb \<notin> set (entry_keys (es[unat idx := e]))"
proof -
  let ?i = "hs k AND (cap - 1)"
  have i: "?i < cap" using cap by (simp add: start_less)
  have "Empty \<in> set (entry_keys es)"
    using free_slot_exists [of "entry_keys es"] room clean cap(2) by (metis length_map nth_mem)
  then obtain idx where idx: "map_grow_probe es cap ?i = Some idx"
    using probes_return_iff(4) [OF cap i] by auto
  from grow_loop.loop_result [OF cap(1) i idx] obtain d where
    d: "d < unat cap" "entry_key es (probe_at cap ?i d) = Empty"
    "\<forall>c < d. entry_key es (probe_at cap ?i c) \<noteq> Empty" "idx = probe_at cap ?i d" by auto
  have at: "unat (probe_at cap ?i c) = slot_pos hs (length es) k c" for c
    using cap by (simp add: probe_at_slot)
  have pos: "slot_pos hs (length es) k c < length es" for c
    using cap by (simp add: slot_pos_less pow2_cap_pos)
  have ev: "e = \<lparr>me_key = Live k, me_value = me_value e\<rparr>" using e by simp
  have "set (entry_keys (es[unat idx := e])) \<subseteq> insert (Live k) (set (entry_keys es))"
    unfolding map_update e by (rule set_update_subset_insert)
  then have "Tomb \<notin> set (entry_keys (es[unat idx := e]))" using clean by blast
  moreover have "entry_keys es ! slot_pos hs (length es) k c \<noteq> Empty" if "c < d" for c
    using d(3) that pos at by simp
  moreover have "\<not> is_Live (me_key (es ! unat idx))" using d by simp
  ultimately show ?thesis
    using idx insert_entry [OF ok new, of d "unat idx" "me_value e", folded ev] d(1,4) cap(2) at
    by simp
qed

lemma rehash_correct:
  assumes cap: "pow2_cap cap" and "length new = unat cap" and "slots_ok hs (entry_keys new)"
    and "Tomb \<notin> set (entry_keys new)"
    and "count_live (entry_keys new) + count_live (entry_keys es) < unat cap"
    and "distinct (filter is_Live (entry_keys es))"
    and "\<And>k. Live k \<in> set (entry_keys es) \<Longrightarrow> Live k \<notin> set (entry_keys new)"
  shows "\<exists>new'. map_rehash hs cap new es = Some new' \<and> length new' = unat cap \<and>
     slots_ok hs (entry_keys new') \<and> Tomb \<notin> set (entry_keys new') \<and>
     count_live (entry_keys new') = count_live (entry_keys new) + count_live (entry_keys es) \<and>
     entries_map new' = entries_map new ++ entries_map es"
  using assms(2-)
proof (induction es arbitrary: new)
  case Nil
  then show ?case by (simp add: count_live_def entries_map_def fun_eq_iff map_add_def)
next
  case (Cons e es)
  show ?case
  proof (cases "me_key e")
    case (Live k)
    have nk: "Live k \<notin> set (entry_keys es)" using Cons.prems(5) Live by auto
    obtain idx where idx: "map_grow_probe new cap (hs k AND (cap - 1)) = Some idx"
      and ok: "slots_ok hs (entry_keys (new[unat idx := e]))"
      and em: "entries_map (new[unat idx := e]) = (entries_map new)(k \<mapsto> me_value e)"
      and ct: "count_live (entry_keys (new[unat idx := e])) = count_live (entry_keys new) + 1"
      and cl: "Tomb \<notin> set (entry_keys (new[unat idx := e]))"
      using grow_probe_correct [OF cap Cons.prems(1,2) _ Cons.prems(3), of k e] Cons.prems(4,6) Live
      by (auto simp: count_live_def)
    have sub: "set (entry_keys (new[unat idx := e])) \<subseteq> insert (Live k) (set (entry_keys new))"
      unfolding map_update Live by (rule set_update_subset_insert)
    have fresh: "Live j \<notin> set (entry_keys (new[unat idx := e]))" if "Live j \<in> set (entry_keys es)" for j
      using sub that nk Cons.prems(6) [of j] by auto
    have c2: "count_live (entry_keys (e # es)) = Suc (count_live (entry_keys es))"
      using Live by (simp add: count_live_def)
    have len: "length (new[unat idx := e]) = unat cap" using Cons.prems(1) by simp
    have dist: "distinct (filter is_Live (entry_keys es))"
      using Cons.prems(5) by (auto split: if_splits)
    have room: "count_live (entry_keys (new[unat idx := e])) + count_live (entry_keys es) < unat cap"
      using ct c2 Cons.prems(4) by simp
    from Cons.IH [OF len ok cl room dist fresh, unfolded em ct]
    obtain new' where new': "map_rehash hs cap (new[unat idx := e]) es = Some new'" "length new' = unat cap"
      "slots_ok hs (entry_keys new')" "Tomb \<notin> set (entry_keys new')"
      "count_live (entry_keys new') = count_live (entry_keys new) + 1 + count_live (entry_keys es)"
      "entries_map new' = (entries_map new)(k \<mapsto> me_value e) ++ entries_map es"
      by blast
    have "entries_map (e # es) = (entries_map es)(k \<mapsto> me_value e)"
      using Live by (auto simp: entries_map_def fun_eq_iff)
    moreover have "k \<notin> dom (entries_map es)" using nk by (simp add: domIff entries_map_None)
    ultimately have "entries_map new' = entries_map new ++ entries_map (e # es)"
      using new'(6) by (simp add: map_add_upd_left)
    then show ?thesis using new' idx Live c2 by simp
  next
    case Empty
    then have "entries_map (e # es) = entries_map es" by (simp add: entries_map_def fun_eq_iff)
    then show ?thesis using Cons.IH [of new] Cons.prems Empty by (simp add: count_live_def)
  next
    case Tomb
    then have "entries_map (e # es) = entries_map es" by (simp add: entries_map_def fun_eq_iff)
    then show ?thesis using Cons.IH [of new] Cons.prems Tomb by (simp add: count_live_def)
  qed
qed

lemma pow2_grown:
  assumes "cap = 0 \<or> pow2_cap cap" and "unat cap \<le> 2 ^ 29"
  shows "pow2_cap (grown_capacity cap) \<and> unat (grown_capacity cap) = (if cap < 8 then 8 else 2 * unat cap)"
proof (cases "cap < 8")
  case True
  have "unat (8 :: u32) = 2 ^ 3" by simp
  then show ?thesis using True by (auto simp: grown_capacity_def pow2_cap_def intro!: exI [of _ 3])
next
  case False
  then obtain n where n: "unat cap = 2 ^ n" using assms(1) by (auto simp: pow2_cap_def)
  have "unat (cap * 2) = 2 * unat cap"
    using assms(2) by (simp add: unat_word_ariths)
  then show ?thesis using False n by (auto simp: grown_capacity_def pow2_cap_def intro: exI [of _ "Suc n"])
qed

lemma map_grow_correct:
  assumes inv: "om_inv hs m" and cap: "unat (om_capacity m) \<le> 2 ^ 29"
  shows "\<exists>m'. map_grow hs m = Some m' \<and> om_inv hs m' \<and> om_clean m' \<and> om_abs m' = om_abs m \<and>
     om_length m' = om_length m \<and> unat (om_capacity m') \<ge> 8 \<and>
     unat (om_length m') + 1 \<le> unat (om_capacity m') * 3 div 4"
proof -
  let ?c = "grown_capacity (om_capacity m)"
  let ?fresh = "replicate (unat ?c) \<lparr>me_key = Empty, me_value = 0\<rparr> :: 'a map_entry list"
  have c: "pow2_cap ?c" "unat ?c = (if om_capacity m < 8 then 8 else 2 * unat (om_capacity m))"
    using pow2_grown [of "om_capacity m"] inv cap by (auto simp: om_inv_def)
  have len: "unat (om_length m) = count_live (entry_keys (om_entries m))"
      "length (om_entries m) = unat (om_capacity m)" "slots_ok hs (entry_keys (om_entries m))"
    using inv by (simp_all add: om_inv_def)
  have "unat (om_length m) \<le> unat (om_capacity m) * 3 div 4" using inv by (simp add: om_inv_def)
  then have load: "unat (om_length m) + 1 \<le> unat ?c * 3 div 4"
    using c(2) by (auto simp: word_less_nat_alt split: if_splits)
  then have lt: "unat (om_length m) < unat ?c" by linarith
  have keys: "entry_keys ?fresh = replicate (unat ?c) Empty" by simp
  have "\<exists>new'. map_rehash hs ?c ?fresh (om_entries m) = Some new' \<and> length new' = unat ?c \<and>
     slots_ok hs (entry_keys new') \<and> Tomb \<notin> set (entry_keys new') \<and>
     count_live (entry_keys new') = count_live (entry_keys ?fresh) + count_live (entry_keys (om_entries m)) \<and>
     entries_map new' = entries_map ?fresh ++ entries_map (om_entries m)"
    by (rule rehash_correct [OF c(1)])
      (use len lt slots_ok_distinct [OF len(3)] in \<open>auto simp: slots_ok_fresh keys\<close>)
  moreover have "entries_map ?fresh = Map.empty" by (rule ext) (simp add: entries_map_None)
  ultimately obtain new' where new': "map_rehash hs ?c ?fresh (om_entries m) = Some new'"
    "length new' = unat ?c" "slots_ok hs (entry_keys new')" "Tomb \<notin> set (entry_keys new')"
    "count_live (entry_keys new') = unat (om_length m)" "entries_map new' = om_abs m"
    using len(1) by (auto simp: keys om_abs_def)
  have "unat ?c \<le> 2 ^ 30" "8 \<le> unat ?c" using c cap by (auto simp: word_less_nat_alt)
  then show ?thesis
    using new' c(1) load by (auto simp: map_grow_def Let_def om_inv_def om_clean_def om_abs_def)
qed

subsection \<open>The operations refine the abstract map\<close>

definition needs_grow :: "'k obj_map \<Rightarrow> bool" where
  "needs_grow m \<longleftrightarrow> om_capacity m * 3 div 4 < om_length m + 1"

lemma needs_grow_iff:
  assumes "om_inv hs m"
  shows "needs_grow m \<longleftrightarrow> unat (om_capacity m) * 3 div 4 < unat (om_length m) + 1"
proof -
  have cap: "unat (om_capacity m) \<le> 2 ^ 30" using assms by (auto simp: om_inv_def)
  have "unat (om_length m) \<le> unat (om_capacity m)"
    using assms count_live_le [of "entry_keys (om_entries m)"] by (simp add: om_inv_def)
  then have "unat (om_length m + 1) = unat (om_length m) + 1" using cap by (simp add: unat_word_ariths)
  moreover have "unat (om_capacity m * 3) = unat (om_capacity m) * 3"
    using cap by (simp add: unat_word_ariths)
  ultimately show ?thesis
    by (simp add: needs_grow_def word_less_nat_alt unat_div_distrib)
qed

lemma set_table:
  assumes inv: "om_inv hs m" and small: "unat (om_length m) < 2 ^ 29"
  shows "\<exists>m1. (if needs_grow m then map_grow hs m else Some m) = Some m1 \<and> om_inv hs m1 \<and>
     pow2_cap (om_capacity m1) \<and> om_abs m1 = om_abs m \<and> om_length m1 = om_length m \<and>
     unat (om_length m1) + 1 \<le> unat (om_capacity m1) * 3 div 4 \<and> (needs_grow m \<or> om_clean m \<longrightarrow> om_clean m1) \<and>
     (\<not> needs_grow m \<longrightarrow> m1 = m)"
proof (cases "needs_grow m")
  case True
  have "unat (om_capacity m) \<le> 2 ^ 29"
  proof (cases "om_capacity m = 0")
    case False
    then have "pow2_cap (om_capacity m)" using inv by (auto simp: om_inv_def)
    moreover have "unat (om_capacity m) < 2 ^ 30" using True small by (simp add: needs_grow_iff [OF inv])
    ultimately show ?thesis by (rule pow2_cap_half)
  qed simp
  from map_grow_correct [OF inv this] show ?thesis using True by (auto simp: om_inv_def)
next
  case False
  then have "unat (om_length m) + 1 \<le> unat (om_capacity m) * 3 div 4"
    by (simp add: needs_grow_iff [OF inv])
  moreover from this have "om_capacity m \<noteq> 0" by auto
  ultimately show ?thesis using inv False by (auto simp: om_inv_def)
qed

lemma obj_map_set_unfold:
  "obj_map_set hs m k v = Option.bind (if needs_grow m then map_grow hs m else Some m)
       (\<lambda>m. map_option
          (\<lambda>(es, is_new). (m\<lparr>om_entries := es,
              om_length := (if is_new then om_length m + 1 else om_length m)\<rparr>, is_new))
          (map_set_probe (om_entries m) (om_capacity m) k v (hs k AND (om_capacity m - 1)) None))"
  by (simp add: obj_map_set_def needs_grow_def)

lemma obj_map_set_correct:
  assumes inv: "om_inv hs m" and small: "unat (om_length m) < 2 ^ 29"
    and ret: "obj_map_set hs m k v = Some (m', is_new)"
  shows "om_inv hs m' \<and> om_abs m' = (om_abs m)(k \<mapsto> v) \<and> (is_new \<longleftrightarrow> om_abs m k = None) \<and>
    (om_clean m \<longrightarrow> om_clean m') \<and> unat (om_length m') = unat (om_length m) + of_bool is_new"
proof -
  obtain m1 where m1: "(if needs_grow m then map_grow hs m else Some m) = Some m1" "om_inv hs m1"
    "pow2_cap (om_capacity m1)" "om_abs m1 = om_abs m" "om_length m1 = om_length m"
    "unat (om_length m1) + 1 \<le> unat (om_capacity m1) * 3 div 4" "om_clean m \<longrightarrow> om_clean m1"
    using set_table [OF inv small] by auto
  obtain es where es: "map_set_probe (om_entries m1) (om_capacity m1) k v
      (hs k AND (om_capacity m1 - 1)) None = Some (es, is_new)"
    and m': "m' = m1\<lparr>om_entries := es, om_length := (if is_new then om_length m1 + 1 else om_length m1)\<rparr>"
    using ret m1(1) by (auto simp: obj_map_set_unfold split: if_splits)
  have t: "length (om_entries m1) = unat (om_capacity m1)" "slots_ok hs (entry_keys (om_entries m1))"
    "unat (om_length m1) = count_live (entry_keys (om_entries m1))" "unat (om_capacity m1) \<le> 2 ^ 30"
    using m1(2) by (auto simp: om_inv_def)
  note p = set_probe_correct [OF m1(3) t(1,2) es]
  have "unat (om_length m1 + 1) = unat (om_length m1) + 1"
    using m1(6) t(4) by (simp add: unat_word_ariths)
  then have "unat (om_length m') = unat (om_length m1) + of_bool is_new" by (simp add: m')
  then show ?thesis
    using p t m1 by (auto simp: m' om_inv_def om_abs_def om_clean_def)
qed

lemma obj_map_get_correct:
  assumes inv: "om_inv hs m" and ret: "obj_map_get hs m k = Some r"
  shows "r = om_abs m k"
proof (cases "om_capacity m = 0")
  case True
  then have "om_entries m = []" using inv by (simp add: om_inv_def)
  then show ?thesis using ret True by (simp add: obj_map_get_def om_abs_def entries_map_def)
next
  case False
  then show ?thesis
    using inv ret get_probe_correct by (auto simp: obj_map_get_def om_inv_def om_abs_def)
qed

lemma obj_map_delete_correct:
  assumes inv: "om_inv hs m" and ret: "obj_map_delete hs m k = Some (m', found)"
  shows "om_inv hs m' \<and> om_abs m' = (om_abs m)(k := None) \<and> (found \<longleftrightarrow> om_abs m k \<noteq> None) \<and>
    unat (om_length m') + of_bool found = unat (om_length m)"
proof (cases "om_capacity m = 0")
  case True
  then have "om_entries m = []" using inv by (simp add: om_inv_def)
  then show ?thesis
    using ret inv True by (auto simp: obj_map_delete_def om_abs_def entries_map_def fun_eq_iff)
next
  case False
  obtain es where es: "map_delete_probe (om_entries m) (om_capacity m) k
      (hs k AND (om_capacity m - 1)) = Some (es, found)"
    and m': "m' = m\<lparr>om_entries := es, om_length := (if found then om_length m - 1 else om_length m)\<rparr>"
    using ret False by (auto simp: obj_map_delete_def)
  have t: "pow2_cap (om_capacity m)" "length (om_entries m) = unat (om_capacity m)"
    "slots_ok hs (entry_keys (om_entries m))"
    "unat (om_length m) = count_live (entry_keys (om_entries m))" "unat (om_capacity m) \<le> 2 ^ 30"
    "unat (om_length m) \<le> unat (om_capacity m) * 3 div 4"
    using inv False by (auto simp: om_inv_def)
  note p = delete_probe_correct [OF t(1-3) es]
  have "found \<Longrightarrow> unat (om_length m - 1) = unat (om_length m) - 1"
    using p(5) t(4) by (subst unat_minus_one) auto
  then have "unat (om_length m') + of_bool found = unat (om_length m)"
    using p(5) t(4) by (auto simp: m')
  moreover from this have "unat (om_length m') \<le> unat (om_capacity m) * 3 div 4" using t(6) by linarith
  ultimately show ?thesis using p t by (auto simp: m' om_inv_def om_abs_def)
qed

subsection \<open>When the operations return\<close>

lemma obj_map_get_returns_iff:
  assumes "om_inv hs m"
  shows "(\<exists>r. obj_map_get hs m k = Some r) \<longleftrightarrow>
    om_capacity m = 0 \<or> om_free m \<or> om_abs m k \<noteq> None"
proof (cases "om_capacity m = 0")
  case False
  then have "pow2_cap (om_capacity m)" "length (om_entries m) = unat (om_capacity m)"
    using assms by (auto simp: om_inv_def)
  from probes_return_iff(1) [OF this start_less [OF this(1)], where hs1 = hs and k1 = k and k = k]
  show ?thesis
    using False by (simp add: obj_map_get_def om_free_def om_abs_def entries_map_None)
qed (simp add: obj_map_get_def)

lemma obj_map_delete_returns_iff:
  assumes "om_inv hs m"
  shows "(\<exists>r. obj_map_delete hs m k = Some r) \<longleftrightarrow>
    om_capacity m = 0 \<or> om_free m \<or> om_abs m k \<noteq> None"
proof (cases "om_capacity m = 0")
  case False
  then have "pow2_cap (om_capacity m)" "length (om_entries m) = unat (om_capacity m)"
    using assms by (auto simp: om_inv_def)
  from probes_return_iff(2) [OF this start_less [OF this(1)], where hs1 = hs and k1 = k and k = k]
  show ?thesis
    using False by (auto simp: obj_map_delete_def om_free_def om_abs_def entries_map_None)
next
  case True
  then have "obj_map_delete hs m k = Some (m, False)" by (simp add: obj_map_delete_def)
  then show ?thesis using True by blast
qed

lemma clean_free:
  assumes "om_inv hs m" and "om_clean m"
  shows "om_capacity m = 0 \<or> om_free m"
proof (cases "om_capacity m = 0")
  case False
  then have "0 < unat (om_capacity m)" by (simp add: word_greater_zero_iff unat_gt_0)
  then have "count_live (entry_keys (om_entries m)) < length (entry_keys (om_entries m))"
    using assms(1) by (auto simp: om_inv_def)
  then show ?thesis
    using free_slot_exists assms(2) unfolding om_clean_def om_free_def by (metis nth_mem)
qed simp

lemma obj_map_set_returns_iff:
  assumes inv: "om_inv hs m" and small: "unat (om_length m) < 2 ^ 29"
  shows "(\<exists>r. obj_map_set hs m k v = Some r) \<longleftrightarrow>
    needs_grow m \<or> om_free m \<or> om_abs m k \<noteq> None"
proof -
  obtain m1 where m1: "(if needs_grow m then map_grow hs m else Some m) = Some m1" "om_inv hs m1"
    "pow2_cap (om_capacity m1)" "om_abs m1 = om_abs m"
    "unat (om_length m1) + 1 \<le> unat (om_capacity m1) * 3 div 4" "needs_grow m \<longrightarrow> om_clean m1"
    "\<not> needs_grow m \<longrightarrow> m1 = m"
    using set_table [OF inv small] by auto
  have t: "length (om_entries m1) = unat (om_capacity m1)" using m1(2) by (simp add: om_inv_def)
  have "om_clean m1 \<Longrightarrow> om_free m1"
    using clean_free [OF m1(2)] pow2_cap_pos [OF m1(3)] by auto
  then have "needs_grow m \<Longrightarrow> om_free m1" using m1(6) by blast
  moreover have "(\<exists>r. obj_map_set hs m k v = Some r) \<longleftrightarrow> map_set_probe (om_entries m1)
      (om_capacity m1) k v (hs k AND (om_capacity m1 - 1)) None \<noteq> None"
    by (auto simp: obj_map_set_unfold m1(1))
  then have "(\<exists>r. obj_map_set hs m k v = Some r) \<longleftrightarrow> om_free m1 \<or> om_abs m1 k \<noteq> None"
    unfolding probes_return_iff(3) [OF m1(3) t start_less [OF m1(3)]]
    by (simp add: om_free_def om_abs_def entries_map_None)
  ultimately show ?thesis using m1(4,7) by auto
qed

subsection \<open>The interface that clients of the map rely on\<close>

fun store_all :: "('m \<Rightarrow> 'k \<Rightarrow> 'v \<Rightarrow> ('m \<times> bool) option) \<Rightarrow> 'm \<Rightarrow> ('k \<times> 'v) list \<Rightarrow> 'm option" where
  "store_all st m [] = Some m"
| "store_all st m ((k, v) # kvs) = Option.bind (st m k v) (\<lambda>(m', _). store_all st m' kvs)"

locale map_store =
  fixes get :: "'m \<Rightarrow> 'k \<Rightarrow> 'v option option"
    and store :: "'m \<Rightarrow> 'k \<Rightarrow> 'v \<Rightarrow> ('m \<times> bool) option"
    and size :: "'m \<Rightarrow> nat"
    and good :: "'m \<Rightarrow> bool"
    and abs :: "'m \<Rightarrow> ('k \<rightharpoonup> 'v)"
    and limit :: nat
  assumes get_law: "good m \<Longrightarrow> get m k = Some (abs m k)"
    and store_law: "good m \<Longrightarrow> size m < limit \<Longrightarrow> \<exists>m' b. store m k v = Some (m', b) \<and> good m' \<and>
      abs m' = (abs m)(k \<mapsto> v) \<and> (b \<longleftrightarrow> abs m k = None) \<and> size m' = size m + of_bool b"
begin

lemma store_get:
  assumes "good m" and "size m < limit"
  shows "\<exists>m' b. store m k v = Some (m', b) \<and> get m' j = Some (if j = k then Some v else abs m j)"
  using store_law [OF assms, of k v] get_law by fastforce

lemma store_all_law:
  "good m \<Longrightarrow> size m + length kvs \<le> limit \<Longrightarrow>
   \<exists>m'. store_all store m kvs = Some m' \<and> good m' \<and> abs m' = abs m ++ map_of (rev kvs) \<and>
     size m' \<le> size m + length kvs"
proof (induction kvs arbitrary: m)
  case (Cons kv kvs)
  obtain k v where kv: "kv = (k, v)" by force
  obtain m1 b where m1: "store m k v = Some (m1, b)" "good m1" "abs m1 = (abs m)(k \<mapsto> v)"
    "size m1 \<le> Suc (size m)"
    using store_law [of m k v] Cons.prems by (auto split: if_splits)
  obtain m' where "store_all store m1 kvs = Some m'" "good m'" "abs m' = abs m1 ++ map_of (rev kvs)"
    "size m' \<le> size m1 + length kvs"
    using Cons.IH [of m1] m1 Cons.prems(2) by (auto simp del: fun_upd_apply)
  then show ?case using m1 by (simp add: kv)
qed simp

end

interpretation obj_map: map_store "obj_map_get hs" "obj_map_set hs" "\<lambda>m. unat (om_length m)"
  "\<lambda>m. om_inv hs m \<and> om_clean m" om_abs "2 ^ 29" for hs
proof
  fix m k
  assume good: "om_inv hs m \<and> om_clean m"
  then obtain r where "obj_map_get hs m k = Some r"
    using obj_map_get_returns_iff [of hs m k] clean_free [of hs m] by blast
  then show "obj_map_get hs m k = Some (om_abs m k)"
    using obj_map_get_correct good by metis
next
  fix m k v
  assume good: "om_inv hs m \<and> om_clean m" and small: "unat (om_length m) < 2 ^ 29"
  have "om_capacity m = 0 \<Longrightarrow> needs_grow m" using good by (simp add: needs_grow_iff [of hs])
  then have "needs_grow m \<or> om_free m" using clean_free [of hs m] good by blast
  then obtain m' b where r: "obj_map_set hs m k v = Some (m', b)"
    using obj_map_set_returns_iff [of hs m k v] good small by auto
  then show "\<exists>m' b. obj_map_set hs m k v = Some (m', b) \<and> (om_inv hs m' \<and> om_clean m') \<and>
      om_abs m' = (om_abs m)(k \<mapsto> v) \<and> (b \<longleftrightarrow> om_abs m k = None) \<and>
      unat (om_length m') = unat (om_length m) + of_bool b"
    using obj_map_set_correct [OF _ small r] good by blast
qed

lemma om_inv_new [simp]: "om_inv hs obj_map_new" "om_clean obj_map_new" "om_abs obj_map_new = Map.empty"
  by (simp_all add: om_inv_def om_clean_def om_abs_def obj_map_new_def slots_ok_def count_live_def
      entries_map_def fun_eq_iff)

subsection \<open>Histories with deletions\<close>

datatype 'k map_op = Put 'k val64 | Del 'k

fun om_run :: "('k \<Rightarrow> u32) \<Rightarrow> 'k obj_map \<Rightarrow> 'k map_op list \<Rightarrow> 'k obj_map option" where
  "om_run hs m [] = Some m"
| "om_run hs m (Put k v # ops) = Option.bind (obj_map_set hs m k v) (\<lambda>(m', _). om_run hs m' ops)"
| "om_run hs m (Del k # ops) = Option.bind (obj_map_delete hs m k) (\<lambda>(m', _). om_run hs m' ops)"

fun abs_op :: "('k \<rightharpoonup> val64) \<Rightarrow> 'k map_op \<Rightarrow> ('k \<rightharpoonup> val64)" where
  "abs_op f (Put k v) = f(k \<mapsto> v)"
| "abs_op f (Del k) = f(k := None)"

lemma om_run_refines:
  assumes "om_inv hs m" and "unat (om_length m) + length ops \<le> 2 ^ 29"
    and "om_run hs m ops = Some m'"
  shows "om_inv hs m' \<and> om_abs m' = foldl abs_op (om_abs m) ops"
  using assms
proof (induction ops arbitrary: m)
  case (Cons a ops)
  show ?case
  proof (cases a)
    case (Put k v)
    then obtain m1 b where m1: "obj_map_set hs m k v = Some (m1, b)" "om_run hs m1 ops = Some m'"
      using Cons.prems(3) by (auto simp: bind_eq_Some_conv)
    have "unat (om_length m) < 2 ^ 29" using Cons.prems(2) by simp
    note c = obj_map_set_correct [OF Cons.prems(1) this m1(1)]
    then show ?thesis
      using Cons.IH [of m1] m1(2) Cons.prems(2) Put by (auto simp del: fun_upd_apply)
  next
    case (Del k)
    then obtain m1 b where m1: "obj_map_delete hs m k = Some (m1, b)" "om_run hs m1 ops = Some m'"
      using Cons.prems(3) by (auto simp: bind_eq_Some_conv)
    note c = obj_map_delete_correct [OF Cons.prems(1) m1(1)]
    then show ?thesis
      using Cons.IH [of m1] m1(2) Cons.prems(2) Del by (auto simp del: fun_upd_apply)
  qed
qed simp

text \<open>
  Deletions leave tombstones, which only a rehash clears, and the rehash is triggered by the
  number of live keys alone.  Eight short-lived keys fill an 8-slot table with tombstones.
\<close>

definition churn :: "nat map_op list" where
  "churn = concat (map (\<lambda>i. [Put i VAL_NIL, Del i]) [0..<8])"

declare map_set_probe.simps [code] map_get_probe.simps [code] map_delete_probe.simps [code]
  map_grow_probe.simps [code]

lemma churn_table: "om_run of_nat obj_map_new churn = Some \<lparr>om_length = 0, om_capacity = 8,
  om_entries = replicate 8 \<lparr>me_key = Tomb, me_value = VAL_NIL\<rparr>\<rparr>"
  by code_simp


lemma om_length_new [simp]: "om_length obj_map_new = 0"
  by (simp add: obj_map_new_def)

subsection \<open>A concrete table\<close>

text \<open>Keys 3 and 11 collide in a table of eight slots; the first is deleted again.\<close>

definition demo_map :: "nat obj_map" where
  "demo_map = \<lparr>om_length = 1, om_capacity = 8, om_entries =
     (replicate 8 \<lparr>me_key = Empty, me_value = 0\<rparr>)
       [3 := \<lparr>me_key = Tomb, me_value = VAL_NIL\<rparr>, 4 := \<lparr>me_key = Live 11, me_value = VAL_TRUE\<rparr>]\<rparr>"

lemma demo_map_run: "om_run of_nat obj_map_new [Put 3 VAL_NIL, Put 11 VAL_TRUE, Del 3] = Some demo_map"
  by code_simp

lemma demo_map_inv: "om_inv of_nat demo_map" "om_abs demo_map = [11 \<mapsto> VAL_TRUE]"
  "om_length demo_map = 1" "om_capacity demo_map = 8"
  using om_run_refines [OF om_inv_new(1) _ demo_map_run]
  by (simp_all add: demo_map_def [THEN arg_cong, of om_length]
      demo_map_def [THEN arg_cong, of om_capacity] fun_eq_iff)

subsection \<open>The properties\<close>

text \<open>C6: \<open>obj_map_get\<close> on a well-formed map loops forever exactly when no slot is free and the
  key is absent; otherwise it returns the value last stored under the key, or \<open>NULL\<close>.\<close>
theorem map_get_exact:
  assumes "om_inv hs m"
  shows "obj_map_get hs m k =
    (if om_capacity m = 0 \<or> om_free m \<or> om_abs m k \<noteq> None then Some (om_abs m k) else None)"
proof (cases "obj_map_get hs m k")
  case None
  then show ?thesis using obj_map_get_returns_iff [OF assms, of k] by auto
next
  case (Some r)
  then show ?thesis
    using obj_map_get_returns_iff [OF assms, of k] obj_map_get_correct [OF assms Some] by metis
qed

theorem map_get_exact_witness: "obj_map_get of_nat demo_map 11 = Some (Some VAL_TRUE)"
  by (subst map_get_exact [OF demo_map_inv(1)]) (simp add: demo_map_inv)





text \<open>C8: Any list of up to \<open>2\<^sup>29\<close> stores into a new map returns (every growth and probe ends), and
  afterwards every lookup returns the last value stored under its key.\<close>
theorem map_fill_and_get:
  assumes "length kvs \<le> 2 ^ 29"
  shows "\<exists>m. store_all (obj_map_set hs) obj_map_new kvs = Some m \<and> om_inv hs m \<and>
     (\<forall>k. obj_map_get hs m k = Some (map_of (rev kvs) k))"
proof -
  have "unat (om_length (obj_map_new :: 'a obj_map)) = 0" by (simp add: obj_map_new_def)
  then obtain m where "store_all (obj_map_set hs) obj_map_new kvs = Some m" "om_inv hs m" "om_clean m"
    "om_abs m = map_of (rev kvs)"
    using obj_map.store_all_law [of hs obj_map_new kvs] assms by auto
  then show ?thesis using obj_map.get_law [of hs m] by auto
qed

theorem map_fill_and_get_witness:
  "\<exists>m. store_all (obj_map_set of_nat) obj_map_new [(1::nat, VAL_NIL), (9, VAL_TRUE), (1, VAL_FALSE)] = Some m \<and>
     obj_map_get of_nat m 1 = Some (Some VAL_FALSE) \<and> obj_map_get of_nat m 2 = Some None"
proof -
  have "length [(1::nat, VAL_NIL), (9, VAL_TRUE), (1, VAL_FALSE)] \<le> 2 ^ 29" by simp
  from map_fill_and_get [OF this, of of_nat] show ?thesis by auto
qed

text \<open>C9: Whatever sequence of stores and deletions runs to its end on a new map, the map then holds
  exactly what the same sequence leaves in a finite map.\<close>
theorem map_history_refines:
  assumes "length ops \<le> 2 ^ 29" and "om_run hs obj_map_new ops = Some m"
  shows "om_inv hs m \<and> om_abs m = foldl abs_op Map.empty ops"
  using om_run_refines [OF om_inv_new(1) _ assms(2)] assms(1) by simp

theorem map_history_refines_witness:
  "om_inv of_nat demo_map \<and> om_abs demo_map = (Map.empty(3 \<mapsto> VAL_NIL, 11 \<mapsto> VAL_TRUE))(3 := None)"
proof -
  have "length [Put (3::nat) VAL_NIL, Put 11 VAL_TRUE, Del 3] \<le> 2 ^ 29" by simp
  from map_history_refines [OF this demo_map_run] show ?thesis by simp
qed

text \<open>C10: Eight short-lived keys leave an empty map in which every lookup and every store loops
  forever: deletion lowers the count that triggers the rehash, and the probe loops stop only
  at a free slot or the key.\<close>
theorem tombstones_hang:
  "\<exists>m. om_run of_nat obj_map_new churn = Some m \<and> om_abs m = Map.empty \<and>
     (\<forall>k. obj_map_get of_nat m k = None \<and> (\<forall>v. obj_map_set of_nat m k v = None))"
proof (intro exI conjI allI)
  let ?m = "\<lparr>om_length = 0, om_capacity = 8,
     om_entries = replicate 8 \<lparr>me_key = Tomb, me_value = VAL_NIL\<rparr>\<rparr> :: nat obj_map"
  show run: "om_run of_nat obj_map_new churn = Some ?m" by (rule churn_table)
  have "length churn = 16" by code_simp
  then have "unat (om_length (obj_map_new :: nat obj_map)) + length churn \<le> 2 ^ 29"
    by (simp add: obj_map_new_def)
  then have "om_inv of_nat ?m"
    using om_run_refines [OF om_inv_new(1) _ run] by blast
  moreover show abs: "om_abs ?m = Map.empty"
    by (rule ext) (simp add: om_abs_def entries_map_None)
  moreover have "\<not> om_free ?m" by (simp add: om_free_def)
  moreover have "\<not> needs_grow ?m" by (simp add: needs_grow_def)
  ultimately have "\<nexists>r. obj_map_get of_nat ?m k = Some r" "\<nexists>r. obj_map_set of_nat ?m k v = Some r" for k v
    using obj_map_get_returns_iff [of of_nat ?m k] obj_map_set_returns_iff [of of_nat ?m k v]
    by simp_all
  then show "obj_map_get of_nat ?m k = None" "obj_map_set of_nat ?m k v = None" for k v
    by (meson not_Some_eq)+
qed

end
