(* ===== verification/Interning.thy ===== *)
theory Interning
  imports Probing
begin

section \<open>String interning\<close>

text \<open>
  The intern table of \<open>object.c\<close>: an open-addressing set of string objects, found by content.
  A string pointer is the index of the object in \<open>st_heap\<close>, the strings in allocation order.
  A result \<open>None\<close> of a table operation is a probe loop that never ends.  The garbage collector
  calls \<open>intern_table_remove_unmarked\<close> with its mark bits, here the predicate \<open>marked\<close>.
\<close>

subsection \<open>Definitions\<close>

record obj_string =
  os_length :: u32
  os_hash :: u32
  os_data :: string

type_synonym str_ptr = nat

record intern_table =
  it_entries :: "str_ptr slot list"
  it_count :: u32
  it_capacity :: u32
  st_heap :: "obj_string list"

definition INTERN_TABLE_INIT_CAP :: u32 where "INTERN_TABLE_INIT_CAP = 64"

definition intern_table_init :: intern_table where
  "intern_table_init = \<lparr>it_entries = replicate (unat INTERN_TABLE_INIT_CAP) Empty, it_count = 0,
     it_capacity = INTERN_TABLE_INIT_CAP, st_heap = []\<rparr>"

partial_function (option) intern_find_probe ::
  "str_ptr slot list \<Rightarrow> u32 \<Rightarrow> obj_string list \<Rightarrow> string \<Rightarrow> u32 \<Rightarrow> u32 \<Rightarrow> str_ptr option option" where
  "intern_find_probe es cap heap chars hash index =
     (case es ! unat index of
        Empty \<Rightarrow> Some None
      | Tomb \<Rightarrow> intern_find_probe es cap heap chars hash ((index + 1) AND (cap - 1))
      | Live p \<Rightarrow>
          if os_length (heap ! p) = of_nat (length chars) \<and> os_hash (heap ! p) = hash \<and>
             take (length chars) (os_data (heap ! p)) = chars
          then Some (Some p)
          else intern_find_probe es cap heap chars hash ((index + 1) AND (cap - 1)))"

definition intern_table_find :: "intern_table \<Rightarrow> string \<Rightarrow> u32 \<Rightarrow> str_ptr option option" where
  "intern_table_find st chars hash =
     (if it_capacity st = 0 then Some None
      else intern_find_probe (it_entries st) (it_capacity st) (st_heap st) chars hash
        (hash AND (it_capacity st - 1)))"

partial_function (option) intern_grow_probe :: "str_ptr slot list \<Rightarrow> u32 \<Rightarrow> u32 \<Rightarrow> u32 option" where
  "intern_grow_probe es cap idx =
     (if es ! unat idx \<noteq> Empty then intern_grow_probe es cap ((idx + 1) AND (cap - 1)) else Some idx)"

fun intern_rehash ::
  "obj_string list \<Rightarrow> u32 \<Rightarrow> str_ptr slot list \<Rightarrow> str_ptr slot list \<Rightarrow> str_ptr slot list option" where
  "intern_rehash heap new_cap new [] = Some new"
| "intern_rehash heap new_cap new (e # es) =
     (case e of
        Live p \<Rightarrow> Option.bind (intern_grow_probe new new_cap (os_hash (heap ! p) AND (new_cap - 1)))
          (\<lambda>idx. intern_rehash heap new_cap (new[unat idx := Live p]) es)
      | _ \<Rightarrow> intern_rehash heap new_cap new es)"

definition intern_table_grow :: "intern_table \<Rightarrow> intern_table option" where
  "intern_table_grow st =
     (let new_cap = it_capacity st * 2
      in map_option (\<lambda>es. st\<lparr>it_entries := es, it_capacity := new_cap\<rparr>)
           (intern_rehash (st_heap st) new_cap (replicate (unat new_cap) Empty) (it_entries st)))"

partial_function (option) intern_insert_probe :: "str_ptr slot list \<Rightarrow> u32 \<Rightarrow> u32 \<Rightarrow> u32 option" where
  "intern_insert_probe es cap index =
     (if es ! unat index \<noteq> Empty \<and> es ! unat index \<noteq> Tomb
      then intern_insert_probe es cap ((index + 1) AND (cap - 1)) else Some index)"

definition intern_table_insert :: "intern_table \<Rightarrow> str_ptr \<Rightarrow> intern_table option" where
  "intern_table_insert st str =
     Option.bind (if it_capacity st * 3 div 4 < it_count st + 1 then intern_table_grow st else Some st)
       (\<lambda>st. map_option
          (\<lambda>index. st\<lparr>it_entries := (it_entries st)[unat index := Live str], it_count := it_count st + 1\<rparr>)
          (intern_insert_probe (it_entries st) (it_capacity st)
             (os_hash (st_heap st ! str) AND (it_capacity st - 1))))"

fun remove_unmarked_loop :: "(str_ptr \<Rightarrow> bool) \<Rightarrow> str_ptr slot list \<Rightarrow> u32 \<Rightarrow> str_ptr slot list \<times> u32" where
  "remove_unmarked_loop marked [] count = ([], count)"
| "remove_unmarked_loop marked (e # es) count =
     (case e of
        Live p \<Rightarrow>
          if \<not> marked p then
            let (es', count') = remove_unmarked_loop marked es (count - 1) in (Tomb # es', count')
          else let (es', count') = remove_unmarked_loop marked es count in (e # es', count')
      | _ \<Rightarrow> let (es', count') = remove_unmarked_loop marked es count in (e # es', count'))"

definition intern_table_remove_unmarked :: "(str_ptr \<Rightarrow> bool) \<Rightarrow> intern_table \<Rightarrow> intern_table" where
  "intern_table_remove_unmarked marked st =
     (let (es, count) = remove_unmarked_loop marked (it_entries st) (it_count st)
      in st\<lparr>it_entries := es, it_count := count\<rparr>)"

text \<open>\<open>length\<close> is the length of the character sequence, below \<open>2\<^sup>32\<close>.\<close>

definition obj_string_new :: "intern_table \<Rightarrow> string \<Rightarrow> (str_ptr \<times> intern_table) option" where
  "obj_string_new st chars =
     (let hash = hash_string chars
      in Option.bind (intern_table_find st chars hash)
        (\<lambda>interned. case interned of
             Some p \<Rightarrow> Some (p, st)
           | None \<Rightarrow>
               let str = \<lparr>os_length = of_nat (length chars), os_hash = hash, os_data = chars\<rparr>;
                   p = length (st_heap st);
                   st' = st\<lparr>st_heap := st_heap st @ [str]\<rparr>
               in map_option (\<lambda>st''. (p, st'')) (intern_table_insert st' p)))"

subsection \<open>The loops are probe loops\<close>

abbreviation same_string :: "obj_string list \<Rightarrow> string \<Rightarrow> u32 \<Rightarrow> str_ptr \<Rightarrow> bool" where
  "same_string heap chars hash p \<equiv> os_length (heap ! p) = of_nat (length chars) \<and>
     os_hash (heap ! p) = hash \<and> take (length chars) (os_data (heap ! p)) = chars"

definition find_stop :: "str_ptr slot list \<Rightarrow> obj_string list \<Rightarrow> string \<Rightarrow> u32 \<Rightarrow> u32 \<Rightarrow> bool" where
  "find_stop es heap chars hash i \<longleftrightarrow>
     (case es ! unat i of Empty \<Rightarrow> True | Tomb \<Rightarrow> False | Live p \<Rightarrow> same_string heap chars hash p)"

interpretation find_loop: probe_loop "\<lambda>i (_::unit). intern_find_probe es cap heap chars hash i"
  "find_stop es heap chars hash" "\<lambda>_ s. s"
  "\<lambda>i _. case es ! unat i of Live p \<Rightarrow> Some p | _ \<Rightarrow> None" cap for es cap heap chars hash
proof
  show "intern_find_probe es cap heap chars hash i =
     (if find_stop es heap chars hash i then Some (case es ! unat i of Live p \<Rightarrow> Some p | _ \<Rightarrow> None)
      else intern_find_probe es cap heap chars hash (probe_next cap i))" for i
    by (subst intern_find_probe.simps) (auto simp: probe_next_def find_stop_def split: slot.splits)
next
  fix I i assume I: "\<And>j. j \<in> I \<Longrightarrow> \<not> find_stop es heap chars hash j \<and> probe_next cap j \<in> I" "i \<in> I"
  have "i \<notin> I" if r: "intern_find_probe es cap heap chars hash i = Some r" for r
  proof -
    have "es = es \<and> cap = cap \<and> heap = heap \<and> chars = chars \<and> hash = hash \<longrightarrow> i \<notin> I"
      by (rule intern_find_probe.raw_induct [where P = "\<lambda>es' c hp ch h j r.
            es' = es \<and> c = cap \<and> hp = heap \<and> ch = chars \<and> h = hash \<longrightarrow> j \<notin> I", OF _ r])
        (use I in \<open>fastforce simp: probe_next_def find_stop_def split: slot.splits if_splits\<close>)
    then show ?thesis by simp
  qed
  with I(2) show "intern_find_probe es cap heap chars hash i = None" by (metis not_Some_eq)
qed

interpretation rehash_loop: probe_loop "\<lambda>i (_::unit). intern_grow_probe es cap i"
  "\<lambda>i. es ! unat i = Empty" "\<lambda>_ s. s" "\<lambda>i _. i" cap for es cap
proof
  show "intern_grow_probe es cap i = (if es ! unat i = Empty then Some i
      else intern_grow_probe es cap (probe_next cap i))" for i
    by (subst intern_grow_probe.simps) (simp add: probe_next_def)
next
  fix I i assume I: "\<And>j. j \<in> I \<Longrightarrow> es ! unat j \<noteq> Empty \<and> probe_next cap j \<in> I" "i \<in> I"
  have "i \<notin> I" if r: "intern_grow_probe es cap i = Some r" for r
  proof -
    have "es = es \<and> cap = cap \<longrightarrow> i \<notin> I"
      by (rule intern_grow_probe.raw_induct [where P = "\<lambda>es' c j r. es' = es \<and> c = cap \<longrightarrow> j \<notin> I", OF _ r])
        (use I in \<open>fastforce simp: probe_next_def split: if_splits\<close>)
    then show ?thesis by simp
  qed
  with I(2) show "intern_grow_probe es cap i = None" by (metis not_Some_eq)
qed

interpretation insert_loop: probe_loop "\<lambda>i (_::unit). intern_insert_probe es cap i"
  "\<lambda>i. \<not> is_Live (es ! unat i)" "\<lambda>_ s. s" "\<lambda>i _. i" cap for es cap
proof
  show "intern_insert_probe es cap i = (if \<not> is_Live (es ! unat i) then Some i
      else intern_insert_probe es cap (probe_next cap i))" for i
    by (subst intern_insert_probe.simps) (cases "es ! unat i"; simp add: probe_next_def)
next
  fix I i assume I: "\<And>j. j \<in> I \<Longrightarrow> \<not> \<not> is_Live (es ! unat j) \<and> probe_next cap j \<in> I" "i \<in> I"
  have "i \<notin> I" if r: "intern_insert_probe es cap i = Some r" for r
  proof -
    have "es = es \<and> cap = cap \<longrightarrow> i \<notin> I"
      by (rule intern_insert_probe.raw_induct [where P = "\<lambda>es' c j r. es' = es \<and> c = cap \<longrightarrow> j \<notin> I", OF _ r])
        (use I in \<open>fastforce simp: probe_next_def split: if_splits\<close>)
    then show ?thesis by simp
  qed
  with I(2) show "intern_insert_probe es cap i = None" by (metis not_Some_eq)
qed

subsection \<open>The invariant and the abstract table\<close>

text \<open>\<open>st_abs st s\<close> is the pointer of the interned string with content \<open>s\<close>.\<close>

abbreviation ptr_hash :: "obj_string list \<Rightarrow> str_ptr \<Rightarrow> u32" where
  "ptr_hash heap p \<equiv> os_hash (heap ! p)"

definition str_ok :: "obj_string \<Rightarrow> bool" where
  "str_ok s \<longleftrightarrow> os_length s = of_nat (length (os_data s)) \<and> length (os_data s) < 2 ^ 32 \<and>
     os_hash s = hash_string (os_data s)"

definition contents_distinct :: "str_ptr slot list \<Rightarrow> obj_string list \<Rightarrow> bool" where
  "contents_distinct es heap \<longleftrightarrow>
     (\<forall>p q. Live p \<in> set es \<longrightarrow> Live q \<in> set es \<longrightarrow> os_data (heap ! p) = os_data (heap ! q) \<longrightarrow> p = q)"

definition it_inv :: "intern_table \<Rightarrow> bool" where
  "it_inv st \<longleftrightarrow>
     pow2_cap (it_capacity st) \<and> 8 \<le> unat (it_capacity st) \<and> unat (it_capacity st) \<le> 2 ^ 30 \<and>
     length (it_entries st) = unat (it_capacity st) \<and>
     unat (it_count st) = count_live (it_entries st) \<and>
     unat (it_count st) \<le> unat (it_capacity st) * 3 div 4 \<and>
     slots_ok (ptr_hash (st_heap st)) (it_entries st) \<and>
     (\<forall>p. Live p \<in> set (it_entries st) \<longrightarrow> p < length (st_heap st) \<and> str_ok (st_heap st ! p)) \<and>
     contents_distinct (it_entries st) (st_heap st)"

lemma contents_distinctD:
  "contents_distinct es heap \<Longrightarrow> Live p \<in> set es \<Longrightarrow> Live q \<in> set es \<Longrightarrow>
   os_data (heap ! p) = os_data (heap ! q) \<Longrightarrow> p = q"
  by (simp add: contents_distinct_def)

lemma contents_distinct_cong:
  "contents_distinct es heap \<Longrightarrow> (\<And>p. Live p \<in> set es' \<Longrightarrow> Live p \<in> set es \<and> heap' ! p = heap ! p) \<Longrightarrow>
   contents_distinct es' heap'"
  unfolding contents_distinct_def by fastforce

definition st_abs :: "intern_table \<Rightarrow> string \<Rightarrow> str_ptr option" where
  "st_abs st s = map_option live_key
     (List.find (\<lambda>e. is_Live e \<and> os_data (st_heap st ! live_key e) = s) (it_entries st))"

lemma st_abs_None: "st_abs st s = None \<longleftrightarrow>
   (\<forall>p. Live p \<in> set (it_entries st) \<longrightarrow> os_data (st_heap st ! p) \<noteq> s)"
  by (auto simp: st_abs_def find_None_iff is_Live_def)

lemma st_abs_SomeD:
  "st_abs st s = Some p \<Longrightarrow> Live p \<in> set (it_entries st) \<and> os_data (st_heap st ! p) = s"
  by (auto simp: st_abs_def find_Some_iff is_Live_def in_set_conv_nth)

lemma st_abs_Some:
  assumes "it_inv st"
  shows "st_abs st s = Some p \<longleftrightarrow> Live p \<in> set (it_entries st) \<and> os_data (st_heap st ! p) = s"
proof
  assume r: "Live p \<in> set (it_entries st) \<and> os_data (st_heap st ! p) = s"
  then obtain q where "st_abs st s = Some q" using st_abs_None by (metis not_Some_eq)
  moreover from st_abs_SomeD [OF this] r have "q = p" using assms unfolding it_inv_def contents_distinct_def by blast
  ultimately show "st_abs st s = Some p" by simp
qed (rule st_abs_SomeD)

lemma same_string_iff:
  assumes "str_ok (heap ! p)" and "length s < 2 ^ 32"
  shows "same_string heap s (hash_string s) p \<longleftrightarrow> os_data (heap ! p) = s"
proof
  assume a: "same_string heap s (hash_string s) p"
  then have "(of_nat (length (os_data (heap ! p))) :: u32) = of_nat (length s)"
    using assms(1) by (simp add: str_ok_def)
  then have "length (os_data (heap ! p)) = length s"
    using assms by (simp add: str_ok_def of_nat_word_eq_iff)
  then show "os_data (heap ! p) = s" using a by simp
qed (use assms in \<open>auto simp: str_ok_def\<close>)

lemma find_correct:
  assumes inv: "it_inv st" and len: "length s < 2 ^ 32"
    and r: "intern_table_find st s (hash_string s) = Some r"
  shows "r = st_abs st s"
proof -
  let ?es = "it_entries st" and ?cap = "it_capacity st" and ?heap = "st_heap st"
  define i where "i = hash_string s AND (?cap - 1)"
  have cap: "pow2_cap ?cap" "length ?es = unat ?cap" and ok: "slots_ok (ptr_hash ?heap) ?es"
    and nz: "?cap \<noteq> 0" using inv by (auto simp: it_inv_def)
  have live: "str_ok (?heap ! p)" if "Live p \<in> set ?es" for p using inv that by (simp add: it_inv_def)
  have "i < ?cap" unfolding i_def using start_less [OF cap(1), of hash_string s] by simp
  moreover have "intern_find_probe ?es ?cap ?heap s (hash_string s) i = Some r"
    using r nz by (simp add: intern_table_find_def i_def)
  ultimately obtain d where d: "d < unat ?cap" "find_stop ?es ?heap s (hash_string s) (probe_at ?cap i d)"
    "\<And>e. e < d \<Longrightarrow> \<not> find_stop ?es ?heap s (hash_string s) (probe_at ?cap i e)"
    "r = (case ?es ! unat (probe_at ?cap i d) of Live p \<Rightarrow> Some p | _ \<Rightarrow> None)"
    using find_loop.loop_result [OF cap(1)] by blast
  define p where "p = unat (probe_at ?cap i d)"
  have pl: "p < length ?es" using probe_at_less [OF cap(1)] cap(2) by (simp add: p_def word_less_nat_alt)
  show ?thesis
  proof (cases "?es ! p")
    case (Live q)
    then have q: "Live q \<in> set ?es" using pl nth_mem by metis
    then have "os_data (?heap ! q) = s"
      using d(2) Live same_string_iff [OF live [OF q] len] by (simp add: find_stop_def p_def)
    then show ?thesis using q st_abs_Some [OF inv, of s q] d(4) Live by (simp add: p_def)
  next
    case Tomb
    then show ?thesis using d(2) by (simp add: find_stop_def p_def)
  next
    case Empty
    have "os_data (?heap ! q) \<noteq> s" if q: "Live q \<in> set ?es" for q
    proof
      assume s: "os_data (?heap ! q) = s"
      have "ptr_hash ?heap q = hash_string s" using live [OF q] s by (simp add: str_ok_def)
      then have at: "unat (probe_at ?cap i e) = slot_pos (ptr_hash ?heap) (length ?es) q e" for e
        using probe_at_slot [OF cap(1), of "ptr_hash ?heap" q e] cap(2) by (simp add: i_def)
      have "?es ! slot_pos (ptr_hash ?heap) (length ?es) q e \<noteq> Live q" if "e < d" for e
        using d(3) [OF that] same_string_iff [OF live [OF q] len] s by (auto simp: find_stop_def at)
      then show False
        using first_free_absent [OF ok, of d q] d(1) cap(2) Empty q by (simp add: p_def at)
    qed
    then show ?thesis using d(4) Empty st_abs_None [of st s] by (simp add: p_def)
  qed
qed

lemma find_returns_iff:
  assumes inv: "it_inv st" and len: "length s < 2 ^ 32"
  shows "intern_table_find st s (hash_string s) \<noteq> None \<longleftrightarrow>
    Empty \<in> set (it_entries st) \<or> st_abs st s \<noteq> None"
proof -
  let ?es = "it_entries st" and ?cap = "it_capacity st" and ?heap = "st_heap st"
  define Q where "Q e = (case e of Empty \<Rightarrow> True | Tomb \<Rightarrow> False |
     Live p \<Rightarrow> same_string ?heap s (hash_string s) p)" for e
  have cap: "pow2_cap ?cap" "length ?es = unat ?cap" and nz: "?cap \<noteq> 0"
    using inv by (auto simp: it_inv_def)
  have "intern_table_find st s (hash_string s) \<noteq> None \<longleftrightarrow> (\<exists>p < ?cap. Q (?es ! unat p))"
    using find_loop.loop_returns_iff [OF cap(1) start_less [OF cap(1), of hash_string s], of ?es ?heap s "hash_string s"]
      nz by (simp add: intern_table_find_def find_stop_def Q_def)
  also have "\<dots> \<longleftrightarrow> (\<exists>e \<in> set ?es. Q e)" by (rule ex_word_index [OF cap(2)])
  also have "\<dots> \<longleftrightarrow> Empty \<in> set ?es \<or> (\<exists>p. Live p \<in> set ?es \<and> same_string ?heap s (hash_string s) p)"
    unfolding Q_def by (auto split: slot.splits) (metis slot.exhaust)+
  also have "(\<exists>p. Live p \<in> set ?es \<and> same_string ?heap s (hash_string s) p) \<longleftrightarrow> st_abs st s \<noteq> None"
    using same_string_iff [OF _ len] inv by (auto simp: st_abs_None it_inv_def)
  finally show ?thesis .
qed

subsection \<open>Growth and insertion\<close>

lemma rehash_probe_correct:
  assumes cap: "pow2_cap cap" "length es = unat cap" and ok: "slots_ok h es"
    and room: "count_live es < unat cap" and clean: "Tomb \<notin> set es" and new: "Live p \<notin> set es"
  shows "\<exists>idx. intern_grow_probe es cap (h p AND (cap - 1)) = Some idx \<and>
     slots_ok h (es[unat idx := Live p]) \<and> Tomb \<notin> set (es[unat idx := Live p]) \<and>
     count_live (es[unat idx := Live p]) = count_live es + 1 \<and>
     (\<forall>j. Live j \<in> set (es[unat idx := Live p]) \<longleftrightarrow> j = p \<or> Live j \<in> set es)"
proof -
  let ?i = "h p AND (cap - 1)"
  have i: "?i < cap" by (rule start_less [OF cap(1)])
  obtain q where "q < length es" "es ! q = Empty"
    using free_slot_exists [of es] room clean cap(2) by auto
  then have "\<exists>i < cap. es ! unat i = Empty"
    using ex_word_index [OF cap(2), of "\<lambda>e. e = Empty"] by (metis nth_mem)
  then obtain idx where idx: "intern_grow_probe es cap ?i = Some idx"
    using rehash_loop.loop_returns_iff [OF cap(1) i, of es] by auto
  from rehash_loop.loop_result [OF cap(1) i idx] obtain d where
    d: "d < unat cap" "es ! unat (probe_at cap ?i d) = Empty"
      "\<forall>c < d. es ! unat (probe_at cap ?i c) \<noteq> Empty" "idx = probe_at cap ?i d" by auto
  have at: "unat (probe_at cap ?i c) = slot_pos h (length es) p c" for c
    using cap by (simp add: probe_at_slot)
  have path: "\<And>e. e < d \<Longrightarrow> es ! slot_pos h (length es) p e \<noteq> Empty" using d(3) by (simp add: at)
  have pos: "unat idx = slot_pos h (length es) p d" and dead: "\<not> is_Live (es ! unat idx)"
    using d(2,4) by (simp_all add: at)
  note f = fill_slot [OF ok new _ path pos dead]
  have "set (es[unat idx := Live p]) \<subseteq> insert (Live p) (set es)" by (rule set_update_subset_insert)
  then have "Tomb \<notin> set (es[unat idx := Live p])" using clean by auto
  then show ?thesis using idx f d(1) cap(2) by simp
qed

lemma intern_rehash_correct:
  assumes cap: "pow2_cap cap" and "length new = unat cap" and "slots_ok (ptr_hash heap) new"
    and "Tomb \<notin> set new" and "count_live new + count_live es < unat cap"
    and "distinct (filter is_Live es)" and "\<And>p. Live p \<in> set es \<Longrightarrow> Live p \<notin> set new"
  shows "\<exists>new'. intern_rehash heap cap new es = Some new' \<and> length new' = unat cap \<and>
     slots_ok (ptr_hash heap) new' \<and> Tomb \<notin> set new' \<and>
     count_live new' = count_live new + count_live es \<and>
     (\<forall>p. Live p \<in> set new' \<longleftrightarrow> Live p \<in> set new \<or> Live p \<in> set es)"
  using assms(2-)
proof (induction es arbitrary: new)
  case (Cons e es)
  show ?case
  proof (cases e)
    case (Live p)
    have np: "Live p \<notin> set es" "Live p \<notin> set new" using Cons.prems(5,6) Live by auto
    have c: "count_live (e # es) = Suc (count_live es)" using Live by (simp add: count_live_def)
    then have room: "count_live new < unat cap" using Cons.prems(4) by simp
    from rehash_probe_correct [OF cap Cons.prems(1,2) room Cons.prems(3) np(2)]
    obtain idx where idx: "intern_grow_probe new cap (ptr_hash heap p AND (cap - 1)) = Some idx"
      "slots_ok (ptr_hash heap) (new[unat idx := Live p])" "Tomb \<notin> set (new[unat idx := Live p])"
      "count_live (new[unat idx := Live p]) = count_live new + 1"
      "\<And>j. Live j \<in> set (new[unat idx := Live p]) \<longleftrightarrow> j = p \<or> Live j \<in> set new" by blast
    have IH: "\<exists>new'. intern_rehash heap cap (new[unat idx := Live p]) es = Some new' \<and> length new' = unat cap \<and>
     slots_ok (ptr_hash heap) new' \<and> Tomb \<notin> set new' \<and>
     count_live new' = count_live (new[unat idx := Live p]) + count_live es \<and>
     (\<forall>q. Live q \<in> set new' \<longleftrightarrow> Live q \<in> set (new[unat idx := Live p]) \<or> Live q \<in> set es)"
      by (rule Cons.IH) (use idx Cons.prems np c Live in \<open>auto split: if_splits\<close>)
    then show ?thesis using idx c Live by auto
  next
    case Empty
    then show ?thesis using Cons.IH [of new] Cons.prems by (simp add: count_live_def)
  next
    case Tomb
    then show ?thesis using Cons.IH [of new] Cons.prems by (simp add: count_live_def)
  qed
qed (simp add: count_live_def)

lemma intern_grow_correct:
  assumes inv: "it_inv st" and cap: "unat (it_capacity st) \<le> 2 ^ 29"
  shows "\<exists>es. intern_table_grow st = Some (st\<lparr>it_entries := es, it_capacity := it_capacity st * 2\<rparr>) \<and>
    it_inv (st\<lparr>it_entries := es, it_capacity := it_capacity st * 2\<rparr>) \<and> Empty \<in> set es \<and>
    (\<forall>p. Live p \<in> set es \<longleftrightarrow> Live p \<in> set (it_entries st)) \<and>
    unat (it_count st) + 1 \<le> unat (it_capacity st * 2) * 3 div 4"
proof -
  let ?c = "it_capacity st * 2"
  let ?fresh = "replicate (unat ?c) Empty :: str_ptr slot list"
  have u: "unat ?c = 2 * unat (it_capacity st)" using cap by (simp add: unat_word_ariths)
  obtain n where "unat (it_capacity st) = 2 ^ n" using inv by (auto simp: it_inv_def pow2_cap_def)
  then have c: "pow2_cap ?c" using u by (auto simp: pow2_cap_def intro: exI [of _ "Suc n"])
  have t: "slots_ok (ptr_hash (st_heap st)) (it_entries st)"
      "unat (it_count st) = count_live (it_entries st)" "8 \<le> unat (it_capacity st)"
      "unat (it_count st) \<le> unat (it_capacity st) * 3 div 4" using inv by (simp_all add: it_inv_def)
  have lt: "count_live (it_entries st) < unat ?c" using t u by linarith
  have "\<exists>es. intern_rehash (st_heap st) ?c ?fresh (it_entries st) = Some es \<and> length es = unat ?c \<and>
     slots_ok (ptr_hash (st_heap st)) es \<and> Tomb \<notin> set es \<and>
     count_live es = count_live ?fresh + count_live (it_entries st) \<and>
     (\<forall>p. Live p \<in> set es \<longleftrightarrow> Live p \<in> set ?fresh \<or> Live p \<in> set (it_entries st))"
    by (rule intern_rehash_correct [OF c]) (use lt slots_ok_distinct [OF t(1)] in \<open>auto simp: slots_ok_fresh\<close>)
  then obtain es where es: "intern_rehash (st_heap st) ?c ?fresh (it_entries st) = Some es" "length es = unat ?c"
     "slots_ok (ptr_hash (st_heap st)) es" "Tomb \<notin> set es" "count_live es = count_live (it_entries st)"
     "\<forall>p. Live p \<in> set es \<longleftrightarrow> Live p \<in> set (it_entries st)" by auto
  have "\<exists>p < length es. es ! p = Empty" using free_slot_exists [of es] es lt by simp
  then have "Empty \<in> set es" by (metis nth_mem)
  moreover have "contents_distinct es (st_heap st)"
    using inv es(6) by - (rule contents_distinct_cong [of "it_entries st" "st_heap st"], auto simp: it_inv_def)
  ultimately show ?thesis
    using es inv u cap t c by (auto simp: intern_table_grow_def Let_def it_inv_def)
qed

lemma intern_probe_correct:
  assumes cap: "pow2_cap cap" "length es = unat cap" and ok: "slots_ok h es"
    and free: "Empty \<in> set es" and new: "Live p \<notin> set es"
  shows "\<exists>idx. intern_insert_probe es cap (h p AND (cap - 1)) = Some idx \<and>
     slots_ok h (es[unat idx := Live p]) \<and> count_live (es[unat idx := Live p]) = count_live es + 1 \<and>
     (\<forall>j. Live j \<in> set (es[unat idx := Live p]) \<longleftrightarrow> j = p \<or> Live j \<in> set es)"
proof -
  let ?i = "h p AND (cap - 1)"
  have i: "?i < cap" by (rule start_less [OF cap(1)])
  have "\<exists>i < cap. \<not> is_Live (es ! unat i)"
    using ex_word_index [OF cap(2), of "\<lambda>e. \<not> is_Live e"] free by (auto intro!: bexI [of _ Empty])
  then obtain idx where idx: "intern_insert_probe es cap ?i = Some idx"
    using insert_loop.loop_returns_iff [OF cap(1) i, of es] by auto
  from insert_loop.loop_result [OF cap(1) i idx] obtain d where
    d: "d < unat cap" "\<not> is_Live (es ! unat (probe_at cap ?i d))"
      "\<forall>c < d. is_Live (es ! unat (probe_at cap ?i c))" "idx = probe_at cap ?i d" by auto
  have at: "unat (probe_at cap ?i c) = slot_pos h (length es) p c" for c
    using cap by (simp add: probe_at_slot)
  have path: "\<And>e. e < d \<Longrightarrow> es ! slot_pos h (length es) p e \<noteq> Empty" using d(3) by (auto simp: at)
  have pos: "unat idx = slot_pos h (length es) p d" and dead: "\<not> is_Live (es ! unat idx)"
    using d(2,4) by (simp_all add: at)
  show ?thesis using idx fill_slot [OF ok new _ path pos dead] d(1) cap(2) by simp
qed

lemma insert_new_correct:
  assumes inv: "it_inv st" and free: "Empty \<in> set (it_entries st)"
    and load: "unat (it_count st) + 1 \<le> unat (it_capacity st) * 3 div 4"
    and s: "str_ok (st_heap st ! p)" "p < length (st_heap st)"
      "\<And>q. Live q \<in> set (it_entries st) \<Longrightarrow> os_data (st_heap st ! q) \<noteq> os_data (st_heap st ! p)"
  shows "\<exists>idx st'. intern_insert_probe (it_entries st) (it_capacity st)
        (ptr_hash (st_heap st) p AND (it_capacity st - 1)) = Some idx \<and>
     st' = st\<lparr>it_entries := (it_entries st)[unat idx := Live p], it_count := it_count st + 1\<rparr> \<and>
     it_inv st' \<and> (\<forall>q. Live q \<in> set (it_entries st') \<longleftrightarrow> q = p \<or> Live q \<in> set (it_entries st)) \<and>
     unat (it_count st') = unat (it_count st) + 1"
proof -
  have t: "pow2_cap (it_capacity st)" "length (it_entries st) = unat (it_capacity st)"
      "slots_ok (ptr_hash (st_heap st)) (it_entries st)" "unat (it_capacity st) \<le> 2 ^ 30"
    using inv by (simp_all add: it_inv_def)
  have "Live p \<notin> set (it_entries st)" using s(3) by blast
  from intern_probe_correct [OF t(1,2,3) free this] obtain idx where
    idx: "intern_insert_probe (it_entries st) (it_capacity st)
        (ptr_hash (st_heap st) p AND (it_capacity st - 1)) = Some idx"
      "slots_ok (ptr_hash (st_heap st)) ((it_entries st)[unat idx := Live p])"
      "count_live ((it_entries st)[unat idx := Live p]) = count_live (it_entries st) + 1"
      "\<forall>j. Live j \<in> set ((it_entries st)[unat idx := Live p]) \<longleftrightarrow> j = p \<or> Live j \<in> set (it_entries st)"
    by blast
  have "unat (it_count st + 1) = unat (it_count st) + 1" using load t(4) by (simp add: unat_word_ariths)
  moreover have "contents_distinct ((it_entries st)[unat idx := Live p]) (st_heap st)"
    using s(3) idx(4) contents_distinctD [of "it_entries st" "st_heap st"] inv
    unfolding contents_distinct_def it_inv_def by metis
  moreover have "q < length (st_heap st) \<and> str_ok (st_heap st ! q)" if "q = p \<or> Live q \<in> set (it_entries st)" for q
    using that s inv unfolding it_inv_def by blast
  ultimately have "it_inv (st\<lparr>it_entries := (it_entries st)[unat idx := Live p], it_count := it_count st + 1\<rparr>)"
    unfolding it_inv_def using idx(2-4) t(1,2,4) load inv [unfolded it_inv_def] by simp
  then show ?thesis using idx \<open>unat (it_count st + 1) = _\<close> by simp
qed

lemma it_inv_alloc:
  assumes "it_inv st"
  shows "it_inv (st\<lparr>st_heap := st_heap st @ [x]\<rparr>)"
    and "st_abs (st\<lparr>st_heap := st_heap st @ [x]\<rparr>) = st_abs st"
proof -
  have l: "Live p \<in> set (it_entries st) \<Longrightarrow> (st_heap st @ [x]) ! p = st_heap st ! p" for p
    using assms by (simp add: it_inv_def nth_append)
  then have "slots_ok (ptr_hash (st_heap st @ [x])) (it_entries st)"
    using assms by - (rule slots_ok_cong [of _ _ "ptr_hash (st_heap st)"], auto simp: it_inv_def)
  moreover have "contents_distinct (it_entries st) (st_heap st @ [x])"
    using assms l by - (rule contents_distinct_cong [of "it_entries st" "st_heap st"], auto simp: it_inv_def)
  ultimately show inv: "it_inv (st\<lparr>st_heap := st_heap st @ [x]\<rparr>)"
    using assms l by (auto simp: it_inv_def)
  have "st_abs (st\<lparr>st_heap := st_heap st @ [x]\<rparr>) s = Some p \<longleftrightarrow> st_abs st s = Some p" for s p
    using l by (auto simp: st_abs_Some [OF inv] st_abs_Some [OF assms])
  then show "st_abs (st\<lparr>st_heap := st_heap st @ [x]\<rparr>) = st_abs st" by (rule map_ext_Some)
qed

lemma intern_load_iff:
  assumes "it_inv st"
  shows "it_capacity st * 3 div 4 < it_count st + 1 \<longleftrightarrow>
    unat (it_capacity st) * 3 div 4 < unat (it_count st) + 1"
proof -
  have cap: "unat (it_capacity st) \<le> 2 ^ 30" "unat (it_count st) \<le> unat (it_capacity st) * 3 div 4"
    using assms by (auto simp: it_inv_def)
  then have "unat (it_count st + 1) = unat (it_count st) + 1" "unat (it_capacity st * 3) = unat (it_capacity st) * 3"
    by (simp_all add: unat_word_ariths)
  then show ?thesis by (simp add: word_less_nat_alt unat_div_distrib)
qed

lemma intern_insert_correct:
  assumes inv: "it_inv st" and free: "Empty \<in> set (it_entries st)" and small: "unat (it_count st) < 2 ^ 29"
    and s: "str_ok (st_heap st ! p)" "p < length (st_heap st)"
      "\<And>q. Live q \<in> set (it_entries st) \<Longrightarrow> os_data (st_heap st ! q) \<noteq> os_data (st_heap st ! p)"
  shows "\<exists>st'. intern_table_insert st p = Some st' \<and> it_inv st' \<and> st_heap st' = st_heap st \<and>
     st_abs st' = (st_abs st)(os_data (st_heap st ! p) \<mapsto> p) \<and>
     unat (it_count st') = unat (it_count st) + 1"
proof -
  have "\<exists>st1. (if it_capacity st * 3 div 4 < it_count st + 1 then intern_table_grow st else Some st) = Some st1 \<and>
     it_inv st1 \<and> Empty \<in> set (it_entries st1) \<and> st_heap st1 = st_heap st \<and> it_count st1 = it_count st \<and>
     (\<forall>q. Live q \<in> set (it_entries st1) \<longleftrightarrow> Live q \<in> set (it_entries st)) \<and>
     unat (it_count st1) + 1 \<le> unat (it_capacity st1) * 3 div 4"
  proof (cases "it_capacity st * 3 div 4 < it_count st + 1")
    case True
    then have "unat (it_capacity st) < 2 ^ 30" using small intern_load_iff [OF inv] by simp
    then have "unat (it_capacity st) \<le> 2 ^ 29" using inv by (intro pow2_cap_half) (simp_all add: it_inv_def)
    from intern_grow_correct [OF inv this] obtain es where
      "intern_table_grow st = Some (st\<lparr>it_entries := es, it_capacity := it_capacity st * 2\<rparr>)"
      "it_inv (st\<lparr>it_entries := es, it_capacity := it_capacity st * 2\<rparr>)" "Empty \<in> set es"
      "\<forall>q. Live q \<in> set es \<longleftrightarrow> Live q \<in> set (it_entries st)"
      "unat (it_count st) + 1 \<le> unat (it_capacity st * 2) * 3 div 4" by blast
    with True show ?thesis by simp
  next
    case False
    then show ?thesis using intern_load_iff [OF inv] inv free by auto
  qed
  then obtain st1 where st1: "(if it_capacity st * 3 div 4 < it_count st + 1 then intern_table_grow st else Some st) = Some st1"
     "it_inv st1" "Empty \<in> set (it_entries st1)" "st_heap st1 = st_heap st" "it_count st1 = it_count st"
     "\<And>q. Live q \<in> set (it_entries st1) \<longleftrightarrow> Live q \<in> set (it_entries st)"
     "unat (it_count st1) + 1 \<le> unat (it_capacity st1) * 3 div 4" by blast
  from insert_new_correct [OF st1(2,3,7), of p] st1(4,6) s obtain idx st' where
    idx: "intern_insert_probe (it_entries st1) (it_capacity st1)
        (ptr_hash (st_heap st1) p AND (it_capacity st1 - 1)) = Some idx"
     "st' = st1\<lparr>it_entries := (it_entries st1)[unat idx := Live p], it_count := it_count st1 + 1\<rparr>"
     "it_inv st'" "\<And>q. Live q \<in> set (it_entries st') \<longleftrightarrow> q = p \<or> Live q \<in> set (it_entries st1)"
     "unat (it_count st') = unat (it_count st1) + 1" by auto
  have h: "st_heap st' = st_heap st" using idx(2) st1(4) by simp
  have "st_abs st' t = Some q \<longleftrightarrow> ((st_abs st)(os_data (st_heap st ! p) \<mapsto> p)) t = Some q" for t q
    using s(3) by (auto simp: st_abs_Some [OF idx(3)] st_abs_Some [OF inv] h idx(4) st1(6))
  then have "st_abs st' = (st_abs st)(os_data (st_heap st ! p) \<mapsto> p)" by (rule map_ext_Some)
  then show ?thesis using idx st1 h by (simp add: intern_table_insert_def)
qed

subsection \<open>Creating strings\<close>

lemma intern_step:
  assumes inv: "it_inv st" and small: "unat (it_count st) < 2 ^ 29" and len: "length s < 2 ^ 32"
  shows "case obj_string_new st s of
      Some (p, st') \<Rightarrow> it_inv st' \<and> st_abs st' = (st_abs st)(s \<mapsto> p) \<and> os_data (st_heap st' ! p) = s \<and>
        (case st_abs st s of
           Some q \<Rightarrow> p = q \<and> st' = st
         | None \<Rightarrow> p = length (st_heap st) \<and> length (st_heap st') = length (st_heap st) + 1 \<and>
             unat (it_count st') = unat (it_count st) + 1)
    | None \<Rightarrow> Empty \<notin> set (it_entries st) \<and> st_abs st s = None"
proof (cases "intern_table_find st s (hash_string s)")
  case None
  then show ?thesis using find_returns_iff [OF inv len] by (auto simp: obj_string_new_def Let_def)
next
  case (Some r)
  then have r: "r = st_abs st s" using find_correct [OF inv len] by simp
  show ?thesis
  proof (cases r)
    case (Some q)
    then have "(st_abs st)(s \<mapsto> q) = st_abs st" using r by (simp add: fun_upd_idem)
    then show ?thesis
      using Some r \<open>intern_table_find _ _ _ = _\<close> inv st_abs_SomeD [of st s q]
      by (auto simp: obj_string_new_def Let_def)
  next
    case None
    have free: "Empty \<in> set (it_entries st)"
      using find_returns_iff [OF inv len] \<open>intern_table_find _ _ _ = _\<close> None r by auto
    let ?x = "\<lparr>os_length = of_nat (length s), os_hash = hash_string s, os_data = s\<rparr>"
    let ?st = "st\<lparr>st_heap := st_heap st @ [?x]\<rparr>" and ?p = "length (st_heap st)"
    have q: "os_data ((st_heap st @ [?x]) ! q) \<noteq> s" if "Live q \<in> set (it_entries st)" for q
    proof -
      have "q < length (st_heap st)" using that inv by (simp add: it_inv_def)
      then show ?thesis using that None r by (simp add: st_abs_None nth_append)
    qed
    have "\<exists>st'. intern_table_insert ?st ?p = Some st' \<and> it_inv st' \<and> st_heap st' = st_heap ?st \<and>
       st_abs st' = (st_abs ?st)(os_data (st_heap ?st ! ?p) \<mapsto> ?p) \<and>
       unat (it_count st') = unat (it_count ?st) + 1"
      by (rule intern_insert_correct [OF it_inv_alloc(1) [OF inv]])
        (use free small len q in \<open>simp_all add: str_ok_def\<close>)
    then show ?thesis
      using None r \<open>intern_table_find _ _ _ = _\<close>
      by (auto simp: obj_string_new_def Let_def it_inv_alloc(2) [OF inv])
  qed
qed


subsection \<open>Collection\<close>

lemma option_filterI:
  assumes "\<And>p. x = Some p \<longleftrightarrow> y = Some p \<and> m p"
  shows "x = (case y of Some p \<Rightarrow> if m p then Some p else None | None \<Rightarrow> None)"
proof (cases "\<exists>p. y = Some p \<and> m p")
  case True
  then obtain p where "y = Some p" "m p" by blast
  then show ?thesis using assms [of p] by simp
next
  case False
  then have "x = None" using assms not_Some_eq by metis
  then show ?thesis using False by (cases y) auto
qed

definition sweep_slot :: "(str_ptr \<Rightarrow> bool) \<Rightarrow> str_ptr slot \<Rightarrow> str_ptr slot" where
  "sweep_slot marked e = (case e of Live p \<Rightarrow> if marked p then Live p else Tomb | _ \<Rightarrow> e)"

lemma sweep_slot_Live [simp]: "sweep_slot marked e = Live p \<longleftrightarrow> e = Live p \<and> marked p"
proof (cases e)
  case (Live q)
  then show ?thesis by (cases "marked q") (auto simp: sweep_slot_def)
qed (simp_all add: sweep_slot_def)

lemma sweep_slot_is [simp]:
  "sweep_slot marked e = Empty \<longleftrightarrow> e = Empty"
  "is_Live (sweep_slot marked e) \<longleftrightarrow> is_Live e \<and> marked (live_key e)"
  by (cases e; simp add: sweep_slot_def)+

lemma live_sweep_slot [simp]: "Live p = sweep_slot marked e \<longleftrightarrow> e = Live p \<and> marked p"
  unfolding eq_commute [of "Live p"] by (rule sweep_slot_Live)

lemma remove_unmarked_map:
  "fst (remove_unmarked_loop marked es n) =
   map (sweep_slot marked) es"
proof (induction es arbitrary: n)
  case (Cons e es)
  show ?case by (cases e) (simp_all add: case_prod_unfold Let_def sweep_slot_def Cons.IH)
qed simp

lemma sweep_count_le: "count_live (map (sweep_slot marked) es) \<le> count_live es"
  by (induction es) (simp_all add: count_live_def)

lemma remove_unmarked_count:
  "snd (remove_unmarked_loop marked es n) + of_nat (count_live es) =
   n + of_nat (count_live (fst (remove_unmarked_loop marked es n)))"
proof (induction es arbitrary: n)
  case (Cons e es)
  then show ?case
    using Cons.IH [of n] Cons.IH [of "n - 1"]
    by (cases e) (simp_all add: count_live_def sweep_slot_def case_prod_unfold Let_def algebra_simps)
qed (simp add: count_live_def)

lemma slots_ok_tombs:
  assumes "slots_ok h ks"
  shows "slots_ok h (map (sweep_slot marked) ks)"
    (is "slots_ok h (map ?f ks)")
proof (rule slots_okI)
  fix p k assume p: "p < length (map ?f ks)" "map ?f ks ! p = Live k"
  then have "ks ! p = Live k" by simp
  then have "path_ok h ks k p" using slots_ok_path [OF assms] p by simp
  moreover have "slot_pos h (length ks) k e < length ks" for e
    using p(1) by (intro slot_pos_less) auto
  ultimately show "path_ok h (map ?f ks) k p" by (auto simp: path_ok_def)
next
  fix p q k
  assume "p < length (map ?f ks)" "q < length (map ?f ks)" "map ?f ks ! p = Live k" "map ?f ks ! q = Live k"
  then show "p = q" using slots_ok_unique [OF assms, of p q k] by simp
qed

lemma remove_unmarked_live:
  "Live p \<in> set (map (sweep_slot marked) es) \<longleftrightarrow>
   Live p \<in> set es \<and> marked p"
  by (auto simp: image_iff)

text \<open>C13: The collector's sweep of a well-formed intern table drops exactly the unmarked strings:
  every marked one keeps its pointer and stays findable across the tombstones left behind.\<close>
theorem remove_unmarked_exact:
  assumes inv: "it_inv st"
  shows "it_inv (intern_table_remove_unmarked marked st) \<and>
    st_heap (intern_table_remove_unmarked marked st) = st_heap st \<and>
    st_abs (intern_table_remove_unmarked marked st) s =
      (case st_abs st s of Some p \<Rightarrow> if marked p then Some p else None | None \<Rightarrow> None)"
proof -
  let ?es = "map (sweep_slot marked) (it_entries st)"
  let ?st = "intern_table_remove_unmarked marked st"
  obtain n where n: "remove_unmarked_loop marked (it_entries st) (it_count st) = (?es, n)"
    using remove_unmarked_map [of marked "it_entries st" "it_count st"] by (metis prod.collapse)
  have st: "?st = st\<lparr>it_entries := ?es, it_count := n\<rparr>"
    by (simp add: intern_table_remove_unmarked_def n)
  have t: "unat (it_count st) = count_live (it_entries st)" "slots_ok (ptr_hash (st_heap st)) (it_entries st)"
    "unat (it_capacity st) \<le> 2 ^ 30" using inv by (simp_all add: it_inv_def)
  have "n + of_nat (count_live (it_entries st)) = it_count st + of_nat (count_live ?es)"
    using remove_unmarked_count [of marked "it_entries st" "it_count st"] n by simp
  moreover have "it_count st = of_nat (count_live (it_entries st))" using t(1) by (metis word_unat_eq_iff unat_of_nat unsigned_less mod_less)
  ultimately have nn: "n = of_nat (count_live ?es)" by simp
  have "count_live ?es \<le> count_live (it_entries st)" by (rule sweep_count_le)
  moreover have "count_live (it_entries st) \<le> unat (it_capacity st)"
    using count_live_le [of "it_entries st"] inv by (simp add: it_inv_def)
  ultimately have "count_live ?es \<le> count_live (it_entries st)" "count_live ?es < 2 ^ 32"
    using sweep_count_le [of marked "it_entries st"] t(3) by simp_all
  then have un: "unat n = count_live ?es" "unat n \<le> unat (it_count st)"
    using t(1) by (simp_all add: nn unat_of_nat)
  have cd: "contents_distinct ?es (st_heap st)"
    by (rule contents_distinct_cong [of "it_entries st" "st_heap st"])
      (use inv in \<open>auto simp: it_inv_def remove_unmarked_live simp del: set_map\<close>)
  have inv': "it_inv ?st"
    using inv un slots_ok_tombs [OF t(2), of marked] cd
    by (simp add: st it_inv_def remove_unmarked_live del: set_map)
  moreover have "st_abs ?st s = (case st_abs st s of Some p \<Rightarrow> if marked p then Some p else None | None \<Rightarrow> None)"
  proof -
    have "st_abs ?st s = Some p \<longleftrightarrow> st_abs st s = Some p \<and> marked p" for p
      unfolding st_abs_Some [OF inv'] st_abs_Some [OF inv] by (auto simp: st remove_unmarked_live simp del: set_map)
    then show ?thesis by (rule option_filterI)
  qed
  ultimately show ?thesis by (simp add: st)
qed

lemma it_inv_init: "it_inv intern_table_init" "st_abs intern_table_init = Map.empty"
proof -
  have "unat (64 :: u32) = 2 ^ 6" by simp
  then show "it_inv intern_table_init"
    by (auto simp: it_inv_def intern_table_init_def INTERN_TABLE_INIT_CAP_def pow2_cap_def slots_ok_fresh
        contents_distinct_def intro: exI [of _ 6])
  show "st_abs intern_table_init = Map.empty"
    by (rule ext) (simp add: st_abs_None intern_table_init_def)
qed


fun intern_all :: "intern_table \<Rightarrow> string list \<Rightarrow> intern_table option" where
  "intern_all st [] = Some st"
| "intern_all st (s # ss) = Option.bind (obj_string_new st s) (\<lambda>(_, st). intern_all st ss)"

declare intern_find_probe.simps [code] intern_insert_probe.simps [code] intern_grow_probe.simps [code]

text \<open>Two batches of 32 short-lived strings whose hashes fill the 64 slots of the initial table.\<close>

definition intern_churn :: "intern_table option" where
  "intern_churn =
     Option.bind (intern_all intern_table_init (map (\<lambda>i. [char_of (i + 64)]) [0..<32]))
       (\<lambda>st. map_option (intern_table_remove_unmarked (\<lambda>_. False))
          (intern_all (intern_table_remove_unmarked (\<lambda>_. False) st) (map (\<lambda>i. [char_of (i + 96)]) [0..<32])))"

lemma intern_churn_table:
  "map_option (\<lambda>st. (list_all is_Tomb (it_entries st), it_capacity st, length (it_entries st), it_count st)) intern_churn =
   Some (True, 64, 64, 0)"
  by code_simp

text \<open>Two batches of 32 short-lived strings, each collected, fill the initial intern table with
  tombstones while its count is 0; then creating any string never returns, because the search
  loop stops only at a free slot and only insertion, which comes after it, can grow the table.\<close>
theorem intern_tombstones_hang:
  "\<exists>st. intern_churn = Some st \<and> it_count st = 0 \<and> obj_string_new st s = None"
proof -
  obtain st where st: "intern_churn = Some st" "list_all is_Tomb (it_entries st)"
      "it_capacity st = 64" "length (it_entries st) = 64" "it_count st = 0"
    using intern_churn_table by auto
  have cap: "pow2_cap 64" by (auto simp: pow2_cap_def intro: exI [of _ 6])
  have "\<not> find_stop (it_entries st) (st_heap st) s (hash_string s) i" if "i < 64" for i
  proof -
    have "unat i < length (it_entries st)" using that st(4) by (simp add: word_less_nat_alt)
    then have "is_Tomb (it_entries st ! unat i)" using st(2) by (simp add: list_all_length)
    then show ?thesis by (simp add: find_stop_def is_Tomb_def)
  qed
  then have "intern_find_probe (it_entries st) 64 (st_heap st) s (hash_string s) (hash_string s AND (64 - 1)) = None"
    using find_loop.loop_diverges [OF cap start_less [OF cap, of hash_string s]] by blast
  then have "obj_string_new st s = None"
    by (simp add: obj_string_new_def intern_table_find_def Let_def st(3))
  then show ?thesis using st by blast
qed

subsection \<open>Examples\<close>

lemma init_count: "unat (it_count intern_table_init) < 2 ^ 29"
  by (simp add: intern_table_init_def)

lemma init_fresh: "Empty \<in> set (it_entries intern_table_init)" "st_heap intern_table_init = []"
  "unat (it_count intern_table_init) = 0"
  by (simp_all add: intern_table_init_def INTERN_TABLE_INIT_CAP_def)


lemma demo_table:
  "\<exists>st. obj_string_new intern_table_init ''a'' = Some (0, st) \<and> it_inv st \<and>
     st_abs st = [''a'' \<mapsto> 0] \<and> unat (it_count st) = 1"
proof -
  have "length ''a'' < 2 ^ 32" by simp
  from intern_step [OF it_inv_init(1) init_count this] show ?thesis
    by (auto simp: it_inv_init(2) init_fresh split: option.splits)
qed

theorem remove_unmarked_exact_witness:
  "\<exists>st. obj_string_new intern_table_init ''a'' = Some (0, st) \<and> st_abs st ''a'' = Some 0 \<and>
     st_abs (intern_table_remove_unmarked (\<lambda>_. False) st) ''a'' = None \<and>
     st_abs (intern_table_remove_unmarked (\<lambda>p. p = 0) st) ''a'' = Some 0"
proof -
  obtain st where st: "obj_string_new intern_table_init ''a'' = Some (0, st)" "it_inv st"
    "st_abs st = [''a'' \<mapsto> 0]" using demo_table by blast
  show ?thesis
    using st(1,3) remove_unmarked_exact [OF st(2), of _ "''a''"] by (intro exI [of _ st]) simp
qed

lemma demo_second:
  "map_option fst (Option.bind (obj_string_new intern_table_init ''a'') (\<lambda>(_, st). obj_string_new st ''b'')) = Some 1"
  by code_simp


end
