(* ===== verification/Router.thy ===== *)
theory Router
  imports Vek_Prelude
begin

section \<open>The URL router\<close>

text \<open>
  \<open>router.c\<close>: a trie of path segments, literal or \<open>:param\<close>, with one handler per HTTP method
  at each node.  The first part holds the definitions, the second a list-of-successes reference
  for the backtracking match, the third the view of the trie as a finite map from patterns to
  handlers.  C strings are Isabelle strings (a pattern holds no NUL); a null pointer is
  \<open>None\<close>; \<open>calloc\<close> does not fail.
\<close>

subsection \<open>Nodes and insertion\<close>

datatype 'h router_node = RouterNode
  (segment: string) (is_param: bool) (handlers: "'h option list") (children: "'h router_node list")

record route_param =
  rp_name :: string
  rp_value :: string

definition ROUTER_MAX_PARAMS :: nat where "ROUTER_MAX_PARAMS = 16"
definition ROUTER_MAX_CHILDREN :: nat where "ROUTER_MAX_CHILDREN = 32"
definition ROUTER_MAX_SEGMENT :: nat where "ROUTER_MAX_SEGMENT = 128"
definition ROUTE_METHOD_COUNT :: nat where "ROUTE_METHOD_COUNT = 7"

lemmas router_limits = ROUTER_MAX_PARAMS_def ROUTER_MAX_CHILDREN_def ROUTER_MAX_SEGMENT_def
  ROUTE_METHOD_COUNT_def

definition node_new :: "string \<Rightarrow> bool \<Rightarrow> 'h router_node" where
  "node_new seg par =
     (let copy_len = (if length seg < ROUTER_MAX_SEGMENT - 1 then length seg else ROUTER_MAX_SEGMENT - 1)
      in RouterNode (take copy_len seg) par (replicate ROUTE_METHOD_COUNT None) [])"

type_synonym 'h router = "'h router_node option"

definition router_init :: "'h router" where
  "router_init = Some (node_new [] False)"

definition child_is :: "bool \<Rightarrow> string \<Rightarrow> 'h router_node \<Rightarrow> bool" where
  "child_is par seg child \<longleftrightarrow> is_param child = par \<and>
     length (segment child) = length seg \<and> segment child = seg"

fun find_child :: "bool \<Rightarrow> string \<Rightarrow> 'h router_node list \<Rightarrow> nat option" where
  "find_child par seg [] = None"
| "find_child par seg (c # cs) =
     (if child_is par seg c then Some 0 else map_option Suc (find_child par seg cs))"

text \<open>The child list after the call, and the index of the child it returns.\<close>

definition find_or_create_child ::
  "'h router_node list \<Rightarrow> string \<Rightarrow> bool \<Rightarrow> ('h router_node list \<times> nat) option" where
  "find_or_create_child cs seg par =
     (case find_child par seg cs of
        Some i \<Rightarrow> Some (cs, i)
      | None \<Rightarrow>
          if ROUTER_MAX_CHILDREN \<le> length cs then None
          else Some (cs @ [node_new seg par], length cs))"

definition skip_slash :: "string \<Rightarrow> string" where
  "skip_slash p = (case p of c # q \<Rightarrow> if c = CHR ''/'' then q else p | [] \<Rightarrow> [])"

definition next_segment :: "string \<Rightarrow> string" where
  "next_segment p = takeWhile (\<lambda>c. c \<noteq> CHR ''/'') p"

lemma length_skip_slash: "length (skip_slash p) \<le> length p"
  by (simp add: skip_slash_def split: list.split)

lemma skip_rest_shorter:
  "p \<noteq> [] \<Longrightarrow> length (skip_slash (drop (length (next_segment p)) p)) < length p"
proof (cases "next_segment p = []")
  case True
  then show "p \<noteq> [] \<Longrightarrow> ?thesis" by (cases p) (auto simp: next_segment_def skip_slash_def split: if_splits)
next
  case False
  then show "p \<noteq> [] \<Longrightarrow> ?thesis"
    using length_skip_slash [of "drop (length (next_segment p)) p"]
    by (cases p) (auto simp del: drop_Suc_Cons elim!: le_less_trans)
qed

text \<open>The loop of \<open>router_add\<close>; the node that \<open>current\<close> points to is rebuilt in its parent.\<close>

function add_segments ::
  "'h router_node \<Rightarrow> nat \<Rightarrow> string \<Rightarrow> 'h option \<Rightarrow> 'h router_node" where
  "add_segments (RouterNode s par hs cs) method p handler =
     (if p = [] then RouterNode s par (hs[method := handler]) cs
      else
        let seg = next_segment p;
            rest = drop (length seg) p;
            is_par = (hd p = CHR '':'');
            actual_seg = (if is_par then tl seg else seg)
        in case find_or_create_child cs actual_seg is_par of
             None \<Rightarrow> RouterNode s par hs cs
           | Some (cs', i) \<Rightarrow>
               RouterNode s par hs
                 (cs'[i := add_segments (cs' ! i) method (skip_slash rest) handler]))"
  by pat_completeness auto
termination
  by (relation "measure (\<lambda>(n, m, p, h). length p)") (simp_all add: skip_rest_shorter)

declare add_segments.simps [simp del]

definition router_add :: "'h router \<Rightarrow> int \<Rightarrow> string \<Rightarrow> 'h option \<Rightarrow> 'h router" where
  "router_add router method path handler =
     (case router of
        None \<Rightarrow> None
      | Some root \<Rightarrow>
          if method < 0 \<or> int ROUTE_METHOD_COUNT \<le> method then Some root
          else
            let p = skip_slash path in
            if p = [] then Some (RouterNode (segment root) (is_param root)
                ((handlers root)[nat method := handler]) (children root))
            else Some (add_segments root (nat method) p handler))"

subsection \<open>Matching\<close>

function match_recursive ::
    "'h router_node \<Rightarrow> string \<Rightarrow> nat \<Rightarrow> route_param list \<Rightarrow> 'h option \<times> route_param list"
  and match_literals ::
    "'h router_node list \<Rightarrow> string \<Rightarrow> string \<Rightarrow> nat \<Rightarrow> route_param list \<Rightarrow> 'h option \<times> route_param list"
  and match_params ::
    "'h router_node list \<Rightarrow> string \<Rightarrow> string \<Rightarrow> nat \<Rightarrow> route_param list \<Rightarrow> 'h option \<times> route_param list"
where
  "match_recursive (RouterNode s par hs cs) path method params =
     (let path' = skip_slash path in
      if path' = [] then (hs ! method, params)
      else
        let seg = next_segment path';
            remaining = drop (length seg) path';
            (result, params') = match_literals cs seg remaining method params
        in if result \<noteq> None then (result, params')
           else match_params cs seg remaining method params')"
| "match_literals [] seg remaining method params = (None, params)"
| "match_literals (c # cs) seg remaining method params =
     (if \<not> is_param c \<and> length (segment c) = length seg \<and> segment c = seg
      then
        let (result, params') = match_recursive c remaining method params
        in if result \<noteq> None then (result, params')
           else match_literals cs seg remaining method params'
      else match_literals cs seg remaining method params)"
| "match_params [] seg remaining method params = (None, params)"
| "match_params (c # cs) seg remaining method params =
     (if is_param c \<and> length params < ROUTER_MAX_PARAMS
      then
        let saved_count = length params;
            param = \<lparr>rp_name = segment c, rp_value = seg\<rparr>;
            (result, params') = match_recursive c remaining method (params @ [param])
        in if result \<noteq> None then (result, params')
           else match_params cs seg remaining method (take saved_count params')
      else match_params cs seg remaining method params)"

  by pat_completeness auto
termination
  by (relation "measure (\<lambda>x. case x of Inl (n, _) \<Rightarrow> size n
     | Inr (Inl (cs, _)) \<Rightarrow> size_list size cs | Inr (Inr (cs, _)) \<Rightarrow> size_list size cs)") auto

definition router_match ::
  "'h router \<Rightarrow> int \<Rightarrow> string \<Rightarrow> route_param list \<Rightarrow> 'h option \<times> route_param list" where
  "router_match router method path params =
     (case router of
        None \<Rightarrow> (None, params)
      | Some root \<Rightarrow>
          if method < 0 \<or> int ROUTE_METHOD_COUNT \<le> method then (None, params)
          else match_recursive root path (nat method) [])"

subsection \<open>Segments and patterns\<close>

text \<open>Insertion and matching cut a path into the same segments.\<close>

function segments :: "string \<Rightarrow> string list" where
  "segments p = (if p = [] then []
     else next_segment p # segments (skip_slash (drop (length (next_segment p)) p)))"
  by pat_completeness auto
termination
  by (relation "measure length") (simp_all add: skip_rest_shorter)

declare segments.simps [simp del]

lemma segments_Nil [simp]: "segments [] = []" by (simp add: segments.simps)

lemma segments_step:
  "p \<noteq> [] \<Longrightarrow> segments p = next_segment p # segments (skip_slash (drop (length (next_segment p)) p))"
  by (simp add: segments.simps)

lemma segments_eq_Nil [simp]: "segments p = [] \<longleftrightarrow> p = []"
  by (cases "p = []") (simp_all add: segments_step)

definition seg_pattern :: "string \<Rightarrow> bool \<times> string" where
  "seg_pattern s = (if s \<noteq> [] \<and> hd s = CHR '':'' then (True, tl s) else (False, s))"

definition pattern_of :: "string \<Rightarrow> (bool \<times> string) list" where
  "pattern_of p = map seg_pattern (segments (skip_slash p))"

lemma next_segment_hd: "p \<noteq> [] \<Longrightarrow> hd p = CHR '':'' \<longleftrightarrow> next_segment p \<noteq> [] \<and> hd (next_segment p) = CHR '':''"
  by (cases p) (auto simp: next_segment_def)

subsection \<open>The list of all matches\<close>

fun matches :: "'h router_node \<Rightarrow> string list \<Rightarrow> nat \<Rightarrow> ('h \<times> route_param list) list" where
  "matches n [] m = (case handlers n ! m of None \<Rightarrow> [] | Some h \<Rightarrow> [(h, [])])"
| "matches n (s # ss) m =
     concat (map (\<lambda>c. if \<not> is_param c \<and> segment c = s then matches c ss m else []) (children n)) @
     concat (map (\<lambda>c. if is_param c
       then map (\<lambda>(h, ps). (h, \<lparr>rp_name = segment c, rp_value = s\<rparr> # ps)) (matches c ss m) else [])
       (children n))"

definition fits :: "nat \<Rightarrow> 'h \<times> route_param list \<Rightarrow> bool" where
  "fits k r \<longleftrightarrow> k + length (snd r) \<le> ROUTER_MAX_PARAMS"

fun first_match :: "route_param list \<Rightarrow> ('h \<times> route_param list) list \<Rightarrow> 'h option \<times> route_param list" where
  "first_match ps [] = (None, ps)"
| "first_match ps (r # rs) = (if fits (length ps) r then (Some (fst r), ps @ snd r) else first_match ps rs)"

lemma first_match_append:
  "first_match ps (rs @ ss) = (case first_match ps rs of (None, _) \<Rightarrow> first_match ps ss | r \<Rightarrow> r)"
  by (induction rs) auto

lemma first_match_None: "first_match ps rs = (None, qs) \<Longrightarrow> qs = ps"
  by (induction rs) (auto split: if_splits)

lemma first_match_None_eq:
  "first_match ps rs = (None, qs) \<longleftrightarrow> fst (first_match ps rs) = None \<and> qs = ps"
  "(None, qs) = first_match ps rs \<longleftrightarrow> fst (first_match ps rs) = None \<and> qs = ps"
  by (metis first_match_None fst_conv prod.collapse)+

lemma first_match_None_iff: "fst (first_match ps rs) = None \<longleftrightarrow> (\<forall>r \<in> set rs. \<not> fits (length ps) r)"
  by (induction rs) auto

lemma first_match_Some:
  "first_match ps rs = (Some h, qs) \<Longrightarrow> \<exists>r \<in> set rs. fits (length ps) r \<and> h = fst r \<and> qs = ps @ snd r"
  by (induction rs) (auto split: if_splits)

lemma first_match_full:
  "ROUTER_MAX_PARAMS \<le> length ps \<Longrightarrow> first_match ps (map (\<lambda>(h, qs). (h, p # qs)) rs) = (None, ps)"
  by (induction rs) (auto simp: fits_def)

lemma first_match_map:
  "first_match ps (map (\<lambda>(h, qs). (h, p # qs)) rs) = (if length ps < ROUTER_MAX_PARAMS
     then case first_match (ps @ [p]) rs of (None, _) \<Rightarrow> (None, ps) | r \<Rightarrow> r else (None, ps))"
  by (induction rs) (auto simp: fits_def)

lemma match_first:
  fixes n :: "'h router_node" and cs :: "'h router_node list"
  shows "length ps \<le> ROUTER_MAX_PARAMS \<Longrightarrow>
     match_recursive n path m ps = first_match ps (matches n (segments (skip_slash path)) m)"
  "length ps \<le> ROUTER_MAX_PARAMS \<Longrightarrow>
     match_literals cs seg rest m ps = first_match ps (concat (map (\<lambda>c. if \<not> is_param c \<and> segment c = seg
     then matches c (segments (skip_slash rest)) m else []) cs))"
  "length ps \<le> ROUTER_MAX_PARAMS \<Longrightarrow>
     match_params cs seg rest m ps = first_match ps (concat (map (\<lambda>c. if is_param c
     then map (\<lambda>(h, ps). (h, \<lparr>rp_name = segment c, rp_value = seg\<rparr> # ps))
       (matches c (segments (skip_slash rest)) m) else []) cs))"
proof (induction n path m ps and cs seg rest m ps and cs seg rest m ps
    rule: match_recursive_match_literals_match_params.induct)
  case (1 s par hs cs path mth params)
  show ?case
  proof (cases "skip_slash path = []")
    case True
    then show ?thesis using 1(3) by (auto split: option.splits simp: fits_def)
  next
    case False
    note lit = 1(1) [OF refl False refl refl 1(3)] and par = 1(2) [OF refl False refl refl]
    obtain r qs where r: "match_literals cs (next_segment (skip_slash path))
        (drop (length (next_segment (skip_slash path))) (skip_slash path)) mth params = (r, qs)"
      by force
    show ?thesis
    proof (cases r)
      case None
      then have "qs = params" using first_match_None [OF lit [symmetric, unfolded r None]] by simp
      then show ?thesis
        using False None r lit par [OF r [symmetric] refl _ ] 1(3)
        by (simp add: segments_step Let_def first_match_append)
    next
      case (Some h)
      then show ?thesis
        using False r lit by (simp add: segments_step Let_def first_match_append)
    qed
  qed
next
  case (3 c cs seg remaining mth params)
  then show ?case
    by (auto simp: first_match_append first_match_None_eq split: prod.splits option.splits)
next
  case (5 c cs seg remaining mth params)
  then show ?case
    by (auto simp: first_match_append first_match_map first_match_full first_match_None_eq Let_def
        split: prod.splits option.splits)
qed simp_all

subsection \<open>The trie as a finite map from patterns to handlers\<close>

fun wf_node :: "'h router_node \<Rightarrow> bool" where
  "wf_node (RouterNode s par hs cs) \<longleftrightarrow>
     length s < ROUTER_MAX_SEGMENT \<and> length hs = ROUTE_METHOD_COUNT \<and>
     length cs \<le> ROUTER_MAX_CHILDREN \<and>
     distinct (map (\<lambda>c. (is_param c, segment c)) cs) \<and> (\<forall>c \<in> set cs. wf_node c)"

fun route_get :: "'h router_node \<Rightarrow> (bool \<times> string) list \<Rightarrow> nat \<Rightarrow> 'h option" where
  "route_get n [] m = handlers n ! m"
| "route_get n ((par, seg) # pat) m =
     (case find_child par seg (children n) of
        None \<Rightarrow> None
      | Some i \<Rightarrow> route_get (children n ! i) pat m)"

text \<open>Whether the insertion finds or can create a node at every level.\<close>

fun room :: "'h router_node \<Rightarrow> (bool \<times> string) list \<Rightarrow> bool" where
  "room n [] = True"
| "room n ((par, seg) # pat) =
     (case find_child par seg (children n) of
        None \<Rightarrow> length (children n) < ROUTER_MAX_CHILDREN
      | Some i \<Rightarrow> room (children n ! i) pat)"

fun pattern_match :: "(bool \<times> string) list \<Rightarrow> string list \<Rightarrow> route_param list option" where
  "pattern_match [] [] = Some []"
| "pattern_match ((True, x) # pat) (s # ss) =
     map_option ((#) \<lparr>rp_name = x, rp_value = s\<rparr>) (pattern_match pat ss)"
| "pattern_match ((False, x) # pat) (s # ss) = (if x = s then pattern_match pat ss else None)"
| "pattern_match _ _ = None"

lemma find_child_Some:
  "find_child par seg cs = Some i \<Longrightarrow> i < length cs \<and> is_param (cs ! i) = par \<and> segment (cs ! i) = seg"
  by (induction cs arbitrary: i) (auto simp: child_is_def split: if_splits)

lemma find_child_None:
  "find_child par seg cs = None \<longleftrightarrow> (\<forall>c \<in> set cs. \<not> (is_param c = par \<and> segment c = seg))"
  by (induction cs) (auto simp: child_is_def)

lemma find_child_distinct:
  assumes "distinct (map (\<lambda>c. (is_param c, segment c)) cs)" and "i < length cs"
  shows "find_child (is_param (cs ! i)) (segment (cs ! i)) cs = Some i"
proof (cases "find_child (is_param (cs ! i)) (segment (cs ! i)) cs")
  case None
  then show ?thesis using assms(2) by (auto simp: find_child_None)
next
  case (Some j)
  from find_child_Some [OF this] show ?thesis
    using assms Some by (auto simp: distinct_conv_nth)
qed

lemma find_child_update:
  assumes "is_param c = is_param (cs ! i)" and "segment c = segment (cs ! i)"
  shows "find_child par seg (cs[i := c]) = find_child par seg cs"
  using assms by (induction cs arbitrary: i) (auto simp: child_is_def nth_Cons split: nat.splits)

lemma find_child_append:
  "find_child par seg (cs @ [c]) = (case find_child par seg cs of Some i \<Rightarrow> Some i
     | None \<Rightarrow> if child_is par seg c then Some (length cs) else None)"
  by (induction cs) (auto split: option.splits)

lemma add_segments_key [simp]:
  "segment (add_segments n m p h) = segment n" "is_param (add_segments n m p h) = is_param n"
  by (cases n; simp add: add_segments.simps Let_def split: option.splits)+

lemma node_new_simps [simp]:
  "children (node_new seg par) = []" "is_param (node_new seg par) = par"
  "length seg < ROUTER_MAX_SEGMENT \<Longrightarrow> segment (node_new seg par) = seg"
  "handlers (node_new seg par) = replicate ROUTE_METHOD_COUNT None"
  by (auto simp: node_new_def Let_def router_limits)

lemma wf_node_new: "wf_node (node_new seg par)"
  by (simp add: node_new_def Let_def router_limits)

lemma route_get_new: "m < ROUTE_METHOD_COUNT \<Longrightarrow> route_get (node_new seg par) pat m = None"
  by (cases "(node_new seg par, pat, m)" rule: route_get.cases) auto

lemma room_new: "room (node_new seg par) pat"
  by (cases "(node_new seg par, pat)" rule: room.cases) (auto simp: router_limits)

text \<open>What \<open>find_or_create_child\<close> promises: the child it returns carries the key, and a lookup of
  any key sees the old children, plus the new empty node.\<close>

lemma find_or_create_child:
  assumes "distinct (map (\<lambda>c. (is_param c, segment c)) cs)" and "length seg < ROUTER_MAX_SEGMENT"
    and "length cs \<le> ROUTER_MAX_CHILDREN"
  shows "case find_or_create_child cs seg par of
      None \<Rightarrow> find_child par seg cs = None \<and> length cs = ROUTER_MAX_CHILDREN
    | Some (cs', i) \<Rightarrow> i < length cs' \<and> length cs' \<le> ROUTER_MAX_CHILDREN \<and>
        is_param (cs' ! i) = par \<and> segment (cs' ! i) = seg \<and>
        distinct (map (\<lambda>c. (is_param c, segment c)) cs') \<and>
        (cs' = cs \<and> find_child par seg cs = Some i \<or>
         cs' = cs @ [node_new seg par] \<and> i = length cs \<and> find_child par seg cs = None \<and>
         length cs < ROUTER_MAX_CHILDREN)"
  using assms find_child_Some [of par seg cs]
  by (auto simp: find_or_create_child_def find_child_None nth_append split: option.splits)

definition segs_short :: "string \<Rightarrow> bool" where
  "segs_short p \<longleftrightarrow> (\<forall>s \<in> set (segments p). length s < ROUTER_MAX_SEGMENT)"

lemma segs_short_step:
  "p \<noteq> [] \<Longrightarrow> segs_short p \<longleftrightarrow> length (next_segment p) < ROUTER_MAX_SEGMENT \<and>
     segs_short (skip_slash (drop (length (next_segment p)) p))"
  by (simp add: segs_short_def segments_step)

lemma seg_pattern_next:
  "p \<noteq> [] \<Longrightarrow> seg_pattern (next_segment p) =
     (hd p = CHR '':'', if hd p = CHR '':'' then tl (next_segment p) else next_segment p)"
  using next_segment_hd [of p] by (auto simp: seg_pattern_def)

lemma route_get_set:
  "m < length hs \<Longrightarrow> route_get (RouterNode s par (hs[m := h]) cs) pat k =
     (if pat = [] \<and> k = m then h else route_get (RouterNode s par hs cs) pat k)"
  by (cases pat) (auto simp: nth_list_update split: option.split)

text \<open>Rebuilding one child changes the routes through its key only.\<close>

lemma route_get_child:
  assumes dist: "distinct (map (\<lambda>c. (is_param c, segment c)) cs)" and i: "i < length cs"
    and key: "is_param d = is_param (cs ! i)" "segment d = segment (cs ! i)"
  shows "route_get (RouterNode s par hs (cs[i := d])) ((b, a) # pat) k =
    (if b = is_param d \<and> a = segment d then route_get d pat k
     else route_get (RouterNode s par hs cs) ((b, a) # pat) k)"
proof (cases "find_child b a cs")
  case None
  then show ?thesis
    using find_child_distinct [OF dist i] key by (auto simp: find_child_update)
next
  case (Some j)
  from find_child_Some [OF Some] Some show ?thesis
    using find_child_distinct [OF dist i] key i by (auto simp: find_child_update nth_list_update)
qed

lemma route_get_new_child:
  assumes "find_child par' seg cs = None" and "length seg < ROUTER_MAX_SEGMENT" and "k < ROUTE_METHOD_COUNT"
  shows "route_get (RouterNode s par hs (cs @ [node_new seg par'])) pat k = route_get (RouterNode s par hs cs) pat k"
proof (cases pat)
  case (Cons x pat')
  obtain b a where "x = (b, a)" by force
  then show ?thesis
    using assms Cons find_child_Some [of b a cs]
    by (auto simp: find_child_append nth_append child_is_def route_get_new split: option.splits)
qed simp

lemma wf_node_child:
  assumes "wf_node (RouterNode s par hs cs)" and "wf_node d"
    and "is_param d = is_param (cs ! i)" and "segment d = segment (cs ! i)" and "i < length cs"
  shows "wf_node (RouterNode s par hs (cs[i := d]))"
proof -
  have "map (\<lambda>c. (is_param c, segment c)) (cs[i := d]) = map (\<lambda>c. (is_param c, segment c)) cs"
    using assms(3-5) by (simp add: map_update list_update_same_conv)
  then show ?thesis
    using assms set_update_subset_insert [of cs i d] by auto
qed

lemma add_segments_correct:
  assumes "wf_node n" and "segs_short p" and "m < ROUTE_METHOD_COUNT"
  shows "wf_node (add_segments n m p h) \<and> (\<forall>pat k. k < ROUTE_METHOD_COUNT \<longrightarrow>
     route_get (add_segments n m p h) pat k =
       (if room n (map seg_pattern (segments p)) \<and> pat = map seg_pattern (segments p) \<and> k = m
        then h else route_get n pat k))"
  using assms
proof (induction n m p h rule: add_segments.induct)
  case (1 s par hs cs mth p handler)
  show ?case
  proof (cases "p = []")
    case True
    then show ?thesis
      using 1(2,4) by (auto simp: add_segments.simps route_get_set)
  next
    case False
    define b where "b = (hd p = CHR '':'')"
    define a where "a = (if b then tl (next_segment p) else next_segment p)"
    define rest where "rest = skip_slash (drop (length (next_segment p)) p)"
    let ?n = "RouterNode s par hs cs"
    have wf: "distinct (map (\<lambda>c. (is_param c, segment c)) cs)" "length cs \<le> ROUTER_MAX_CHILDREN"
      "\<forall>c \<in> set cs. wf_node c"
      using 1(2) by auto
    have short: "length a < ROUTER_MAX_SEGMENT" "segs_short rest"
      using 1(3) False by (auto simp: segs_short_step a_def rest_def)
    have pat: "map seg_pattern (segments p) = (b, a) # map seg_pattern (segments rest)"
      using False by (simp add: segments_step seg_pattern_next b_def a_def rest_def)
    note fc = find_or_create_child [OF wf(1) short(1) wf(2), of b]
    show ?thesis
    proof (cases "find_or_create_child cs a b")
      case None
      then have "add_segments ?n mth p handler = ?n"
        using False by (simp add: add_segments.simps Let_def a_def b_def)
      moreover have "\<not> room ?n (map seg_pattern (segments p))"
        using fc None by (simp add: pat)
      ultimately show ?thesis using 1(2) by simp
    next
      case (Some r)
      obtain cs' i where r: "r = (cs', i)" by force
      define d where "d = add_segments (cs' ! i) mth rest handler"
      have add: "add_segments ?n mth p handler = RouterNode s par hs (cs'[i := d])"
        using False Some by (simp add: add_segments.simps Let_def a_def b_def r d_def rest_def)
      have c: "i < length cs'" "length cs' \<le> ROUTER_MAX_CHILDREN" "is_param (cs' ! i) = b"
        "segment (cs' ! i) = a" "distinct (map (\<lambda>c. (is_param c, segment c)) cs')"
        "cs' = cs \<and> find_child b a cs = Some i \<or>
         cs' = cs @ [node_new a b] \<and> i = length cs \<and> find_child b a cs = None \<and>
         length cs < ROUTER_MAX_CHILDREN"
        using fc Some r by auto
      have all_wf: "\<forall>c \<in> set cs'. wf_node c" using c(6) wf(3) by (auto simp: wf_node_new)
      then have "wf_node (cs' ! i)" using c(1) by simp
      then have d: "wf_node d"
        "\<And>pat k. k < ROUTE_METHOD_COUNT \<Longrightarrow> route_get d pat k =
          (if room (cs' ! i) (map seg_pattern (segments rest)) \<and> pat = map seg_pattern (segments rest) \<and>
             k = mth then handler else route_get (cs' ! i) pat k)"
        using 1(1) [OF False refl refl b_def refl Some [unfolded a_def] r [symmetric] _ _ 1(4)] short(2)
        by (simp_all add: d_def rest_def)
      have key: "is_param d = is_param (cs' ! i)" "segment d = segment (cs' ! i)"
        by (simp_all add: d_def)
      have "wf_node (RouterNode s par hs cs')" using 1(2) c all_wf by auto
      then have "wf_node (add_segments ?n mth p handler)"
        unfolding add by (rule wf_node_child [OF _ d(1) key c(1)])
      moreover have "route_get (add_segments ?n mth p handler) pat k =
         (if room ?n (map seg_pattern (segments p)) \<and> pat = map seg_pattern (segments p) \<and> k = mth
          then handler else route_get ?n pat k)" if k: "k < ROUTE_METHOD_COUNT" for pat k
      proof (cases pat)
        case Nil
        then show ?thesis by (simp add: add pat)
      next
        case (Cons x pat')
        obtain b' a' where x: "x = (b', a')" by force
        have old: "route_get (RouterNode s par hs cs') pat k = route_get ?n pat k"
          using c(6) route_get_new_child [OF _ short(1) k] by auto
        have "room ?n (map seg_pattern (segments p)) = room (cs' ! i) (map seg_pattern (segments rest))"
          using c(6) by (auto simp: pat room_new)
        moreover have "find_child b a cs' = Some i"
          using find_child_distinct [OF c(5,1)] c(3,4) by simp
        then have "route_get (RouterNode s par hs cs') ((b, a) # pat') k = route_get (cs' ! i) pat' k"
          by simp
        ultimately show ?thesis
          using route_get_child [OF c(5,1) key, of s par hs b' a' pat' k] old key c(3,4)
            d(2) [OF k, of pat']
          by (auto simp: add x Cons pat simp del: route_get.simps(2) room.simps(2))
      qed
      ultimately show ?thesis by blast
    qed
  qed
qed

subsection \<open>Matching against the registered patterns\<close>

lemma wf_node_nth: "wf_node n \<Longrightarrow> i < length (children n) \<Longrightarrow> wf_node (children n ! i)"
  by (cases n) auto

lemma wf_find_child:
  "wf_node n \<Longrightarrow> i < length (children n) \<Longrightarrow>
   find_child (is_param (children n ! i)) (segment (children n ! i)) (children n) = Some i"
  by (cases n) (auto intro: find_child_distinct)

lemma matches_Cons_iff:
  "(h, ps) \<in> set (matches n (s # ss) m) \<longleftrightarrow> (\<exists>i < length (children n). \<exists>qs.
     (h, qs) \<in> set (matches (children n ! i) ss m) \<and>
     (if is_param (children n ! i) then ps = \<lparr>rp_name = segment (children n ! i), rp_value = s\<rparr> # qs
      else segment (children n ! i) = s \<and> ps = qs))"
  by (fastforce simp: in_set_conv_nth [of _ "children n"] split: if_splits)

lemma pattern_match_Cons_iff:
  "pattern_match pat (s # ss) = Some ps \<longleftrightarrow> (\<exists>b x pat' qs. pat = (b, x) # pat' \<and>
     pattern_match pat' ss = Some qs \<and>
     (if b then ps = \<lparr>rp_name = x, rp_value = s\<rparr> # qs else x = s \<and> ps = qs))"
  by (cases "(pat, s # ss)" rule: pattern_match.cases) auto

lemma pattern_match_Nil_iff: "pattern_match pat [] = Some ps \<longleftrightarrow> pat = [] \<and> ps = []"
  by (cases "(pat, [] :: string list)" rule: pattern_match.cases) auto

lemma matches_iff:
  assumes "wf_node n"
  shows "(h, ps) \<in> set (matches n ss m) \<longleftrightarrow>
    (\<exists>pat. route_get n pat m = Some h \<and> pattern_match pat ss = Some ps)"
  using assms
proof (induction ss arbitrary: n ps)
  case Nil
  then show ?case by (auto simp: pattern_match_Nil_iff split: option.splits)
next
  case (Cons s ss)
  show ?case
  proof
    assume "(h, ps) \<in> set (matches n (s # ss) m)"
    then obtain i qs where i: "i < length (children n)" and m: "(h, qs) \<in> set (matches (children n ! i) ss m)"
      and ps: "if is_param (children n ! i) then ps = \<lparr>rp_name = segment (children n ! i), rp_value = s\<rparr> # qs
        else segment (children n ! i) = s \<and> ps = qs"
      unfolding matches_Cons_iff by blast
    obtain pat where pat: "route_get (children n ! i) pat m = Some h" "pattern_match pat ss = Some qs"
      using Cons.IH [OF wf_node_nth [OF Cons.prems i]] m by blast
    let ?pat = "(is_param (children n ! i), segment (children n ! i)) # pat"
    have "route_get n ?pat m = Some h" using wf_find_child [OF Cons.prems i] pat(1) by simp
    moreover have "pattern_match ?pat (s # ss) = Some ps"
      using ps pat(2) by (auto simp: pattern_match_Cons_iff split: if_splits)
    ultimately show "\<exists>pat. route_get n pat m = Some h \<and> pattern_match pat (s # ss) = Some ps" by blast
  next
    assume "\<exists>pat. route_get n pat m = Some h \<and> pattern_match pat (s # ss) = Some ps"
    then obtain b x pat qs where r: "route_get n ((b, x) # pat) m = Some h" "pattern_match pat ss = Some qs"
      and ps: "if b then ps = \<lparr>rp_name = x, rp_value = s\<rparr> # qs else x = s \<and> ps = qs"
      by (auto simp: pattern_match_Cons_iff)
    from r(1) obtain i where i: "find_child b x (children n) = Some i" "route_get (children n ! i) pat m = Some h"
      by (auto split: option.splits)
    note c = find_child_Some [OF i(1)]
    then have "(h, qs) \<in> set (matches (children n ! i) ss m)"
      using Cons.IH [OF wf_node_nth [OF Cons.prems]] i(2) r(2) by blast
    then show "(h, ps) \<in> set (matches n (s # ss) m)"
      unfolding matches_Cons_iff using c ps by auto
  qed
qed

text \<open>A literal route is the first of all matches.\<close>

lemma find_child_least: "find_child b x cs = Some i \<Longrightarrow> j < i \<Longrightarrow> \<not> child_is b x (cs ! j)"
  by (induction cs arbitrary: i j) (auto simp: nth_Cons split: if_splits nat.splits)

lemma matches_literal:
  "route_get n (map (Pair False) ss) m = Some h \<Longrightarrow> \<exists>rs. matches n ss m = (h, []) # rs"
proof (induction ss arbitrary: n)
  case (Cons s ss)
  let ?f = "\<lambda>c. if \<not> is_param c \<and> segment c = s then matches c ss m else []"
  from Cons.prems obtain i where i: "find_child False s (children n) = Some i"
    and r: "route_get (children n ! i) (map (Pair False) ss) m = Some h"
    by (auto split: option.splits)
  note c = find_child_Some [OF i]
  obtain rs where rs: "matches (children n ! i) ss m = (h, []) # rs" using Cons.IH [OF r] by blast
  have "concat (map ?f (take i (children n))) = []"
    using find_child_least [OF i] c by (fastforce simp: in_set_conv_nth child_is_def)
  then have "concat (map ?f (children n)) =
      ?f (children n ! i) @ concat (map ?f (drop (Suc i) (children n)))"
    using id_take_nth_drop [of i "children n"] c by (metis (no_types, lifting) append_Nil concat.simps(2) concat_append list.simps(9) map_append)
  then show ?case using c rs by simp
qed simp

lemma literal_pattern:
  "\<forall>s \<in> set ss. \<not> (s \<noteq> [] \<and> hd s = CHR '':'') \<Longrightarrow> map seg_pattern ss = map (Pair False) ss"
  by (auto simp: seg_pattern_def)

lemma router_add_eq:
  "0 \<le> method \<Longrightarrow> method < 7 \<Longrightarrow> router_add (Some root) method path handler =
     Some (add_segments root (nat method) (skip_slash path) handler)"
  by (cases root) (simp add: router_add_def router_limits add_segments.simps Let_def)

subsection \<open>Example router\<close>

definition demo_root :: "nat router_node" where
  "demo_root = the (router_add (router_add (router_add router_init
     0 ''/posts/:id'' (Some 1)) 0 ''/posts/new'' (Some 2)) 1 ''/:a/:b'' (Some 3))"

lemma demo_root_wf: "wf_node demo_root" "segs_short ''posts/new''" "room demo_root (pattern_of ''/posts/new'')"
  by code_simp+

subsection \<open>The properties\<close>

text \<open>C18: Adding a route whose segments have at most 127 characters stores the handler under the
  route's pattern and method, leaves every other route unchanged, and keeps the trie well formed;
  when some node on the way already has 32 children and none of them is the one needed, every
  route is left unchanged.\<close>
theorem router_add_refines:
  assumes "wf_node root" and "segs_short (skip_slash path)" and "0 \<le> method" and "method < 7"
  shows "\<exists>root'. router_add (Some root) method path handler = Some root' \<and> wf_node root' \<and>
    (\<forall>pat k. k < 7 \<longrightarrow> route_get root' pat k =
       (if room root (pattern_of path) \<and> pat = pattern_of path \<and> k = nat method
        then handler else route_get root pat k))"
proof -
  have m: "nat method < ROUTE_METHOD_COUNT" using assms(3,4) by (simp add: router_limits)
  show ?thesis
    using add_segments_correct [OF assms(1,2) m, of handler] assms(3,4)
    by (simp add: router_add_eq pattern_of_def router_limits)
qed

theorem router_add_refines_witness:
  "\<exists>root'. router_add (Some demo_root) 0 ''/posts/new'' (Some 9) = Some root' \<and>
     route_get root' [(False, ''posts''), (False, ''new'')] 0 = Some 9 \<and>
     route_get root' [(False, ''posts''), (True, ''id'')] 0 = Some 1"
proof -
  have s: "skip_slash ''/posts/new'' = ''posts/new''" by code_simp
  have p: "pattern_of ''/posts/new'' = [(False, ''posts''), (False, ''new'')]" by code_simp
  have o: "route_get demo_root [(False, ''posts''), (True, ''id'')] 0 = Some 1" by code_simp
  from router_add_refines [OF demo_root_wf(1), of "''/posts/new''" 0 "Some 9"]
  show ?thesis using demo_root_wf(2,3) o by (auto simp: s p simp del: route_get.simps room.simps)
qed

text \<open>C19: The recursive match with backtracking returns the first of all matches in the order
  literal children before parameter children at every level, with its parameters in path order,
  among those with at most 16 parameters, and no match leaves no parameters.\<close>
theorem router_match_first:
  assumes "0 \<le> method" and "method < 7"
  shows "router_match (Some root) method path params =
    (case filter (\<lambda>r. length (snd r) \<le> 16) (matches root (segments (skip_slash path)) (nat method)) of
       [] \<Rightarrow> (None, [])
     | (h, ps) # _ \<Rightarrow> (Some h, ps))"
proof -
  have "first_match [] rs = (case filter (\<lambda>r. length (snd r) \<le> 16) rs of
      [] \<Rightarrow> (None, []) | (h, ps) # _ \<Rightarrow> (Some h, ps))" for rs :: "('a \<times> route_param list) list"
    by (induction rs) (auto simp: fits_def router_limits)
  then show ?thesis
    using assms by (simp add: router_match_def router_limits match_first(1))
qed

theorem router_match_first_witness:
  "router_match (Some demo_root) 0 ''/posts/new'' [] = (Some 2, []) \<and>
   map fst (matches demo_root [''posts'', ''new''] 0) = [2, 1]"
proof -
  have "segments (skip_slash ''/posts/new'') = [''posts'', ''new'']" by code_simp
  moreover have "matches demo_root [''posts'', ''new''] 0 =
      [(2, []), (1, [\<lparr>rp_name = ''id'', rp_value = ''new''\<rparr>])]" by code_simp
  ultimately show ?thesis
    using router_match_first [of 0 demo_root "''/posts/new''" "[]"] by simp
qed

text \<open>C17: On a well-formed trie the router is sound and complete: a handler it returns is registered
  under a pattern that the path matches, the captured parameters are the path's segments at the
  pattern's parameters, and there are at most 16; it returns none only when every registered
  pattern that the path matches has more than 16 parameters.\<close>
theorem router_match_exact:
  assumes "wf_node root" and "0 \<le> method" and "method < 7"
  shows "case router_match (Some root) method path params of
      (Some h, ps) \<Rightarrow> length ps \<le> 16 \<and> (\<exists>pat. route_get root pat (nat method) = Some h \<and>
        pattern_match pat (segments (skip_slash path)) = Some ps)
    | (None, ps) \<Rightarrow> ps = [] \<and> (\<forall>pat h qs. route_get root pat (nat method) = Some h \<longrightarrow>
        pattern_match pat (segments (skip_slash path)) = Some qs \<longrightarrow> 16 < length qs)"
proof -
  let ?rs = "matches root (segments (skip_slash path)) (nat method)"
  have eq: "router_match (Some root) method path params = first_match [] ?rs"
    using assms by (simp add: router_match_def router_limits match_first(1))
  obtain r ps where r: "first_match [] ?rs = (r, ps)" by force
  show ?thesis
  proof (cases r)
    case None
    then have "\<forall>x \<in> set ?rs. \<not> fits 0 x" "ps = []"
      using r first_match_None_iff [of "[]" ?rs] first_match_None [of "[]" ?rs ps] by auto
    moreover have "16 < length qs" if "route_get root pat (nat method) = Some h"
        "pattern_match pat (segments (skip_slash path)) = Some qs" for pat h qs
    proof -
      have "(h, qs) \<in> set ?rs" using that matches_iff [OF assms(1)] by blast
      then show ?thesis using \<open>\<forall>x \<in> set ?rs. \<not> fits 0 x\<close> by (auto simp: fits_def router_limits)
    qed
    ultimately show ?thesis unfolding eq r None by simp
  next
    case (Some h)
    obtain x where x: "x \<in> set ?rs" "fits 0 x" "h = fst x" "ps = snd x"
      using first_match_Some [OF r [unfolded Some]] by auto
    then have "(h, ps) \<in> set ?rs" by simp
    then show ?thesis
      unfolding eq r Some using x(2,4) matches_iff [OF assms(1)] by (auto simp: fits_def router_limits)
  qed
qed

theorem router_match_exact_witness:
  "\<exists>pat. route_get demo_root pat 0 = Some 1 \<and>
     pattern_match pat [''posts'', ''7''] = Some [\<lparr>rp_name = ''id'', rp_value = ''7''\<rparr>]"
proof -
  have "router_match (Some demo_root) 0 ''/posts/7'' [] = (Some 1, [\<lparr>rp_name = ''id'', rp_value = ''7''\<rparr>])"
    by code_simp
  moreover have "segments (skip_slash ''/posts/7'') = [''posts'', ''7'']" by code_simp
  ultimately show ?thesis
    using router_match_exact [OF demo_root_wf(1), of 0 "''/posts/7''" "[]"] by simp
qed

text \<open>A literal route, once added, is always the one matched by its own path: no parameter
  route, whenever it was added, takes precedence.\<close>
theorem literal_route_wins:
  assumes "wf_node root" and "segs_short (skip_slash path)" and "room root (pattern_of path)"
    and "\<forall>s \<in> set (segments (skip_slash path)). \<not> (s \<noteq> [] \<and> hd s = CHR '':'')"
    and "0 \<le> method" and "method < 7"
  shows "router_match (router_add (Some root) method path (Some h)) method path params = (Some h, [])"
proof -
  have m: "nat method < ROUTE_METHOD_COUNT" using assms(5,6) by (simp add: router_limits)
  let ?ss = "segments (skip_slash path)"
  let ?n = "add_segments root (nat method) (skip_slash path) (Some h)"
  have add: "router_add (Some root) method path (Some h) = Some ?n"
    using assms(5,6) by (rule router_add_eq)
  have "route_get ?n (map seg_pattern ?ss) (nat method) = Some h"
    using add_segments_correct [OF assms(1,2) m, of "Some h"] assms(3) m by (simp add: pattern_of_def)
  then obtain rs where "matches ?n ?ss (nat method) = (h, []) # rs"
    using matches_literal by (metis literal_pattern [OF assms(4)])
  then show ?thesis
    using assms(5,6) by (simp add: add router_match_def router_limits match_first(1) fits_def)
qed

theorem literal_route_wins_witness:
  "router_match (router_add (Some demo_root) 0 ''/posts/new'' (Some 9)) 0 ''/posts/new'' [] = (Some 9, [])"
proof -
  have s: "skip_slash ''/posts/new'' = ''posts/new''" "segments ''posts/new'' = [''posts'', ''new'']"
    by code_simp+
  show ?thesis
    by (rule literal_route_wins [OF demo_root_wf(1)]) (simp_all add: s demo_root_wf)
qed

text \<open>A one-segment route of 128 characters or more can never be reached: the trie keeps only its
  first 127 characters, so the request for exactly that path finds no handler.\<close>
theorem long_segment_unreachable:
  assumes "CHR ''/'' \<notin> set path" and "hd path \<noteq> CHR '':''" and "128 \<le> length path"
    and "0 \<le> method" and "method < 7"
  shows "router_match (router_add router_init method path (Some h)) method path params = (None, [])"
proof -
  have skip: "skip_slash path = path" using assms(1) by (auto simp: skip_slash_def split: list.split)
  have next_path: "next_segment path = path"
    using assms(1) by (auto simp: next_segment_def takeWhile_eq_all_conv)
  have ne: "path \<noteq> []" using assms(3) by auto
  have "router_add router_init method path (Some h) = Some (RouterNode [] False (replicate 7 None)
      [RouterNode (take 127 path) False ((replicate 7 None)[nat method := Some h]) []])"
    using assms skip next_path ne
    by (simp add: router_add_def router_init_def node_new_def router_limits add_segments.simps Let_def
        find_or_create_child_def skip_slash_def)
  moreover have "length (take 127 path) \<noteq> length path" using assms(3) by simp
  ultimately show ?thesis
    using assms(4,5) skip next_path ne by (auto simp: router_match_def router_limits Let_def)
qed

theorem long_segment_unreachable_witness:
  "router_match (router_add router_init 0 (replicate 128 CHR ''a'') (Some (5 :: nat))) 0
     (replicate 128 CHR ''a'') [] = (None, [])"
  by (rule long_segment_unreachable) simp_all

end
