(* ===== verification/Http_Parser.thy ===== *)
theory Http_Parser
  imports Vek_Prelude
begin

section \<open>The HTTP request parser\<close>

text \<open>
  \<open>http_parser.c\<close>: one pass over a receive buffer, given as the string of its bytes.  A pointer
  into the buffer is an offset; a zero-copy slice \<open>(pointer, uint32_t length)\<close> is the substring,
  whose length is cut to 32 bits as the casts of the code do (\<open>slice32\<close>).  \<open>size_t\<close> is 64 bits.
  A parse that fails returns no request: the code leaves it half filled and its callers drop it.
\<close>

subsection \<open>Definitions\<close>

datatype http_method =
  HTTP_GET | HTTP_POST | HTTP_PUT | HTTP_PATCH | HTTP_DELETE | HTTP_HEAD | HTTP_OPTIONS
  | HTTP_METHOD_UNKNOWN

record http_header =
  hh_name :: string
  hh_value :: string

record http_request =
  rq_method :: http_method
  rq_method_str :: string
  rq_path :: string
  rq_query :: "string option"
  rq_version_major :: int
  rq_version_minor :: int
  rq_headers :: "http_header list"
  rq_body :: "string option"
  rq_body_len :: u64
  rq_content_length :: u64
  rq_keep_alive :: bool
  rq_bytes_consumed :: nat

datatype http_parse_result = HTTP_PARSE_OK http_request | HTTP_PARSE_INCOMPLETE | HTTP_PARSE_ERROR

definition HTTP_MAX_HEADERS :: nat where "HTTP_MAX_HEADERS = 64"
definition MAX_BODY_SIZE :: u64 where "MAX_BODY_SIZE = 1024 * 1024"

abbreviation CR :: char where "CR \<equiv> CHR 0x0D"
abbreviation LF :: char where "LF \<equiv> CHR 0x0A"

definition slice32 :: "string \<Rightarrow> string" where
  "slice32 s = take (unat (of_nat (length s) :: u32)) s"

definition c_tolower :: "char \<Rightarrow> char" where
  "c_tolower c = (if 65 \<le> (of_char c :: nat) \<and> (of_char c :: nat) \<le> 90
     then char_of (of_char c + 32 :: nat) else c)"

definition strncasecmp_eq :: "string \<Rightarrow> string \<Rightarrow> bool" where
  "strncasecmp_eq a b \<longleftrightarrow> length a = length b \<and>
     list_all2 (\<lambda>x y. c_tolower x = c_tolower y) a b"

definition parse_method :: "string \<Rightarrow> http_method" where
  "parse_method s =
     (if s = ''GET'' then HTTP_GET
      else if s = ''PUT'' then HTTP_PUT
      else if s = ''POST'' then HTTP_POST
      else if s = ''HEAD'' then HTTP_HEAD
      else if s = ''PATCH'' then HTTP_PATCH
      else if s = ''DELETE'' then HTTP_DELETE
      else if s = ''OPTIONS'' then HTTP_OPTIONS
      else HTTP_METHOD_UNKNOWN)"

fun http_method_str :: "http_method \<Rightarrow> string" where
  "http_method_str HTTP_GET = ''GET''"
| "http_method_str HTTP_POST = ''POST''"
| "http_method_str HTTP_PUT = ''PUT''"
| "http_method_str HTTP_PATCH = ''PATCH''"
| "http_method_str HTTP_DELETE = ''DELETE''"
| "http_method_str HTTP_HEAD = ''HEAD''"
| "http_method_str HTTP_OPTIONS = ''OPTIONS''"
| "http_method_str HTTP_METHOD_UNKNOWN = ''UNKNOWN''"

fun find_crlf :: "string \<Rightarrow> nat option" where
  "find_crlf (a # b # s) = (if a = CR \<and> b = LF then Some 0 else map_option Suc (find_crlf (b # s)))"
| "find_crlf _ = None"

text \<open>The first loop: the offset of \<open>CRLF CRLF\<close>.\<close>

fun find_header_end :: "string \<Rightarrow> nat option" where
  "find_header_end (a # b # c # d # s) =
     (if a = CR \<and> b = LF \<and> c = CR \<and> d = LF then Some 0
      else map_option Suc (find_header_end (b # c # d # s)))"
| "find_header_end _ = None"

fun memchr :: "char \<Rightarrow> string \<Rightarrow> nat option" where
  "memchr c [] = None"
| "memchr c (a # s) = (if a = c then Some 0 else map_option Suc (memchr c s))"

text \<open>\<open>pos[i] - '0'\<close> with the signed \<open>char\<close> of the target.\<close>

definition char_minus_0 :: "char \<Rightarrow> int" where
  "char_minus_0 c = (if 128 \<le> (of_char c :: int) then of_char c - 256 else of_char c) - 48"

definition parse_request_line :: "string \<Rightarrow> http_request \<Rightarrow> http_request option" where
  "parse_request_line line req =
     (case memchr CHR '' '' line of
        None \<Rightarrow> None
      | Some sp \<Rightarrow>
          let m = slice32 (take sp line);
              req = req\<lparr>rq_method_str := m, rq_method := parse_method m\<rparr>;
              pos = drop (sp + 1) line
          in case memchr CHR '' '' pos of
               None \<Rightarrow> None
             | Some sp \<Rightarrow>
                 let target = take sp pos;
                     req =
                       (case memchr CHR ''?'' target of
                          Some q \<Rightarrow> req\<lparr>rq_path := slice32 (take q target),
                                       rq_query := Some (slice32 (drop (q + 1) target))\<rparr>
                        | None \<Rightarrow> req\<lparr>rq_path := slice32 target, rq_query := None\<rparr>);
                     pos = drop (sp + 1) pos
                 in if length pos < 8 then None
                    else if take 5 pos \<noteq> ''HTTP/'' then None
                    else Some (req\<lparr>rq_version_major := char_minus_0 (pos ! 5),
                                  rq_version_minor := char_minus_0 (pos ! 7)\<rparr>))"

definition parse_header_line :: "string \<Rightarrow> http_header option" where
  "parse_header_line line =
     map_option (\<lambda>colon. \<lparr>hh_name = slice32 (take colon line),
         hh_value = slice32 (dropWhile (\<lambda>c. c = CHR '' '') (drop (colon + 1) line))\<rparr>)
       (memchr CHR '':'' line)"

function parse_headers :: "string \<Rightarrow> nat \<Rightarrow> nat \<Rightarrow> http_header list \<Rightarrow> http_header list option" where
  "parse_headers buf header_end pos hs =
     (if pos < header_end then
        case find_crlf (drop pos buf) of
          None \<Rightarrow> None
        | Some k \<Rightarrow>
            if k = 0 then Some hs
            else
              case parse_header_line (take k (drop pos buf)) of
                None \<Rightarrow> None
              | Some h \<Rightarrow>
                  if HTTP_MAX_HEADERS \<le> length hs then None
                  else parse_headers buf header_end (pos + k + 2) (hs @ [h])
      else Some hs)"
  by pat_completeness auto
termination
  by (relation "measure (\<lambda>(b, e, p, hs). e - p)") auto

declare parse_headers.simps [simp del]

definition digits_step :: "u64 \<Rightarrow> char \<Rightarrow> u64" where
  "digits_step n c = (if 48 \<le> (of_char c :: nat) \<and> (of_char c :: nat) \<le> 57
     then n * 10 + of_nat (of_char c - 48) else n)"

fun scan_headers :: "http_header list \<Rightarrow> u64 \<Rightarrow> bool \<Rightarrow> (u64 \<times> bool) option" where
  "scan_headers [] content_length keep_alive = Some (content_length, keep_alive)"
| "scan_headers (h # hs) content_length keep_alive =
     (let is_cl = strncasecmp_eq (hh_name h) ''content-length'';
          content_length = (if is_cl then foldl digits_step 0 (hh_value h) else content_length)
      in if is_cl \<and> MAX_BODY_SIZE < content_length then None
         else
           let keep_alive =
             (if strncasecmp_eq (hh_name h) ''connection'' then
                if strncasecmp_eq (hh_value h) ''close'' then False
                else if strncasecmp_eq (hh_value h) ''keep-alive'' then True
                else keep_alive
              else keep_alive)
           in scan_headers hs content_length keep_alive)"

definition empty_request :: http_request where
  "empty_request = \<lparr>rq_method = HTTP_GET, rq_method_str = [], rq_path = [], rq_query = None,
     rq_version_major = 0, rq_version_minor = 0, rq_headers = [], rq_body = None, rq_body_len = 0,
     rq_content_length = 0, rq_keep_alive = False, rq_bytes_consumed = 0\<rparr>"

text \<open>From the end of the head on: content length, keep-alive and body.\<close>

definition finish_request :: "string \<Rightarrow> nat \<Rightarrow> http_request \<Rightarrow> http_header list \<Rightarrow> http_parse_result" where
  "finish_request buf header_end req hs =
     (case scan_headers hs 0 False of
        None \<Rightarrow> HTTP_PARSE_ERROR
      | Some (content_length, keep_alive) \<Rightarrow>
          let pos = header_end + 4;
              found_connection = list_ex (\<lambda>h. strncasecmp_eq (hh_name h) ''connection'') hs;
              req' = req\<lparr>rq_headers := hs, rq_content_length := content_length,
                rq_keep_alive := (if found_connection then keep_alive
                  else rq_version_major req = 1 \<and> rq_version_minor req = 1)\<rparr>
          in if content_length > 0 then
               if length buf - pos < unat content_length then HTTP_PARSE_INCOMPLETE
               else HTTP_PARSE_OK (req'\<lparr>
                 rq_body := Some (take (unat content_length) (drop pos buf)),
                 rq_body_len := content_length,
                 rq_bytes_consumed := pos + unat content_length\<rparr>)
             else HTTP_PARSE_OK (req'\<lparr>rq_body := None, rq_body_len := 0, rq_bytes_consumed := pos\<rparr>))"

definition http_parse_request :: "string \<Rightarrow> http_parse_result" where
  "http_parse_request buf =
     (case find_header_end buf of
        None \<Rightarrow> HTTP_PARSE_INCOMPLETE
      | Some header_end \<Rightarrow>
          (case find_crlf buf of
             None \<Rightarrow> HTTP_PARSE_ERROR
           | Some line_end \<Rightarrow>
               (case parse_request_line (take line_end buf) empty_request of
                  None \<Rightarrow> HTTP_PARSE_ERROR
                | Some req \<Rightarrow>
                    (case parse_headers buf header_end (line_end + 2) [] of
                       None \<Rightarrow> HTTP_PARSE_ERROR
                     | Some hs \<Rightarrow> finish_request buf header_end req hs))))"

definition http_get_header :: "http_request \<Rightarrow> string \<Rightarrow> string option" where
  "http_get_header req name =
     map_option hh_value (find (\<lambda>h. strncasecmp_eq (hh_name h) name) (rq_headers req))"

subsection \<open>Line ends\<close>

definition crlf_at :: "string \<Rightarrow> nat \<Rightarrow> bool" where
  "crlf_at s k \<longleftrightarrow> k + 1 < length s \<and> s ! k = CR \<and> s ! (k + 1) = LF"

definition eoh_at :: "string \<Rightarrow> nat \<Rightarrow> bool" where
  "eoh_at s k \<longleftrightarrow> crlf_at s k \<and> crlf_at s (k + 2)"

lemma crlf_at_drop: "crlf_at (drop p s) k \<longleftrightarrow> crlf_at s (p + k)"
  by (auto simp: crlf_at_def)

lemma crlf_at_take: "crlf_at (take n s) k \<longleftrightarrow> k + 1 < n \<and> crlf_at s k"
  by (auto simp: crlf_at_def)

lemma crlf_at_append: "k + 1 < length s \<Longrightarrow> crlf_at (s @ t) k \<longleftrightarrow> crlf_at s k"
  by (auto simp: crlf_at_def nth_append)

lemma crlf_at_mono: "crlf_at s k \<Longrightarrow> crlf_at (s @ t) k"
  by (auto simp: crlf_at_def nth_append)

lemma crlf_at_Cons: "crlf_at (a # b # s) k \<longleftrightarrow> (if k = 0 then a = CR \<and> b = LF else crlf_at (b # s) (k - 1))"
  by (cases k) (auto simp: crlf_at_def)

lemma crlf_at_short: "\<not> crlf_at [] k" "\<not> crlf_at [a] k"
  by (auto simp: crlf_at_def)

lemma find_crlf_iff:
  "find_crlf s = (if \<exists>k. crlf_at s k then Some (LEAST k. crlf_at s k) else None)"
proof (induction s rule: find_crlf.induct)
  case (1 a b s)
  show ?case
  proof (cases "a = CR \<and> b = LF")
    case True
    then have "crlf_at (a # b # s) 0" by (simp add: crlf_at_Cons)
    then show ?thesis using True by (auto intro: Least_equality [symmetric])
  next
    case False
    have eq: "crlf_at (a # b # s) (Suc k) = crlf_at (b # s) k" for k by (simp add: crlf_at_Cons)
    have 0: "\<not> crlf_at (a # b # s) 0" using False by (simp add: crlf_at_Cons)
    then have ex: "(\<exists>k. crlf_at (a # b # s) k) = (\<exists>k. crlf_at (b # s) k)"
      using eq by (metis not0_implies_Suc)
    have "crlf_at (a # b # s) k \<Longrightarrow> (LEAST k. crlf_at (a # b # s) k) = Suc (LEAST k. crlf_at (b # s) k)" for k
      using Least_Suc [of "crlf_at (a # b # s)" k] 0 by (simp add: eq)
    then show ?thesis using 1 False ex by auto
  qed
qed (simp_all add: crlf_at_short)

lemma find_crlf_Some: "find_crlf s = Some k \<longleftrightarrow> crlf_at s k \<and> (\<forall>j < k. \<not> crlf_at s j)"
  unfolding find_crlf_iff
  by (auto intro: LeastI dest: not_less_Least intro!: Least_equality simp: linorder_not_less [symmetric])

lemma find_crlf_None: "find_crlf s = None \<longleftrightarrow> (\<forall>k. \<not> crlf_at s k)"
  by (simp add: find_crlf_iff)

lemma eoh_at_Cons: "eoh_at (a # b # c # d # s) k \<longleftrightarrow>
    (if k = 0 then a = CR \<and> b = LF \<and> c = CR \<and> d = LF else eoh_at (b # c # d # s) (k - 1))"
  by (cases k) (auto simp: eoh_at_def crlf_at_def)

lemma eoh_at_short: "length s < 4 \<Longrightarrow> \<not> eoh_at s k"
  by (auto simp: eoh_at_def crlf_at_def)

lemma find_header_end_iff:
  "find_header_end s = (if \<exists>k. eoh_at s k then Some (LEAST k. eoh_at s k) else None)"
proof (induction s rule: find_header_end.induct)
  case (1 a b c d s)
  show ?case
  proof (cases "a = CR \<and> b = LF \<and> c = CR \<and> d = LF")
    case True
    then have "eoh_at (a # b # c # d # s) 0" by (simp add: eoh_at_Cons)
    then show ?thesis using True by (auto intro: Least_equality [symmetric])
  next
    case False
    have eq: "eoh_at (a # b # c # d # s) (Suc k) = eoh_at (b # c # d # s) k" for k by (simp add: eoh_at_Cons)
    have 0: "\<not> eoh_at (a # b # c # d # s) 0" using False by (simp add: eoh_at_Cons)
    then have ex: "(\<exists>k. eoh_at (a # b # c # d # s) k) = (\<exists>k. eoh_at (b # c # d # s) k)"
      using eq by (metis not0_implies_Suc)
    have "eoh_at (a # b # c # d # s) k \<Longrightarrow>
        (LEAST k. eoh_at (a # b # c # d # s) k) = Suc (LEAST k. eoh_at (b # c # d # s) k)" for k
      using Least_Suc [of "eoh_at (a # b # c # d # s)" k] 0 by (simp add: eq)
    then show ?thesis using 1 False ex by auto
  qed
qed (simp_all add: eoh_at_short)

lemma find_header_end_Some: "find_header_end s = Some k \<longleftrightarrow> eoh_at s k \<and> (\<forall>j < k. \<not> eoh_at s j)"
  unfolding find_header_end_iff
  by (auto intro: LeastI dest: not_less_Least intro!: Least_equality simp: linorder_not_less [symmetric])

lemma find_header_end_None: "find_header_end s = None \<longleftrightarrow> (\<forall>k. \<not> eoh_at s k)"
  by (simp add: find_header_end_iff)

lemma find_crlf_append: "find_crlf s = Some k \<Longrightarrow> find_crlf (s @ t) = Some k"
proof -
  assume "find_crlf s = Some k"
  then have k: "crlf_at s k" "\<And>j. j < k \<Longrightarrow> \<not> crlf_at s j" by (simp_all add: find_crlf_Some)
  moreover have "k + 1 < length s" using k(1) by (simp add: crlf_at_def)
  ultimately show ?thesis by (auto simp: find_crlf_Some crlf_at_append)
qed

lemma find_header_end_append: "find_header_end s = Some k \<Longrightarrow> find_header_end (s @ t) = Some k"
proof -
  assume "find_header_end s = Some k"
  then have k: "eoh_at s k" "\<And>j. j < k \<Longrightarrow> \<not> eoh_at s j" by (simp_all add: find_header_end_Some)
  moreover have "k + 3 < length s" using k(1) by (simp add: eoh_at_def crlf_at_def)
  ultimately show ?thesis by (auto simp: find_header_end_Some eoh_at_def crlf_at_append)
qed

text \<open>Every line of the head ends no later than the head does.\<close>

lemma find_crlf_before:
  assumes "eoh_at buf e" and "pos \<le> e"
  shows "\<exists>k. find_crlf (drop pos buf) = Some k \<and> pos + k \<le> e"
proof -
  have at: "crlf_at (drop pos buf) (e - pos)" using assms by (simp add: crlf_at_drop eoh_at_def)
  then obtain k where k: "find_crlf (drop pos buf) = Some k"
    by (cases "find_crlf (drop pos buf)") (auto simp: find_crlf_None)
  then have "k \<le> e - pos" using at by (auto simp: find_crlf_Some linorder_not_less [symmetric])
  then show ?thesis using k assms(2) by auto
qed

subsection \<open>More bytes do not change a verdict\<close>

lemma parse_headers_append:
  assumes "eoh_at buf e"
  shows "parse_headers (buf @ t) e pos hs = parse_headers buf e pos hs"
  using assms
proof (induction buf e pos hs rule: parse_headers.induct)
  case (1 buf e pos hs)
  show ?case
  proof (cases "pos < e")
    case False
    then show ?thesis by (simp add: parse_headers.simps)
  next
    case True
    obtain k where k: "find_crlf (drop pos buf) = Some k" "pos + k \<le> e"
      using find_crlf_before [OF 1(2), of pos] True by auto
    have len: "pos + k < length buf" using k(2) 1(2) by (simp add: eoh_at_def crlf_at_def)
    then have eq: "find_crlf (drop pos (buf @ t)) = Some k" "take k (drop pos (buf @ t)) = take k (drop pos buf)"
      using find_crlf_append [OF k(1), of t] by simp_all
    have IH: "k \<noteq> 0 \<Longrightarrow> parse_header_line (take k (drop pos buf)) = Some h \<Longrightarrow>
        \<not> HTTP_MAX_HEADERS \<le> length hs \<Longrightarrow>
        parse_headers (buf @ t) e (pos + k + 2) (hs @ [h]) = parse_headers buf e (pos + k + 2) (hs @ [h])" for h
      using 1(1) [OF True k(1) _ _ _ 1(2)] by simp
    show ?thesis
      using True k(1) eq IH
      by (simp add: parse_headers.simps [of "buf @ t" e pos] parse_headers.simps [of buf e pos]
          split: option.split del: take_append drop_append)
  qed
qed

lemma finish_request_append:
  assumes "e + 4 \<le> length buf" and "finish_request buf e req hs \<noteq> HTTP_PARSE_INCOMPLETE"
  shows "finish_request (buf @ t) e req hs = finish_request buf e req hs"
proof (cases "scan_headers hs 0 False")
  case (Some r)
  obtain cl ka where r: "r = (cl, ka)" by force
  show ?thesis
    using assms by (auto simp: finish_request_def Some r Let_def split: if_splits)
qed (simp add: finish_request_def)

lemma http_parse_append:
  assumes "http_parse_request buf \<noteq> HTTP_PARSE_INCOMPLETE"
  shows "http_parse_request (buf @ t) = http_parse_request buf"
proof (cases "find_header_end buf")
  case None
  then show ?thesis using assms by (simp add: http_parse_request_def)
next
  case (Some e)
  have e: "eoh_at buf e" using Some by (simp add: find_header_end_Some)
  obtain l where l: "find_crlf buf = Some l" "l \<le> e" using find_crlf_before [OF e, of 0] by auto
  have len: "e + 4 \<le> length buf" using e by (simp add: eoh_at_def crlf_at_def)
  then have tl: "take l (buf @ t) = take l buf" using l(2) by simp
  note fin = finish_request_append [OF len, where t = t]
  show ?thesis
    using assms fin
    by (simp add: http_parse_request_def Some find_header_end_append [OF Some] l(1)
        find_crlf_append [OF l(1)] tl parse_headers_append [OF e] del: take_append add_2_eq_Suc'
        split: option.splits)
qed

subsection \<open>The head as a list of lines\<close>

text \<open>The header block: what lies between the request line's CRLF and \<open>CRLF CRLF\<close>.\<close>

function split_crlf :: "string \<Rightarrow> string list" where
  "split_crlf s = (case find_crlf s of
     None \<Rightarrow> [s] | Some k \<Rightarrow> take k s # split_crlf (drop (k + 2) s))"
  by pat_completeness auto
termination
  by (relation "measure length") (auto simp: find_crlf_Some crlf_at_def)

declare split_crlf.simps [simp del]

fun parse_all :: "string list \<Rightarrow> http_header list option" where
  "parse_all [] = Some []"
| "parse_all (l # ls) = Option.bind (parse_header_line l) (\<lambda>h. map_option ((#) h) (parse_all ls))"

definition header_lines :: "string \<Rightarrow> nat \<Rightarrow> nat \<Rightarrow> string list" where
  "header_lines buf e pos = (if pos < e then split_crlf (take (e - pos) (drop pos buf)) else [])"

lemma parse_all_length: "parse_all ls = Some hs \<Longrightarrow> length hs = length ls"
  by (induction ls arbitrary: hs) (auto simp: bind_eq_Some_conv)

lemma header_lines_step:
  assumes e: "find_header_end buf = Some e" and pos: "pos < e" "2 \<le> pos" "crlf_at buf (pos - 2)"
  obtains k where "find_crlf (drop pos buf) = Some k" "k \<noteq> 0"
    "header_lines buf e pos = take k (drop pos buf) # header_lines buf e (pos + k + 2)"
    "pos + k + 2 < e \<and> crlf_at buf (pos + k) \<or> pos + k = e"
proof -
  have eoh: "eoh_at buf e" and first: "\<And>j. j < e \<Longrightarrow> \<not> eoh_at buf j"
    using e by (auto simp: find_header_end_Some)
  obtain k where k: "find_crlf (drop pos buf) = Some k" "pos + k \<le> e"
    using find_crlf_before [OF eoh, of pos] pos(1) by auto
  have at: "crlf_at buf (pos + k)" "\<And>j. j < k \<Longrightarrow> \<not> crlf_at buf (pos + j)"
    using k(1) by (simp_all add: find_crlf_Some crlf_at_drop)
  have "k \<noteq> 0"
  proof
    assume "k = 0"
    moreover have "pos - 2 + 2 = pos" using pos(2) by simp
    ultimately have "eoh_at buf (pos - 2)" unfolding eoh_at_def using pos(3) at(1) by simp
    then show False using first [of "pos - 2"] pos by simp
  qed
  moreover have "pos + k + 2 < e \<and> crlf_at buf (pos + k) \<or> pos + k = e"
  proof (cases "pos + k = e")
    case False
    have "e \<noteq> pos + k + 1" using at(1) eoh by (auto simp: eoh_at_def crlf_at_def)
    moreover have "e \<noteq> pos + k + 2"
      using first [of "pos + k"] at(1) eoh by (auto simp: eoh_at_def)
    ultimately show ?thesis using False k(2) at(1) by auto
  qed simp
  moreover have "header_lines buf e pos = take k (drop pos buf) # header_lines buf e (pos + k + 2)"
  proof (cases "pos + k = e")
    case True
    then have "find_crlf (take k (drop pos buf)) = None"
      using at(2) by (auto simp: find_crlf_None crlf_at_take crlf_at_drop)
    then show ?thesis
      using True pos(1) by (auto simp: header_lines_def split_crlf.simps [of "take (e - pos) (drop pos buf)"])
  next
    case False
    then have lt: "pos + k + 2 < e" using calculation(2) by simp
    then have "find_crlf (take (e - pos) (drop pos buf)) = Some k"
      using at by (auto simp: find_crlf_Some crlf_at_take crlf_at_drop)
    moreover have "drop (k + 2) (take (e - pos) (drop pos buf)) = take (e - (pos + k + 2)) (drop (pos + k + 2) buf)"
      by (simp add: drop_take add.commute add.left_commute)
    ultimately show ?thesis
      using lt pos(1) by (auto simp: header_lines_def split_crlf.simps [of "take (e - pos) (drop pos buf)"] min_def)
  qed
  ultimately show ?thesis using that [OF k(1)] by blast
qed

lemma parse_headers_lines:
  assumes "find_header_end buf = Some e" and "2 \<le> pos" and "crlf_at buf (pos - 2)"
    and "length hs \<le> HTTP_MAX_HEADERS"
  shows "parse_headers buf e pos hs =
     (case parse_all (header_lines buf e pos) of
        None \<Rightarrow> None
      | Some hs' \<Rightarrow> if length hs + length hs' \<le> HTTP_MAX_HEADERS then Some (hs @ hs') else None)"
  using assms
proof (induction buf e pos hs rule: parse_headers.induct)
  case (1 buf e pos hs)
  show ?case
  proof (cases "pos < e")
    case False
    then show ?thesis using 1(5) by (simp add: parse_headers.simps header_lines_def)
  next
    case True
    obtain k where k: "find_crlf (drop pos buf) = Some k" "k \<noteq> 0"
      "header_lines buf e pos = take k (drop pos buf) # header_lines buf e (pos + k + 2)"
      "pos + k + 2 < e \<and> crlf_at buf (pos + k) \<or> pos + k = e"
      using header_lines_step [OF 1(2) True 1(3,4)] by metis
    have at: "crlf_at buf (pos + k)" using k(1) by (simp add: find_crlf_Some crlf_at_drop)
    show ?thesis
    proof (cases "parse_header_line (take k (drop pos buf))")
      case None
      then show ?thesis using True k by (simp add: parse_headers.simps [of buf e pos])
    next
      case (Some h)
      show ?thesis
      proof (cases "HTTP_MAX_HEADERS \<le> length hs")
        case True': True
        then show ?thesis
          using True k Some by (auto simp: parse_headers.simps [of buf e pos] split: option.split)
      next
        case False
        then show ?thesis
          using True k Some 1(1) [OF True k(1,2) Some False 1(2)] at
          by (auto simp: parse_headers.simps [of buf e pos] split: option.split)
      qed
    qed
  qed
qed

subsection \<open>What a parsed request holds\<close>

lemma scan_headers_bound:
  "scan_headers hs cl ka = Some (cl', ka') \<Longrightarrow> cl \<le> MAX_BODY_SIZE \<Longrightarrow> cl' \<le> MAX_BODY_SIZE"
  by (induction hs arbitrary: cl ka) (auto simp: Let_def split: if_splits)

lemma http_parse_OK:
  assumes "http_parse_request buf = HTTP_PARSE_OK req"
  obtains e l req0 hs where "find_header_end buf = Some e" "find_crlf buf = Some l" "l \<le> e"
    "parse_request_line (take l buf) empty_request = Some req0"
    "parse_headers buf e (l + 2) [] = Some hs" "finish_request buf e req0 hs = HTTP_PARSE_OK req"
proof -
  obtain e where e: "find_header_end buf = Some e"
    using assms by (auto simp: http_parse_request_def split: option.splits)
  then obtain l where l: "find_crlf buf = Some l" "l \<le> e"
    using find_crlf_before [of buf e 0] by (auto simp: find_header_end_Some)
  show ?thesis
    using assms that e l
    by (auto simp: http_parse_request_def simp del: add_2_eq_Suc' split: option.splits)
qed

lemma header_block_start:
  assumes "find_crlf buf = Some l"
  shows "2 \<le> l + 2" and "crlf_at buf (l + 2 - 2)"
  using assms by (simp_all add: find_crlf_Some)

subsection \<open>Rendering a request\<close>

lemma find_crlf_line: "CR \<notin> set l \<Longrightarrow> find_crlf (l @ CR # LF # s) = Some (length l)"
proof (induction l)
  case (Cons a l)
  then show ?case by (cases l) auto
qed simp

lemma find_header_end_Cons:
  "find_header_end (a # s) = (if take 4 (a # s) = [CR, LF, CR, LF] then Some 0
     else map_option Suc (find_header_end s))"
  by (cases "a # s" rule: find_header_end.cases) auto

lemma find_header_end_line:
  "CR \<notin> set l \<Longrightarrow> find_header_end (l @ s) = map_option ((+) (length l)) (find_header_end s)"
proof (induction l)
  case (Cons a l)
  then have "take 4 (a # l @ s) \<noteq> [CR, LF, CR, LF]" by auto
  then show ?case using Cons by (auto simp: find_header_end_Cons option.map_comp o_def)
qed (cases "find_header_end s"; simp)

definition crlf_lines :: "string list \<Rightarrow> string" where
  "crlf_lines ls = concat (map (\<lambda>l. l @ [CR, LF]) ls)"

lemma crlf_lines_simps [simp]:
  "crlf_lines [] = []" "crlf_lines (l # ls) = l @ CR # LF # crlf_lines ls"
  by (simp_all add: crlf_lines_def)

lemma find_header_end_lines:
  assumes "l \<noteq> []" and "CR \<notin> set l" and "\<forall>x \<in> set ls. x \<noteq> [] \<and> CR \<notin> set x"
  shows "find_header_end (crlf_lines (l # ls) @ CR # LF # s) = Some (length (crlf_lines (l # ls)) - 2)"
  using assms
proof (induction ls arbitrary: l)
  case Nil
  then show ?case by (simp add: find_header_end_line find_header_end_Cons)
next
  case (Cons x ls)
  have x: "x \<noteq> []" "CR \<notin> set x" using Cons.prems by auto
  obtain c y where c: "x = c # y" "c \<noteq> CR" using x by (cases x) auto
  let ?t = "crlf_lines (x # ls) @ CR # LF # s"
  have "find_header_end ?t = Some (length (crlf_lines (x # ls)) - 2)"
    using Cons.IH [OF x] Cons.prems(3) by simp
  then have "find_header_end (CR # LF # ?t) = Some (length (crlf_lines (x # ls)))"
    using c by (simp add: find_header_end_Cons [of CR] find_header_end_Cons [of LF])
  then show ?case
    using find_header_end_line [OF Cons.prems(2), of "CR # LF # ?t"] by simp
qed

definition header_line :: "http_header \<Rightarrow> string" where
  "header_line h = hh_name h @ '': '' @ hh_value h"

definition request_line :: "string \<Rightarrow> string \<Rightarrow> string option \<Rightarrow> string" where
  "request_line m path q = m @ '' '' @ path @ (case q of None \<Rightarrow> [] | Some x \<Rightarrow> CHR ''?'' # x) @ '' HTTP/1.1''"

definition render_head :: "string \<Rightarrow> string \<Rightarrow> string option \<Rightarrow> http_header list \<Rightarrow> string" where
  "render_head m path q hs = crlf_lines (request_line m path q # map header_line hs) @ [CR, LF]"

definition good_header :: "http_header \<Rightarrow> bool" where
  "good_header h \<longleftrightarrow> CR \<notin> set (hh_name h) \<and> CHR '':'' \<notin> set (hh_name h) \<and> CR \<notin> set (hh_value h) \<and>
     (hh_value h = [] \<or> hd (hh_value h) \<noteq> CHR '' '') \<and>
     length (hh_name h) < 2 ^ 32 \<and> length (hh_value h) < 2 ^ 32"

definition good_target :: "string \<Rightarrow> string \<Rightarrow> string option \<Rightarrow> bool" where
  "good_target m path q \<longleftrightarrow> length m < 2 ^ 32 \<and> length path < 2 ^ 32 \<and>
     CHR '' '' \<notin> set m \<and> CR \<notin> set m \<and>
     CHR '' '' \<notin> set path \<and> CHR ''?'' \<notin> set path \<and> CR \<notin> set path \<and>
     (case q of None \<Rightarrow> True | Some x \<Rightarrow> CHR '' '' \<notin> set x \<and> CR \<notin> set x \<and> length x < 2 ^ 32)"

lemma slice32_id: "length s < 2 ^ 32 \<Longrightarrow> slice32 s = s"
  by (simp add: slice32_def unat_of_nat)

lemma memchr_append: "c \<notin> set s \<Longrightarrow> memchr c (s @ c # t) = Some (length s)"
  by (induction s) auto

lemma memchr_absent: "c \<notin> set s \<Longrightarrow> memchr c s = None"
  by (induction s) auto

lemma parse_header_line_render: "good_header h \<Longrightarrow> parse_header_line (header_line h) = Some h"
proof -
  assume g: "good_header h"
  have "dropWhile (\<lambda>c. c = CHR '' '') (hh_value h) = hh_value h"
    using g by (cases "hh_value h") (auto simp: good_header_def)
  then show ?thesis
    using g by (simp add: parse_header_line_def header_line_def memchr_append slice32_id good_header_def)
qed

lemma parse_request_line_render:
  assumes "good_target m path q"
  shows "parse_request_line (request_line m path q) req =
    Some (req\<lparr>rq_method := parse_method m, rq_method_str := m, rq_path := path, rq_query := q,
      rq_version_major := 1, rq_version_minor := 1\<rparr>)"
proof -
  have v: "char_minus_0 CHR ''1'' = 1" by code_simp
  have m: "memchr CHR '' '' (m @ CHR '' '' # x) = Some (length m)"
    and p: "memchr CHR '' '' (path @ CHR '' '' # x) = Some (length path)"
    and mark: "memchr CHR ''?'' (path @ CHR ''?'' # x) = Some (length path)"
      "memchr CHR ''?'' path = None" for x
    using assms by (auto simp: good_target_def memchr_append memchr_absent)
  show ?thesis
  proof (cases q)
    case None
    then show ?thesis
      using assms m p mark
      by (simp add: parse_request_line_def request_line_def Let_def v good_target_def slice32_id)
  next
    case (Some x)
    then have "CHR '' '' \<notin> set (path @ CHR ''?'' # x)" using assms by (auto simp: good_target_def)
    then have "memchr CHR '' '' (path @ CHR ''?'' # x @ '' HTTP/1.1'') = Some (length path + Suc (length x))"
      using memchr_append [of "CHR '' ''" "path @ CHR ''?'' # x" "''HTTP/1.1''"] by simp
    then show ?thesis
      using assms m mark Some
      by (simp add: parse_request_line_def request_line_def Let_def v good_target_def slice32_id)
  qed
qed

lemma parse_headers_render:
  assumes "drop pos buf = crlf_lines (map header_line hs) @ CR # LF # s"
    and "e + 2 = pos + length (crlf_lines (map header_line hs))"
    and "\<forall>h \<in> set hs. good_header h" and "length acc + length hs \<le> HTTP_MAX_HEADERS"
  shows "parse_headers buf e pos acc = Some (acc @ hs)"
  using assms
proof (induction hs arbitrary: pos acc)
  case Nil
  then show ?case by (simp add: parse_headers.simps)
next
  case (Cons h hs)
  let ?l = "header_line h"
  have l: "CR \<notin> set ?l" "?l \<noteq> []" "good_header h"
    using Cons.prems(3) by (auto simp: header_line_def good_header_def)
  have d: "drop pos buf = ?l @ CR # LF # crlf_lines (map header_line hs) @ CR # LF # s"
    using Cons.prems(1) by simp
  then have k: "find_crlf (drop pos buf) = Some (length ?l)" "take (length ?l) (drop pos buf) = ?l"
    using find_crlf_line [OF l(1)] by simp_all
  have "drop (pos + length ?l + 2) buf = drop (length ?l + 2) (drop pos buf)"
    by (simp add: add.commute add.left_commute)
  then have "drop (pos + length ?l + 2) buf = crlf_lines (map header_line hs) @ CR # LF # s"
    using d by simp
  then have "parse_headers buf e (pos + length ?l + 2) (acc @ [h]) = Some ((acc @ [h]) @ hs)"
    using Cons.prems by (intro Cons.IH) simp_all
  moreover have "pos < e" using Cons.prems(2) l(2) by (cases ?l) auto
  ultimately show ?case
    using k l(2) Cons.prems(4) parse_header_line_render [OF l(3)]
    by (simp add: parse_headers.simps [of buf e pos])
qed

subsection \<open>The properties\<close>



text \<open>C22: A verdict on a buffer is final: once a request is accepted or rejected, further bytes change
  nothing, so the server may parse again after every read.\<close>
theorem http_verdict_stable:
  assumes "http_parse_request buf \<noteq> HTTP_PARSE_INCOMPLETE"
  shows "http_parse_request (buf @ t) = http_parse_request buf"
  using assms by (rule http_parse_append)

theorem http_verdict_stable_witness:
  "http_parse_request ([CR, LF, CR, LF] @ ''GET'') = HTTP_PARSE_ERROR"
proof -
  have e: "http_parse_request [CR, LF, CR, LF] = HTTP_PARSE_ERROR" by code_simp
  show ?thesis using http_verdict_stable [of "[CR, LF, CR, LF]" "''GET''"] by (simp add: e)
qed

text \<open>C23: Once the head has arrived, at most one megabyte more makes the verdict: the parser never asks
  for bytes without end.\<close>
theorem http_incomplete_bounded:
  assumes "find_header_end buf = Some e" and "2 ^ 20 \<le> length t"
  shows "http_parse_request (buf @ t) \<noteq> HTTP_PARSE_INCOMPLETE"
proof -
  have len: "e + 4 \<le> length buf" using assms(1) by (simp add: find_header_end_Some eoh_at_def crlf_at_def)
  have fin: "finish_request (buf @ t) e req hs \<noteq> HTTP_PARSE_INCOMPLETE" for req hs
  proof (cases "scan_headers hs 0 False")
    case (Some r)
    obtain cl ka where r: "r = (cl, ka)" by force
    then have "cl \<le> 0x100000"
      using scan_headers_bound [of hs 0 False cl ka] Some by (simp add: MAX_BODY_SIZE_def)
    then have "unat cl \<le> 2 ^ 20" by (simp add: word_le_nat_alt)
    then show ?thesis using Some r assms(2) len by (auto simp: finish_request_def Let_def)
  qed (simp add: finish_request_def)
  have crlf: "find_crlf (buf @ t) \<noteq> None"
    using assms(1) find_crlf_before [of "buf @ t" e 0] find_header_end_append [OF assms(1), of t]
    by (auto simp: find_header_end_Some)
  show ?thesis
    using find_header_end_append [OF assms(1), of t] crlf fin
    by (auto simp: http_parse_request_def split: option.splits)
qed

theorem http_incomplete_bounded_witness:
  "http_parse_request ([CR, LF, CR, LF] @ replicate (2 ^ 20) CHR ''a'') \<noteq> HTTP_PARSE_INCOMPLETE"
  by (rule http_incomplete_bounded [of _ 0]) (simp, simp only: length_replicate)

text \<open>C21: An accepted request lies within the buffer: it consumes the head and the body and no more
  than was received, its body is the announced bytes after the head and at most one megabyte,
  and it has at most 64 headers, which are the parsed lines of the head, in order.\<close>
theorem http_ok_exact:
  assumes "http_parse_request buf = HTTP_PARSE_OK req"
  shows "\<exists>e l. find_header_end buf = Some e \<and> find_crlf buf = Some l \<and>
     rq_bytes_consumed req = e + 4 + unat (rq_content_length req) \<and> rq_bytes_consumed req \<le> length buf \<and>
     rq_content_length req \<le> MAX_BODY_SIZE \<and> rq_body_len req = rq_content_length req \<and>
     rq_body req = (if rq_content_length req = 0 then None
       else Some (take (unat (rq_content_length req)) (drop (e + 4) buf))) \<and>
     length (rq_headers req) \<le> 64 \<and> parse_all (header_lines buf e (l + 2)) = Some (rq_headers req)"
proof -
  from http_parse_OK [OF assms] obtain e l req0 hs where
    h: "find_header_end buf = Some e" "find_crlf buf = Some l"
      "parse_headers buf e (l + 2) [] = Some hs" "finish_request buf e req0 hs = HTTP_PARSE_OK req"
    by metis
  have lines: "parse_all (header_lines buf e (l + 2)) = Some hs" "length hs \<le> 64"
    using parse_headers_lines [OF h(1) header_block_start [OF h(2)], of "[]"] h(3)
    by (auto simp: HTTP_MAX_HEADERS_def split: option.splits if_splits)
  have len: "e + 4 \<le> length buf" using h(1) by (simp add: find_header_end_Some eoh_at_def crlf_at_def)
  obtain cl ka where s: "scan_headers hs 0 False = Some (cl, ka)"
    using h(4) by (auto simp: finish_request_def split: option.splits)
  then have "cl \<le> MAX_BODY_SIZE" by (rule scan_headers_bound) (simp add: MAX_BODY_SIZE_def)
  then show ?thesis
    using h(1,2,4) lines len s
    by (auto simp: finish_request_def Let_def word_gt_0 split: if_splits)
qed

theorem http_ok_exact_witness:
  "\<exists>req. http_parse_request (''GET / HTTP/1.1'' @ [CR, LF, CR, LF]) = HTTP_PARSE_OK req \<and>
     rq_bytes_consumed req \<le> 18"
proof -
  have "case http_parse_request (''GET / HTTP/1.1'' @ [CR, LF, CR, LF]) of HTTP_PARSE_OK _ \<Rightarrow> True | _ \<Rightarrow> False"
    by code_simp
  then obtain req where r: "http_parse_request (''GET / HTTP/1.1'' @ [CR, LF, CR, LF]) = HTTP_PARSE_OK req"
    by (auto split: http_parse_result.splits)
  have "rq_bytes_consumed req \<le> length (''GET / HTTP/1.1'' @ [CR, LF, CR, LF])"
    using http_ok_exact [OF r] by blast
  then have "rq_bytes_consumed req \<le> 18" by simp
  then show ?thesis using r by blast
qed

text \<open>The content length is the number spelled by the decimal digits of the header value, modulo
  \<open>2\<^sup>64\<close>, whatever other characters stand between them: a negative length is read as its
  absolute value, and a length of \<open>2\<^sup>64 + 5\<close> passes the size check as 5.\<close>
theorem content_length_lenient:
  "foldl digits_step n v = foldl digits_step n (filter (\<lambda>c. 48 \<le> (of_char c :: nat) \<and> (of_char c :: nat) \<le> 57) v) \<and>
   scan_headers [\<lparr>hh_name = ''Content-Length'', hh_value = ''-5''\<rparr>] 0 False = Some (5, False) \<and>
   scan_headers [\<lparr>hh_name = ''Content-Length'', hh_value = ''18446744073709551621''\<rparr>] 0 False = Some (5, False)"
proof (intro conjI)
  show "foldl digits_step n v = foldl digits_step n (filter (\<lambda>c. 48 \<le> (of_char c :: nat) \<and> (of_char c :: nat) \<le> 57) v)"
    by (induction v arbitrary: n) (auto simp: digits_step_def)
qed code_simp+

end
