(* ===== verification/Objects.thy ===== *)
theory Objects
  imports Obj_Map
begin

section \<open>Heap objects and bytecode chunks (object.c, chunk.c)\<close>

text \<open>
  The objects of the virtual machine live in a heap, the list of all objects in allocation
  order; a pointer is an index of that list, and \<open>OBJ_VAL\<close> boxes it as the aligned address
  \<open>16 * (index + 1)\<close>.  Strings are interned: \<open>intern_string\<close> is the abstract effect of
  \<open>obj_string_new\<close> (one object per content), which \<open>Interning.intern_exact\<close> shows of the real
  table.  Arrays with a separate capacity keep the capacity as a field, so that the growth
  steps are visible; the object header, whose type tag is the constructor here, is not modelled.
\<close>

subsection \<open>Opcodes (chunk.h)\<close>

definition OP_CONSTANT :: u8 where [simp]: "OP_CONSTANT = 0"
definition OP_NIL :: u8 where [simp]: "OP_NIL = 1"
definition OP_TRUE :: u8 where [simp]: "OP_TRUE = 2"
definition OP_FALSE :: u8 where [simp]: "OP_FALSE = 3"
definition OP_ADD :: u8 where [simp]: "OP_ADD = 4"
definition OP_SUB :: u8 where [simp]: "OP_SUB = 5"
definition OP_MUL :: u8 where [simp]: "OP_MUL = 6"
definition OP_DIV :: u8 where [simp]: "OP_DIV = 7"
definition OP_MOD :: u8 where [simp]: "OP_MOD = 8"
definition OP_NEG :: u8 where [simp]: "OP_NEG = 9"
definition OP_NOT :: u8 where [simp]: "OP_NOT = 10"
definition OP_BAND :: u8 where [simp]: "OP_BAND = 11"
definition OP_BOR :: u8 where [simp]: "OP_BOR = 12"
definition OP_BXOR :: u8 where [simp]: "OP_BXOR = 13"
definition OP_BNOT :: u8 where [simp]: "OP_BNOT = 14"
definition OP_SHL :: u8 where [simp]: "OP_SHL = 15"
definition OP_SHR :: u8 where [simp]: "OP_SHR = 16"
definition OP_EQUAL :: u8 where [simp]: "OP_EQUAL = 17"
definition OP_NOT_EQUAL :: u8 where [simp]: "OP_NOT_EQUAL = 18"
definition OP_LESS :: u8 where [simp]: "OP_LESS = 19"
definition OP_LESS_EQUAL :: u8 where [simp]: "OP_LESS_EQUAL = 20"
definition OP_GREATER :: u8 where [simp]: "OP_GREATER = 21"
definition OP_GREATER_EQUAL :: u8 where [simp]: "OP_GREATER_EQUAL = 22"
definition OP_CONCAT :: u8 where [simp]: "OP_CONCAT = 23"
definition OP_POP :: u8 where [simp]: "OP_POP = 24"
definition OP_PRINT :: u8 where [simp]: "OP_PRINT = 25"
definition OP_GET_LOCAL :: u8 where [simp]: "OP_GET_LOCAL = 26"
definition OP_SET_LOCAL :: u8 where [simp]: "OP_SET_LOCAL = 27"
definition OP_GET_GLOBAL :: u8 where [simp]: "OP_GET_GLOBAL = 28"
definition OP_SET_GLOBAL :: u8 where [simp]: "OP_SET_GLOBAL = 29"
definition OP_DEFINE_GLOBAL :: u8 where [simp]: "OP_DEFINE_GLOBAL = 30"
definition OP_GET_UPVALUE :: u8 where [simp]: "OP_GET_UPVALUE = 31"
definition OP_SET_UPVALUE :: u8 where [simp]: "OP_SET_UPVALUE = 32"
definition OP_CLOSE_UPVALUE :: u8 where [simp]: "OP_CLOSE_UPVALUE = 33"
definition OP_JUMP :: u8 where [simp]: "OP_JUMP = 34"
definition OP_JUMP_IF_FALSE :: u8 where [simp]: "OP_JUMP_IF_FALSE = 35"
definition OP_LOOP :: u8 where [simp]: "OP_LOOP = 36"
definition OP_CALL :: u8 where [simp]: "OP_CALL = 37"
definition OP_RETURN :: u8 where [simp]: "OP_RETURN = 38"
definition OP_CLOSURE :: u8 where [simp]: "OP_CLOSURE = 39"
definition OP_NEW_LIST :: u8 where [simp]: "OP_NEW_LIST = 40"
definition OP_NEW_MAP :: u8 where [simp]: "OP_NEW_MAP = 41"
definition OP_GET_INDEX :: u8 where [simp]: "OP_GET_INDEX = 42"
definition OP_SET_INDEX :: u8 where [simp]: "OP_SET_INDEX = 43"
definition OP_GET_FIELD :: u8 where [simp]: "OP_GET_FIELD = 44"
definition OP_SET_FIELD :: u8 where [simp]: "OP_SET_FIELD = 45"
definition OP_ITER_INIT :: u8 where [simp]: "OP_ITER_INIT = 46"
definition OP_ITER_NEXT :: u8 where [simp]: "OP_ITER_NEXT = 47"
definition OP_POWER :: u8 where [simp]: "OP_POWER = 48"

text \<open>The number of opcodes.\<close>

definition OP_COUNT :: nat where [simp]: "OP_COUNT = 49"

subsection \<open>Chunks\<close>

record chunk =
  ck_code :: "u8 list"
  ck_capacity :: nat
  ck_constants :: "val64 list"
  ck_const_capacity :: nat
  ck_lines :: "nat list"
  ck_line_capacity :: nat

definition GROW_CAPACITY :: "nat \<Rightarrow> nat" where
  "GROW_CAPACITY capacity = (if capacity < 8 then 8 else capacity * 2)"

definition chunk_init :: chunk where
  "chunk_init = \<lparr>ck_code = [], ck_capacity = 0, ck_constants = [], ck_const_capacity = 0,
     ck_lines = [], ck_line_capacity = 0\<rparr>"

definition chunk_write :: "chunk \<Rightarrow> u8 \<Rightarrow> nat \<Rightarrow> chunk" where
  "chunk_write chunk byte line =
     (let chunk = (if ck_capacity chunk \<le> length (ck_code chunk)
            then chunk\<lparr>ck_capacity := GROW_CAPACITY (ck_capacity chunk)\<rparr> else chunk);
          chunk = (if ck_line_capacity chunk \<le> length (ck_lines chunk)
            then chunk\<lparr>ck_line_capacity := GROW_CAPACITY (ck_line_capacity chunk)\<rparr> else chunk)
      in chunk\<lparr>ck_code := ck_code chunk @ [byte], ck_lines := ck_lines chunk @ [line]\<rparr>)"

definition chunk_add_constant :: "chunk \<Rightarrow> val64 \<Rightarrow> nat \<times> chunk" where
  "chunk_add_constant chunk v =
     (let chunk = (if ck_const_capacity chunk \<le> length (ck_constants chunk)
            then chunk\<lparr>ck_const_capacity := GROW_CAPACITY (ck_const_capacity chunk)\<rparr> else chunk)
      in (length (ck_constants chunk), chunk\<lparr>ck_constants := ck_constants chunk @ [v]\<rparr>))"

subsection \<open>Objects\<close>

type_synonym ptr = nat

record obj_list =
  ol_data :: "val64 list"
  ol_capacity :: nat

record obj_function =
  fn_arity :: u8
  fn_upvalue_count :: u8
  fn_chunk :: chunk
  fn_name :: "ptr option"

record obj_closure =
  cl_function :: ptr
  cl_upvalues :: "val64 list"

text \<open>An upvalue points into the value stack until it is closed.\<close>

datatype location = On_Stack nat | In_Upvalue

record obj_upvalue =
  uv_location :: location
  uv_closed :: val64

datatype native_fn =
  native_print | native_puts | native_type_of | native_to_s | native_to_i | native_to_f | native_len

record obj_native =
  nt_function :: native_fn
  nt_name :: string
  nt_arity :: int

datatype (plugins only: code size) bound_method =
  list_push_method | list_contains_method | list_join_method | list_unshift_method
  | list_insert_method | list_remove_method | list_slice_method | list_zip_method
  | string_contains_method | string_split_method | string_replace_method
  | string_starts_with_method | string_ends_with_method | string_slice_method
  | string_index_of_method | string_repeat_method | string_pad_left_method
  | string_pad_right_method | map_has_method | map_delete_method | map_get_method
  | map_set_method | map_merge_method

record obj_bound_method =
  bm_receiver :: val64
  bm_method :: bound_method
  bm_arity :: int

datatype obj =
  OBJ_STRING string
  | OBJ_LIST obj_list
  | OBJ_MAP "ptr obj_map"
  | OBJ_BYTES "u8 list"
  | OBJ_FUNCTION obj_function
  | OBJ_CLOSURE obj_closure
  | OBJ_UPVALUE obj_upvalue
  | OBJ_NATIVE obj_native
  | OBJ_BOUND_METHOD obj_bound_method

type_synonym heap = "obj list"

subsection \<open>Pointers\<close>

definition OBJ_VAL :: "ptr \<Rightarrow> val64" where
  "OBJ_VAL p = ptr_val (of_nat (16 * (p + 1)))"

definition AS_PTR :: "val64 \<Rightarrow> ptr" where
  "AS_PTR v = unat (value_as_ptr v) div 16 - 1"

text \<open>The object that a value points to; \<open>None\<close> when the value is not a pointer.\<close>

definition obj_of :: "heap \<Rightarrow> val64 \<Rightarrow> obj option" where
  "obj_of h v = (if IS_PTR v \<and> AS_PTR v < length h then Some (h ! AS_PTR v) else None)"

definition IS_STRING :: "heap \<Rightarrow> val64 \<Rightarrow> bool" where
  "IS_STRING h v = (case obj_of h v of Some (OBJ_STRING _) \<Rightarrow> True | _ \<Rightarrow> False)"

definition IS_LIST :: "heap \<Rightarrow> val64 \<Rightarrow> bool" where
  "IS_LIST h v = (case obj_of h v of Some (OBJ_LIST _) \<Rightarrow> True | _ \<Rightarrow> False)"

definition AS_STRING :: "heap \<Rightarrow> val64 \<Rightarrow> string" where
  "AS_STRING h v = (case h ! AS_PTR v of OBJ_STRING s \<Rightarrow> s | _ \<Rightarrow> [])"

text \<open>The hash of a key, read through its pointer.\<close>

definition key_hash :: "heap \<Rightarrow> ptr \<Rightarrow> u32" where
  "key_hash h p = (case h ! p of OBJ_STRING s \<Rightarrow> hash_string s | _ \<Rightarrow> 0)"

subsection \<open>Constructors\<close>

definition alloc_object :: "heap \<Rightarrow> obj \<Rightarrow> ptr \<times> heap" where
  "alloc_object h obj = (length h, h @ [obj])"

fun find_string :: "heap \<Rightarrow> string \<Rightarrow> nat \<Rightarrow> ptr option" where
  "find_string [] s p = None"
| "find_string (obj # h) s p =
     (case obj of
        OBJ_STRING t \<Rightarrow> if t = s then Some p else find_string h s (p + 1)
      | _ \<Rightarrow> find_string h s (p + 1))"

definition intern_string :: "heap \<Rightarrow> string \<Rightarrow> ptr \<times> heap" where
  "intern_string h s =
     (case find_string h s 0 of Some p \<Rightarrow> (p, h) | None \<Rightarrow> alloc_object h (OBJ_STRING s))"

definition obj_list_new :: "heap \<Rightarrow> ptr \<times> heap" where
  "obj_list_new h = alloc_object h (OBJ_LIST \<lparr>ol_data = [], ol_capacity = 0\<rparr>)"

definition obj_list_push :: "obj_list \<Rightarrow> val64 \<Rightarrow> obj_list" where
  "obj_list_push xs v =
     (let xs = (if ol_capacity xs \<le> length (ol_data xs)
                then xs\<lparr>ol_capacity := GROW_CAPACITY (ol_capacity xs)\<rparr> else xs)
      in xs\<lparr>ol_data := ol_data xs @ [v]\<rparr>)"

text \<open>\<open>None\<close> is a failed assertion.\<close>

definition obj_list_get :: "obj_list \<Rightarrow> nat \<Rightarrow> val64 option" where
  "obj_list_get xs index = (if index < length (ol_data xs) then Some (ol_data xs ! index) else None)"

definition obj_bytes_new :: "heap \<Rightarrow> u8 list \<Rightarrow> ptr \<times> heap" where
  "obj_bytes_new h data = alloc_object h (OBJ_BYTES data)"

definition obj_function_new :: "heap \<Rightarrow> ptr \<times> heap" where
  "obj_function_new h = alloc_object h (OBJ_FUNCTION
     \<lparr>fn_arity = 0, fn_upvalue_count = 0, fn_chunk = chunk_init, fn_name = None\<rparr>)"

definition the_function :: "heap \<Rightarrow> ptr \<Rightarrow> obj_function" where
  "the_function h p = (case h ! p of OBJ_FUNCTION f \<Rightarrow> f | _ \<Rightarrow>
     \<lparr>fn_arity = 0, fn_upvalue_count = 0, fn_chunk = chunk_init, fn_name = None\<rparr>)"

definition obj_closure_new :: "heap \<Rightarrow> ptr \<Rightarrow> ptr \<times> heap" where
  "obj_closure_new h fn = alloc_object h (OBJ_CLOSURE
     \<lparr>cl_function = fn, cl_upvalues = replicate (unat (fn_upvalue_count (the_function h fn))) VAL_NIL\<rparr>)"

definition update_function :: "ptr \<Rightarrow> (obj_function \<Rightarrow> obj_function) \<Rightarrow> heap \<Rightarrow> heap" where
  "update_function p g h = h[p := OBJ_FUNCTION (g (the_function h p))]"

end
