(* ===== verification/Lexer.thy ===== *)
theory Lexer
  imports Vek_Prelude "HOL-Library.Sublist"
begin

section \<open>The lexer\<close>

text \<open>
  \<open>lexer.c\<close>.  A pointer into the source is the string from there on, its terminating NUL
  included: \<open>*current\<close> is the head, \<open>current++\<close> the tail, and the empty string is one past the
  terminator, which no operation may read.  Token lengths and lines are natural numbers (the
  code's \<open>int\<close> for sources below two gigabytes).
\<close>

subsection \<open>Tokens and state\<close>

text \<open>The enumeration \<open>TokenType\<close>, in the groups that its comments name.\<close>

datatype (plugins only: code size) single_char_token =
  TOKEN_LPAREN | TOKEN_RPAREN | TOKEN_LBRACKET | TOKEN_RBRACKET | TOKEN_LBRACE
   | TOKEN_RBRACE | TOKEN_COMMA | TOKEN_DOT | TOKEN_SEMICOLON | TOKEN_COLON | TOKEN_PLUS
   | TOKEN_MINUS | TOKEN_STAR | TOKEN_SLASH | TOKEN_PERCENT | TOKEN_AMP | TOKEN_PIPE
   | TOKEN_CARET | TOKEN_TILDE | TOKEN_LESS | TOKEN_GREATER | TOKEN_EQUAL | TOKEN_BANG
   | TOKEN_AT | TOKEN_QUESTION

datatype (plugins only: code size) multi_char_token =
  TOKEN_EQUAL_EQUAL | TOKEN_BANG_EQUAL | TOKEN_LESS_EQUAL | TOKEN_GREATER_EQUAL
   | TOKEN_AMP_AMP | TOKEN_PIPE_PIPE | TOKEN_DOT_DOT | TOKEN_DOT_DOT_DOT | TOKEN_ARROW
   | TOKEN_FAT_ARROW | TOKEN_SAFE_NAV | TOKEN_TERNARY | TOKEN_LSHIFT | TOKEN_RSHIFT
   | TOKEN_PLUS_EQUAL | TOKEN_MINUS_EQUAL | TOKEN_STAR_EQUAL | TOKEN_SLASH_EQUAL
   | TOKEN_STAR_STAR

datatype (plugins only: code size) literal_token =
  TOKEN_INT | TOKEN_FLOAT | TOKEN_STRING | TOKEN_SYMBOL | TOKEN_IDENTIFIER

datatype (plugins only: code size) keyword_token =
  TOKEN_FN | TOKEN_END | TOKEN_DO | TOKEN_IF | TOKEN_ELSIF | TOKEN_ELSE | TOKEN_THEN
   | TOKEN_WHILE | TOKEN_UNTIL | TOKEN_LOOP | TOKEN_FOR | TOKEN_IN | TOKEN_CASE
   | TOKEN_RETURN | TOKEN_BREAK | TOKEN_NEXT | TOKEN_TRUE | TOKEN_FALSE | TOKEN_NIL
   | TOKEN_AND | TOKEN_OR | TOKEN_NOT | TOKEN_BEGIN | TOKEN_RESCUE | TOKEN_RAISE
   | TOKEN_UNLESS | TOKEN_MODULE

datatype (plugins only: code size) web_keyword_token =
  TOKEN_GET | TOKEN_POST | TOKEN_PUT | TOKEN_PATCH | TOKEN_DELETE | TOKEN_RENDER
   | TOKEN_REDIRECT | TOKEN_HALT

datatype (plugins only: code size) special_token =
  TOKEN_EOF | TOKEN_ERROR | TOKEN_NEWLINE | TOKEN_INTERPOLATION_START

datatype token_type = Single single_char_token | Multi multi_char_token | Literal literal_token | Keyword keyword_token | Web web_keyword_token | Special special_token

datatype token_start = In_Source string | Message string

record token =
  tk_type :: token_type
  tk_start :: token_start
  tk_length :: nat
  tk_line :: nat

record lexer =
  lx_start :: string
  lx_current :: string
  lx_line :: nat

abbreviation NUL :: char where "NUL \<equiv> CHR 0x00"
abbreviation NL :: char where "NL \<equiv> CHR 0x0A"
abbreviation DQ :: char where "DQ \<equiv> CHR 0x22"
abbreviation SQ :: char where "SQ \<equiv> CHR 0x27"
abbreviation BSL :: char where "BSL \<equiv> CHR 0x5C"

definition at_end :: "string \<Rightarrow> bool" where
  "at_end cur \<longleftrightarrow> hd cur = NUL"

definition peek :: "string \<Rightarrow> char" where
  "peek cur = hd cur"

definition peek_next :: "string \<Rightarrow> char" where
  "peek_next cur = (if at_end cur then NUL else cur ! 1)"

definition match_char :: "lexer \<Rightarrow> char \<Rightarrow> bool \<times> lexer" where
  "match_char lx expected =
     (if at_end (lx_current lx) then (False, lx)
      else if hd (lx_current lx) \<noteq> expected then (False, lx)
      else (True, lx\<lparr>lx_current := tl (lx_current lx)\<rparr>))"

definition make_token :: "lexer \<Rightarrow> token_type \<Rightarrow> token \<times> lexer" where
  "make_token lx t = (\<lparr>tk_type = t, tk_start = In_Source (lx_start lx),
     tk_length = length (lx_start lx) - length (lx_current lx), tk_line = lx_line lx\<rparr>, lx)"

definition error_token :: "lexer \<Rightarrow> string \<Rightarrow> token \<times> lexer" where
  "error_token lx msg = (\<lparr>tk_type = Special TOKEN_ERROR, tk_start = Message msg,
     tk_length = length msg, tk_line = lx_line lx\<rparr>, lx)"

subsection \<open>Whitespace, identifiers and numbers\<close>

fun skip_while :: "(char \<Rightarrow> bool) \<Rightarrow> string \<Rightarrow> string" where
  "skip_while P [] = []"
| "skip_while P (c # cs) = (if P c then skip_while P cs else c # cs)"

lemma skip_while_drop: "skip_while P s = dropWhile P s"
  by (induction s) auto

function skip_whitespace :: "string \<Rightarrow> string" where
  "skip_whitespace [] = []"
| "skip_whitespace (c # cs) =
     (if c = CHR '' '' \<or> c = CHR 0x09 \<or> c = CHR 0x0D then skip_whitespace cs
      else if c = CHR ''#'' then skip_whitespace (skip_while (\<lambda>c. c \<noteq> NL \<and> c \<noteq> NUL) (c # cs))
      else c # cs)"
  by pat_completeness auto
termination
  by (relation "measure length")
    (auto simp: skip_while_drop intro: le_imp_less_Suc length_dropWhile_le)

definition keyword_table :: "(string \<times> token_type) list" where
  "keyword_table =
    [(''and'', Keyword TOKEN_AND), (''begin'', Keyword TOKEN_BEGIN), (''break'', Keyword TOKEN_BREAK)
     , (''case'', Keyword TOKEN_CASE), (''delete'', Web TOKEN_DELETE), (''do'', Keyword TOKEN_DO)
     , (''else'', Keyword TOKEN_ELSE), (''elsif'', Keyword TOKEN_ELSIF), (''end'', Keyword TOKEN_END)
     , (''false'', Keyword TOKEN_FALSE), (''fn'', Keyword TOKEN_FN), (''for'', Keyword TOKEN_FOR)
     , (''get'', Web TOKEN_GET), (''halt'', Web TOKEN_HALT), (''if'', Keyword TOKEN_IF), (''in'', Keyword TOKEN_IN)
     , (''loop'', Keyword TOKEN_LOOP), (''module'', Keyword TOKEN_MODULE), (''next'', Keyword TOKEN_NEXT)
     , (''nil'', Keyword TOKEN_NIL), (''not'', Keyword TOKEN_NOT), (''or'', Keyword TOKEN_OR)
     , (''patch'', Web TOKEN_PATCH), (''post'', Web TOKEN_POST), (''put'', Web TOKEN_PUT)
     , (''raise'', Keyword TOKEN_RAISE), (''redirect'', Web TOKEN_REDIRECT), (''render'', Web TOKEN_RENDER)
     , (''rescue'', Keyword TOKEN_RESCUE), (''return'', Keyword TOKEN_RETURN), (''then'', Keyword TOKEN_THEN)
     , (''true'', Keyword TOKEN_TRUE), (''unless'', Keyword TOKEN_UNLESS), (''until'', Keyword TOKEN_UNTIL)
     , (''while'', Keyword TOKEN_WHILE)]"

fun keyword_lookup :: "(string \<times> token_type) list \<Rightarrow> string \<Rightarrow> token_type" where
  "keyword_lookup [] s = Literal TOKEN_IDENTIFIER"
| "keyword_lookup ((k, t) # ks) s = (if length k = length s \<and> s = k then t else keyword_lookup ks s)"

definition identifier_type :: "string \<Rightarrow> token_type" where
  "identifier_type s = keyword_lookup keyword_table s"

definition is_alpha :: "char \<Rightarrow> bool" where
  "is_alpha c \<longleftrightarrow> (let n = of_char c :: nat in 97 \<le> n \<and> n \<le> 122 \<or> 65 \<le> n \<and> n \<le> 90 \<or> n = 95)"

definition is_digit :: "char \<Rightarrow> bool" where
  "is_digit c \<longleftrightarrow> (let n = of_char c :: nat in 48 \<le> n \<and> n \<le> 57)"

definition lexeme :: "lexer \<Rightarrow> string" where
  "lexeme lx = take (length (lx_start lx) - length (lx_current lx)) (lx_start lx)"

definition scan_identifier :: "lexer \<Rightarrow> token \<times> lexer" where
  "scan_identifier lx =
     (let cur = skip_while (\<lambda>c. is_alpha c \<or> is_digit c) (lx_current lx);
          cur = (if peek cur = CHR ''?'' \<and> peek_next cur \<noteq> CHR ''.'' \<and> peek_next cur \<noteq> CHR '':''
                 then tl cur else cur);
          lx = lx\<lparr>lx_current := cur\<rparr>
      in make_token lx (identifier_type (lexeme lx)))"

definition scan_number :: "lexer \<Rightarrow> token \<times> lexer" where
  "scan_number lx =
     (let digits = (\<lambda>c. is_digit c \<or> c = CHR ''_'');
          cur = skip_while digits (lx_current lx);
          frac = (peek cur = CHR ''.'' \<and> peek_next cur \<noteq> CHR ''.'' \<and> is_digit (peek_next cur));
          cur = (if frac then skip_while digits (tl cur) else cur)
      in if peek cur = CHR ''e'' \<or> peek cur = CHR ''E'' then
           let cur = tl cur;
               cur = (if peek cur = CHR ''+'' \<or> peek cur = CHR ''-'' then tl cur else cur)
           in if \<not> is_digit (peek cur)
              then error_token (lx\<lparr>lx_current := cur\<rparr>) ''Invalid number: expected digit after exponent''
              else make_token (lx\<lparr>lx_current := skip_while is_digit cur\<rparr>) (Literal TOKEN_FLOAT)
         else make_token (lx\<lparr>lx_current := cur\<rparr>) (if frac then Literal TOKEN_FLOAT else Literal TOKEN_INT))"

subsection \<open>Strings and symbols\<close>

datatype string_end = Closed | Interpolation | Unterminated

text \<open>The loop of \<open>scan_string\<close>: how it ends, the position there and the line count.\<close>

fun string_loop :: "char \<Rightarrow> string \<Rightarrow> nat \<Rightarrow> string_end \<times> string \<times> nat" where
  "string_loop quote [] line = (Unterminated, [], line)"
| "string_loop quote (c # cs) line =
     (if c = NUL then (Unterminated, c # cs, line)
      else
        let line = (if c = NL then line + 1 else line) in
        if c = quote then (Closed, cs, line)
        else if c = BSL then
          (case cs of
             [] \<Rightarrow> (Unterminated, [], line)
           | d # ds \<Rightarrow>
               if d = NUL then (Unterminated, d # ds, line)
               else string_loop quote ds (if d = NL then line + 1 else line))
        else if quote = DQ \<and> c = CHR ''#'' \<and> peek_next (c # cs) = CHR ''{''
        then (Interpolation, c # cs, line)
        else string_loop quote cs line)"

definition scan_string :: "lexer \<Rightarrow> char \<Rightarrow> token \<times> lexer" where
  "scan_string lx quote =
     (case string_loop quote (lx_current lx) (lx_line lx) of
        (Closed, cur, line) \<Rightarrow> make_token (lx\<lparr>lx_current := cur, lx_line := line\<rparr>) (Literal TOKEN_STRING)
      | (Interpolation, cur, line) \<Rightarrow>
          (\<lparr>tk_type = Special TOKEN_INTERPOLATION_START, tk_start = In_Source cur, tk_length = 2, tk_line = line\<rparr>,
           lx\<lparr>lx_current := drop 2 cur, lx_line := line\<rparr>)
      | (Unterminated, cur, line) \<Rightarrow>
          error_token (lx\<lparr>lx_current := cur, lx_line := line\<rparr>) ''Unterminated string'')"

fun symbol_loop :: "string \<Rightarrow> nat \<Rightarrow> string \<times> nat" where
  "symbol_loop [] line = ([], line)"
| "symbol_loop (c # cs) line =
     (if c = NUL \<or> c = DQ then (c # cs, line)
      else if c = BSL then
        (case cs of
           [] \<Rightarrow> ([], line)
         | d # ds \<Rightarrow> if d = NUL then (d # ds, line) else symbol_loop ds line)
      else symbol_loop cs (if c = NL then line + 1 else line))"

definition scan_symbol :: "lexer \<Rightarrow> token \<times> lexer" where
  "scan_symbol lx =
     (if peek (lx_current lx) = DQ then
        let (cur, line) = symbol_loop (tl (lx_current lx)) (lx_line lx);
            lx = lx\<lparr>lx_current := cur, lx_line := line\<rparr>
        in if at_end cur then error_token lx ''Unterminated symbol string''
           else make_token (lx\<lparr>lx_current := tl cur\<rparr>) (Literal TOKEN_SYMBOL)
      else if is_alpha (peek (lx_current lx)) then
        make_token (lx\<lparr>lx_current := skip_while (\<lambda>c. is_alpha c \<or> is_digit c) (lx_current lx)\<rparr>) (Literal TOKEN_SYMBOL)
      else make_token lx (Single TOKEN_COLON))"

subsection \<open>The next token\<close>

text \<open>The chain \<open>if (match(lexer, c1)) return t1; ...; return t\<close> of a case of the switch.\<close>

fun match_chain :: "lexer \<Rightarrow> (char \<times> token_type) list \<Rightarrow> token_type \<Rightarrow> token \<times> lexer" where
  "match_chain lx [] t = make_token lx t"
| "match_chain lx ((e, t') # alts) t =
     (case match_char lx e of
        (True, lx) \<Rightarrow> make_token lx t'
      | (False, lx) \<Rightarrow> match_chain lx alts t)"

definition lexer_init :: "string \<Rightarrow> lexer" where
  "lexer_init source = \<lparr>lx_start = source @ [NUL], lx_current = source @ [NUL], lx_line = 1\<rparr>"

text \<open>The switch on the first character; \<open>lx\<close> is past it.\<close>

definition scan_switch :: "lexer \<Rightarrow> char \<Rightarrow> token \<times> lexer" where
  "scan_switch lx c =
     (if c = NL then
        (let (t, lx) = make_token lx (Special TOKEN_NEWLINE) in (t, lx\<lparr>lx_line := lx_line lx + 1\<rparr>))
      else if c = CHR ''('' then make_token lx (Single TOKEN_LPAREN)
      else if c = CHR '')'' then make_token lx (Single TOKEN_RPAREN)
      else if c = CHR ''['' then make_token lx (Single TOKEN_LBRACKET)
      else if c = CHR '']'' then make_token lx (Single TOKEN_RBRACKET)
      else if c = CHR ''{'' then make_token lx (Single TOKEN_LBRACE)
      else if c = CHR ''}'' then make_token lx (Single TOKEN_RBRACE)
      else if c = CHR '','' then make_token lx (Single TOKEN_COMMA)
      else if c = CHR '';'' then make_token lx (Single TOKEN_SEMICOLON)
      else if c = CHR ''~'' then make_token lx (Single TOKEN_TILDE)
      else if c = CHR ''@'' then make_token lx (Single TOKEN_AT)
      else if c = CHR ''%'' then make_token lx (Single TOKEN_PERCENT)
      else if c = CHR ''^'' then make_token lx (Single TOKEN_CARET)
      else if c = CHR '':'' then scan_symbol lx
      else if c = CHR ''.'' then
        (case match_char lx CHR ''.'' of
           (True, lx) \<Rightarrow> match_chain lx [(CHR ''.'', Multi TOKEN_DOT_DOT_DOT)] (Multi TOKEN_DOT_DOT)
         | (False, lx) \<Rightarrow> make_token lx (Single TOKEN_DOT))
      else if c = CHR ''+'' then match_chain lx [(CHR ''='', Multi TOKEN_PLUS_EQUAL)] (Single TOKEN_PLUS)
      else if c = CHR ''-'' then
        match_chain lx [(CHR ''>'', Multi TOKEN_ARROW), (CHR ''='', Multi TOKEN_MINUS_EQUAL)] (Single TOKEN_MINUS)
      else if c = CHR ''*'' then
        match_chain lx [(CHR ''*'', Multi TOKEN_STAR_STAR), (CHR ''='', Multi TOKEN_STAR_EQUAL)] (Single TOKEN_STAR)
      else if c = CHR ''/'' then match_chain lx [(CHR ''='', Multi TOKEN_SLASH_EQUAL)] (Single TOKEN_SLASH)
      else if c = CHR ''<'' then
        match_chain lx [(CHR ''<'', Multi TOKEN_LSHIFT), (CHR ''='', Multi TOKEN_LESS_EQUAL)] (Single TOKEN_LESS)
      else if c = CHR ''>'' then
        match_chain lx [(CHR ''>'', Multi TOKEN_RSHIFT), (CHR ''='', Multi TOKEN_GREATER_EQUAL)] (Single TOKEN_GREATER)
      else if c = CHR ''='' then
        match_chain lx [(CHR ''='', Multi TOKEN_EQUAL_EQUAL), (CHR ''>'', Multi TOKEN_FAT_ARROW)] (Single TOKEN_EQUAL)
      else if c = CHR ''!'' then match_chain lx [(CHR ''='', Multi TOKEN_BANG_EQUAL)] (Single TOKEN_BANG)
      else if c = CHR ''&'' then match_chain lx [(CHR ''&'', Multi TOKEN_AMP_AMP)] (Single TOKEN_AMP)
      else if c = CHR ''|'' then match_chain lx [(CHR ''|'', Multi TOKEN_PIPE_PIPE)] (Single TOKEN_PIPE)
      else if c = CHR ''?'' then
        match_chain lx [(CHR ''.'', Multi TOKEN_SAFE_NAV), (CHR '':'', Multi TOKEN_TERNARY)] (Single TOKEN_QUESTION)
      else if c = DQ then scan_string lx DQ
      else if c = SQ then scan_string lx SQ
      else error_token lx ''Unexpected character'')"

definition lexer_next_token :: "lexer \<Rightarrow> token \<times> lexer" where
  "lexer_next_token lx =
     (let cur = skip_whitespace (lx_current lx);
          lx = lx\<lparr>lx_start := cur, lx_current := cur\<rparr>
      in if at_end cur then make_token lx (Special TOKEN_EOF)
      else
        let c = hd cur;
            lx = lx\<lparr>lx_current := tl cur\<rparr>
        in if is_alpha c then scan_identifier lx
        else if is_digit c then scan_number lx
        else scan_switch lx c)"

subsection \<open>Staying inside the source\<close>

text \<open>A position is good when it lies at or before the terminator.  \<open>adv\<close> is a move forward from
  one good position to another; \<open>moves\<close> is what every scanning routine does to the state.\<close>

definition src_ok :: "string \<Rightarrow> bool" where
  "src_ok s \<longleftrightarrow> (\<exists>t. s = t @ [NUL] \<and> NUL \<notin> set t)"

definition adv :: "string \<Rightarrow> string \<Rightarrow> bool" where
  "adv s s' \<longleftrightarrow> suffix s' s \<and> src_ok s'"

abbreviation nl :: "string \<Rightarrow> nat" where "nl s \<equiv> count_list s NL"

lemma src_ok_Cons: "src_ok (c # cs) \<longleftrightarrow> (if c = NUL then cs = [] else src_ok cs)"
proof (cases "c = NUL")
  case True
  then show ?thesis by (auto simp: src_ok_def Cons_eq_append_conv)
next
  case False
  then show ?thesis by (auto simp: src_ok_def Cons_eq_append_conv)
qed

lemma src_ok_Nil [simp]: "\<not> src_ok []"
  by (simp add: src_ok_def)

lemma src_ok_end: "src_ok s \<Longrightarrow> hd s = NUL \<longleftrightarrow> s = [NUL]"
  by (cases s) (auto simp: src_ok_Cons)

lemma adv_refl: "src_ok s \<Longrightarrow> adv s s"
  by (simp add: adv_def)

lemma adv_trans: "adv s s' \<Longrightarrow> adv s' s'' \<Longrightarrow> adv s s''"
  by (auto simp: adv_def intro: suffix_order.trans)

lemma adv_Cons: "src_ok (c # cs) \<Longrightarrow> c \<noteq> NUL \<Longrightarrow> adv (c # cs) cs"
  by (simp add: adv_def src_ok_Cons suffix_ConsI)

lemma adv_ConsI [intro]: "adv cs s' \<Longrightarrow> adv (c # cs) s'"
  by (simp add: adv_def suffix_ConsI)

lemma adv_tl: "src_ok s \<Longrightarrow> hd s \<noteq> NUL \<Longrightarrow> adv s (tl s)"
  by (cases s) (auto intro: adv_Cons)

lemma adv_length: "adv s s' \<Longrightarrow> length s' \<le> length s"
  by (auto simp: adv_def dest: suffix_length_le)

lemma skip_while_adv: "src_ok s \<Longrightarrow> \<not> P NUL \<Longrightarrow> adv s (skip_while P s)"
proof (induction s)
  case (Cons c cs)
  then show ?case by (auto simp: src_ok_Cons adv_refl split: if_splits intro: adv_trans [OF adv_Cons])
qed simp

lemma skip_while_nl: "\<forall>c. P c \<longrightarrow> c \<noteq> NL \<Longrightarrow> nl (skip_while P s) = nl s"
  by (induction s) auto

lemma skip_whitespace_adv: "src_ok s \<Longrightarrow> adv s (skip_whitespace s) \<and> nl (skip_whitespace s) = nl s"
proof (induction s rule: skip_whitespace.induct)
  case (2 c cs)
  let ?comment = "skip_while (\<lambda>c. c \<noteq> NL \<and> c \<noteq> NUL) (c # cs)"
  have "adv (c # cs) ?comment" by (rule skip_while_adv [OF 2(3)]) simp
  moreover have "nl ?comment = nl (c # cs)" by (rule skip_while_nl) simp
  ultimately have "adv (c # cs) ?comment" "nl ?comment = nl (c # cs)" by blast+
  then show ?case
    using 2 by (auto simp: src_ok_Cons adv_refl adv_def intro: suffix_order.trans suffix_ConsI)
qed simp

lemma skip_whitespace_stop:
  "src_ok s \<Longrightarrow> hd (skip_whitespace s) \<notin> {CHR '' '', CHR 0x09, CHR 0x0D, CHR ''#''}"
proof (induction s rule: skip_whitespace.induct)
  case (2 c cs)
  let ?comment = "skip_while (\<lambda>c. c \<noteq> NL \<and> c \<noteq> NUL) (c # cs)"
  have "adv (c # cs) ?comment" by (rule skip_while_adv [OF 2(3)]) simp
  then have "src_ok ?comment" by (simp add: adv_def)
  then show ?case using 2 by (auto simp: src_ok_Cons)
qed simp

lemma string_loop_adv:
  assumes "src_ok s" and "quote \<noteq> NUL" and "string_loop quote s line = (r, s', line')"
  shows "adv s s' \<and> line' + nl s' = line + nl s \<and> (r = Unterminated \<longrightarrow> s' = [NUL]) \<and>
    (r = Interpolation \<longrightarrow> (\<exists>u. s' = CHR ''#'' # CHR ''{'' # u)) \<and>
    (r = Closed \<longrightarrow> length s' < length s)"
  using assms
proof (induction quote s line rule: string_loop.induct)
  case (2 quote c cs line)
  let ?line = "if c = NL then line + 1 else line"
  consider "c = NUL" | "c \<noteq> NUL" "c = quote" | "c \<noteq> NUL" "c \<noteq> quote" "c = BSL"
    | "c \<noteq> NUL" "c \<noteq> quote" "c \<noteq> BSL" "quote = DQ \<and> c = CHR ''#'' \<and> peek_next (c # cs) = CHR ''{''"
    | "c \<noteq> NUL" "c \<noteq> quote" "c \<noteq> BSL" "\<not> (quote = DQ \<and> c = CHR ''#'' \<and> peek_next (c # cs) = CHR ''{'')"
    by blast
  then show ?case
  proof cases
    case 1
    then show ?thesis using 2(3-5) by (auto simp: adv_refl src_ok_Cons)
  next
    case 2
    then show ?thesis using "2.prems" by (auto simp: Let_def intro: adv_Cons)
  next
    case 3
    then have cs: "src_ok cs" using "2.prems"(1) by (simp add: src_ok_Cons)
    then obtain d ds where d: "cs = d # ds" by (cases cs) auto
    show ?thesis
    proof (cases "d = NUL")
      case True
      then show ?thesis
        using 3 d cs "2.prems" by (auto simp: Let_def src_ok_Cons intro: adv_Cons)
    next
      case False
      then have "src_ok ds" using cs d by (simp add: src_ok_Cons)
      then show ?thesis
        using "2.IH"(1) [OF 3(1) refl 3(2) 3(3) d False] False 3 d cs "2.prems"
        by (auto simp: Let_def intro!: adv_ConsI)
    qed
  next
    case 4
    then obtain u where "cs = CHR ''{'' # u"
      using "2.prems"(1) by (cases cs) (auto simp: peek_next_def at_end_def src_ok_Cons)
    then show ?thesis using 4 "2.prems" by (auto simp: Let_def adv_refl)
  next
    case 5
    then have "src_ok cs" using "2.prems"(1) by (simp add: src_ok_Cons)
    then show ?thesis
      using "2.IH"(2) [OF 5(1) refl 5(2,3,4)] 5 "2.prems"
      by (auto simp: Let_def split: if_splits)
  qed
qed simp

lemma symbol_loop_adv:
  assumes "src_ok s" and "symbol_loop s line = (s', line')"
  shows "adv s s' \<and> (hd s' = NUL \<or> hd s' = DQ) \<and> line' + nl s' \<le> line + nl s"
  using assms
proof (induction s line rule: symbol_loop.induct)
  case (2 c cs line)
  consider "c = NUL \<or> c = DQ" | "\<not> (c = NUL \<or> c = DQ)" "c = BSL" | "\<not> (c = NUL \<or> c = DQ)" "c \<noteq> BSL" by blast
  then show ?case
  proof cases
    case 1
    then show ?thesis using 2(3,4) by (auto simp: adv_refl src_ok_Cons)
  next
    case 2
    then have cs: "src_ok cs" using "2.prems"(1) by (simp add: src_ok_Cons)
    then obtain d ds where d: "cs = d # ds" by (cases cs) auto
    show ?thesis
    proof (cases "d = NUL")
      case True
      then show ?thesis using 2 d cs "2.prems" by (auto simp: src_ok_Cons intro: adv_Cons)
    next
      case False
      then have "src_ok ds" using cs d by (simp add: src_ok_Cons)
      then show ?thesis
        using "2.IH"(1) [OF 2 d False] False 2 d cs "2.prems"
        by auto
    qed
  next
    case 3
    then have "src_ok cs" using "2.prems"(1) by (simp add: src_ok_Cons)
    then show ?thesis
      using "2.IH"(2) [OF 3] 3 "2.prems"
      by (auto split: if_splits)
  qed
qed simp

subsection \<open>What one call of the lexer does\<close>

fun tok_text :: "token \<Rightarrow> string" where
  "tok_text t = (case tk_start t of In_Source s \<Rightarrow> take (tk_length t) s | Message m \<Rightarrow> m)"

definition lex_pos :: "lexer \<Rightarrow> bool" where
  "lex_pos lx \<longleftrightarrow> adv (lx_start lx) (lx_current lx)"

definition moves :: "lexer \<Rightarrow> token \<times> lexer \<Rightarrow> bool" where
  "moves lx r \<longleftrightarrow> (case r of (t, lx') \<Rightarrow>
     lx_start lx' = lx_start lx \<and> adv (lx_current lx) (lx_current lx') \<and> tk_type t \<noteq> Special TOKEN_EOF \<and>
     lx_line lx' + nl (lx_current lx') \<le> lx_line lx + nl (lx_current lx) \<and>
     (tk_type t \<notin> {Literal TOKEN_SYMBOL, Special TOKEN_ERROR} \<longrightarrow>
        lx_line lx' + nl (lx_current lx') = lx_line lx + nl (lx_current lx)) \<and>
     (tk_type t \<noteq> Special TOKEN_ERROR \<longrightarrow> (\<exists>q. lx_start lx = q @ tok_text t @ lx_current lx' \<and>
        (tk_type t \<noteq> Special TOKEN_INTERPOLATION_START \<longrightarrow> q = []))))"

lemma lex_pos_src_ok: "lex_pos lx \<Longrightarrow> src_ok (lx_current lx)"
  by (simp add: lex_pos_def adv_def)

lemma make_token_moves [inv_intros]:
  assumes "lex_pos lx" and "adv (lx_current lx) cur" and "t \<noteq> Special TOKEN_EOF"
    and "line + nl cur \<le> lx_line lx + nl (lx_current lx)"
    and "t \<noteq> Literal TOKEN_SYMBOL \<Longrightarrow> line + nl cur = lx_line lx + nl (lx_current lx)"
  shows "moves lx (make_token (lx\<lparr>lx_current := cur, lx_line := line\<rparr>) t)"
proof -
  have "adv (lx_start lx) cur" using assms(1,2) by (auto simp: lex_pos_def intro: adv_trans)
  then obtain q where "lx_start lx = q @ cur" by (auto simp: adv_def suffix_def)
  then show ?thesis using assms by (auto simp: moves_def make_token_def)
qed

lemma make_token_moves_cur [inv_intros]:
  assumes "lex_pos lx" and "adv (lx_current lx) cur" and "t \<noteq> Special TOKEN_EOF"
    and "nl cur \<le> nl (lx_current lx)" and "t \<noteq> Literal TOKEN_SYMBOL \<Longrightarrow> nl cur = nl (lx_current lx)"
  shows "moves lx (make_token (lx\<lparr>lx_current := cur\<rparr>) t)"
  using make_token_moves [OF assms(1-3), of "lx_line lx"] assms(4,5) by simp

lemma make_token_moves_id [inv_intros]:
  assumes "lex_pos lx" and "t \<noteq> Special TOKEN_EOF"
  shows "moves lx (make_token lx t)"
  using make_token_moves_cur [OF assms(1) adv_refl [OF lex_pos_src_ok [OF assms(1)]] assms(2)] by simp

lemma error_token_moves [inv_intros]:
  assumes "adv (lx_current lx) cur" and "line + nl cur \<le> lx_line lx + nl (lx_current lx)"
  shows "moves lx (error_token (lx\<lparr>lx_current := cur, lx_line := line\<rparr>) msg)"
  using assms by (simp add: moves_def error_token_def)

lemma error_token_moves_cur:
  assumes "adv (lx_current lx) cur" and "nl cur \<le> nl (lx_current lx)"
  shows "moves lx (error_token (lx\<lparr>lx_current := cur\<rparr>) msg)"
  using assms by (simp add: moves_def error_token_def)

lemma error_token_moves_id: "src_ok (lx_current lx) \<Longrightarrow> moves lx (error_token lx msg)"
  by (simp add: moves_def error_token_def adv_refl)

lemma match_char_cases:
  assumes "lex_pos lx" and "e \<noteq> NUL" and "e \<noteq> NL"
  shows "match_char lx e = (False, lx) \<or> (\<exists>cur. match_char lx e = (True, lx\<lparr>lx_current := cur\<rparr>) \<and>
    adv (lx_current lx) cur \<and> nl cur = nl (lx_current lx) \<and> lx_current lx = e # cur)"
  using lex_pos_src_ok [OF assms(1)] assms(2,3)
  by (cases "lx_current lx") (auto simp: match_char_def at_end_def intro: adv_Cons)

lemma match_chain_moves [inv_intros]:
  assumes "lex_pos lx" and "\<forall>(e, t') \<in> set alts. e \<noteq> NUL \<and> e \<noteq> NL \<and> t' \<noteq> Special TOKEN_EOF"
    and "t \<noteq> Special TOKEN_EOF"
  shows "moves lx (match_chain lx alts t)"
  using assms
proof (induction lx alts t rule: match_chain.induct)
  case (2 lx e t' alts t)
  consider "match_char lx e = (False, lx)" | cur where "match_char lx e = (True, lx\<lparr>lx_current := cur\<rparr>)"
      "adv (lx_current lx) cur" "nl cur = nl (lx_current lx)"
    using match_char_cases [OF 2(2), of e] 2(3) by auto
  then show ?case
    by cases (use 2 in \<open>auto intro: make_token_moves_cur\<close>)
qed (simp add: make_token_moves_id)

lemma is_alpha_simps [simp]: "\<not> is_alpha NUL" "\<not> is_alpha NL" "\<not> is_digit NUL" "\<not> is_digit NL"
  by (simp_all add: is_alpha_def is_digit_def)

lemma src_ok_cur: "adv s s' \<Longrightarrow> src_ok s'"
  by (simp add: adv_def)

text \<open>Moving past one character known not to be the terminator or a line end.\<close>

lemma step_tl: "adv s s' \<Longrightarrow> hd s' \<noteq> NUL \<Longrightarrow> hd s' \<noteq> NL \<Longrightarrow> adv s (tl s') \<and> nl (tl s') = nl s'"
  using adv_tl [OF src_ok_cur, of s s'] by (cases s') (auto intro: adv_trans)

lemma keyword_lookup_in: "keyword_lookup ks s = Literal TOKEN_IDENTIFIER \<or> (s, keyword_lookup ks s) \<in> set ks"
  by (induction ks s rule: keyword_lookup.induct) auto

lemma keyword_kinds: "(k, t) \<in> set keyword_table \<Longrightarrow> (\<exists>x. t = Keyword x) \<or> (\<exists>x. t = Web x)"
  by (auto simp: keyword_table_def)

lemma identifier_type_kinds: "identifier_type x \<noteq> Special y \<and> identifier_type x \<noteq> Literal TOKEN_SYMBOL"
  using keyword_lookup_in [of keyword_table x] by (auto simp: identifier_type_def dest: keyword_kinds)

lemma scan_identifier_moves [inv_intros]:
  assumes "lex_pos lx" shows "moves lx (scan_identifier lx)"
proof -
  let ?P = "\<lambda>c. is_alpha c \<or> is_digit c"
  let ?c = "skip_while ?P (lx_current lx)"
  have c: "adv (lx_current lx) ?c" "nl ?c = nl (lx_current lx)"
    using lex_pos_src_ok [OF assms] by (auto intro!: skip_while_adv skip_while_nl)
  show ?thesis
    using step_tl [OF c(1)] c assms identifier_type_kinds
    by (auto simp: scan_identifier_def Let_def peek_def intro!: make_token_moves_cur)
qed

lemma digits_adv:
  assumes "src_ok s" and "\<forall>c. P c \<longrightarrow> is_digit c \<or> c = CHR ''_''"
  shows "adv s (skip_while P s) \<and> nl (skip_while P s) = nl s"
  using assms by (auto intro!: skip_while_adv skip_while_nl)

lemma adv_chain: "adv s s' \<and> nl s' = nl s \<Longrightarrow> adv s' s'' \<and> nl s'' = nl s' \<Longrightarrow> adv s s'' \<and> nl s'' = nl s"
  by (auto intro: adv_trans)

lemma scan_number_moves [inv_intros]:
  assumes "lex_pos lx" shows "moves lx (scan_number lx)"
proof -
  let ?P = "\<lambda>c. is_digit c \<or> c = CHR ''_''"
  let ?s = "lx_current lx"
  have s: "adv ?s ?s \<and> nl ?s = nl ?s" using lex_pos_src_ok [OF assms] by (simp add: adv_refl)
  define a where "a = skip_while ?P ?s"
  define frac where "frac \<longleftrightarrow> peek a = CHR ''.'' \<and> peek_next a \<noteq> CHR ''.'' \<and> is_digit (peek_next a)"
  define b where "b = (if frac then skip_while ?P (tl a) else a)"
  define c where "c = tl b"
  define d where "d = (if peek c = CHR ''+'' \<or> peek c = CHR ''-'' then tl c else c)"
  have a: "adv ?s a \<and> nl a = nl ?s"
    unfolding a_def using lex_pos_src_ok [OF assms] by (intro digits_adv) auto
  have b: "adv ?s b \<and> nl b = nl ?s"
  proof (cases frac)
    case True
    then have "adv ?s (tl a) \<and> nl (tl a) = nl ?s"
      using step_tl [of ?s a] a by (simp add: frac_def peek_def)
    moreover from this have "adv (tl a) b \<and> nl b = nl (tl a)"
      using True digits_adv [of "tl a" ?P] src_ok_cur [of ?s "tl a"] by (auto simp: b_def)
    ultimately show ?thesis by (rule adv_chain)
  qed (simp add: b_def a)
  have eq: "scan_number lx = (if peek b = CHR ''e'' \<or> peek b = CHR ''E'' then
      if \<not> is_digit (peek d)
      then error_token (lx\<lparr>lx_current := d\<rparr>) ''Invalid number: expected digit after exponent''
      else make_token (lx\<lparr>lx_current := skip_while is_digit d\<rparr>) (Literal TOKEN_FLOAT)
    else make_token (lx\<lparr>lx_current := b\<rparr>) (if frac then Literal TOKEN_FLOAT else Literal TOKEN_INT))"
    unfolding scan_number_def Let_def d_def c_def b_def frac_def a_def by (rule refl)
  show ?thesis
  proof (cases "peek b = CHR ''e'' \<or> peek b = CHR ''E''")
    case True
    then have c: "adv ?s c \<and> nl c = nl ?s"
      using step_tl [of ?s b] b by (auto simp: peek_def c_def)
    then have d: "adv ?s d \<and> nl d = nl ?s"
      using step_tl [of ?s c] by (auto simp: peek_def d_def)
    then have "src_ok d" by (auto simp: src_ok_cur)
    then have e: "adv ?s (skip_while is_digit d) \<and> nl (skip_while is_digit d) = nl ?s"
      by (intro adv_chain [OF d] digits_adv) simp_all
    show ?thesis
      using assms d e True unfolding eq by (simp add: error_token_moves_cur make_token_moves_cur)
  next
    case False
    then show ?thesis using assms b unfolding eq by (simp add: make_token_moves_cur)
  qed
qed

lemma scan_string_moves [inv_intros]:
  assumes "lex_pos lx" and "quote \<noteq> NUL"
  shows "moves lx (scan_string lx quote)"
proof -
  obtain r cur line where l: "string_loop quote (lx_current lx) (lx_line lx) = (r, cur, line)"
    by (cases "string_loop quote (lx_current lx) (lx_line lx)") auto
  note a = string_loop_adv [OF lex_pos_src_ok [OF assms(1)] assms(2) l]
  show ?thesis
  proof (cases r)
    case Closed
    then show ?thesis using a l assms(1) by (auto simp: scan_string_def intro!: make_token_moves)
  next
    case Unterminated
    then show ?thesis using a l by (auto simp: scan_string_def intro!: error_token_moves)
  next
    case Interpolation
    then obtain u where u: "cur = CHR ''#'' # CHR ''{'' # u" using a by auto
    have cur: "adv (lx_start lx) cur" using a assms(1) by (auto simp: lex_pos_def intro: adv_trans)
    then obtain q where q: "lx_start lx = q @ cur" by (auto simp: adv_def suffix_def)
    have "src_ok u" using a u by (auto simp: adv_def src_ok_Cons)
    then have "adv (lx_current lx) u" using a u by (auto simp: adv_def dest: suffix_ConsD)
    then show ?thesis
      using Interpolation l a u q by (simp add: scan_string_def moves_def)
  qed
qed

lemma scan_symbol_moves [inv_intros]:
  assumes "lex_pos lx" shows "moves lx (scan_symbol lx)"
proof -
  let ?s = "lx_current lx"
  have s: "src_ok ?s" by (rule lex_pos_src_ok [OF assms])
  consider "peek ?s = DQ" | "peek ?s \<noteq> DQ" "is_alpha (peek ?s)" | "peek ?s \<noteq> DQ" "\<not> is_alpha (peek ?s)" by blast
  then show ?thesis
  proof cases
    case 1
    then have t: "adv ?s (tl ?s)" "nl (tl ?s) = nl ?s"
      using step_tl [OF adv_refl [OF s]] by (simp_all add: peek_def)
    obtain cur line where l: "symbol_loop (tl ?s) (lx_line lx) = (cur, line)" by force
    note a = symbol_loop_adv [OF src_ok_cur [OF t(1)] l]
    then have c: "adv ?s cur" using t adv_trans by blast
    show ?thesis
    proof (cases "at_end cur")
      case True
      then show ?thesis
        using 1 l a c t by (auto simp: scan_symbol_def intro!: error_token_moves)
    next
      case False
      then have "adv ?s (tl cur) \<and> nl (tl cur) = nl cur"
        using a c step_tl [OF c] by (simp add: at_end_def)
      then have "moves lx (make_token (lx\<lparr>lx_current := tl cur, lx_line := line\<rparr>) (Literal TOKEN_SYMBOL))"
        using a t assms by (intro make_token_moves) auto
      moreover have "scan_symbol lx = make_token (lx\<lparr>lx_current := tl cur, lx_line := line\<rparr>) (Literal TOKEN_SYMBOL)"
        using 1 l False by (cases lx) (simp add: scan_symbol_def)
      ultimately show ?thesis by simp
    qed
  next
    case 2
    let ?P = "\<lambda>c. is_alpha c \<or> is_digit c"
    have "adv ?s (skip_while ?P ?s)" "nl (skip_while ?P ?s) = nl ?s"
      using s by (auto intro!: skip_while_adv skip_while_nl)
    then show ?thesis using 2 assms by (simp add: scan_symbol_def make_token_moves_cur)
  next
    case 3
    then show ?thesis using assms by (simp add: scan_symbol_def make_token_moves_id)
  qed
qed

text \<open>The state after the first character of a token.\<close>

lemma first_char_pos:
  assumes "src_ok cur" and "hd cur \<noteq> NUL"
  shows "lex_pos (lx\<lparr>lx_start := cur, lx_current := tl cur\<rparr>)"
  using adv_tl [OF assms] by (simp add: lex_pos_def)

lemma error_token_moves_self: "lex_pos lx \<Longrightarrow> moves lx (error_token lx msg)"
  by (rule error_token_moves_id [OF lex_pos_src_ok])

lemma dot_moves:
  assumes "lex_pos lx"
  shows "moves lx (case match_char lx CHR ''.'' of
     (True, lx) \<Rightarrow> match_chain lx [(CHR ''.'', Multi TOKEN_DOT_DOT_DOT)] (Multi TOKEN_DOT_DOT)
   | (False, lx) \<Rightarrow> make_token lx (Single TOKEN_DOT))"
proof -
  consider "match_char lx CHR ''.'' = (False, lx)" | cur where "match_char lx CHR ''.'' = (True, lx\<lparr>lx_current := cur\<rparr>)"
      "adv (lx_current lx) cur" "nl cur = nl (lx_current lx)"
    using match_char_cases [OF assms, of "CHR ''.''"] by auto
  then show ?thesis
  proof cases
    case 1
    then show ?thesis using assms by (simp add: make_token_moves_id)
  next
    case 2
    have "lex_pos (lx\<lparr>lx_current := cur\<rparr>)"
      using assms 2(2) by (auto simp: lex_pos_def intro: adv_trans)
    then have "moves (lx\<lparr>lx_current := cur\<rparr>) (match_chain (lx\<lparr>lx_current := cur\<rparr>)
        [(CHR ''.'', Multi TOKEN_DOT_DOT_DOT)] (Multi TOKEN_DOT_DOT))"
      by (rule match_chain_moves) simp_all
    then show ?thesis using 2 by (auto simp: moves_def intro: adv_trans)
  qed
qed

lemma scan_switch_moves:
  assumes "lex_pos lx" and "c \<noteq> NL"
  shows "moves lx (scan_switch lx c)"
  using assms dot_moves [OF assms(1)]
  unfolding scan_switch_def
  by (simp add: make_token_moves_id match_chain_moves scan_string_moves scan_symbol_moves
      error_token_moves_self del: match_chain.simps)

lemma next_token_at:
  assumes "skip_whitespace (lx_current lx) = c # cs"
  shows "lexer_next_token lx =
    (let lx0 = lx\<lparr>lx_start := c # cs, lx_current := cs\<rparr>
     in if c = NUL then make_token (lx\<lparr>lx_start := c # cs, lx_current := c # cs\<rparr>) (Special TOKEN_EOF)
        else if is_alpha c then scan_identifier lx0
        else if is_digit c then scan_number lx0
        else scan_switch lx0 c)"
  by (simp add: lexer_next_token_def assms at_end_def Let_def)

lemma next_token_cases:
  assumes "src_ok (lx_current lx)"
  obtains (eof) "skip_whitespace (lx_current lx) = [NUL]"
      "lexer_next_token lx = make_token (lx\<lparr>lx_start := [NUL], lx_current := [NUL]\<rparr>) (Special TOKEN_EOF)"
  | (newline) cs where "skip_whitespace (lx_current lx) = NL # cs" "src_ok cs"
      "lexer_next_token lx = (\<lparr>tk_type = Special TOKEN_NEWLINE, tk_start = In_Source (NL # cs), tk_length = 1,
         tk_line = lx_line lx\<rparr>, lx\<lparr>lx_start := NL # cs, lx_current := cs, lx_line := lx_line lx + 1\<rparr>)"
  | (other) c cs lx0 where "skip_whitespace (lx_current lx) = c # cs" "c \<noteq> NUL" "c \<noteq> NL" "src_ok cs"
      "lx0 = lx\<lparr>lx_start := c # cs, lx_current := cs\<rparr>" "moves lx0 (lexer_next_token lx)"
proof -
  let ?s = "skip_whitespace (lx_current lx)"
  have s: "src_ok ?s" using skip_whitespace_adv [OF assms] by (simp add: adv_def)
  then obtain c cs where c: "?s = c # cs" by (cases ?s) auto
  show ?thesis
  proof (cases "c = NUL")
    case True
    then have "?s = [NUL]" using s c by (simp add: src_ok_Cons)
    then show ?thesis using eof next_token_at [of lx NUL "[]"] by (simp add: Let_def)
  next
    case nul: False
    then have cs: "src_ok cs" using s c by (simp add: src_ok_Cons)
    show ?thesis
    proof (cases "c = NL")
      case True
      then show ?thesis
        using newline [OF _ cs] c next_token_at [OF c] by (simp add: scan_switch_def make_token_def Let_def)
    next
      case False
      let ?lx = "lx\<lparr>lx_start := c # cs, lx_current := cs\<rparr>"
      have pos: "lex_pos ?lx" using first_char_pos [of "c # cs" lx] s c nul by simp
      have "lexer_next_token lx = (if is_alpha c then scan_identifier ?lx
          else if is_digit c then scan_number ?lx else scan_switch ?lx c)"
        using nul next_token_at [OF c] by (simp add: Let_def)
      then have "moves ?lx (lexer_next_token lx)"
        using pos False by (simp add: scan_identifier_moves scan_number_moves scan_switch_moves)
      then show ?thesis using other [OF c nul False cs refl] by blast
    qed
  qed
qed

lemma next_token_step:
  assumes "src_ok (lx_current lx)" and "lexer_next_token lx = (t, lx')"
  shows "src_ok (lx_current lx')" and "\<exists>gap. lx_current lx = gap @ lx_start lx' \<and> NL \<notin> set gap"
    and "tk_type t = Special TOKEN_EOF \<longleftrightarrow> lx_start lx' = [NUL]"
    and "tk_type t \<noteq> Special TOKEN_EOF \<Longrightarrow> length (lx_current lx') < length (lx_current lx)"
    and "tk_type t \<noteq> Special TOKEN_ERROR \<Longrightarrow> \<exists>q. lx_start lx' = q @ tok_text t @ lx_current lx' \<and>
      (tk_type t \<noteq> Special TOKEN_INTERPOLATION_START \<longrightarrow> q = [])"
    and "lx_line lx' + nl (lx_current lx') \<le> lx_line lx + nl (lx_current lx)"
    and "tk_type t \<notin> {Literal TOKEN_SYMBOL, Special TOKEN_ERROR} \<Longrightarrow>
      lx_line lx' + nl (lx_current lx') = lx_line lx + nl (lx_current lx)"
proof -
  let ?s = "skip_whitespace (lx_current lx)"
  have w: "adv (lx_current lx) ?s" "nl ?s = nl (lx_current lx)" using skip_whitespace_adv [OF assms(1)] by auto
  then obtain gap where gap: "lx_current lx = gap @ ?s" by (auto simp: adv_def suffix_def)
  then have "nl gap = 0" using w(2) by (metis add_eq_self_zero add.commute count_list_append)
  then have nogap: "NL \<notin> set gap" by (simp add: count_list_0_iff)
  have len: "length ?s \<le> length (lx_current lx)" using adv_length [OF w(1)] .
  have "src_ok (lx_current lx') \<and> lx_start lx' = ?s \<and>
      (tk_type t = Special TOKEN_EOF \<longleftrightarrow> lx_start lx' = [NUL]) \<and>
      (tk_type t \<noteq> Special TOKEN_EOF \<longrightarrow> length (lx_current lx') < length ?s) \<and>
      (tk_type t \<noteq> Special TOKEN_ERROR \<longrightarrow> (\<exists>q. lx_start lx' = q @ tok_text t @ lx_current lx' \<and>
        (tk_type t \<noteq> Special TOKEN_INTERPOLATION_START \<longrightarrow> q = []))) \<and>
      lx_line lx' + nl (lx_current lx') \<le> lx_line lx + nl ?s \<and>
      (tk_type t \<notin> {Literal TOKEN_SYMBOL, Special TOKEN_ERROR} \<longrightarrow>
        lx_line lx' + nl (lx_current lx') = lx_line lx + nl ?s)"
    using assms(1)
  proof (cases rule: next_token_cases)
    case eof
    then show ?thesis using assms(2) by (auto simp: make_token_def src_ok_Cons)
  next
    case (newline cs)
    then show ?thesis using assms(2) by auto
  next
    case (other c cs lx0)
    then have m: "moves lx0 (t, lx')" using assms(2) by simp
    then have "adv cs (lx_current lx')" using other(5) by (simp add: moves_def)
    then have "src_ok (lx_current lx')" "length (lx_current lx') \<le> length cs"
      by (auto simp: src_ok_cur dest: adv_length)
    then show ?thesis using m other by (auto simp: moves_def)
  qed
  note * = this
  show "src_ok (lx_current lx')" "\<exists>gap. lx_current lx = gap @ lx_start lx' \<and> NL \<notin> set gap"
    "tk_type t = Special TOKEN_EOF \<longleftrightarrow> lx_start lx' = [NUL]"
    "lx_line lx' + nl (lx_current lx') \<le> lx_line lx + nl (lx_current lx)"
    using * gap nogap w(2) by auto
  show "tk_type t \<noteq> Special TOKEN_EOF \<Longrightarrow> length (lx_current lx') < length (lx_current lx)"
    using * len by auto
  show "tk_type t \<noteq> Special TOKEN_ERROR \<Longrightarrow> \<exists>q. lx_start lx' = q @ tok_text t @ lx_current lx' \<and>
      (tk_type t \<noteq> Special TOKEN_INTERPOLATION_START \<longrightarrow> q = [])"
    using * by blast
  show "tk_type t \<notin> {Literal TOKEN_SYMBOL, Special TOKEN_ERROR} \<Longrightarrow>
      lx_line lx' + nl (lx_current lx') = lx_line lx + nl (lx_current lx)"
    using * w(2) by auto
qed

subsection \<open>Running the lexer to the end\<close>

text \<open>A client calls the lexer until it returns \<open>TOKEN_EOF\<close>.\<close>

partial_function (option) lex_all :: "lexer \<Rightarrow> token list option" where
  "lex_all lx = (let (t, lx') = lexer_next_token lx in
     if tk_type t = Special TOKEN_EOF then Some [t]
     else Option.bind (lex_all lx') (\<lambda>ts. Some (t # ts)))"

declare lex_all.simps [code]

lemma lex_all_returns:
  "src_ok (lx_current lx) \<Longrightarrow> \<exists>ts. lex_all lx = Some ts \<and> ts \<noteq> [] \<and> length ts \<le> length (lx_current lx) \<and>
     tk_type (last ts) = Special TOKEN_EOF \<and> (\<forall>t \<in> set (butlast ts). tk_type t \<noteq> Special TOKEN_EOF)"
proof (induction "length (lx_current lx)" arbitrary: lx rule: less_induct)
  case less
  obtain t lx' where r: "lexer_next_token lx = (t, lx')" by force
  have ne: "lx_current lx \<noteq> []" using less.prems by auto
  show ?case
  proof (cases "tk_type t = Special TOKEN_EOF")
    case True
    then show ?thesis using r ne by (auto simp: lex_all.simps [of lx] Suc_le_eq)
  next
    case False
    note step = next_token_step [OF less.prems r]
    from less.hyps [OF step(4) [OF False] step(1)] obtain ts where
      ts: "lex_all lx' = Some ts" "ts \<noteq> []" "length ts \<le> length (lx_current lx')"
        "tk_type (last ts) = Special TOKEN_EOF" "\<forall>t \<in> set (butlast ts). tk_type t \<noteq> Special TOKEN_EOF" by auto
    then show ?thesis using r False step(4) [OF False] by (auto simp: lex_all.simps [of lx])
  qed
qed

lemma lexer_init_ok: "NUL \<notin> set source \<Longrightarrow> src_ok (lx_current (lexer_init source))"
  by (auto simp: lexer_init_def src_ok_def)

subsection \<open>Spellings\<close>

definition operator_table :: "(string \<times> token_type) list" where
  "operator_table =
    [(''('', Single TOKEN_LPAREN), ('')'', Single TOKEN_RPAREN), (''['', Single TOKEN_LBRACKET),
     ('']'', Single TOKEN_RBRACKET), (''{'', Single TOKEN_LBRACE), (''}'', Single TOKEN_RBRACE),
     ('','', Single TOKEN_COMMA), (''.'', Single TOKEN_DOT), ('';'', Single TOKEN_SEMICOLON),
     ('':'', Single TOKEN_COLON), (''+'', Single TOKEN_PLUS), (''-'', Single TOKEN_MINUS),
     (''*'', Single TOKEN_STAR), (''/'', Single TOKEN_SLASH), (''%'', Single TOKEN_PERCENT),
     (''&'', Single TOKEN_AMP), (''|'', Single TOKEN_PIPE), (''^'', Single TOKEN_CARET),
     (''~'', Single TOKEN_TILDE), (''<'', Single TOKEN_LESS), (''>'', Single TOKEN_GREATER),
     (''='', Single TOKEN_EQUAL), (''!'', Single TOKEN_BANG), (''@'', Single TOKEN_AT),
     (''?'', Single TOKEN_QUESTION), (''=='', Multi TOKEN_EQUAL_EQUAL), (''!='', Multi TOKEN_BANG_EQUAL),
     (''<='', Multi TOKEN_LESS_EQUAL), (''>='', Multi TOKEN_GREATER_EQUAL), (''&&'', Multi TOKEN_AMP_AMP),
     (''||'', Multi TOKEN_PIPE_PIPE), (''..'', Multi TOKEN_DOT_DOT), (''...'', Multi TOKEN_DOT_DOT_DOT),
     (''->'', Multi TOKEN_ARROW), (''=>'', Multi TOKEN_FAT_ARROW), (''?.'', Multi TOKEN_SAFE_NAV),
     (''?:'', Multi TOKEN_TERNARY), (''<<'', Multi TOKEN_LSHIFT), (''>>'', Multi TOKEN_RSHIFT),
     (''+='', Multi TOKEN_PLUS_EQUAL), (''-='', Multi TOKEN_MINUS_EQUAL), (''*='', Multi TOKEN_STAR_EQUAL),
     (''/='', Multi TOKEN_SLASH_EQUAL), (''**'', Multi TOKEN_STAR_STAR)]"

abbreviation word_char :: "char \<Rightarrow> bool" where "word_char c \<equiv> is_alpha c \<or> is_digit c"

definition plain_char :: "char \<Rightarrow> bool" where
  "plain_char c \<longleftrightarrow> c \<notin> {NUL, DQ, BSL, NL, CHR ''#''}"

text \<open>The texts that are printed for a token, and the token type that must come back.\<close>

definition spells :: "string \<Rightarrow> token_type \<Rightarrow> bool" where
  "spells s t \<longleftrightarrow> (s, t) \<in> set operator_table \<or> (s, t) \<in> set keyword_table \<or>
     (s \<noteq> [] \<and> is_alpha (hd s) \<and> (\<forall>c \<in> set s. word_char c) \<and> s \<notin> fst ` set keyword_table \<and>
        t = Literal TOKEN_IDENTIFIER) \<or>
     (s \<noteq> [] \<and> (\<forall>c \<in> set s. is_digit c) \<and> t = Literal TOKEN_INT) \<or>
     (\<exists>b. s = DQ # b @ [DQ] \<and> (\<forall>c \<in> set b. plain_char c) \<and> t = Literal TOKEN_STRING)"

lemma keyword_lookup_mem: "distinct (map fst ks) \<Longrightarrow> (s, t) \<in> set ks \<Longrightarrow> keyword_lookup ks s = t"
  by (induction ks s rule: keyword_lookup.induct) (auto simp: rev_image_eqI)

lemma keyword_lookup_absent: "s \<notin> fst ` set ks \<Longrightarrow> keyword_lookup ks s = Literal TOKEN_IDENTIFIER"
  by (induction ks s rule: keyword_lookup.induct) auto

lemma keyword_table_distinct: "distinct (map fst keyword_table)"
  by code_simp

lemma keyword_words: "(s, t) \<in> set keyword_table \<Longrightarrow> s \<noteq> [] \<and> is_alpha (hd s) \<and> (\<forall>c \<in> set s. word_char c)"
proof -
  have "\<forall>(s, t) \<in> set keyword_table. s \<noteq> [] \<and> is_alpha (hd s) \<and> list_all word_char s" by code_simp
  then show "(s, t) \<in> set keyword_table \<Longrightarrow> ?thesis" by (fastforce simp: list_all_iff)
qed

lemma skip_while_stop: "(\<forall>c \<in> set s. P c) \<Longrightarrow> r \<noteq> [] \<Longrightarrow> \<not> P (hd r) \<Longrightarrow> skip_while P (s @ r) = r"
  by (induction s) (cases r; simp)+

lemma not_ws: "c \<notin> {CHR '' '', CHR 0x09, CHR 0x0D, CHR ''#''} \<Longrightarrow> skip_whitespace (c # cs) = c # cs"
  by simp

definition token_of :: "string \<Rightarrow> token_type \<Rightarrow> string \<Rightarrow> nat \<Rightarrow> token" where
  "token_of s t r line = \<lparr>tk_type = t, tk_start = In_Source (s @ r), tk_length = length s, tk_line = line\<rparr>"

lemma skip_ws_alpha: "is_alpha c \<or> is_digit c \<Longrightarrow> skip_whitespace (c # cs) = c # cs"
  by (auto simp: is_alpha_def is_digit_def)

text \<open>After any spelling comes a space.\<close>

abbreviation before_space :: "string \<Rightarrow> string \<Rightarrow> lexer \<Rightarrow> lexer" where
  "before_space s r lx \<equiv> lx\<lparr>lx_start := s @ CHR '' '' # r, lx_current := CHR '' '' # r\<rparr>"

lemma lex_word:
  assumes "lx_current lx = s @ CHR '' '' # r" and "s \<noteq> []" and "is_alpha (hd s)" and "\<forall>c \<in> set s. word_char c"
  shows "lexer_next_token lx = (token_of s (identifier_type s) (CHR '' '' # r) (lx_line lx), before_space s r lx)"
proof -
  obtain c cs where s: "s = c # cs" using assms(2) by (cases s) auto
  have sw: "skip_while word_char (cs @ CHR '' '' # r) = CHR '' '' # r"
    using assms(4) by (intro skip_while_stop) (auto simp: s is_alpha_def is_digit_def)
  have c: "is_alpha c" "c \<noteq> NUL" using assms(3) s by auto
  then have ws: "skip_whitespace (lx_current lx) = c # cs @ CHR '' '' # r"
    by (simp add: assms(1) s skip_ws_alpha del: skip_whitespace.simps)
  show ?thesis
    using c sw next_token_at [OF ws]
    by (simp add: s scan_identifier_def Let_def peek_def
        make_token_def lexeme_def token_of_def)
qed

lemma lex_int:
  assumes "lx_current lx = s @ CHR '' '' # r" and "s \<noteq> []" and "\<forall>c \<in> set s. is_digit c"
  shows "lexer_next_token lx = (token_of s (Literal TOKEN_INT) (CHR '' '' # r) (lx_line lx), before_space s r lx)"
proof -
  obtain c cs where s: "s = c # cs" using assms(2) by (cases s) auto
  have sw: "skip_while (\<lambda>c. is_digit c \<or> c = CHR ''_'') (cs @ CHR '' '' # r) = CHR '' '' # r"
    using assms(3) by (intro skip_while_stop) (auto simp: s is_digit_def)
  have c: "is_digit c" "\<not> is_alpha c" "c \<noteq> NUL" using assms(3) s by (auto simp: is_digit_def is_alpha_def Let_def)
  then have ws: "skip_whitespace (lx_current lx) = c # cs @ CHR '' '' # r"
    by (simp add: assms(1) s skip_ws_alpha del: skip_whitespace.simps)
  show ?thesis
    using c sw next_token_at [OF ws]
    by (simp add: s scan_number_def Let_def peek_def
        make_token_def token_of_def)
qed

lemma string_loop_plain:
  "\<forall>c \<in> set b. plain_char c \<Longrightarrow> string_loop DQ (b @ DQ # r) line = (Closed, r, line)"
  by (induction b) (auto simp: plain_char_def Let_def)

lemma lex_string:
  assumes "lx_current lx = (DQ # b @ [DQ]) @ CHR '' '' # r" and "\<forall>c \<in> set b. plain_char c"
  shows "lexer_next_token lx =
    (token_of (DQ # b @ [DQ]) (Literal TOKEN_STRING) (CHR '' '' # r) (lx_line lx), before_space (DQ # b @ [DQ]) r lx)"
proof -
  have ws: "skip_whitespace (lx_current lx) = DQ # b @ DQ # CHR '' '' # r" by (simp add: assms(1))
  have "\<not> is_alpha DQ" "\<not> is_digit DQ" by (simp_all add: is_alpha_def is_digit_def)
  then show ?thesis
    using string_loop_plain [OF assms(2)] next_token_at [OF ws]
    by (simp add: scan_switch_def scan_string_def Let_def make_token_def token_of_def)
qed

definition spelled_at :: "lexer \<Rightarrow> string \<Rightarrow> token_type \<Rightarrow> string \<Rightarrow> bool" where
  "spelled_at lx s t r \<longleftrightarrow> (lx_current lx = s @ CHR '' '' # r \<longrightarrow>
     lexer_next_token lx = (token_of s t (CHR '' '' # r) (lx_line lx), before_space s r lx))"

lemma spelled_atI:
  assumes "skip_whitespace (c # cs @ CHR '' '' # r) = c # cs @ CHR '' '' # r"
    and "c \<noteq> NUL \<and> \<not> is_alpha c \<and> \<not> is_digit c"
    and "let st = c # cs @ CHR '' '' # r; lx0 = lx\<lparr>lx_start := st, lx_current := cs @ CHR '' '' # r\<rparr>
      in scan_switch lx0 c = make_token (lx\<lparr>lx_start := st, lx_current := CHR '' '' # r\<rparr>) t"
  shows "spelled_at lx (c # cs) t r"
  using assms next_token_at [of lx c "cs @ CHR '' '' # r"]
  by (auto simp: spelled_at_def Let_def make_token_def token_of_def)

lemma operators_spelled: "(s, t) \<in> set operator_table \<Longrightarrow> spelled_at lx s t r"
  unfolding operator_table_def
  by (simp, elim disjE)
    (simp_all add: spelled_atI scan_switch_def is_alpha_def is_digit_def match_char_def at_end_def
      make_token_def scan_symbol_def peek_def Let_def)

lemma lex_operator:
  assumes "lx_current lx = s @ CHR '' '' # r" and "(s, t) \<in> set operator_table"
  shows "lexer_next_token lx = (token_of s t (CHR '' '' # r) (lx_line lx), before_space s r lx)"
  using operators_spelled [OF assms(2)] assms(1) by (simp add: spelled_at_def)

lemma lex_spelled:
  assumes "spells s t" and "lx_current lx = s @ CHR '' '' # r"
  shows "lexer_next_token lx = (token_of s t (CHR '' '' # r) (lx_line lx), before_space s r lx)"
proof -
  consider "(s, t) \<in> set operator_table" | "(s, t) \<in> set keyword_table"
    | "s \<noteq> []" "is_alpha (hd s)" "\<forall>c \<in> set s. word_char c" "s \<notin> fst ` set keyword_table" "t = Literal TOKEN_IDENTIFIER"
    | "s \<noteq> []" "\<forall>c \<in> set s. is_digit c" "t = Literal TOKEN_INT"
    | b where "s = DQ # b @ [DQ]" "\<forall>c \<in> set b. plain_char c" "t = Literal TOKEN_STRING"
    using assms(1) unfolding spells_def by blast
  then show ?thesis
  proof cases
    case 1
    then show ?thesis by (rule lex_operator [OF assms(2)])
  next
    case 2
    then have "identifier_type s = t"
      unfolding identifier_type_def by (rule keyword_lookup_mem [OF keyword_table_distinct])
    then show ?thesis using lex_word [OF assms(2)] keyword_words [OF 2] by simp
  next
    case 3
    then have "identifier_type s = t" unfolding identifier_type_def by (simp add: keyword_lookup_absent)
    then show ?thesis using lex_word [OF assms(2) 3(1-3)] by simp
  next
    case 4
    then show ?thesis using lex_int [OF assms(2)] by simp
  next
    case 5
    then show ?thesis using lex_string [of lx b r] assms(2) by simp
  qed
qed

definition print_tokens :: "string list \<Rightarrow> string" where
  "print_tokens ss = concat (map (\<lambda>s. s @ '' '') ss)"

lemma next_token_space:
  "lexer_next_token (lx\<lparr>lx_current := CHR '' '' # r\<rparr>) = lexer_next_token (lx\<lparr>lx_current := r\<rparr>)"
  by (simp add: lexer_next_token_def)

lemma lex_all_space: "lex_all (lx\<lparr>lx_current := CHR '' '' # r\<rparr>) = lex_all (lx\<lparr>lx_current := r\<rparr>)"
  by (subst (1 2) lex_all.simps) (simp add: next_token_space)

lemma lex_all_print:
  assumes "list_all2 spells ss ts" and "lx_current lx = print_tokens ss @ [NUL]"
  shows "\<exists>toks. lex_all lx = Some toks \<and>
    map (\<lambda>t. (tok_text t, tk_type t)) toks = zip ss ts @ [([], Special TOKEN_EOF)] \<and>
    (\<forall>t \<in> set toks. tk_line t = lx_line lx)"
  using assms
proof (induction ss ts arbitrary: lx rule: list_all2_induct)
  case Nil
  then have "skip_whitespace (lx_current lx) = [NUL]" by (simp add: print_tokens_def)
  from next_token_at [OF this] show ?case
    by (subst lex_all.simps) (simp add: Let_def make_token_def)
next
  case (Cons s ss t ts)
  let ?r = "print_tokens ss @ [NUL]"
  have tok: "lexer_next_token lx = (token_of s t (CHR '' '' # ?r) (lx_line lx), before_space s ?r lx)"
    using lex_spelled [OF Cons.hyps(1), of lx ?r] Cons.prems by (simp add: print_tokens_def)
  have ne: "t \<noteq> Special TOKEN_EOF"
    using Cons.hyps(1) by (auto simp: spells_def operator_table_def dest: keyword_kinds)
  let ?lx = "lx\<lparr>lx_start := s @ CHR '' '' # ?r, lx_current := ?r\<rparr>"
  obtain toks where toks: "lex_all ?lx = Some toks"
    "map (\<lambda>t. (tok_text t, tk_type t)) toks = zip ss ts @ [([], Special TOKEN_EOF)]"
    "\<forall>t \<in> set toks. tk_line t = lx_line lx"
    using Cons.IH [of ?lx] by auto
  have "lex_all (before_space s ?r lx) = Some toks"
    using lex_all_space [of ?r "lx\<lparr>lx_start := s @ CHR '' '' # ?r\<rparr>"] toks(1) by simp
  then have "lex_all lx = Some (token_of s t (CHR '' '' # ?r) (lx_line lx) # toks)"
    using tok ne by (subst lex_all.simps) (simp add: token_of_def)
  then show ?case using toks by (simp add: token_of_def)
qed

subsection \<open>The properties\<close>

text \<open>C25: On any NUL-free source the lexer runs to its end: finitely many calls, at most one more than
  the source has characters, and exactly the last returns \<open>TOKEN_EOF\<close>.\<close>
theorem lexer_terminates:
  assumes "NUL \<notin> set source"
  shows "\<exists>ts. lex_all (lexer_init source) = Some ts \<and> ts \<noteq> [] \<and> length ts \<le> length source + 1 \<and>
    tk_type (last ts) = Special TOKEN_EOF \<and> (\<forall>t \<in> set (butlast ts). tk_type t \<noteq> Special TOKEN_EOF)"
  using lex_all_returns [OF lexer_init_ok [OF assms]] by (simp add: lexer_init_def)

theorem lexer_terminates_witness:
  "\<exists>ts. lex_all (lexer_init ''x = 1'') = Some ts \<and> length ts \<le> 6"
proof -
  have "NUL \<notin> set ''x = 1''" by simp
  from lexer_terminates [OF this] show ?thesis by auto
qed



text \<open>Line numbers: a call that returns a token other than a symbol or an error advances the line
  counter by exactly the number of line ends it consumes, and no call advances it by more.\<close>
theorem lexer_lines:
  assumes "src_ok (lx_current lx)" and "lexer_next_token lx = (t, lx')"
  shows "lx_line lx' + nl (lx_current lx') \<le> lx_line lx + nl (lx_current lx) \<and>
    (tk_type t \<notin> {Literal TOKEN_SYMBOL, Special TOKEN_ERROR} \<longrightarrow>
       lx_line lx' + nl (lx_current lx') = lx_line lx + nl (lx_current lx))"
  using next_token_step [OF assms] by blast

theorem lexer_lines_witness:
  "\<exists>t lx'. lexer_next_token (lexer_init [NL, NL]) = (t, lx') \<and> lx_line lx' = 2"
proof -
  define lx where "lx = lexer_init [NL, NL]"
  obtain t lx' where r: "lexer_next_token lx = (t, lx')" by force
  have "case lexer_next_token lx of (t, lx') \<Rightarrow> tk_type t = Special TOKEN_NEWLINE \<and> lx_current lx' = [NL, NUL]"
    unfolding lx_def by code_simp
  then have ty: "tk_type t = Special TOKEN_NEWLINE" "lx_current lx' = [NL, NUL]" by (simp_all add: r)
  have "src_ok (lx_current lx)" unfolding lx_def by (rule lexer_init_ok) simp
  from lexer_lines [OF this r] have "lx_line lx' + nl (lx_current lx') = lx_line lx + nl (lx_current lx)"
    using ty by simp
  then have "lx_line lx' = 2" using ty by (simp add: lx_def lexer_init_def)
  then show ?thesis using r unfolding lx_def by blast
qed

text \<open>An escaped line end inside a quoted symbol is not counted, so every later token of the file
  is reported one line too early.\<close>
theorem symbol_escape_loses_line:
  "case lex_all (lexer_init ('':'' @ [DQ, BSL, NL, DQ] @ '' x'')) of
     Some ts \<Rightarrow> map tk_line ts = [1, 1, 1] | None \<Rightarrow> False"
  by code_simp

text \<open>C24: Printing and lexing: any sequence of operators, keywords, other identifiers, decimal integers
  and plain double-quoted strings, each followed by a space, lexes to exactly those texts with
  their token types, then \<open>TOKEN_EOF\<close>, all on the first line.\<close>
theorem lexer_print_roundtrip:
  assumes "list_all2 spells ss ts"
  shows "\<exists>toks. lex_all (lexer_init (print_tokens ss)) = Some toks \<and>
    map (\<lambda>t. (tok_text t, tk_type t)) toks = zip ss ts @ [([], Special TOKEN_EOF)] \<and>
    (\<forall>t \<in> set toks. tk_line t = 1)"
  using lex_all_print [OF assms, of "lexer_init (print_tokens ss)"] by (simp add: lexer_init_def)

theorem lexer_print_roundtrip_witness:
  "\<exists>toks. lex_all (lexer_init ''if x >= 10 '') = Some toks \<and>
     map tk_type toks = [Keyword TOKEN_IF, Literal TOKEN_IDENTIFIER, Multi TOKEN_GREATER_EQUAL,
       Literal TOKEN_INT, Special TOKEN_EOF]"
proof -
  let ?ss = "[''if'', ''x'', ''>='', ''10'']"
  let ?ts = "[Keyword TOKEN_IF, Literal TOKEN_IDENTIFIER, Multi TOKEN_GREATER_EQUAL, Literal TOKEN_INT]"
  have kw: "(''if'', Keyword TOKEN_IF) \<in> set keyword_table" "''x'' \<notin> fst ` set keyword_table"
    by (simp_all add: keyword_table_def)
  have op: "(''>='', Multi TOKEN_GREATER_EQUAL) \<in> set operator_table" by (simp add: operator_table_def)
  have x: "''x'' \<noteq> [] \<and> is_alpha (hd ''x'') \<and> (\<forall>c \<in> set ''x''. word_char c)" by (simp add: is_alpha_def)
  have n: "''10'' \<noteq> [] \<and> (\<forall>c \<in> set ''10''. is_digit c)" by (simp add: is_digit_def)
  have "spells ''if'' (Keyword TOKEN_IF)" unfolding spells_def using kw by blast
  moreover have "spells ''x'' (Literal TOKEN_IDENTIFIER)" unfolding spells_def using kw x by blast
  moreover have "spells ''>='' (Multi TOKEN_GREATER_EQUAL)" unfolding spells_def using op by blast
  moreover have "spells ''10'' (Literal TOKEN_INT)" unfolding spells_def using n by blast
  ultimately have sp: "list_all2 spells ?ss ?ts" by simp
  have pt: "print_tokens ?ss = ''if x >= 10 ''" by (simp add: print_tokens_def)
  obtain toks where t: "lex_all (lexer_init ''if x >= 10 '') = Some toks"
    "map (\<lambda>t. (tok_text t, tk_type t)) toks = zip ?ss ?ts @ [([], Special TOKEN_EOF)]"
    using lexer_print_roundtrip [OF sp] unfolding pt by blast
  from arg_cong [OF t(2), of "map snd"] have "map tk_type toks = ?ts @ [Special TOKEN_EOF]"
    by (simp add: o_def)
  then show ?thesis using t(1) by simp
qed

end
