(* ===== verification/Compiler.thy ===== *)
theory Compiler
  imports Objects Lexer "HOL-Library.Monad_Syntax"
begin

section \<open>The compiler (compiler.c)\<close>

text \<open>
  A single-pass Pratt parser that emits bytecode.  The global state (\<open>parser\<close>, \<open>current\<close>,
  \<open>current_loop\<close>, \<open>created_local\<close>) and the heap are one record.  The stack of \<open>Compiler\<close>
  structs linked by \<open>enclosing\<close> is a list with the current one last, the linked \<open>Loop\<close>s a list
  with the current one first.  Each C function is a definition from state to state; a write outside
  an array sets \<open>cs_undefined\<close>.  The functions that the file declares forward are reached through
  the parameter \<open>rec\<close>, and \<open>run_compiler\<close> ties the knot with fuel that bounds the depth of calls
  and the length of loops; \<open>None\<close> is a loop that never ends or too little fuel, which
  \<open>Compiler_Total\<close> excludes.  \<open>strtod\<close> of the C library is a parameter.
\<close>

subsection \<open>Parser and compiler state\<close>

type_synonym precedence = nat

definition PREC_NONE :: precedence where [simp]: "PREC_NONE = 0"
definition PREC_ASSIGNMENT :: precedence where [simp]: "PREC_ASSIGNMENT = 1"
definition PREC_OR :: precedence where [simp]: "PREC_OR = 2"
definition PREC_AND :: precedence where [simp]: "PREC_AND = 3"
definition PREC_BITWISE_OR :: precedence where [simp]: "PREC_BITWISE_OR = 4"
definition PREC_BITWISE_XOR :: precedence where [simp]: "PREC_BITWISE_XOR = 5"
definition PREC_BITWISE_AND :: precedence where [simp]: "PREC_BITWISE_AND = 6"
definition PREC_EQUALITY :: precedence where [simp]: "PREC_EQUALITY = 7"
definition PREC_COMPARISON :: precedence where [simp]: "PREC_COMPARISON = 8"
definition PREC_SHIFT :: precedence where [simp]: "PREC_SHIFT = 9"
definition PREC_RANGE :: precedence where [simp]: "PREC_RANGE = 10"
definition PREC_TERM :: precedence where [simp]: "PREC_TERM = 11"
definition PREC_FACTOR :: precedence where [simp]: "PREC_FACTOR = 12"
definition PREC_POWER :: precedence where [simp]: "PREC_POWER = 13"
definition PREC_UNARY :: precedence where [simp]: "PREC_UNARY = 14"
definition PREC_CALL :: precedence where [simp]: "PREC_CALL = 15"

record local =
  lc_name :: string
  lc_depth :: int
  lc_is_captured :: bool

record upvalue =
  up_index :: u8
  up_is_local :: bool

definition MAX_LOCALS :: nat where [simp]: "MAX_LOCALS = 256"
definition MAX_UPVALUES :: nat where [simp]: "MAX_UPVALUES = 256"

datatype function_type = TYPE_FUNCTION | TYPE_SCRIPT

record compiler =
  cp_function :: ptr
  cp_type :: function_type
  cp_locals :: "local list"
  cp_upvalues :: "upvalue list"
  cp_scope_depth :: int

record loop =
  lp_start :: nat
  lp_breaks :: "nat list"
  lp_scope_depth :: int

text \<open>A diagnostic on the error stream: line, token kind and text, message.\<close>

type_synonym diagnostic = "nat \<times> token_type \<times> string \<times> string"

record cstate =
  cs_heap :: heap
  cs_lexer :: lexer
  cs_current :: token
  cs_previous :: token
  cs_had_error :: bool
  cs_panic_mode :: bool
  cs_compilers :: "compiler list"
  cs_loops :: "loop list"
  cs_created_local :: bool
  cs_errors :: "diagnostic list"
  cs_undefined :: bool

abbreviation cur_type :: "cstate \<Rightarrow> token_type" where
  "cur_type s \<equiv> tk_type (cs_current s)"

abbreviation prev_type :: "cstate \<Rightarrow> token_type" where
  "prev_type s \<equiv> tk_type (cs_previous s)"

definition cur :: "cstate \<Rightarrow> compiler" where
  "cur s = last (cs_compilers s)"

definition update_cur :: "(compiler \<Rightarrow> compiler) \<Rightarrow> cstate \<Rightarrow> cstate" where
  "update_cur f s = s\<lparr>cs_compilers := butlast (cs_compilers s) @ [f (cur s)]\<rparr>"

definition current_chunk :: "cstate \<Rightarrow> chunk" where
  "current_chunk s = fn_chunk (the_function (cs_heap s) (cp_function (cur s)))"

definition update_chunk :: "(chunk \<Rightarrow> chunk) \<Rightarrow> cstate \<Rightarrow> cstate" where
  "update_chunk g s = s\<lparr>cs_heap := update_function (cp_function (cur s))
     (\<lambda>f. f\<lparr>fn_chunk := g (fn_chunk f)\<rparr>) (cs_heap s)\<rparr>"

abbreviation code_count :: "cstate \<Rightarrow> nat" where
  "code_count s \<equiv> length (ck_code (current_chunk s))"

subsection \<open>Errors\<close>

definition error_at :: "token \<Rightarrow> string \<Rightarrow> cstate \<Rightarrow> cstate" where
  "error_at token message s =
     (if cs_panic_mode s then s
      else s\<lparr>cs_panic_mode := True,
        cs_errors := cs_errors s @ [(tk_line token, tk_type token, tok_text token, message)],
        cs_had_error := True\<rparr>)"

definition error :: "string \<Rightarrow> cstate \<Rightarrow> cstate" where
  "error message s = error_at (cs_previous s) message s"

definition error_at_current :: "string \<Rightarrow> cstate \<Rightarrow> cstate" where
  "error_at_current message s = error_at (cs_current s) message s"

subsection \<open>Tokens\<close>

definition token_message :: "token \<Rightarrow> string" where
  "token_message t = (case tk_start t of Message m \<Rightarrow> m | In_Source s \<Rightarrow> takeWhile (\<lambda>c. c \<noteq> NUL) s)"

partial_function (option) advance_loop :: "cstate \<Rightarrow> cstate option" where
  "advance_loop s =
     (let (t, lx) = lexer_next_token (cs_lexer s);
          s = s\<lparr>cs_lexer := lx, cs_current := t\<rparr>
      in if tk_type t \<noteq> Special TOKEN_ERROR then Some s
         else advance_loop (error_at_current (token_message t) s))"

definition advance :: "cstate \<Rightarrow> cstate option" where
  "advance s = advance_loop (s\<lparr>cs_previous := cs_current s\<rparr>)"

definition consume :: "token_type \<Rightarrow> string \<Rightarrow> cstate \<Rightarrow> cstate option" where
  "consume t message s = (if cur_type s = t then advance s else Some (error_at_current message s))"

definition check :: "token_type \<Rightarrow> cstate \<Rightarrow> bool" where
  "check t s \<longleftrightarrow> cur_type s = t"

definition match :: "token_type \<Rightarrow> cstate \<Rightarrow> (bool \<times> cstate) option" where
  "match t s = (if \<not> check t s then Some (False, s) else do { s \<leftarrow> advance s; Some (True, s) })"

partial_function (option) skip_newlines :: "cstate \<Rightarrow> cstate option" where
  "skip_newlines s = do { (b, s) \<leftarrow> match (Special TOKEN_NEWLINE) s; if b then skip_newlines s else Some s }"

subsection \<open>Emitting bytecode\<close>

definition emit_byte :: "u8 \<Rightarrow> cstate \<Rightarrow> cstate" where
  "emit_byte byte s = update_chunk (\<lambda>chunk. chunk_write chunk byte (tk_line (cs_previous s))) s"

definition emit_bytes :: "u8 \<Rightarrow> u8 \<Rightarrow> cstate \<Rightarrow> cstate" where
  "emit_bytes byte1 byte2 s = emit_byte byte2 (emit_byte byte1 s)"

definition lo_byte :: "int \<Rightarrow> u8" where
  "lo_byte v = word_of_int v"

definition hi_byte :: "int \<Rightarrow> u8" where
  "hi_byte v = word_of_int (v div 256)"

definition emit_short :: "u16 \<Rightarrow> cstate \<Rightarrow> cstate" where
  "emit_short v s = emit_byte (hi_byte (uint v)) (emit_byte (lo_byte (uint v)) s)"

definition emit_return :: "cstate \<Rightarrow> cstate" where
  "emit_return s = emit_byte OP_RETURN (emit_byte OP_NIL s)"

definition emit_jump :: "u8 \<Rightarrow> cstate \<Rightarrow> nat \<times> cstate" where
  "emit_jump instruction s =
     (let s = emit_byte 0xFF (emit_byte 0xFF (emit_byte instruction s)) in (code_count s - 2, s))"

text \<open>The patch writes outside the code array when the offset is not below its end.\<close>

definition patch_jump :: "nat \<Rightarrow> cstate \<Rightarrow> cstate" where
  "patch_jump offset s =
     (let jump = int (code_count s) - int offset - 2;
          s = (if jump > 65535 then error ''Too much code to jump over.'' s else s)
      in if code_count s \<le> offset + 1 then s\<lparr>cs_undefined := True\<rparr>
         else update_chunk (\<lambda>chunk. chunk\<lparr>ck_code :=
                (ck_code chunk)[offset := lo_byte jump, offset + 1 := hi_byte jump]\<rparr>) s)"

fun patch_all :: "nat list \<Rightarrow> cstate \<Rightarrow> cstate" where
  "patch_all [] s = s"
| "patch_all (j # js) s = patch_all js (patch_jump j s)"

definition emit_loop :: "nat \<Rightarrow> cstate \<Rightarrow> cstate" where
  "emit_loop loop_start s =
     (let s = emit_byte OP_LOOP s;
          offset = int (code_count s) - int loop_start + 2;
          s = (if offset > 65535 then error ''Loop body too large.'' s else s)
      in emit_byte (hi_byte offset) (emit_byte (lo_byte offset) s))"

definition make_constant :: "val64 \<Rightarrow> cstate \<Rightarrow> u16 \<times> cstate" where
  "make_constant v s =
     (let (constant, _) = chunk_add_constant (current_chunk s) v;
          s = update_chunk (\<lambda>chunk. snd (chunk_add_constant chunk v)) s
      in if int constant > 65535 then (0, error ''Too many constants in one chunk.'' s)
         else (of_nat constant, s))"

definition emit_constant :: "val64 \<Rightarrow> cstate \<Rightarrow> cstate" where
  "emit_constant v s = (let (constant, s) = make_constant v s in emit_short constant (emit_byte OP_CONSTANT s))"

definition obj_string_copy :: "string \<Rightarrow> cstate \<Rightarrow> ptr \<times> cstate" where
  "obj_string_copy chars s = (let (p, h) = intern_string (cs_heap s) chars in (p, s\<lparr>cs_heap := h\<rparr>))"

subsection \<open>Functions and scopes\<close>

definition init_compiler :: "function_type \<Rightarrow> cstate \<Rightarrow> cstate" where
  "init_compiler type s =
     (let (fn, h) = obj_function_new (cs_heap s);
          s = s\<lparr>cs_heap := h, cs_compilers := cs_compilers s @
            [\<lparr>cp_function = fn, cp_type = type, cp_locals = [], cp_upvalues = [], cp_scope_depth = 0\<rparr>]\<rparr>;
          s = (if type \<noteq> TYPE_SCRIPT then
                 let (name, s) = obj_string_copy (tok_text (cs_previous s)) s
                 in s\<lparr>cs_heap := update_function fn (\<lambda>f. f\<lparr>fn_name := Some name\<rparr>) (cs_heap s)\<rparr>
               else s)
      in update_cur (\<lambda>c. c\<lparr>cp_locals := [\<lparr>lc_name = [], lc_depth = 0, lc_is_captured = False\<rparr>]\<rparr>) s)"

definition end_compiler :: "cstate \<Rightarrow> compiler \<times> cstate" where
  "end_compiler s = (let s = emit_return s in (cur s, s\<lparr>cs_compilers := butlast (cs_compilers s)\<rparr>))"

definition begin_scope :: "cstate \<Rightarrow> cstate" where
  "begin_scope s = update_cur (\<lambda>c. c\<lparr>cp_scope_depth := cp_scope_depth c + 1\<rparr>) s"

text \<open>The loops over the locals take the locals from the last one down.\<close>

fun pop_locals :: "local list \<Rightarrow> int \<Rightarrow> cstate \<Rightarrow> cstate" where
  "pop_locals [] depth s = s"
| "pop_locals (l # ls) depth s =
     (if lc_depth l > depth then
        let s = emit_byte (if lc_is_captured l then OP_CLOSE_UPVALUE else OP_POP) s
        in pop_locals ls depth (update_cur (\<lambda>c. c\<lparr>cp_locals := butlast (cp_locals c)\<rparr>) s)
      else s)"

definition end_scope :: "cstate \<Rightarrow> cstate" where
  "end_scope s =
     (let s = update_cur (\<lambda>c. c\<lparr>cp_scope_depth := cp_scope_depth c - 1\<rparr>) s
      in pop_locals (rev (cp_locals (cur s))) (cp_scope_depth (cur s)) s)"

subsection \<open>Variables\<close>

definition identifier_constant :: "string \<Rightarrow> cstate \<Rightarrow> u16 \<times> cstate" where
  "identifier_constant name s = (let (str, s) = obj_string_copy name s in make_constant (OBJ_VAL str) s)"

fun last_local :: "local list \<Rightarrow> string \<Rightarrow> nat \<Rightarrow> nat option" where
  "last_local [] name i = None"
| "last_local (l # ls) name i =
     (case last_local ls name (i + 1) of
        Some j \<Rightarrow> Some j
      | None \<Rightarrow> if lc_name l = name then Some i else None)"

text \<open>\<open>resolve_local\<close> on the compiler at level \<open>k\<close>; the result \<open>-1\<close> of the code is \<open>None\<close>.\<close>

definition resolve_local :: "nat \<Rightarrow> string \<Rightarrow> cstate \<Rightarrow> nat option \<times> cstate" where
  "resolve_local k name s =
     (let ls = cp_locals (cs_compilers s ! k)
      in case last_local ls name 0 of
           None \<Rightarrow> (None, s)
         | Some i \<Rightarrow> (Some i, if lc_depth (ls ! i) = - 1
             then error ''Cannot read local variable in its own initializer.'' s else s))"

fun find_upvalue :: "upvalue list \<Rightarrow> upvalue \<Rightarrow> nat \<Rightarrow> nat option" where
  "find_upvalue [] u i = None"
| "find_upvalue (v # vs) u i = (if v = u then Some i else find_upvalue vs u (i + 1))"

definition store_upvalue :: "nat \<Rightarrow> upvalue \<Rightarrow> upvalue list \<Rightarrow> upvalue list" where
  "store_upvalue i u us = (if i < length us then us[i := u] else us @ [u])"

definition add_upvalue :: "nat \<Rightarrow> u8 \<Rightarrow> bool \<Rightarrow> cstate \<Rightarrow> nat \<times> cstate" where
  "add_upvalue k index is_local s =
     (let c = cs_compilers s ! k;
          count = unat (fn_upvalue_count (the_function (cs_heap s) (cp_function c)));
          u = \<lparr>up_index = index, up_is_local = is_local\<rparr>
      in case find_upvalue (take count (cp_upvalues c)) u 0 of
           Some i \<Rightarrow> (i, s)
         | None \<Rightarrow>
             if MAX_UPVALUES \<le> count then (0, error ''Too many closure variables in function.'' s)
             else (count, s\<lparr>
               cs_compilers := (cs_compilers s)[k := c\<lparr>cp_upvalues := store_upvalue count u (cp_upvalues c)\<rparr>],
               cs_heap := update_function (cp_function c)
                 (\<lambda>f. f\<lparr>fn_upvalue_count := fn_upvalue_count f + 1\<rparr>) (cs_heap s)\<rparr>))"

definition capture_local :: "nat \<Rightarrow> nat \<Rightarrow> cstate \<Rightarrow> cstate" where
  "capture_local k i s =
     (let c = cs_compilers s ! k
      in s\<lparr>cs_compilers := (cs_compilers s)[k := c\<lparr>cp_locals :=
            (cp_locals c)[i := (cp_locals c ! i)\<lparr>lc_is_captured := True\<rparr>]\<rparr>]\<rparr>)"

fun resolve_upvalue :: "nat \<Rightarrow> string \<Rightarrow> cstate \<Rightarrow> nat option \<times> cstate" where
  "resolve_upvalue 0 name s = (None, s)"
| "resolve_upvalue (Suc k) name s =
     (case resolve_local k name s of
        (Some i, s) \<Rightarrow>
          (let (r, s) = add_upvalue (Suc k) (of_nat i) True (capture_local k i s) in (Some r, s))
      | (None, s) \<Rightarrow>
          (case resolve_upvalue k name s of
             (Some u, s) \<Rightarrow> (let (r, s) = add_upvalue (Suc k) (of_nat u) False s in (Some r, s))
           | (None, s) \<Rightarrow> (None, s)))"

definition add_local :: "string \<Rightarrow> cstate \<Rightarrow> cstate" where
  "add_local name s =
     (if MAX_LOCALS \<le> length (cp_locals (cur s)) then error ''Too many local variables in function.'' s
      else update_cur (\<lambda>c. c\<lparr>cp_locals := cp_locals c @
        [\<lparr>lc_name = name, lc_depth = - 1, lc_is_captured = False\<rparr>]\<rparr>) s)"

fun redeclared :: "local list \<Rightarrow> int \<Rightarrow> string \<Rightarrow> cstate \<Rightarrow> cstate" where
  "redeclared [] depth name s = s"
| "redeclared (l # ls) depth name s =
     (if lc_depth l \<noteq> - 1 \<and> lc_depth l < depth then s
      else redeclared ls depth name
        (if lc_name l = name then error ''Already a variable with this name in this scope.'' s else s))"

definition declare_variable :: "cstate \<Rightarrow> cstate" where
  "declare_variable s =
     (if cp_scope_depth (cur s) = 0 then s
      else
        let name = tok_text (cs_previous s);
            s = redeclared (rev (cp_locals (cur s))) (cp_scope_depth (cur s)) name s
        in add_local name s)"

definition parse_variable :: "string \<Rightarrow> cstate \<Rightarrow> (u16 \<times> cstate) option" where
  "parse_variable message s = do {
     s \<leftarrow> consume (Literal TOKEN_IDENTIFIER) message s;
     let s = declare_variable s;
     Some (if cp_scope_depth (cur s) > 0 then (0, s) else identifier_constant (tok_text (cs_previous s)) s) }"

definition mark_initialized :: "cstate \<Rightarrow> cstate" where
  "mark_initialized s =
     (if cp_scope_depth (cur s) = 0 then s
      else update_cur (\<lambda>c. c\<lparr>cp_locals := butlast (cp_locals c) @
        [(last (cp_locals c))\<lparr>lc_depth := cp_scope_depth c\<rparr>]\<rparr>) s)"

definition define_variable :: "u16 \<Rightarrow> cstate \<Rightarrow> cstate" where
  "define_variable global s =
     (if cp_scope_depth (cur s) > 0 then mark_initialized s
      else emit_short global (emit_byte OP_DEFINE_GLOBAL s))"

subsection \<open>Calls through the forward declarations\<close>

datatype call = Parse_Precedence precedence | Declaration

type_synonym rec_call = "call \<Rightarrow> cstate \<Rightarrow> cstate option"

definition expression :: "rec_call \<Rightarrow> cstate \<Rightarrow> cstate option" where
  "expression rec s = rec (Parse_Precedence PREC_ASSIGNMENT) s"

definition match_skip :: "token_type \<Rightarrow> cstate \<Rightarrow> (bool \<times> cstate) option" where
  "match_skip t s = do { (b, s) \<leftarrow> match t s; if b then do { s \<leftarrow> skip_newlines s; Some (True, s) } else Some (False, s) }"

subsection \<open>Variables and literals\<close>

definition emit_arg :: "u8 \<Rightarrow> nat \<Rightarrow> cstate \<Rightarrow> cstate" where
  "emit_arg opcode arg s =
     (if opcode = OP_GET_UPVALUE \<or> opcode = OP_SET_UPVALUE then emit_bytes opcode (of_nat arg) s
      else emit_short (of_nat arg) (emit_byte opcode s))"

definition resolve_variable :: "string \<Rightarrow> cstate \<Rightarrow> u8 \<times> u8 \<times> nat \<times> cstate" where
  "resolve_variable name s =
     (let k = length (cs_compilers s) - 1
      in case resolve_local k name s of
        (Some i, s) \<Rightarrow> (OP_GET_LOCAL, OP_SET_LOCAL, i, s)
      | (None, s) \<Rightarrow>
          (case resolve_upvalue k name s of
             (Some u, s) \<Rightarrow> (OP_GET_UPVALUE, OP_SET_UPVALUE, u, s)
           | (None, s) \<Rightarrow>
               let (c, s) = identifier_constant name s in (OP_GET_GLOBAL, OP_SET_GLOBAL, unat c, s)))"

definition named_variable :: "rec_call \<Rightarrow> string \<Rightarrow> bool \<Rightarrow> cstate \<Rightarrow> cstate option" where
  "named_variable rec name can_assign s =
     (let (get_op, set_op, arg, s) = resolve_variable name s
      in do {
        (assign, s) \<leftarrow> (if can_assign then match (Single TOKEN_EQUAL) s else Some (False, s));
        if assign then do {
          s \<leftarrow> skip_newlines s;
          s \<leftarrow> expression rec s;
          Some (if get_op = OP_GET_GLOBAL then
                  if cp_scope_depth (cur s) > 0
                  then (mark_initialized (add_local name s))\<lparr>cs_created_local := True\<rparr>
                  else emit_short (of_nat arg) (emit_byte OP_SET_GLOBAL s)
                else emit_arg set_op arg s) }
        else Some (emit_arg get_op arg s) })"

definition int_literal :: "string \<Rightarrow> 64 word" where
  "int_literal text =
     (let (negative, digits) = (if text \<noteq> [] \<and> hd text = CHR ''-'' then (True, tl text) else (False, text));
          v = foldl (\<lambda>v c. if c = CHR ''_'' then v else v * 10 + (of_char c - 48)) 0 digits
      in if negative then - v else v)"

definition number :: "(string \<Rightarrow> val64) \<Rightarrow> cstate \<Rightarrow> cstate" where
  "number strtod s =
     (let text = tok_text (cs_previous s)
      in if \<exists>c \<in> set text. c = CHR ''.'' \<or> c = CHR ''e'' \<or> c = CHR ''E''
         then emit_constant (double_val (strtod
           (case tk_start (cs_previous s) of In_Source src \<Rightarrow> src | Message m \<Rightarrow> m))) s
         else emit_constant (int_val (int_literal text)) s)"

definition escape_char :: "char \<Rightarrow> char" where
  "escape_char c =
     (if c = CHR ''n'' then CHR 0x0A else if c = CHR ''t'' then CHR 0x09
      else if c = CHR ''r'' then CHR 0x0D else if c = CHR ''0'' then CHR 0x00 else c)"

fun unescape :: "string \<Rightarrow> string" where
  "unescape [] = []"
| "unescape [c] = [c]"
| "unescape (c # d # cs) = (if c = BSL then escape_char d # unescape cs else c # unescape (d # cs))"

definition string_literal :: "cstate \<Rightarrow> cstate" where
  "string_literal s =
     (let text = tok_text (cs_previous s);
          (str, s) = obj_string_copy (unescape (take (length text - 2) (tl text))) s
      in emit_constant (OBJ_VAL str) s)"

definition symbol_literal :: "cstate \<Rightarrow> cstate" where
  "symbol_literal s = (let (str, s) = obj_string_copy (tl (tok_text (cs_previous s))) s in emit_constant (OBJ_VAL str) s)"

definition literal :: "cstate \<Rightarrow> cstate" where
  "literal s =
     (if prev_type s = Keyword TOKEN_NIL then emit_byte OP_NIL s
      else if prev_type s = Keyword TOKEN_TRUE then emit_byte OP_TRUE s
      else if prev_type s = Keyword TOKEN_FALSE then emit_byte OP_FALSE s
      else s)"

definition variable :: "rec_call \<Rightarrow> bool \<Rightarrow> cstate \<Rightarrow> cstate option" where
  "variable rec can_assign s = named_variable rec (tok_text (cs_previous s)) can_assign s"

subsection \<open>Operators\<close>

definition grouping :: "rec_call \<Rightarrow> cstate \<Rightarrow> cstate option" where
  "grouping rec s = do {
     s \<leftarrow> skip_newlines s;
     s \<leftarrow> expression rec s;
     s \<leftarrow> skip_newlines s;
     consume (Single TOKEN_RPAREN) ''Expected ')' after expression.'' s }"

definition unary :: "rec_call \<Rightarrow> cstate \<Rightarrow> cstate option" where
  "unary rec s =
     (let operator_type = prev_type s
      in do {
        s \<leftarrow> rec (Parse_Precedence PREC_UNARY) s;
        Some (if operator_type = Single TOKEN_MINUS then emit_byte OP_NEG s
              else if operator_type = Single TOKEN_BANG \<or> operator_type = Keyword TOKEN_NOT then emit_byte OP_NOT s
              else if operator_type = Single TOKEN_TILDE then emit_byte OP_BNOT s
              else s) })"

definition binary_op :: "(token_type \<times> u8) list" where
  "binary_op =
    [(Single TOKEN_PLUS, OP_ADD), (Single TOKEN_MINUS, OP_SUB), (Single TOKEN_STAR, OP_MUL),
     (Single TOKEN_SLASH, OP_DIV), (Single TOKEN_PERCENT, OP_MOD), (Multi TOKEN_STAR_STAR, OP_POWER),
     (Multi TOKEN_EQUAL_EQUAL, OP_EQUAL), (Multi TOKEN_BANG_EQUAL, OP_NOT_EQUAL),
     (Single TOKEN_LESS, OP_LESS), (Multi TOKEN_LESS_EQUAL, OP_LESS_EQUAL),
     (Single TOKEN_GREATER, OP_GREATER), (Multi TOKEN_GREATER_EQUAL, OP_GREATER_EQUAL),
     (Single TOKEN_AMP, OP_BAND), (Single TOKEN_PIPE, OP_BOR), (Single TOKEN_CARET, OP_BXOR),
     (Multi TOKEN_LSHIFT, OP_SHL), (Multi TOKEN_RSHIFT, OP_SHR)]"

text \<open>\<open>precedence\<close> is the precedence of the operator in the rule table.\<close>

definition binary :: "rec_call \<Rightarrow> precedence \<Rightarrow> cstate \<Rightarrow> cstate option" where
  "binary rec precedence s =
     (let operator_type = prev_type s
      in do {
        s \<leftarrow> rec (Parse_Precedence (precedence + 1)) s;
        Some (case map_of binary_op operator_type of Some opcode \<Rightarrow> emit_byte opcode s | None \<Rightarrow> s) })"

definition and_expr :: "rec_call \<Rightarrow> cstate \<Rightarrow> cstate option" where
  "and_expr rec s =
     (let (end_jump, s) = emit_jump OP_JUMP_IF_FALSE s;
          s = emit_byte OP_POP s
      in do {
        s \<leftarrow> skip_newlines s;
        s \<leftarrow> rec (Parse_Precedence PREC_AND) s;
        Some (patch_jump end_jump s) })"

definition or_expr :: "rec_call \<Rightarrow> cstate \<Rightarrow> cstate option" where
  "or_expr rec s =
     (let (else_jump, s) = emit_jump OP_JUMP_IF_FALSE s;
          (end_jump, s) = emit_jump OP_JUMP s
      in do {
        let s = emit_byte OP_POP (patch_jump else_jump s);
        s \<leftarrow> skip_newlines s;
        s \<leftarrow> rec (Parse_Precedence PREC_OR) s;
        Some (patch_jump end_jump s) })"

subsection \<open>Calls, fields, literals of collections\<close>

text \<open>The \<open>do ... while (match(TOKEN_COMMA))\<close> loops; \<open>item\<close> is one turn of the loop.\<close>

fun comma_loop :: "nat \<Rightarrow> (nat \<Rightarrow> cstate \<Rightarrow> cstate option) \<Rightarrow> nat \<Rightarrow> cstate \<Rightarrow> (nat \<times> cstate) option" where
  "comma_loop 0 item count s = None"
| "comma_loop (Suc n) item count s = do {
     s \<leftarrow> skip_newlines s;
     s \<leftarrow> item count s;
     s \<leftarrow> skip_newlines s;
     (b, s) \<leftarrow> match (Single TOKEN_COMMA) s;
     if b then comma_loop n item (count + 1) s else Some (count + 1, s) }"

text \<open>\<open>arg_count\<close> is an \<open>uint8_t\<close>: 255 arguments are followed by 0.\<close>

definition argument_list :: "nat \<Rightarrow> rec_call \<Rightarrow> cstate \<Rightarrow> (u8 \<times> cstate) option" where
  "argument_list n rec s = do {
     (arg_count, s) \<leftarrow>
       (if \<not> check (Single TOKEN_RPAREN) s
        then comma_loop n (\<lambda>arg_count s. do {
            s \<leftarrow> expression rec s;
            Some (if (of_nat arg_count :: u8) = 255 then error ''Cannot have more than 255 arguments.'' s else s) }) 0 s
        else Some (0, s));
     s \<leftarrow> skip_newlines s;
     s \<leftarrow> consume (Single TOKEN_RPAREN) ''Expected ')' after arguments.'' s;
     Some (of_nat arg_count, s) }"

definition call_expr :: "nat \<Rightarrow> rec_call \<Rightarrow> cstate \<Rightarrow> cstate option" where
  "call_expr n rec s = do {
     (arg_count, s) \<leftarrow> argument_list n rec s;
     Some (emit_bytes OP_CALL arg_count s) }"

definition is_identifier_like :: "token_type \<Rightarrow> bool" where
  "is_identifier_like t =
     (case t of Literal l \<Rightarrow> l = TOKEN_IDENTIFIER | Keyword _ \<Rightarrow> True | Web _ \<Rightarrow> True | _ \<Rightarrow> False)"

definition dot :: "nat \<Rightarrow> rec_call \<Rightarrow> bool \<Rightarrow> cstate \<Rightarrow> cstate option" where
  "dot n rec can_assign s =
     (if \<not> is_identifier_like (cur_type s) then Some (error_at_current ''Expected property name after '.'.'' s)
      else do {
        s \<leftarrow> advance s;
        let (name, s) = identifier_constant (tok_text (cs_previous s)) s;
        (assign, s) \<leftarrow> (if can_assign then match (Single TOKEN_EQUAL) s else Some (False, s));
        if assign then do {
          s \<leftarrow> skip_newlines s;
          s \<leftarrow> expression rec s;
          Some (emit_short name (emit_byte OP_SET_FIELD s)) }
        else do {
          (paren, s) \<leftarrow> match (Single TOKEN_LPAREN) s;
          if paren then do {
            let s = emit_short name (emit_byte OP_GET_FIELD s);
            (arg_count, s) \<leftarrow> argument_list n rec s;
            Some (emit_bytes OP_CALL arg_count s) }
          else Some (emit_short name (emit_byte OP_GET_FIELD s)) } })"

definition index_expr :: "rec_call \<Rightarrow> bool \<Rightarrow> cstate \<Rightarrow> cstate option" where
  "index_expr rec can_assign s = do {
     s \<leftarrow> skip_newlines s;
     s \<leftarrow> expression rec s;
     s \<leftarrow> skip_newlines s;
     s \<leftarrow> consume (Single TOKEN_RBRACKET) ''Expected ']' after index.'' s;
     (assign, s) \<leftarrow> (if can_assign then match (Single TOKEN_EQUAL) s else Some (False, s));
     if assign then do {
       s \<leftarrow> skip_newlines s;
       s \<leftarrow> expression rec s;
       Some (emit_byte OP_SET_INDEX s) }
     else Some (emit_byte OP_GET_INDEX s) }"

definition list_literal :: "nat \<Rightarrow> rec_call \<Rightarrow> cstate \<Rightarrow> cstate option" where
  "list_literal n rec s = do {
     s \<leftarrow> skip_newlines s;
     (count, s) \<leftarrow>
       (if \<not> check (Single TOKEN_RBRACKET) s then comma_loop n (\<lambda>_. expression rec) 0 s else Some (0, s));
     s \<leftarrow> skip_newlines s;
     s \<leftarrow> consume (Single TOKEN_RBRACKET) ''Expected ']' after list elements.'' s;
     Some (emit_short (of_nat count) (emit_byte OP_NEW_LIST s)) }"

definition map_entry_item :: "rec_call \<Rightarrow> cstate \<Rightarrow> cstate option" where
  "map_entry_item rec s = do {
     s \<leftarrow> (if check (Literal TOKEN_IDENTIFIER) s then do {
            s \<leftarrow> advance s;
            let (key, s) = obj_string_copy (tok_text (cs_previous s)) s;
            Some (emit_constant (OBJ_VAL key) s) }
          else if check (Literal TOKEN_STRING) s then do { s \<leftarrow> advance s; Some (string_literal s) }
          else expression rec s);
     s \<leftarrow> consume (Single TOKEN_COLON) ''Expected ':' after map key.'' s;
     s \<leftarrow> skip_newlines s;
     expression rec s }"

definition map_literal :: "nat \<Rightarrow> rec_call \<Rightarrow> cstate \<Rightarrow> cstate option" where
  "map_literal n rec s = do {
     s \<leftarrow> skip_newlines s;
     (count, s) \<leftarrow>
       (if \<not> check (Single TOKEN_RBRACE) s then comma_loop n (\<lambda>_. map_entry_item rec) 0 s else Some (0, s));
     s \<leftarrow> skip_newlines s;
     s \<leftarrow> consume (Single TOKEN_RBRACE) ''Expected '}' after map entries.'' s;
     Some (emit_short (of_nat count) (emit_byte OP_NEW_MAP s)) }"

subsection \<open>The rule table\<close>

datatype (plugins only: code size) parse_fn =
  Fn_grouping | Fn_call | Fn_list_literal | Fn_index_expr | Fn_map_literal | Fn_unary | Fn_binary
  | Fn_and | Fn_or | Fn_dot | Fn_number | Fn_string_literal | Fn_symbol_literal | Fn_variable | Fn_literal

record parse_rule =
  pr_prefix :: "parse_fn option"
  pr_infix :: "parse_fn option"
  pr_precedence :: precedence

abbreviation infix_rule :: "parse_fn \<Rightarrow> precedence \<Rightarrow> parse_rule" where
  "infix_rule f p \<equiv> \<lparr>pr_prefix = None, pr_infix = Some f, pr_precedence = p\<rparr>"

abbreviation prefix_rule :: "parse_fn \<Rightarrow> parse_rule" where
  "prefix_rule f \<equiv> \<lparr>pr_prefix = Some f, pr_infix = None, pr_precedence = PREC_NONE\<rparr>"

definition init_rules :: "(token_type \<times> parse_rule) list" where
  "init_rules =
    [(Single TOKEN_LPAREN, \<lparr>pr_prefix = Some Fn_grouping, pr_infix = Some Fn_call, pr_precedence = PREC_CALL\<rparr>),
     (Single TOKEN_LBRACKET, \<lparr>pr_prefix = Some Fn_list_literal, pr_infix = Some Fn_index_expr, pr_precedence = PREC_CALL\<rparr>),
     (Single TOKEN_LBRACE, prefix_rule Fn_map_literal),
     (Single TOKEN_MINUS, \<lparr>pr_prefix = Some Fn_unary, pr_infix = Some Fn_binary, pr_precedence = PREC_TERM\<rparr>),
     (Single TOKEN_PLUS, infix_rule Fn_binary PREC_TERM),
     (Single TOKEN_BANG, prefix_rule Fn_unary),
     (Keyword TOKEN_NOT, prefix_rule Fn_unary),
     (Single TOKEN_TILDE, prefix_rule Fn_unary),
     (Single TOKEN_SLASH, infix_rule Fn_binary PREC_FACTOR),
     (Single TOKEN_STAR, infix_rule Fn_binary PREC_FACTOR),
     (Single TOKEN_PERCENT, infix_rule Fn_binary PREC_FACTOR),
     (Multi TOKEN_STAR_STAR, infix_rule Fn_binary PREC_POWER),
     (Multi TOKEN_EQUAL_EQUAL, infix_rule Fn_binary PREC_EQUALITY),
     (Multi TOKEN_BANG_EQUAL, infix_rule Fn_binary PREC_EQUALITY),
     (Single TOKEN_LESS, infix_rule Fn_binary PREC_COMPARISON),
     (Multi TOKEN_LESS_EQUAL, infix_rule Fn_binary PREC_COMPARISON),
     (Single TOKEN_GREATER, infix_rule Fn_binary PREC_COMPARISON),
     (Multi TOKEN_GREATER_EQUAL, infix_rule Fn_binary PREC_COMPARISON),
     (Single TOKEN_AMP, infix_rule Fn_binary PREC_BITWISE_AND),
     (Single TOKEN_PIPE, infix_rule Fn_binary PREC_BITWISE_OR),
     (Single TOKEN_CARET, infix_rule Fn_binary PREC_BITWISE_XOR),
     (Multi TOKEN_LSHIFT, infix_rule Fn_binary PREC_SHIFT),
     (Multi TOKEN_RSHIFT, infix_rule Fn_binary PREC_SHIFT),
     (Multi TOKEN_AMP_AMP, infix_rule Fn_and PREC_AND),
     (Multi TOKEN_PIPE_PIPE, infix_rule Fn_or PREC_OR),
     (Keyword TOKEN_AND, infix_rule Fn_and PREC_AND),
     (Keyword TOKEN_OR, infix_rule Fn_or PREC_OR),
     (Single TOKEN_DOT, infix_rule Fn_dot PREC_CALL),
     (Literal TOKEN_INT, prefix_rule Fn_number),
     (Literal TOKEN_FLOAT, prefix_rule Fn_number),
     (Literal TOKEN_STRING, prefix_rule Fn_string_literal),
     (Literal TOKEN_SYMBOL, prefix_rule Fn_symbol_literal),
     (Literal TOKEN_IDENTIFIER, prefix_rule Fn_variable),
     (Keyword TOKEN_NIL, prefix_rule Fn_literal),
     (Keyword TOKEN_TRUE, prefix_rule Fn_literal),
     (Keyword TOKEN_FALSE, prefix_rule Fn_literal)]"

definition get_rule :: "token_type \<Rightarrow> parse_rule" where
  "get_rule t = (case map_of init_rules t of Some r \<Rightarrow> r
     | None \<Rightarrow> \<lparr>pr_prefix = None, pr_infix = None, pr_precedence = PREC_NONE\<rparr>)"

definition apply_parse_fn ::
  "(string \<Rightarrow> val64) \<Rightarrow> nat \<Rightarrow> rec_call \<Rightarrow> parse_fn \<Rightarrow> bool \<Rightarrow> cstate \<Rightarrow> cstate option" where
  "apply_parse_fn strtod n rec f can_assign s =
     (case f of
        Fn_grouping \<Rightarrow> grouping rec s
      | Fn_call \<Rightarrow> call_expr n rec s
      | Fn_list_literal \<Rightarrow> list_literal n rec s
      | Fn_index_expr \<Rightarrow> index_expr rec can_assign s
      | Fn_map_literal \<Rightarrow> map_literal n rec s
      | Fn_unary \<Rightarrow> unary rec s
      | Fn_binary \<Rightarrow> binary rec (pr_precedence (get_rule (prev_type s))) s
      | Fn_and \<Rightarrow> and_expr rec s
      | Fn_or \<Rightarrow> or_expr rec s
      | Fn_dot \<Rightarrow> dot n rec can_assign s
      | Fn_number \<Rightarrow> Some (number strtod s)
      | Fn_string_literal \<Rightarrow> Some (string_literal s)
      | Fn_symbol_literal \<Rightarrow> Some (symbol_literal s)
      | Fn_variable \<Rightarrow> variable rec can_assign s
      | Fn_literal \<Rightarrow> Some (literal s))"

fun infix_loop ::
  "nat \<Rightarrow> (string \<Rightarrow> val64) \<Rightarrow> nat \<Rightarrow> rec_call \<Rightarrow> precedence \<Rightarrow> bool \<Rightarrow> cstate \<Rightarrow> cstate option" where
  "infix_loop 0 strtod n rec precedence can_assign s = None"
| "infix_loop (Suc m) strtod n rec precedence can_assign s =
     (if precedence \<le> pr_precedence (get_rule (cur_type s)) then do {
        s \<leftarrow> advance s;
        s \<leftarrow> (case pr_infix (get_rule (prev_type s)) of
               Some f \<Rightarrow> apply_parse_fn strtod n rec f can_assign s
             | None \<Rightarrow> Some s);
        infix_loop m strtod n rec precedence can_assign s }
      else Some s)"

definition parse_precedence ::
  "(string \<Rightarrow> val64) \<Rightarrow> nat \<Rightarrow> rec_call \<Rightarrow> precedence \<Rightarrow> cstate \<Rightarrow> cstate option" where
  "parse_precedence strtod n rec precedence s = do {
     s \<leftarrow> skip_newlines s;
     s \<leftarrow> advance s;
     case pr_prefix (get_rule (prev_type s)) of
       None \<Rightarrow> Some (error ''Expected expression.'' s)
     | Some f \<Rightarrow> do {
         let can_assign = (precedence \<le> PREC_ASSIGNMENT);
         s \<leftarrow> apply_parse_fn strtod n rec f can_assign s;
         s \<leftarrow> infix_loop n strtod n rec precedence can_assign s;
         (b, s) \<leftarrow> (if can_assign then match (Single TOKEN_EQUAL) s else Some (False, s));
         Some (if b then error ''Invalid assignment target.'' s else s) } }"

subsection \<open>Statements\<close>

definition expression_statement :: "rec_call \<Rightarrow> cstate \<Rightarrow> cstate option" where
  "expression_statement rec s = do {
     s \<leftarrow> expression rec (s\<lparr>cs_created_local := False\<rparr>);
     let s = (if \<not> cs_created_local s then emit_byte OP_POP s else s);
     Some (s\<lparr>cs_created_local := False\<rparr>) }"

text \<open>The loops \<open>while (!check(...)) { declaration(); skip_newlines(); }\<close> over a block.\<close>

fun block_loop :: "nat \<Rightarrow> rec_call \<Rightarrow> token_type set \<Rightarrow> cstate \<Rightarrow> cstate option" where
  "block_loop 0 rec stops s = None"
| "block_loop (Suc n) rec stops s =
     (if cur_type s \<in> stops then Some s
      else do { s \<leftarrow> rec Declaration s; s \<leftarrow> skip_newlines s; block_loop n rec stops s })"

abbreviation end_stops :: "token_type set" where
  "end_stops \<equiv> {Keyword TOKEN_END, Special TOKEN_EOF}"

abbreviation else_stops :: "token_type set" where
  "else_stops \<equiv> {Keyword TOKEN_ELSIF, Keyword TOKEN_ELSE, Keyword TOKEN_END, Special TOKEN_EOF}"

definition condition_then :: "rec_call \<Rightarrow> cstate \<Rightarrow> cstate option" where
  "condition_then rec s = do {
     s \<leftarrow> skip_newlines s;
     s \<leftarrow> expression rec s;
     s \<leftarrow> skip_newlines s;
     (_, s) \<leftarrow> match (Keyword TOKEN_THEN) s;
     skip_newlines s }"

text \<open>\<open>exit_jumps\<close> has 256 entries; the 257th write is outside it.\<close>

fun elsif_loop :: "nat \<Rightarrow> nat \<Rightarrow> rec_call \<Rightarrow> nat list \<Rightarrow> cstate \<Rightarrow> (nat list \<times> cstate) option" where
  "elsif_loop 0 n rec exit_jumps s = None"
| "elsif_loop (Suc m) n rec exit_jumps s = do {
     (b, s) \<leftarrow> match (Keyword TOKEN_ELSIF) s;
     if \<not> b then Some (exit_jumps, s) else do {
       s \<leftarrow> condition_then rec s;
       let (elsif_jump, s) = emit_jump OP_JUMP_IF_FALSE s;
       s \<leftarrow> block_loop n rec else_stops (emit_byte OP_POP s);
       let (next_jump, s) = emit_jump OP_JUMP s;
       let s = (if 256 \<le> length exit_jumps then s\<lparr>cs_undefined := True\<rparr> else s);
       elsif_loop m n rec (exit_jumps @ [next_jump]) (emit_byte OP_POP (patch_jump elsif_jump s)) } }"

definition if_statement :: "nat \<Rightarrow> rec_call \<Rightarrow> cstate \<Rightarrow> cstate option" where
  "if_statement n rec s = do {
     s \<leftarrow> condition_then rec s;
     let (then_jump, s) = emit_jump OP_JUMP_IF_FALSE s;
     s \<leftarrow> block_loop n rec else_stops (emit_byte OP_POP s);
     let (else_jump, s) = emit_jump OP_JUMP s;
     (exit_jumps, s) \<leftarrow> elsif_loop n n rec [else_jump] (emit_byte OP_POP (patch_jump then_jump s));
     (b, s) \<leftarrow> match (Keyword TOKEN_ELSE) s;
     s \<leftarrow> (if b then do { s \<leftarrow> skip_newlines s; block_loop n rec end_stops s } else Some s);
     s \<leftarrow> skip_newlines (patch_all exit_jumps s);
     consume (Keyword TOKEN_END) ''Expected 'end' after if statement.'' s }"

definition push_loop :: "cstate \<Rightarrow> cstate" where
  "push_loop s = s\<lparr>cs_loops := \<lparr>lp_start = code_count s, lp_breaks = [],
     lp_scope_depth = cp_scope_depth (cur s)\<rparr> # cs_loops s\<rparr>"

definition pop_loop :: "cstate \<Rightarrow> cstate" where
  "pop_loop s = s\<lparr>cs_loops := tl (cs_loops s)\<rparr>"

text \<open>\<open>while\<close> and \<open>until\<close>, which differ in \<open>negate\<close> and in the message.\<close>

definition cond_loop :: "nat \<Rightarrow> rec_call \<Rightarrow> bool \<Rightarrow> string \<Rightarrow> cstate \<Rightarrow> cstate option" where
  "cond_loop n rec negate message s = do {
     let s = push_loop s;
     s \<leftarrow> skip_newlines s;
     s \<leftarrow> expression rec s;
     s \<leftarrow> skip_newlines s;
     let s = (if negate then emit_byte OP_NOT s else s);
     let (exit_jump, s) = emit_jump OP_JUMP_IF_FALSE s;
     s \<leftarrow> block_loop n rec end_stops (emit_byte OP_POP s);
     let s = emit_loop (lp_start (hd (cs_loops s))) s;
     let s = emit_byte OP_POP (patch_jump exit_jump s);
     let s = patch_all (lp_breaks (hd (cs_loops s))) s;
     s \<leftarrow> consume (Keyword TOKEN_END) message s;
     Some (pop_loop s) }"

definition while_statement :: "nat \<Rightarrow> rec_call \<Rightarrow> cstate \<Rightarrow> cstate option" where
  "while_statement n rec s = cond_loop n rec False ''Expected 'end' after while loop.'' s"

definition until_statement :: "nat \<Rightarrow> rec_call \<Rightarrow> cstate \<Rightarrow> cstate option" where
  "until_statement n rec s = cond_loop n rec True ''Expected 'end' after until loop.'' s"

definition loop_statement :: "nat \<Rightarrow> rec_call \<Rightarrow> cstate \<Rightarrow> cstate option" where
  "loop_statement n rec s = do {
     (_, s) \<leftarrow> match (Keyword TOKEN_DO) s;
     s \<leftarrow> skip_newlines s;
     s \<leftarrow> block_loop n rec end_stops (push_loop s);
     let s = emit_loop (lp_start (hd (cs_loops s))) s;
     let s = patch_all (lp_breaks (hd (cs_loops s))) s;
     s \<leftarrow> consume (Keyword TOKEN_END) ''Expected 'end' after loop.'' s;
     Some (pop_loop s) }"

definition for_statement :: "nat \<Rightarrow> rec_call \<Rightarrow> cstate \<Rightarrow> cstate option" where
  "for_statement n rec s = do {
     let s = push_loop (begin_scope s);
     s \<leftarrow> skip_newlines s;
     s \<leftarrow> consume (Literal TOKEN_IDENTIFIER) ''Expected variable name after 'for'.'' s;
     let s = mark_initialized (add_local (tok_text (cs_previous s)) s);
     let var_slot = length (cp_locals (cur s)) - 1;
     let s = emit_byte OP_NIL s;
     s \<leftarrow> consume (Keyword TOKEN_IN) ''Expected 'in' after for variable.'' s;
     s \<leftarrow> skip_newlines s;
     s \<leftarrow> expression rec s;
     s \<leftarrow> skip_newlines s;
     let s = emit_byte OP_ITER_INIT s;
     let s = mark_initialized (add_local [] s);
     let iter_slot = length (cp_locals (cur s)) - 1;
     let s = s\<lparr>cs_loops := (hd (cs_loops s))\<lparr>lp_start := code_count s\<rparr> # tl (cs_loops s)\<rparr>;
     let s = emit_short (of_nat iter_slot) (emit_byte OP_GET_LOCAL s);
     let (exit_jump, s) = emit_jump OP_ITER_NEXT s;
     let s = emit_byte OP_POP (emit_short (of_nat var_slot) (emit_byte OP_SET_LOCAL s));
     s \<leftarrow> block_loop n rec end_stops s;
     let s = emit_loop (lp_start (hd (cs_loops s))) s;
     let s = patch_jump exit_jump s;
     let s = patch_all (lp_breaks (hd (cs_loops s))) s;
     s \<leftarrow> consume (Keyword TOKEN_END) ''Expected 'end' after for loop.'' s;
     Some (pop_loop (end_scope s)) }"

definition return_statement :: "rec_call \<Rightarrow> cstate \<Rightarrow> cstate option" where
  "return_statement rec s =
     (let s = (if cp_type (cur s) = TYPE_SCRIPT then error ''Cannot return from top-level code.'' s else s)
      in if check (Special TOKEN_NEWLINE) s \<or> check (Special TOKEN_EOF) s \<or> check (Keyword TOKEN_END) s
         then Some (emit_return s)
         else do { s \<leftarrow> expression rec s; Some (emit_byte OP_RETURN s) })"

text \<open>Discarding the locals above the scope of the loop; the locals stay declared.\<close>

fun discard_scope :: "local list \<Rightarrow> int \<Rightarrow> cstate \<Rightarrow> cstate" where
  "discard_scope [] depth s = s"
| "discard_scope (l # ls) depth s =
     (if lc_depth l \<le> depth - 1 then s
      else discard_scope ls depth (emit_byte (if lc_is_captured l then OP_CLOSE_UPVALUE else OP_POP) s))"

fun discard_locals :: "nat \<Rightarrow> int \<Rightarrow> cstate \<Rightarrow> cstate" where
  "discard_locals 0 depth s = s"
| "discard_locals (Suc k) depth s =
     discard_locals k (depth - 1) (discard_scope (rev (cp_locals (cur s))) depth s)"

definition close_loop_locals :: "cstate \<Rightarrow> cstate" where
  "close_loop_locals s =
     (let depth = cp_scope_depth (cur s)
      in discard_locals (nat (depth - lp_scope_depth (hd (cs_loops s)))) depth s)"

definition break_statement :: "cstate \<Rightarrow> cstate" where
  "break_statement s =
     (if cs_loops s = [] then error ''Cannot use 'break' outside of a loop.'' s
      else
        let s = close_loop_locals s
        in if 256 \<le> length (lp_breaks (hd (cs_loops s))) then error ''Too many break statements in loop.'' s
           else
             let (jump, s) = emit_jump OP_JUMP s;
                 l = hd (cs_loops s)
             in s\<lparr>cs_loops := l\<lparr>lp_breaks := lp_breaks l @ [jump]\<rparr> # tl (cs_loops s)\<rparr>)"

definition next_statement :: "cstate \<Rightarrow> cstate" where
  "next_statement s =
     (if cs_loops s = [] then error ''Cannot use 'next' outside of a loop.'' s
      else let s = close_loop_locals s in emit_loop (lp_start (hd (cs_loops s))) s)"

fun emit_upvalues :: "upvalue list \<Rightarrow> cstate \<Rightarrow> cstate" where
  "emit_upvalues [] s = s"
| "emit_upvalues (u # us) s =
     emit_upvalues us (emit_byte (up_index u) (emit_byte (if up_is_local u then 1 else 0) s))"

definition fn_parameter :: "cstate \<Rightarrow> cstate option" where
  "fn_parameter s = do {
     let s = s\<lparr>cs_heap := update_function (cp_function (cur s)) (\<lambda>f. f\<lparr>fn_arity := fn_arity f + 1\<rparr>) (cs_heap s)\<rparr>;
     let s = (if unat (fn_arity (the_function (cs_heap s) (cp_function (cur s)))) > 255
       then error_at_current ''Cannot have more than 255 parameters.'' s else s);
     (param, s) \<leftarrow> parse_variable ''Expected parameter name.'' s;
     Some (define_variable param s) }"

definition fn_declaration :: "nat \<Rightarrow> rec_call \<Rightarrow> cstate \<Rightarrow> cstate option" where
  "fn_declaration n rec s = do {
     (global, s) \<leftarrow> parse_variable ''Expected function name.'' s;
     let s = begin_scope (init_compiler TYPE_FUNCTION (mark_initialized s));
     s \<leftarrow> consume (Single TOKEN_LPAREN) ''Expected '(' after function name.'' s;
     s \<leftarrow> (if \<not> check (Single TOKEN_RPAREN) s
           then do { (_, s) \<leftarrow> comma_loop n (\<lambda>_. fn_parameter) 0 s; Some s } else Some s);
     s \<leftarrow> consume (Single TOKEN_RPAREN) ''Expected ')' after parameters.'' s;
     s \<leftarrow> skip_newlines s;
     s \<leftarrow> block_loop n rec end_stops s;
     let (compiler, s) = end_compiler s;
     s \<leftarrow> consume (Keyword TOKEN_END) ''Expected 'end' after function body.'' s;
     let (constant, s) = make_constant (OBJ_VAL (cp_function compiler)) s;
     let s = emit_short constant (emit_byte OP_CLOSURE s);
     let count = unat (fn_upvalue_count (the_function (cs_heap s) (cp_function compiler)));
     Some (define_variable global (emit_upvalues (take count (cp_upvalues compiler)) s)) }"

text \<open>Panic-mode recovery.\<close>

definition sync_point :: "token_type \<Rightarrow> bool" where
  "sync_point t \<longleftrightarrow> t \<in> {Keyword TOKEN_FN, Keyword TOKEN_IF, Keyword TOKEN_WHILE, Keyword TOKEN_UNTIL,
     Keyword TOKEN_FOR, Keyword TOKEN_LOOP, Keyword TOKEN_RETURN, Keyword TOKEN_BEGIN}"

partial_function (option) sync_loop :: "cstate \<Rightarrow> cstate option" where
  "sync_loop s =
     (if cur_type s = Special TOKEN_EOF \<or> prev_type s = Special TOKEN_NEWLINE \<or> sync_point (cur_type s)
      then Some s else do { s \<leftarrow> advance s; sync_loop s })"

definition synchronize :: "cstate \<Rightarrow> cstate option" where
  "synchronize s = sync_loop (s\<lparr>cs_panic_mode := False\<rparr>)"

definition statement :: "nat \<Rightarrow> rec_call \<Rightarrow> cstate \<Rightarrow> cstate option" where
  "statement n rec s =
     (if check (Keyword TOKEN_IF) s then do { s \<leftarrow> advance s; if_statement n rec s }
      else if check (Keyword TOKEN_WHILE) s then do { s \<leftarrow> advance s; while_statement n rec s }
      else if check (Keyword TOKEN_UNTIL) s then do { s \<leftarrow> advance s; until_statement n rec s }
      else if check (Keyword TOKEN_FOR) s then do { s \<leftarrow> advance s; for_statement n rec s }
      else if check (Keyword TOKEN_LOOP) s then do { s \<leftarrow> advance s; loop_statement n rec s }
      else if check (Keyword TOKEN_RETURN) s then do { s \<leftarrow> advance s; return_statement rec s }
      else if check (Keyword TOKEN_BREAK) s then do { s \<leftarrow> advance s; Some (break_statement s) }
      else if check (Keyword TOKEN_NEXT) s then do { s \<leftarrow> advance s; Some (next_statement s) }
      else expression_statement rec s)"

definition declaration_stmt :: "nat \<Rightarrow> rec_call \<Rightarrow> cstate \<Rightarrow> cstate option" where
  "declaration_stmt n rec s = do {
     s \<leftarrow> skip_newlines s;
     if check (Special TOKEN_EOF) s then Some s
     else do {
       (b, s) \<leftarrow> match (Keyword TOKEN_FN) s;
       s \<leftarrow> (if b then fn_declaration n rec s else statement n rec s);
       if cs_panic_mode s then synchronize s else Some s } }"

subsection \<open>Tying the knot\<close>

fun run_compiler :: "(string \<Rightarrow> val64) \<Rightarrow> nat \<Rightarrow> call \<Rightarrow> cstate \<Rightarrow> cstate option" where
  "run_compiler strtod 0 c s = None"
| "run_compiler strtod (Suc n) c s =
     (case c of
        Parse_Precedence p \<Rightarrow> parse_precedence strtod n (run_compiler strtod n) p s
      | Declaration \<Rightarrow> declaration_stmt n (run_compiler strtod n) s)"

fun program_loop :: "(string \<Rightarrow> val64) \<Rightarrow> nat \<Rightarrow> nat \<Rightarrow> cstate \<Rightarrow> cstate option" where
  "program_loop strtod 0 n s = None"
| "program_loop strtod (Suc m) n s = do {
     (b, s) \<leftarrow> match (Special TOKEN_EOF) s;
     if b then Some s else do { s \<leftarrow> run_compiler strtod n Declaration s; program_loop strtod m n s } }"

definition no_token :: token where
  "no_token = \<lparr>tk_type = Special TOKEN_EOF, tk_start = In_Source [], tk_length = 0, tk_line = 0\<rparr>"

definition init_state :: "heap \<Rightarrow> string \<Rightarrow> cstate" where
  "init_state h source = \<lparr>cs_heap = h, cs_lexer = lexer_init source, cs_current = no_token,
     cs_previous = no_token, cs_had_error = False, cs_panic_mode = False, cs_compilers = [],
     cs_loops = [], cs_created_local = False, cs_errors = [],
     cs_undefined = False\<rparr>"

text \<open>
  \<open>compile\<close> with fuel; the function is \<open>NULL\<close> (the inner \<open>None\<close>) when there was an error.
\<close>

definition compile :: "(string \<Rightarrow> val64) \<Rightarrow> nat \<Rightarrow> heap \<Rightarrow> string \<Rightarrow> (ptr option \<times> cstate) option" where
  "compile strtod n h source = do {
     let s = init_compiler TYPE_SCRIPT (init_state h source);
     s \<leftarrow> advance s;
     s \<leftarrow> program_loop strtod n n s;
     let (compiler, s) = end_compiler s;
     Some (if cs_had_error s then None else Some (cp_function compiler), s) }"

end
