(* ===== verification/Compiler_Total.thy ===== *)
theory Compiler_Total
  imports Compiler
begin

section \<open>A calculus for the returns of the compiler\<close>

text \<open>
  With fuel above twice the length of the source, \<open>compile\<close> returns on every NUL-free source,
  and more fuel changes nothing it depends on; on the way every function keeps the invariant
  \<open>cinv\<close>: the lexer stays inside the source, the arrays of every chunk fit their capacities and
  every code byte has a line, the compilers in progress are functions of the heap with at most
  256 locals, and the stack of compilers is the same after a statement as before.  The proof is
  a weakest-precondition calculus for the option monad, with one rule per function.
\<close>

subsection \<open>Weakest preconditions\<close>

definition wp :: "'a option \<Rightarrow> ('a \<Rightarrow> bool) \<Rightarrow> bool" where
  "wp m Q = (case m of None \<Rightarrow> False | Some x \<Rightarrow> Q x)"

named_theorems wp_rules \<open>weakest-precondition rules\<close>
named_theorems at_rules \<open>preservation of the invariant\<close>

lemma wp_Some [wp_rules]: "Q x \<Longrightarrow> wp (Some x) Q"
  by (simp add: wp_def)

lemma wp_bind [wp_rules]: "wp m (\<lambda>x. wp (f x) Q) \<Longrightarrow> wp (Option.bind m f) Q"
  by (cases m) (simp_all add: wp_def)

lemma wp_if [wp_rules]: "(c \<Longrightarrow> wp a Q) \<Longrightarrow> (\<not> c \<Longrightarrow> wp b Q) \<Longrightarrow> wp (if c then a else b) Q"
  by simp

lemma wp_case_option [wp_rules]:
  "(x = None \<Longrightarrow> wp a Q) \<Longrightarrow> (\<And>y. x = Some y \<Longrightarrow> wp (f y) Q) \<Longrightarrow>
   wp (case x of None \<Rightarrow> a | Some y \<Rightarrow> f y) Q"
  by (cases x) auto

lemma wp_mono: "wp m P \<Longrightarrow> (\<And>x. P x \<Longrightarrow> Q x) \<Longrightarrow> wp m Q"
  by (cases m) (simp_all add: wp_def)

lemma wpD: "wp m Q \<Longrightarrow> \<exists>x. m = Some x \<and> Q x"
  by (cases m) (simp_all add: wp_def)

subsection \<open>The invariant\<close>

definition chunk_ok :: "chunk \<Rightarrow> bool" where
  "chunk_ok c \<longleftrightarrow> length (ck_code c) \<le> ck_capacity c \<and> length (ck_lines c) \<le> ck_line_capacity c \<and>
     length (ck_constants c) \<le> ck_const_capacity c \<and> length (ck_lines c) = length (ck_code c)"

definition heap_ok :: "heap \<Rightarrow> bool" where
  "heap_ok h \<longleftrightarrow> (\<forall>f. OBJ_FUNCTION f \<in> set h \<longrightarrow> chunk_ok (fn_chunk f))"

definition is_function :: "heap \<Rightarrow> ptr \<Rightarrow> bool" where
  "is_function h p \<longleftrightarrow> p < length h \<and> (\<exists>f. h ! p = OBJ_FUNCTION f)"

definition lex_inv :: "lexer \<Rightarrow> token \<Rightarrow> bool" where
  "lex_inv lx t \<longleftrightarrow> src_ok (lx_current lx) \<and> (tk_type t = Special TOKEN_EOF \<longrightarrow> lx_current lx = [NUL])"

definition hinv :: "ptr list \<Rightarrow> heap \<Rightarrow> compiler list \<Rightarrow> bool" where
  "hinv k h cs \<longleftrightarrow> map cp_function cs = k \<and> k \<noteq> [] \<and> heap_ok h \<and> (\<forall>p \<in> set k. is_function h p) \<and>
     (\<forall>c \<in> set cs. length (cp_locals c) \<le> MAX_LOCALS)"

definition cinv :: "ptr list \<Rightarrow> cstate \<Rightarrow> bool" where
  "cinv k s \<longleftrightarrow> lex_inv (cs_lexer s) (cs_current s) \<and> hinv k (cs_heap s) (cs_compilers s)"

text \<open>The input that is left, with the current token.\<close>

definition rem :: "cstate \<Rightarrow> nat" where
  "rem s = (if cur_type s = Special TOKEN_EOF then 0 else Suc (length (lx_current (cs_lexer s))))"

definition at :: "ptr list \<Rightarrow> nat \<Rightarrow> cstate \<Rightarrow> bool" where
  "at k r s \<longleftrightarrow> cinv k s \<and> rem s \<le> r"

lemma at_mono: "at k r s \<Longrightarrow> r \<le> r' \<Longrightarrow> at k r' s"
  by (simp add: at_def)

lemma atI:
  assumes "at k r s" and "cs_lexer s' = cs_lexer s" and "cs_current s' = cs_current s"
    and "hinv k (cs_heap s) (cs_compilers s) \<Longrightarrow> hinv k (cs_heap s') (cs_compilers s')"
  shows "at k r s'"
  using assms by (auto simp: at_def cinv_def rem_def split: if_splits)

subsection \<open>Heaps and chunks\<close>

lemma chunk_ok_init [simp]: "chunk_ok chunk_init"
  by (simp add: chunk_ok_def chunk_init_def)

lemma chunk_ok_write: "chunk_ok c \<Longrightarrow> chunk_ok (chunk_write c b l)"
  by (auto simp: chunk_ok_def chunk_write_def GROW_CAPACITY_def Let_def)

lemma chunk_ok_add: "chunk_ok c \<Longrightarrow> chunk_ok (snd (chunk_add_constant c v))"
  by (auto simp: chunk_ok_def chunk_add_constant_def GROW_CAPACITY_def Let_def)

lemma heap_okD: "heap_ok h \<Longrightarrow> is_function h p \<Longrightarrow> chunk_ok (fn_chunk (the_function h p))"
  by (auto simp: heap_ok_def is_function_def the_function_def) (metis nth_mem)

lemma is_function_append: "is_function h p \<Longrightarrow> is_function (h @ os) p"
  by (auto simp: is_function_def nth_append)

lemma heap_ok_append: "heap_ok h \<Longrightarrow> (\<And>f. OBJ_FUNCTION f \<in> set os \<Longrightarrow> chunk_ok (fn_chunk f)) \<Longrightarrow> heap_ok (h @ os)"
  by (auto simp: heap_ok_def)

lemma is_function_update: "is_function h p \<Longrightarrow> is_function (update_function q g h) p"
  by (cases "p = q") (auto simp: is_function_def update_function_def)

lemma heap_ok_update:
  "heap_ok h \<Longrightarrow> chunk_ok (fn_chunk (g (the_function h p))) \<Longrightarrow> heap_ok (update_function p g h)"
  using set_update_subset_insert [of h p "OBJ_FUNCTION (g (the_function h p))"]
  by (auto simp: heap_ok_def update_function_def)

lemma intern_string_appends:
  "\<exists>os. snd (intern_string h s) = h @ os \<and> (\<forall>f. OBJ_FUNCTION f \<notin> set os)"
  by (auto simp: intern_string_def alloc_object_def split: option.split)

lemma hinv_heap_append:
  "hinv k h cs \<Longrightarrow> (\<And>f. OBJ_FUNCTION f \<in> set os \<Longrightarrow> chunk_ok (fn_chunk f)) \<Longrightarrow> hinv k (h @ os) cs"
  by (simp add: hinv_def is_function_append heap_ok_append)

lemma hinv_intern: "hinv k h cs \<Longrightarrow> hinv k (snd (intern_string h s)) cs"
  using intern_string_appends [of h s] hinv_heap_append by metis

lemma hinv_update:
  "hinv k h cs \<Longrightarrow> (\<And>f. chunk_ok (fn_chunk f) \<Longrightarrow> chunk_ok (fn_chunk (g f))) \<Longrightarrow> is_function h p \<Longrightarrow>
   hinv k (update_function p g h) cs"
  by (simp add: hinv_def is_function_update heap_ok_update heap_okD)

lemma hinv_cur: "hinv k h cs \<Longrightarrow> is_function h (cp_function (last cs))"
  by (cases cs rule: rev_cases) (auto simp: hinv_def)

lemma hinv_nth: "hinv k h cs \<Longrightarrow> i < length cs \<Longrightarrow> is_function h (cp_function (cs ! i))"
  by (auto simp: hinv_def)

lemma at_update_cur [at_rules]:
  assumes "at k r s" and "\<And>c. cp_function (f c) = cp_function c"
    and "\<And>c. length (cp_locals c) \<le> MAX_LOCALS \<Longrightarrow> length (cp_locals (f c)) \<le> MAX_LOCALS"
  shows "at k r (update_cur f s)"
proof (rule atI [OF assms(1)])
  assume h: "hinv k (cs_heap s) (cs_compilers s)"
  then have ne: "cs_compilers s \<noteq> []" by (auto simp: hinv_def)
  then obtain cs c where cs: "cs_compilers s = cs @ [c]" by (cases "cs_compilers s" rule: rev_cases) auto
  then show "hinv k (cs_heap (update_cur f s)) (cs_compilers (update_cur f s))"
    using h assms(2,3) by (auto simp: update_cur_def cur_def hinv_def)
qed (simp_all add: update_cur_def)

lemma at_update_chunk [at_rules]:
  assumes "at k r s" and "\<And>c. chunk_ok c \<Longrightarrow> chunk_ok (g c)"
  shows "at k r (update_chunk g s)"
proof (rule atI [OF assms(1)])
  assume h: "hinv k (cs_heap s) (cs_compilers s)"
  then show "hinv k (cs_heap (update_chunk g s)) (cs_compilers (update_chunk g s))"
    using hinv_cur [OF h] assms(2) by (auto simp: update_chunk_def cur_def intro!: hinv_update)
qed (simp_all add: update_chunk_def)

lemma at_record [at_rules]:
  "at k r s \<Longrightarrow> at k r (s\<lparr>cs_created_local := b\<rparr>)"
  "at k r s \<Longrightarrow> at k r (s\<lparr>cs_loops := ls\<rparr>)"
  "at k r s \<Longrightarrow> at k r (s\<lparr>cs_undefined := b\<rparr>)"
  "at k r s \<Longrightarrow> at k r (s\<lparr>cs_panic_mode := b\<rparr>)"
  by (auto simp: at_def cinv_def rem_def split: if_splits)

lemma at_if [at_rules]: "(c \<Longrightarrow> at k r a) \<Longrightarrow> (\<not> c \<Longrightarrow> at k r b) \<Longrightarrow> at k r (if c then a else b)"
  by simp

lemma at_error [at_rules]:
  "at k r s \<Longrightarrow> at k r (error_at t m s)" "at k r s \<Longrightarrow> at k r (error m s)"
  "at k r s \<Longrightarrow> at k r (error_at_current m s)"
  by (auto simp: error_def error_at_current_def error_at_def at_def cinv_def rem_def split: if_splits)

subsection \<open>Emitting\<close>

lemma at_emit_byte [at_rules]: "at k r s \<Longrightarrow> at k r (emit_byte b s)"
  by (auto simp: emit_byte_def intro!: at_rules chunk_ok_write)

lemma at_emit [at_rules]:
  "at k r s \<Longrightarrow> at k r (emit_bytes b c s)" "at k r s \<Longrightarrow> at k r (emit_short v s)"
  "at k r s \<Longrightarrow> at k r (emit_return s)" "at k r s \<Longrightarrow> at k r (snd (emit_jump b s))"
  "at k r s \<Longrightarrow> at k r (emit_loop l s)"
  by (simp_all add: emit_bytes_def emit_short_def emit_return_def emit_jump_def emit_loop_def Let_def at_rules)

lemma at_patch [at_rules]: "at k r s \<Longrightarrow> at k r (patch_jump j s)"
  unfolding patch_jump_def Let_def by (intro at_rules) (simp_all add: chunk_ok_def)

lemma at_patch_all [at_rules]: "at k r s \<Longrightarrow> at k r (patch_all js s)"
  by (induction js arbitrary: s) (simp_all add: at_patch)

lemma at_make_constant [at_rules]: "at k r s \<Longrightarrow> at k r (snd (make_constant v s))"
  by (auto simp: make_constant_def case_prod_beta Let_def intro!: at_rules chunk_ok_add)

lemma at_emit_constant [at_rules]: "at k r s \<Longrightarrow> at k r (emit_constant v s)"
  by (simp add: emit_constant_def case_prod_beta Let_def at_rules)

lemma at_string_copy [at_rules]: "at k r s \<Longrightarrow> at k r (snd (obj_string_copy c s))"
  by (rule atI) (auto simp: obj_string_copy_def case_prod_beta Let_def hinv_intern)

lemma at_identifier_constant [at_rules]: "at k r s \<Longrightarrow> at k r (snd (identifier_constant c s))"
  by (simp add: identifier_constant_def case_prod_beta Let_def at_rules)


subsection \<open>Scopes, locals and upvalues\<close>

lemma hinv_push:
  "hinv k h cs \<Longrightarrow> is_function h p \<Longrightarrow> cp_function c = p \<Longrightarrow> length (cp_locals c) \<le> MAX_LOCALS \<Longrightarrow>
   hinv (k @ [p]) h (cs @ [c])"
  by (auto simp: hinv_def)

lemma at_init_function:
  assumes "at k r s"
  shows "at (k @ [length (cs_heap s)]) r (init_compiler TYPE_FUNCTION s)"
proof -
  let ?fn = "length (cs_heap s)"
  let ?c = "\<lparr>cp_function = ?fn, cp_type = TYPE_FUNCTION, cp_locals = [], cp_upvalues = [], cp_scope_depth = 0\<rparr>"
  let ?s = "s\<lparr>cs_heap := snd (obj_function_new (cs_heap s)), cs_compilers := cs_compilers s @ [?c]\<rparr>"
  have h: "hinv k (cs_heap s) (cs_compilers s)" using assms by (simp add: at_def cinv_def)
  have "hinv (k @ [?fn]) (cs_heap ?s) (cs_compilers ?s)"
  proof (simp, rule hinv_push)
    show "hinv k (snd (obj_function_new (cs_heap s))) (cs_compilers s)"
      by (auto simp: obj_function_new_def alloc_object_def intro!: hinv_heap_append [OF h])
  qed (simp_all add: obj_function_new_def alloc_object_def is_function_def)
  then have a: "at (k @ [?fn]) r ?s"
    using assms by (auto simp: at_def cinv_def rem_def split: if_splits)
  let ?t = "snd (obj_string_copy (tok_text (cs_previous ?s)) ?s)"
  have b: "at (k @ [?fn]) r ?t" by (rule at_string_copy [OF a])
  then have "is_function (cs_heap ?t) ?fn" by (simp add: at_def cinv_def hinv_def)
  then have c: "at (k @ [?fn]) r (?t\<lparr>cs_heap := update_function ?fn (\<lambda>f. f\<lparr>fn_name := Some n\<rparr>) (cs_heap ?t)\<rparr>)" for n
    by (intro atI [OF b]) (auto intro!: hinv_update)
  have "init_compiler TYPE_FUNCTION s = update_cur
      (\<lambda>c. c\<lparr>cp_locals := [\<lparr>lc_name = [], lc_depth = 0, lc_is_captured = False\<rparr>]\<rparr>)
      (?t\<lparr>cs_heap := update_function ?fn (\<lambda>f. f\<lparr>fn_name :=
         Some (fst (obj_string_copy (tok_text (cs_previous ?s)) ?s))\<rparr>) (cs_heap ?t)\<rparr>)"
    by (simp add: init_compiler_def obj_function_new_def alloc_object_def case_prod_beta Let_def
        del: tok_text.simps)
  then show ?thesis using c by (simp add: at_update_cur del: tok_text.simps)
qed

lemma at_begin_scope [at_rules]: "at k r s \<Longrightarrow> at k r (begin_scope s)"
  unfolding begin_scope_def by (intro at_rules) simp_all

lemma at_pop_locals [at_rules]: "at k r s \<Longrightarrow> at k r (pop_locals ls d s)"
proof (induction ls arbitrary: s)
  case (Cons l ls)
  have "at k r (update_cur (\<lambda>c. c\<lparr>cp_locals := butlast (cp_locals c)\<rparr>) (emit_byte b s))" for b
    by (intro at_update_cur at_emit_byte Cons(2)) auto
  then show ?case using Cons by (simp add: Let_def)
qed simp

lemma at_end_scope [at_rules]: "at k r s \<Longrightarrow> at k r (end_scope s)"
  unfolding end_scope_def Let_def by (intro at_rules) simp_all

lemma at_discard_scope [at_rules]: "at k r s \<Longrightarrow> at k r (discard_scope ls d s)"
  by (induction ls d s rule: discard_scope.induct) (simp_all add: at_rules)

lemma at_discard_locals [at_rules]: "at k r s \<Longrightarrow> at k r (discard_locals i d s)"
  by (induction i d s rule: discard_locals.induct) (simp_all add: at_rules)

lemma at_close_loop_locals [at_rules]: "at k r s \<Longrightarrow> at k r (close_loop_locals s)"
  by (simp add: close_loop_locals_def Let_def at_rules)

lemma at_resolve_local [at_rules]: "at k r s \<Longrightarrow> at k r (snd (resolve_local i name s))"
  by (auto simp: resolve_local_def Let_def at_rules split: option.split)

lemma at_set_compiler:
  assumes "at k r s" and "i < length (cs_compilers s)" and "cp_function c = cp_function (cs_compilers s ! i)"
    and "length (cp_locals c) \<le> MAX_LOCALS"
  shows "at k r (s\<lparr>cs_compilers := (cs_compilers s)[i := c]\<rparr>)"
proof (rule atI [OF assms(1)])
  assume h: "hinv k (cs_heap s) (cs_compilers s)"
  have "map cp_function ((cs_compilers s)[i := c]) = map cp_function (cs_compilers s)"
    using assms(2,3) by (simp add: map_update list_update_same_conv)
  moreover have "\<forall>d \<in> set ((cs_compilers s)[i := c]). length (cp_locals d) \<le> MAX_LOCALS"
    using h assms(4) set_update_subset_insert [of "cs_compilers s" i c] by (auto simp: hinv_def)
  ultimately show "hinv k (cs_heap (s\<lparr>cs_compilers := (cs_compilers s)[i := c]\<rparr>))
      (cs_compilers (s\<lparr>cs_compilers := (cs_compilers s)[i := c]\<rparr>))"
    using h by (simp add: hinv_def)
qed simp_all

lemma at_locals: "at k r s \<Longrightarrow> i < length (cs_compilers s) \<Longrightarrow> length (cp_locals (cs_compilers s ! i)) \<le> MAX_LOCALS"
  by (auto simp: at_def cinv_def hinv_def)

lemma at_length: "at k r s \<Longrightarrow> length (cs_compilers s) = length k"
  by (auto simp: at_def cinv_def hinv_def)

lemma at_capture_local: "at k r s \<Longrightarrow> i < length k \<Longrightarrow> at k r (capture_local i j s)"
  using at_locals [of k r s i] at_length [of k r s] by (auto simp: capture_local_def Let_def intro!: at_set_compiler)

lemma at_add_upvalue:
  assumes "at k r s" and "i < length k"
  shows "at k r (snd (add_upvalue i index is_local s))"
proof -
  have i: "i < length (cs_compilers s)" using assms at_length by auto
  let ?c = "cs_compilers s ! i"
  have a: "at k r (s\<lparr>cs_compilers := (cs_compilers s)[i := ?c\<lparr>cp_upvalues := us\<rparr>]\<rparr>)" for us
    using assms(1) i at_locals [OF assms(1) i] by (auto intro!: at_set_compiler)
  have "is_function (cs_heap s) (cp_function ?c)" using assms(1) i hinv_nth by (auto simp: at_def cinv_def)
  then have "at k r (s\<lparr>cs_compilers := (cs_compilers s)[i := ?c\<lparr>cp_upvalues := us\<rparr>],
      cs_heap := update_function (cp_function ?c) (\<lambda>f. f\<lparr>fn_upvalue_count := fn_upvalue_count f + 1\<rparr>) (cs_heap s)\<rparr>)" for us
    by (intro atI [OF a]) (auto intro!: hinv_update)
  then show ?thesis
    using assms(1) by (auto simp: add_upvalue_def Let_def at_error split: option.split)
qed

lemma at_resolve_upvalue: "at k r s \<Longrightarrow> i < length k \<Longrightarrow> at k r (snd (resolve_upvalue i name s))"
proof (induction i name s rule: resolve_upvalue.induct)
  case (2 i name s)
  let ?l = "resolve_local i name s"
  have l: "at k r (snd ?l)" using 2(2) by (rule at_resolve_local)
  show ?case
  proof (cases "fst ?l")
    case None
    have u: "at k r (snd (resolve_upvalue i name (snd ?l)))"
      using 2(1) [of "fst ?l" "snd ?l"] None l 2(3) by (simp add: prod_eq_iff)
    show ?thesis
      using None u 2(3) by (auto simp: case_prod_beta Let_def intro!: at_add_upvalue split: option.split)
  next
    case (Some j)
    then show ?thesis using l 2(3) by (auto simp: case_prod_beta Let_def intro!: at_add_upvalue at_capture_local)
  qed
qed simp

lemma at_add_local [at_rules]:
  assumes a: "at k r s"
  shows "at k r (add_local name s)"
proof (cases "MAX_LOCALS \<le> length (cp_locals (cur s))")
  case False
  have "\<exists>cs. cs_compilers s = cs @ [cur s]"
    using a by (cases "cs_compilers s" rule: rev_cases) (auto simp: at_def cinv_def hinv_def cur_def)
  then show ?thesis using a False by (auto simp: add_local_def update_cur_def at_def cinv_def hinv_def rem_def split: if_splits)
qed (use a in \<open>simp add: add_local_def at_error\<close>)

lemma at_redeclared [at_rules]: "at k r s \<Longrightarrow> at k r (redeclared ls d name s)"
  by (induction ls d name s rule: redeclared.induct) (simp_all add: at_rules)

lemma at_declare_variable [at_rules]: "at k r s \<Longrightarrow> at k r (declare_variable s)"
  by (simp add: declare_variable_def Let_def at_rules)

end
