(* ===== verification/Compiler_Fuel.thy ===== *)
theory Compiler_Fuel
  imports Compiler_Total
begin

section \<open>More fuel gives the same result\<close>

text \<open>
  Where the compiler returns with some fuel, it returns the same with more: \<open>opt_le\<close> is the order
  of the option type with \<open>None\<close> at the bottom, and every function of the parser is monotone in
  its fuel and in the calls through the forward declarations.
\<close>

definition opt_le :: "'a option \<Rightarrow> 'a option \<Rightarrow> bool" where
  "opt_le m m' \<longleftrightarrow> m = None \<or> m' = m"

definition rec_le :: "rec_call \<Rightarrow> rec_call \<Rightarrow> bool" where
  "rec_le rec rec' \<longleftrightarrow> (\<forall>c s. opt_le (rec c s) (rec' c s))"

named_theorems le_rules \<open>monotonicity in fuel\<close>

lemma opt_le_refl: "opt_le m m"
  by (simp add: opt_le_def)

lemma opt_le_None: "opt_le None m"
  by (simp add: opt_le_def)

lemma opt_le_bind: "opt_le m m' \<Longrightarrow> (\<And>x. opt_le (f x) (f' x)) \<Longrightarrow> opt_le (Option.bind m f) (Option.bind m' f')"
  by (cases m) (auto simp: opt_le_def)

lemma opt_le_if: "opt_le a a' \<Longrightarrow> opt_le b b' \<Longrightarrow> opt_le (if c then a else b) (if c then a' else b')"
  by simp

lemma opt_le_prod: "(\<And>x y. opt_le (f x y) (f' x y)) \<Longrightarrow> opt_le (case p of (x, y) \<Rightarrow> f x y) (case p of (x, y) \<Rightarrow> f' x y)"
  by (cases p) simp

lemma opt_le_option:
  "opt_le a a' \<Longrightarrow> (\<And>x. opt_le (f x) (f' x)) \<Longrightarrow>
   opt_le (case m of None \<Rightarrow> a | Some x \<Rightarrow> f x) (case m of None \<Rightarrow> a' | Some x \<Rightarrow> f' x)"
  by (cases m) simp_all

lemma opt_le_rec: "rec_le rec rec' \<Longrightarrow> opt_le (rec c s) (rec' c s)"
  by (simp add: rec_le_def)

lemma opt_le_expression: "rec_le rec rec' \<Longrightarrow> opt_le (expression rec s) (expression rec' s)"
  by (simp add: expression_def rec_le_def)

lemmas opt_le = opt_le_expression opt_le_bind opt_le_if opt_le_prod opt_le_option opt_le_refl

subsection \<open>Expressions\<close>

lemma le_operators [le_rules]:
  assumes "rec_le rec rec'"
  shows "opt_le (grouping rec s) (grouping rec' s)" and "opt_le (unary rec s) (unary rec' s)"
    and "opt_le (binary rec p s) (binary rec' p s)" and "opt_le (and_expr rec s) (and_expr rec' s)"
    and "opt_le (or_expr rec s) (or_expr rec' s)"
  unfolding grouping_def unary_def binary_def and_expr_def or_expr_def Let_def
  by (rule opt_le_rec [OF assms] opt_le assms)+

lemma le_primaries [le_rules]:
  assumes "rec_le rec rec'"
  shows "opt_le (named_variable rec name ca s) (named_variable rec' name ca s)"
    and "opt_le (index_expr rec ca s) (index_expr rec' ca s)"
    and "opt_le (map_entry_item rec s) (map_entry_item rec' s)"
  unfolding named_variable_def index_expr_def map_entry_item_def Let_def
  by (rule opt_le assms)+

lemma le_comma_loop:
  assumes "\<And>c s. opt_le (item c s) (item' c s)" and "n \<le> n'"
  shows "opt_le (comma_loop n item c s) (comma_loop n' item' c s)"
  using assms(2)
proof (induction n arbitrary: n' c s)
  case (Suc n)
  then obtain m where m: "n' = Suc m" "n \<le> m" by (cases n') auto
  show ?case
    unfolding m(1) comma_loop.simps by (rule Suc.IH [OF m(2)] assms(1) opt_le)+
qed (simp add: opt_le_None)

lemma le_collections [le_rules]:
  assumes "rec_le rec rec'" and "n \<le> n'"
  shows "opt_le (argument_list n rec s) (argument_list n' rec' s)"
    and "opt_le (list_literal n rec s) (list_literal n' rec' s)"
    and "opt_le (map_literal n rec s) (map_literal n' rec' s)"
  unfolding argument_list_def list_literal_def map_literal_def
  by (rule le_comma_loop le_primaries opt_le assms)+

lemma le_calls [le_rules]:
  assumes "rec_le rec rec'" and "n \<le> n'"
  shows "opt_le (call_expr n rec s) (call_expr n' rec' s)" and "opt_le (dot n rec ca s) (dot n' rec' ca s)"
  unfolding call_expr_def dot_def Let_def by (rule le_collections opt_le assms)+

lemma le_apply_parse_fn:
  assumes "rec_le rec rec'" and "n \<le> n'"
  shows "opt_le (apply_parse_fn strtod n rec f ca s) (apply_parse_fn strtod n' rec' f ca s)"
  unfolding apply_parse_fn_def variable_def
  by (cases f; simp only: parse_fn.case; rule le_rules opt_le_refl; rule assms)

lemma le_infix_loop:
  assumes "rec_le rec rec'" and "n \<le> n'"
  shows "m \<le> m' \<Longrightarrow> opt_le (infix_loop m strtod n rec p ca s) (infix_loop m' strtod n' rec' p ca s)"
proof (induction m arbitrary: m' s)
  case (Suc m)
  then obtain l where l: "m' = Suc l" "m \<le> l" by (cases m') auto
  show ?case
    unfolding l(1) infix_loop.simps by (rule Suc.IH [OF l(2)] le_apply_parse_fn opt_le assms)+
qed (simp add: opt_le_None)

lemma le_parse_precedence:
  assumes "rec_le rec rec'" and "n \<le> n'"
  shows "opt_le (parse_precedence strtod n rec p s) (parse_precedence strtod n' rec' p s)"
  unfolding parse_precedence_def Let_def
  by (rule le_infix_loop le_apply_parse_fn opt_le assms)+

subsection \<open>Statements\<close>

lemma le_block_loop:
  assumes "rec_le rec rec'"
  shows "n \<le> n' \<Longrightarrow> opt_le (block_loop n rec stops s) (block_loop n' rec' stops s)"
proof (induction n arbitrary: n' s)
  case (Suc n)
  then obtain m where m: "n' = Suc m" "n \<le> m" by (cases n') auto
  show ?case
    unfolding m(1) block_loop.simps by (rule Suc.IH [OF m(2)] opt_le_rec [OF assms] opt_le)+
qed (simp add: opt_le_None)

lemma le_condition_then: "rec_le rec rec' \<Longrightarrow> opt_le (condition_then rec s) (condition_then rec' s)"
  unfolding condition_then_def by (rule opt_le | assumption)+

lemma le_elsif_loop:
  assumes "rec_le rec rec'" and "n \<le> n'"
  shows "m \<le> m' \<Longrightarrow> opt_le (elsif_loop m n rec js s) (elsif_loop m' n' rec' js s)"
proof (induction m arbitrary: m' js s)
  case (Suc m)
  then obtain l where l: "m' = Suc l" "m \<le> l" by (cases m') auto
  show ?case
    unfolding l(1) elsif_loop.simps Let_def
    by (rule Suc.IH [OF l(2)] le_condition_then le_block_loop opt_le assms)+
qed (simp add: opt_le_None)

lemma le_statements:
  assumes "rec_le rec rec'" and "n \<le> n'"
  shows "opt_le (if_statement n rec s) (if_statement n' rec' s)"
    and "opt_le (cond_loop n rec neg m s) (cond_loop n' rec' neg m s)"
    and "opt_le (loop_statement n rec s) (loop_statement n' rec' s)"
    and "opt_le (for_statement n rec s) (for_statement n' rec' s)"
    and "opt_le (return_statement rec s) (return_statement rec' s)"
    and "opt_le (expression_statement rec s) (expression_statement rec' s)"
    and "opt_le (fn_declaration n rec s) (fn_declaration n' rec' s)"
  unfolding if_statement_def cond_loop_def loop_statement_def for_statement_def return_statement_def
    expression_statement_def fn_declaration_def Let_def
  by (rule le_elsif_loop le_condition_then le_block_loop le_comma_loop opt_le assms)+

lemma le_declaration:
  assumes "rec_le rec rec'" and "n \<le> n'"
  shows "opt_le (declaration_stmt n rec s) (declaration_stmt n' rec' s)"
  unfolding declaration_stmt_def statement_def while_statement_def until_statement_def
  by (rule le_statements opt_le assms)+

lemma le_run_compiler: "n \<le> n' \<Longrightarrow> rec_le (run_compiler strtod n) (run_compiler strtod n')"
proof (induction n arbitrary: n')
  case (Suc n)
  then obtain m where m: "n' = Suc m" "n \<le> m" by (cases n') auto
  have "opt_le (run_compiler strtod (Suc n) c s) (run_compiler strtod (Suc m) c s)" for c s
    using Suc.IH [OF m(2)] m(2) by (cases c) (simp_all add: le_parse_precedence le_declaration)
  then show ?case by (simp add: rec_le_def m(1))
qed (simp add: rec_le_def opt_le_None)

lemma le_program_loop:
  assumes "n \<le> n'"
  shows "m \<le> m' \<Longrightarrow> opt_le (program_loop strtod m n s) (program_loop strtod m' n' s)"
proof (induction m arbitrary: m' s)
  case (Suc m)
  then obtain l where l: "m' = Suc l" "m \<le> l" by (cases m') auto
  show ?case
    unfolding l(1) program_loop.simps
    by (rule Suc.IH [OF l(2)] opt_le_rec [OF le_run_compiler [OF assms]] opt_le)+
qed (simp add: opt_le_None)

lemma le_compile: "n \<le> n' \<Longrightarrow> opt_le (compile strtod n h source) (compile strtod n' h source)"
  unfolding compile_def Let_def by (rule le_program_loop opt_le | assumption)+

end
