(* ===== verification/Compiler_Returns.thy ===== *)
theory Compiler_Returns
  imports Compiler_Total Compiler_Fuel
begin

section \<open>The compiler always returns\<close>

text \<open>
  One weakest-precondition rule per function of the parser, in the order of \<open>Compiler\<close>, up to
  \<open>compile\<close>.  Rules carry the invariant \<open>at k r\<close>; the strict ones, which use up a token, bound
  the loops and the depth of the recursion.
\<close>

subsection \<open>Reading tokens\<close>

lemma wp_pair [wp_rules]: "wp (f a b) Q \<Longrightarrow> wp (case (a, b) of (x, y) \<Rightarrow> f x y) Q"
  by simp

lemma wp_state_pair:
  "at k r (snd p) \<Longrightarrow> (\<And>a t. at k r t \<Longrightarrow> wp (f a t) Q) \<Longrightarrow> wp (case p of (a, t) \<Rightarrow> f a t) Q"
  by (cases p) simp

lemma wp_bind_mono: "wp m P \<Longrightarrow> (\<And>x. P x \<Longrightarrow> wp (f x) Q) \<Longrightarrow> wp (Option.bind m f) Q"
  by (cases m) (simp_all add: wp_def)

lemma advance_loop_wp:
  "src_ok (lx_current (cs_lexer s)) \<Longrightarrow> hinv k (cs_heap s) (cs_compilers s) \<Longrightarrow>
   length (lx_current (cs_lexer s)) \<le> r \<Longrightarrow>
   wp (advance_loop s) (\<lambda>t. at k r t \<and> cs_previous t = cs_previous s)"
proof (induction "length (lx_current (cs_lexer s))" arbitrary: s r rule: less_induct)
  case less
  obtain t lx where n: "lexer_next_token (cs_lexer s) = (t, lx)" by force
  note step = next_token_step [OF less.prems(1) n]
  show ?case
  proof (cases "tk_type t = Special TOKEN_ERROR")
    case True
    let ?s = "s\<lparr>cs_lexer := lx, cs_current := t\<rparr>"
    let ?e = "error_at_current (token_message t) ?s"
    have lt: "length (lx_current lx) < length (lx_current (cs_lexer s))" using step(4) True by simp
    have e: "cs_lexer ?e = lx" "cs_heap ?e = cs_heap s" "cs_compilers ?e = cs_compilers s"
        "cs_previous ?e = cs_previous s"
      by (auto simp: error_at_current_def error_at_def)
    have "wp (advance_loop ?e) (\<lambda>t. at k r t \<and> cs_previous t = cs_previous ?e)"
      by (rule less.hyps) (use lt less.prems step(1) e in auto)
    then show ?thesis using n True e by (simp add: advance_loop.simps [of s])
  next
    case False
    have "lx_current lx = [NUL]" if "tk_type t = Special TOKEN_EOF"
    proof -
      have "\<exists>q. [NUL] = q @ tok_text t @ lx_current lx" using step(3,5) that by auto
      then show ?thesis using step(1) by (cases "lx_current lx") (auto simp: Cons_eq_append_conv append_eq_Cons_conv)
    qed
    then show ?thesis
      using n False step(1,4) less.prems
      by (auto simp: advance_loop.simps [of s] wp_def at_def cinv_def lex_inv_def rem_def split: if_splits)
  qed
qed

lemma at_less: "at k (r - 1) s \<Longrightarrow> at k r s" "at k (r - Suc 0) s \<Longrightarrow> at k r s"
  by (auto elim: at_mono)

lemma wp_less: "wp m (at k (r - 1)) \<Longrightarrow> wp m (at k r)"
  by (auto elim!: wp_mono dest: at_less)

lemma rem_EOF: "at k 0 s \<Longrightarrow> cur_type s = Special TOKEN_EOF"
  by (auto simp: at_def rem_def split: if_splits)

lemma at_pos: "at k r s \<Longrightarrow> cur_type s \<noteq> Special TOKEN_EOF \<Longrightarrow> 0 < r"
  by (auto simp: at_def rem_def split: if_splits)

lemma advance_EOF:
  assumes "cinv k s" and "cur_type s = Special TOKEN_EOF"
  shows "wp (advance s) (\<lambda>t. at k 0 t \<and> cs_previous t = cs_current s)"
proof -
  let ?s = "s\<lparr>cs_previous := cs_current s\<rparr>"
  have c: "lx_current (cs_lexer ?s) = [NUL]" using assms by (simp add: cinv_def lex_inv_def)
  obtain t lx where n: "lexer_next_token (cs_lexer ?s) = (t, lx)" by force
  have ok: "src_ok (lx_current (cs_lexer ?s))" using assms(1) by (simp add: cinv_def lex_inv_def)
  note step = next_token_step [OF ok n]
  have "\<not> length (lx_current lx) < length (lx_current (cs_lexer ?s))" using step(1) c by auto
  then have e: "tk_type t = Special TOKEN_EOF" using step(4) by blast
  then have "\<exists>q. [NUL] = q @ tok_text t @ lx_current lx" using step(3,5) by auto
  then have "lx_current lx = [NUL]" using step(1) by (cases "lx_current lx") (auto simp: Cons_eq_append_conv append_eq_Cons_conv)
  then show ?thesis
    using n e assms(1) step(1) by (auto simp: advance_def advance_loop.simps [of ?s] wp_def at_def cinv_def lex_inv_def rem_def)
qed

lemma advance_strict:
  assumes "at k r s"
  shows "wp (advance s) (\<lambda>t. at k (r - 1) t \<and> cs_previous t = cs_current s)"
proof (cases "cur_type s = Special TOKEN_EOF")
  case True
  then show ?thesis
    using advance_EOF [of k s] assms by (auto simp: at_def elim!: wp_mono)
next
  case False
  let ?s = "s\<lparr>cs_previous := cs_current s\<rparr>"
  have "wp (advance_loop ?s) (\<lambda>t. at k (r - 1) t \<and> cs_previous t = cs_previous ?s)"
    by (rule advance_loop_wp) (use assms False in \<open>auto simp: at_def cinv_def lex_inv_def rem_def\<close>)
  then show ?thesis by (simp add: advance_def)
qed

lemma wp_advance [wp_rules]:
  "at k r s \<Longrightarrow> (\<And>t. at k r t \<Longrightarrow> Q t) \<Longrightarrow> wp (advance s) Q"
  by (rule wp_mono [OF advance_strict]) (auto dest: at_less)

lemma wp_consume [wp_rules]:
  "at k r s \<Longrightarrow> (\<And>t. at k r t \<Longrightarrow> Q t) \<Longrightarrow> wp (consume ty m s) Q"
  by (auto simp: consume_def intro!: wp_rules at_rules)

lemma match_strict:
  assumes "at k r s" and "ty \<noteq> Special TOKEN_EOF"
  shows "wp (match ty s) (\<lambda>(b, t). if b then 0 < r \<and> at k (r - 1) t else t = s \<and> cur_type s \<noteq> ty)"
proof (cases "cur_type s = ty")
  case True
  then have "0 < r" using at_pos assms by auto
  then show ?thesis
    using advance_strict [OF assms(1)] True by (auto simp: match_def check_def wp_def split: option.splits)
qed (simp add: match_def check_def wp_def)

lemma wp_match [wp_rules]:
  "at k r s \<Longrightarrow> (\<And>b t. at k r t \<Longrightarrow> Q (b, t)) \<Longrightarrow> wp (match ty s) Q"
  by (auto simp: match_def intro!: wp_rules)

lemma skip_newlines_wp:
  "at k r s \<Longrightarrow> wp (skip_newlines s) (at k r)"
proof (induction r arbitrary: s rule: less_induct)
  case (less r)
  have "wp (if b then skip_newlines t else Some t) (at k r)"
    if "if b then 0 < r \<and> at k (r - 1) t else t = s \<and> cur_type s \<noteq> Special TOKEN_NEWLINE" for b t
  proof (cases b)
    case True
    then have "wp (skip_newlines t) (at k (r - 1))" using that by (intro less.IH) simp_all
    then show ?thesis using True by (auto elim!: wp_mono dest: at_less)
  qed (use that less.prems in \<open>simp add: wp_def\<close>)
  then show ?case
    unfolding skip_newlines.simps [of s]
    by (intro wp_bind_mono [OF match_strict [OF less.prems]]) auto
qed

lemma wp_skip_newlines [wp_rules]:
  "at k r s \<Longrightarrow> (\<And>t. at k r t \<Longrightarrow> Q t) \<Longrightarrow> wp (skip_newlines s) Q"
  by (rule wp_mono [OF skip_newlines_wp])


subsection \<open>Calls through the forward declarations\<close>

definition parses :: "nat \<Rightarrow> rec_call \<Rightarrow> bool" where
  "parses R rec \<longleftrightarrow> (\<forall>k r s p. r \<le> R \<longrightarrow> 0 < p \<longrightarrow> at k r s \<longrightarrow> wp (rec (Parse_Precedence p) s) (at k (r - 1)))"

definition declares :: "nat \<Rightarrow> rec_call \<Rightarrow> bool" where
  "declares R rec \<longleftrightarrow> (\<forall>k r s. r \<le> R \<longrightarrow> at k r s \<longrightarrow> wp (rec Declaration s) (at k (r - 1)))"

lemma parses_mono: "parses R rec \<Longrightarrow> R' \<le> R \<Longrightarrow> parses R' rec"
  by (simp add: parses_def)

lemma declares_mono: "declares R rec \<Longrightarrow> R' \<le> R \<Longrightarrow> declares R' rec"
  by (simp add: declares_def)

text \<open>The rules take \<open>parses r rec\<close> with the \<open>r\<close> of the state.\<close>

lemma wp_parse:
  "at k r s \<Longrightarrow> parses r rec \<Longrightarrow> 0 < p \<Longrightarrow> (\<And>t. at k r t \<Longrightarrow> Q t) \<Longrightarrow> wp (rec (Parse_Precedence p) s) Q"
  unfolding parses_def by (rule wp_mono [where P = "at k (r - 1)"]) (blast, blast dest: at_less)

lemma wp_expression [wp_rules]:
  "at k r s \<Longrightarrow> parses r rec \<Longrightarrow> (\<And>t. at k r t \<Longrightarrow> Q t) \<Longrightarrow> wp (expression rec s) Q"
  unfolding expression_def by (rule wp_parse) simp_all

lemma expression_strict: "at k r s \<Longrightarrow> parses r rec \<Longrightarrow> wp (expression rec s) (at k (r - 1))"
  by (simp add: expression_def parses_def)

lemma wp_let [wp_rules]: "wp (f x) Q \<Longrightarrow> wp (Let x f) Q"
  by (simp add: Let_def)

lemma at_cases [at_rules]:
  "(x = None \<Longrightarrow> at k r a) \<Longrightarrow> (\<And>y. x = Some y \<Longrightarrow> at k r (f y)) \<Longrightarrow>
   at k r (case x of None \<Rightarrow> a | Some y \<Rightarrow> f y)"
  by (cases x) auto

subsection \<open>Variables and literals\<close>

lemma at_mark_initialized [at_rules]: "at k r s \<Longrightarrow> at k r (mark_initialized s)"
proof -
  assume a: "at k r s"
  have "\<exists>cs. cs_compilers s = cs @ [cur s]"
    using a by (cases "cs_compilers s" rule: rev_cases) (auto simp: at_def cinv_def hinv_def cur_def)
  moreover have "length (cp_locals (cur s)) \<le> MAX_LOCALS"
    using a by (cases "cs_compilers s" rule: rev_cases) (auto simp: at_def cinv_def hinv_def cur_def)
  ultimately show ?thesis
    using a by (cases "cp_locals (cur s)" rule: rev_cases)
      (auto simp: mark_initialized_def update_cur_def at_def cinv_def hinv_def rem_def split: if_splits)
qed

lemma at_emit_arg [at_rules]: "at k r s \<Longrightarrow> at k r (emit_arg b n s)"
  by (simp add: emit_arg_def at_rules)

lemma at_define_variable [at_rules]: "at k r s \<Longrightarrow> at k r (define_variable g s)"
  by (simp add: define_variable_def at_rules)

lemma at_resolve_variable:
  assumes "at k r s" and "resolve_variable name s = (g, st, arg, t)"
  shows "at k r t"
proof -
  have k: "length (cs_compilers s) - 1 < length k"
    using assms(1) at_length [OF assms(1)] by (auto simp: at_def cinv_def hinv_def)
  let ?l = "resolve_local (length (cs_compilers s) - 1) name s"
  have l: "at k r (snd ?l)" by (rule at_resolve_local [OF assms(1)])
  have u: "at k r (snd (resolve_upvalue (length (cs_compilers s) - 1) name (snd ?l)))"
    by (rule at_resolve_upvalue [OF l k])
  show ?thesis
    using assms(2) l u at_identifier_constant [OF u, of name]
    by (auto simp: resolve_variable_def case_prod_beta Let_def split: option.splits)
qed

lemma wp_named_variable [wp_rules]:
  assumes "at k r s" "parses r rec" "\<And>t. at k r t \<Longrightarrow> Q t"
  shows "wp (named_variable rec name can_assign s) Q"
proof -
  obtain g st arg t where v: "resolve_variable name s = (g, st, arg, t)" by (metis prod_cases4)
  have t: "at k r t" by (rule at_resolve_variable [OF assms(1) v])
  show ?thesis
    unfolding named_variable_def v Let_def prod.case
    by (rule wp_rules wp_state_pair at_rules t assms | assumption | simp)+
qed

lemma at_number [at_rules]: "at k r s \<Longrightarrow> at k r (number strtod s)"
  by (simp add: number_def Let_def at_rules)

lemma at_string_literal [at_rules]: "at k r s \<Longrightarrow> at k r (string_literal s)"
  by (simp add: string_literal_def case_prod_beta Let_def at_rules)

lemma at_symbol_literal [at_rules]: "at k r s \<Longrightarrow> at k r (symbol_literal s)"
  by (simp add: symbol_literal_def case_prod_beta Let_def at_rules)

lemma at_literal [at_rules]: "at k r s \<Longrightarrow> at k r (literal s)"
  by (simp add: literal_def at_rules)

subsection \<open>Operators\<close>

lemma wp_grouping [wp_rules]:
  assumes "at k r s" "parses r rec" "\<And>t. at k r t \<Longrightarrow> Q t"
  shows "wp (grouping rec s) Q"
  unfolding grouping_def
  by (rule assms wp_rules | assumption)+


lemma wp_unary [wp_rules]:
  assumes "at k r s" "parses r rec" "\<And>t. at k r t \<Longrightarrow> Q t"
  shows "wp (unary rec s) Q"
  unfolding unary_def
  by (rule assms wp_rules wp_parse [where rec = rec] at_rules | assumption | simp)+

lemma wp_binary [wp_rules]:
  assumes "at k r s" "parses r rec" "\<And>t. at k r t \<Longrightarrow> Q t"
  shows "wp (binary rec p s) Q"
  unfolding binary_def
  by (rule assms wp_rules wp_parse [where rec = rec] at_rules | assumption | simp)+

lemma wp_and_expr [wp_rules]:
  assumes "at k r s" "parses r rec" "\<And>t. at k r t \<Longrightarrow> Q t"
  shows "wp (and_expr rec s) Q"
  unfolding and_expr_def
  by (rule assms wp_rules wp_state_pair wp_parse [where rec = rec] at_rules | assumption | simp)+

lemma wp_or_expr [wp_rules]:
  assumes "at k r s" "parses r rec" "\<And>t. at k r t \<Longrightarrow> Q t"
  shows "wp (or_expr rec s) Q"
  unfolding or_expr_def
  by (rule assms wp_rules wp_state_pair wp_parse [where rec = rec] at_rules | assumption | simp)+

subsection \<open>Comma-separated lists, calls and fields\<close>

lemma comma_loop_wp:
  assumes "\<And>c t r'. r' \<le> r \<Longrightarrow> at k r' t \<Longrightarrow> wp (item c t) (at k r')"
  shows "at k r s \<Longrightarrow> r < n \<Longrightarrow> wp (comma_loop n item c s) (\<lambda>(_, t). at k r t)"
  using assms
proof (induction n arbitrary: r c s)
  case (Suc n)
  have strict: "wp (match (Single TOKEN_COMMA) t)
      (\<lambda>(b, t'). if b then 0 < r \<and> at k (r - 1) t' else t' = t \<and> cur_type t \<noteq> Single TOKEN_COMMA)"
    if "at k r t" for t using match_strict [OF that] by simp
  have loop: "wp (comma_loop n item c t) (\<lambda>(_, t). at k r t)" if "0 < r" "at k (r - 1) t" for c t
    by (rule wp_mono [OF Suc.IH [OF that(2)]]) (use that Suc.prems in \<open>auto dest: at_less\<close>)
  have "wp (match (Single TOKEN_COMMA) t) (\<lambda>x. wp (case x of (b, t) \<Rightarrow>
      if b then comma_loop n item (c + 1) t else Some (c + 1, t)) (\<lambda>(_, t). at k r t))" if "at k r t" for t
    by (rule wp_mono [OF strict [OF that]]) (use loop that in \<open>auto simp: wp_def split: if_splits\<close>)
  then show ?case
    unfolding comma_loop.simps
    by (intro wp_bind wp_skip_newlines [OF Suc.prems(1)] wp_mono [OF Suc.prems(3)] wp_skip_newlines) auto
qed simp

lemma wp_comma_loop:
  assumes "at k r s" "r < n" "\<And>c t r'. r' \<le> r \<Longrightarrow> at k r' t \<Longrightarrow> wp (item c t) (at k r')"
    and "\<And>c t. at k r t \<Longrightarrow> Q (c, t)"
  shows "wp (comma_loop n item c s) Q"
  by (rule wp_mono [OF comma_loop_wp [OF assms(3,1,2)]]) (use assms(4) in auto)

lemma wp_argument_list [wp_rules]:
  assumes "at k r s" "parses r rec" "r < n" "\<And>a t. at k r t \<Longrightarrow> Q (a, t)"
  shows "wp (argument_list n rec s) Q"
  unfolding argument_list_def
  by (rule wp_rules wp_comma_loop at_rules parses_mono [OF assms(2)] assms(1,3,4) | assumption | simp)+

lemma wp_call_expr [wp_rules]:
  assumes "at k r s" "parses r rec" "r < n" "\<And>t. at k r t \<Longrightarrow> Q t"
  shows "wp (call_expr n rec s) Q"
  unfolding call_expr_def
  by (rule assms wp_rules at_rules | assumption | simp)+

lemma wp_dot [wp_rules]:
  assumes "at k r s" "parses r rec" "r < n" "\<And>t. at k r t \<Longrightarrow> Q t"
  shows "wp (dot n rec can_assign s) Q"
  unfolding dot_def
  by (rule assms wp_rules wp_state_pair at_rules | assumption | simp)+

lemma wp_index_expr [wp_rules]:
  assumes "at k r s" "parses r rec" "\<And>t. at k r t \<Longrightarrow> Q t"
  shows "wp (index_expr rec can_assign s) Q"
  unfolding index_expr_def
  by (rule assms wp_rules wp_state_pair at_rules | assumption | simp)+

lemma wp_map_entry_item [wp_rules]:
  assumes "at k r s" "parses r rec" "\<And>t. at k r t \<Longrightarrow> Q t"
  shows "wp (map_entry_item rec s) Q"
  unfolding map_entry_item_def
  by (rule assms wp_rules wp_state_pair at_rules | assumption | simp)+

lemma wp_list_literal [wp_rules]:
  assumes "at k r s" "parses r rec" "r < n" "\<And>t. at k r t \<Longrightarrow> Q t"
  shows "wp (list_literal n rec s) Q"
  unfolding list_literal_def
  by (rule wp_rules wp_comma_loop at_rules parses_mono [OF assms(2)] assms(1,3,4) | assumption | simp)+

lemma wp_map_literal [wp_rules]:
  assumes "at k r s" "parses r rec" "r < n" "\<And>t. at k r t \<Longrightarrow> Q t"
  shows "wp (map_literal n rec s) Q"
  unfolding map_literal_def
  by (rule wp_rules wp_comma_loop at_rules parses_mono [OF assms(2)] assms(1,3,4) | assumption | simp)+

lemma wp_apply_parse_fn:
  assumes "at k r s" "parses r rec" "r < n" "\<And>t. at k r t \<Longrightarrow> Q t"
  shows "wp (apply_parse_fn strtod n rec f can_assign s) Q"
  unfolding apply_parse_fn_def variable_def
  by (cases f; simp only: parse_fn.case; (rule wp_rules at_rules assms | assumption)+)


subsection \<open>Expressions\<close>

lemma rule_EOF [simp]: "get_rule (Special TOKEN_EOF) = \<lparr>pr_prefix = None, pr_infix = None, pr_precedence = 0\<rparr>"
  by (simp add: get_rule_def init_rules_def)

lemma infix_loop_wp:
  assumes "0 < p"
  shows "at k r s \<Longrightarrow> parses r rec \<Longrightarrow> r < m \<Longrightarrow> r < n \<Longrightarrow>
    wp (infix_loop m strtod n rec p ca s) (at k r)"
proof (induction m arbitrary: r s)
  case (Suc m)
  show ?case
  proof (cases "p \<le> pr_precedence (get_rule (cur_type s))")
    case True
    then have "cur_type s \<noteq> Special TOKEN_EOF" using assms by auto
    then have r: "0 < r" using at_pos Suc.prems(1) by blast
    have loop: "wp (infix_loop m strtod n rec p ca t) (at k r)" if "at k (r - 1) t" for t
      by (rule wp_less, rule Suc.IH [OF that parses_mono [OF Suc.prems(2)]]) (use Suc.prems r in simp_all)
    have rec: "parses (r - 1) rec" "r - 1 < n" using Suc.prems parses_mono by auto
    have step: "wp (case pr_infix f of None \<Rightarrow> Some t | Some f \<Rightarrow> apply_parse_fn strtod n rec f ca t)
        (\<lambda>t. wp (infix_loop m strtod n rec p ca t) (at k r))" if "at k (r - 1) t" for t f
      by (cases "pr_infix f") (auto intro!: wp_rules wp_apply_parse_fn [OF that rec] loop that simp del: One_nat_def)
    show ?thesis
      unfolding infix_loop.simps if_P [OF True]
      by (rule wp_bind, rule wp_mono [OF advance_strict [OF Suc.prems(1)]], rule wp_bind, rule step) simp
  qed (use Suc.prems in \<open>simp add: wp_def\<close>)
qed simp

lemma parse_precedence_wp:
  assumes "at k r s" "0 < r \<Longrightarrow> parses (r - 1) rec" "r \<le> n" "0 < p"
  shows "wp (parse_precedence strtod n rec p s) (at k (r - 1))"
proof -
  have "wp (case pr_prefix (get_rule (prev_type u)) of
        None \<Rightarrow> Some (error ''Expected expression.'' u)
      | Some f \<Rightarrow> do {
          let can_assign = (p \<le> PREC_ASSIGNMENT);
          s \<leftarrow> apply_parse_fn strtod n rec f can_assign u;
          s \<leftarrow> infix_loop n strtod n rec p can_assign s;
          (b, s) \<leftarrow> (if can_assign then match (Single TOKEN_EQUAL) s else Some (False, s));
          Some (if b then error ''Invalid assignment target.'' s else s) }) (at k (r - 1))"
    if "at k r t" "at k (r - 1) u" "cs_previous u = cs_current t" for t u
  proof (cases "pr_prefix (get_rule (prev_type u))")
    case None
    then show ?thesis using that by (simp add: wp_def at_error)
  next
    case (Some f)
    then have "cur_type t \<noteq> Special TOKEN_EOF" using that(3) by auto
    then have r: "0 < r" using at_pos that(1) by blast
    then have 1: "parses (r - 1) rec" "r - 1 < n" using assms(2,3) by auto
    show ?thesis
      unfolding Some option.case Let_def
      by (rule wp_bind wp_apply_parse_fn [OF that(2) 1] wp_mono [OF infix_loop_wp [OF assms(4) _ 1(1) 1(2) 1(2)]]
          wp_rules at_rules | assumption)+
  qed
  then show ?thesis
    unfolding parse_precedence_def
    by (intro wp_bind wp_skip_newlines [OF assms(1)]) (auto intro: wp_mono [OF advance_strict])
qed

subsection \<open>Statements\<close>

lemma wp_expression_statement [wp_rules]:
  assumes "at k r s" "parses r rec" "\<And>t. at k r t \<Longrightarrow> Q t"
  shows "wp (expression_statement rec s) Q"
  unfolding expression_statement_def
  by (rule assms wp_rules at_rules | assumption)+

lemma block_loop_wp:
  assumes "Special TOKEN_EOF \<in> stops"
  shows "at k r s \<Longrightarrow> declares r rec \<Longrightarrow> r < n \<Longrightarrow> wp (block_loop n rec stops s) (at k r)"
proof (induction n arbitrary: r s)
  case (Suc n)
  show ?case
  proof (cases "cur_type s \<in> stops")
    case False
    then have r: "0 < r" using at_pos [OF Suc.prems(1)] assms by metis
    have loop: "wp (block_loop n rec stops t) (at k r)" if "at k (r - 1) t" for t
      by (rule wp_less, rule Suc.IH [OF that declares_mono [OF Suc.prems(2)]]) (use Suc.prems r in simp_all)
    have "wp (rec Declaration s) (at k (r - 1))" using Suc.prems by (simp add: declares_def)
    then show ?thesis
      using False by (auto intro!: wp_bind elim!: wp_mono intro!: wp_skip_newlines loop simp del: One_nat_def)
  qed (use Suc.prems in \<open>simp add: wp_def\<close>)
qed simp

lemma wp_block_loop [wp_rules]:
  assumes "at k r s" "declares r rec" "r < n" "Special TOKEN_EOF \<in> stops" "\<And>t. at k r t \<Longrightarrow> Q t"
  shows "wp (block_loop n rec stops s) Q"
  by (rule wp_mono [OF block_loop_wp [OF assms(4,1-3)]]) (rule assms(5))

lemma wp_condition_then [wp_rules]:
  assumes "at k r s" "parses r rec" "\<And>t. at k r t \<Longrightarrow> Q t"
  shows "wp (condition_then rec s) Q"
  unfolding condition_then_def
  by (rule assms wp_rules at_rules | assumption)+


lemma elsif_loop_wp:
  assumes "declares r rec" "parses r rec" "r < n"
  shows "at k r' s \<Longrightarrow> r' \<le> r \<Longrightarrow> r' < m \<Longrightarrow> wp (elsif_loop m n rec js s) (\<lambda>(_, t). at k r' t)"
proof (induction m arbitrary: r' js s)
  case (Suc m)
  have rec: "declares r' rec" "parses r' rec" "r' < n"
    using assms Suc.prems(2) declares_mono parses_mono by auto
  have body: "wp (do {
       s \<leftarrow> condition_then rec t;
       let (elsif_jump, s) = emit_jump OP_JUMP_IF_FALSE s;
       s \<leftarrow> block_loop n rec else_stops (emit_byte OP_POP s);
       let (next_jump, s) = emit_jump OP_JUMP s;
       let s = (if 256 \<le> length js then s\<lparr>cs_undefined := True\<rparr> else s);
       elsif_loop m n rec (js @ [next_jump]) (emit_byte OP_POP (patch_jump elsif_jump s)) })
     (\<lambda>(_, t). at k r' t)" if "at k (r' - 1) t" "0 < r'" for t
  proof -
    have loop: "wp (elsif_loop m n rec js' u) (\<lambda>(_, t). at k r' t)" if "at k (r' - 1) u" for js' u
      by (rule wp_mono [OF Suc.IH [OF that]]) (use Suc.prems \<open>0 < r'\<close> in \<open>auto dest: at_less\<close>)
    have rec': "declares (r' - 1) rec" "parses (r' - 1) rec" "r' - 1 < n"
      using rec declares_mono parses_mono by auto
    have st: "Special TOKEN_EOF \<in> else_stops" by simp
    show ?thesis
      by (rule that(1) rec' loop st wp_rules wp_state_pair at_rules | assumption)+
  qed
  show ?case
    unfolding elsif_loop.simps
    by (rule wp_bind_mono [OF match_strict [OF Suc.prems(1)]])
      (use body Suc.prems(1) in \<open>auto simp: wp_def [of "Some _"] split: if_splits\<close>)
qed simp

lemma wp_elsif_loop [wp_rules]:
  assumes "at k r s" "declares r rec" "parses r rec" "r < n" "\<And>js t. at k r t \<Longrightarrow> Q (js, t)"
  shows "wp (elsif_loop n n rec js s) Q"
  by (rule wp_mono [OF elsif_loop_wp [OF assms(2-4,1) order_refl assms(4)]]) (use assms(5) in auto)

lemma EOF_stops [at_rules]: "Special TOKEN_EOF \<in> end_stops" "Special TOKEN_EOF \<in> else_stops"
  by simp_all

lemma wp_if_statement [wp_rules]:
  assumes "at k r s" "declares r rec" "parses r rec" "r < n" "\<And>t. at k r t \<Longrightarrow> Q t"
  shows "wp (if_statement n rec s) Q"
  unfolding if_statement_def
  by (rule assms wp_rules wp_state_pair at_rules | assumption)+

lemma at_loops [at_rules]: "at k r s \<Longrightarrow> at k r (push_loop s)" "at k r s \<Longrightarrow> at k r (pop_loop s)"
  by (simp_all add: push_loop_def pop_loop_def at_record)

lemma wp_cond_loop [wp_rules]:
  assumes "at k r s" "declares r rec" "parses r rec" "r < n" "\<And>t. at k r t \<Longrightarrow> Q t"
  shows "wp (cond_loop n rec negate message s) Q"
  unfolding cond_loop_def
  by (rule assms wp_rules wp_state_pair at_rules | assumption)+

lemma wp_loop_statement [wp_rules]:
  assumes "at k r s" "declares r rec" "parses r rec" "r < n" "\<And>t. at k r t \<Longrightarrow> Q t"
  shows "wp (loop_statement n rec s) Q"
  unfolding loop_statement_def
  by (rule assms wp_rules wp_state_pair at_rules | assumption)+

lemma wp_for_statement [wp_rules]:
  assumes "at k r s" "declares r rec" "parses r rec" "r < n" "\<And>t. at k r t \<Longrightarrow> Q t"
  shows "wp (for_statement n rec s) Q"
  unfolding for_statement_def
  by (rule assms wp_rules wp_state_pair at_rules | assumption)+

lemma wp_return_statement [wp_rules]:
  assumes "at k r s" "parses r rec" "\<And>t. at k r t \<Longrightarrow> Q t"
  shows "wp (return_statement rec s) Q"
  unfolding return_statement_def
  by (rule assms wp_rules wp_state_pair at_rules | assumption)+

lemma at_break_statement [at_rules]: "at k r s \<Longrightarrow> at k r (break_statement s)"
  by (auto simp: break_statement_def case_prod_beta Let_def intro!: at_rules)

lemma at_next_statement [at_rules]: "at k r s \<Longrightarrow> at k r (next_statement s)"
  by (auto simp: next_statement_def Let_def intro!: at_rules)

lemma at_emit_upvalues [at_rules]: "at k r s \<Longrightarrow> at k r (emit_upvalues us s)"
  by (induction us arbitrary: s) (simp_all add: at_rules)

lemma wp_parse_variable [wp_rules]:
  assumes "at k r s" "\<And>c t. at k r t \<Longrightarrow> Q (c, t)"
  shows "wp (parse_variable message s) Q"
proof -
  have "wp (Some (if cp_scope_depth (cur t) > 0 then (0, t) else identifier_constant name t)) Q"
    if "at k r t" for t name
    using assms(2) [OF that, of 0] assms(2) [OF at_identifier_constant [OF that, of name], of "fst (identifier_constant name t)"]
    by (simp add: wp_def)
  then show ?thesis
    unfolding parse_variable_def
    by (auto simp: Let_def intro!: wp_bind wp_consume [OF assms(1)] at_declare_variable)
qed

lemma at_update_arity [at_rules]:
  "at k r s \<Longrightarrow> at k r (s\<lparr>cs_heap := update_function (cp_function (cur s)) (\<lambda>f. f\<lparr>fn_arity := g f\<rparr>) (cs_heap s)\<rparr>)"
  by (rule atI) (auto intro!: hinv_update dest: hinv_cur simp: cur_def)

lemma wp_fn_parameter [wp_rules]:
  assumes "at k r s" "\<And>t. at k r t \<Longrightarrow> Q t"
  shows "wp (fn_parameter s) Q"
  unfolding fn_parameter_def
  by (rule assms wp_rules wp_state_pair at_rules | assumption)+

lemma at_end_compiler:
  assumes "at (k @ [p]) r s" and "k \<noteq> []"
  shows "at k r (snd (end_compiler s))"
proof -
  have "at (k @ [p]) r (emit_return s)" using assms(1) by (rule at_emit)
  then show ?thesis
    using assms(2) by (auto simp: end_compiler_def Let_def at_def cinv_def hinv_def rem_def map_butlast dest: in_set_butlastD split: if_splits)
qed


lemma at_nonempty: "at k r s \<Longrightarrow> k \<noteq> []"
  by (simp add: at_def cinv_def hinv_def)

lemma wp_end_compiler:
  assumes "at (k @ [p]) r s" "k \<noteq> []" "\<And>c t. at k r t \<Longrightarrow> wp (f c t) Q"
  shows "wp (case end_compiler s of (c, t) \<Rightarrow> f c t) Q"
  by (rule wp_state_pair [OF at_end_compiler [OF assms(1,2)]]) (rule assms(3))

lemma wp_fn_declaration [wp_rules]:
  assumes "at k r s" "declares r rec" "parses r rec" "r < n" "\<And>t. at k r t \<Longrightarrow> Q t"
  shows "wp (fn_declaration n rec s) Q"
proof -
  have params: "wp (comma_loop n (\<lambda>_. fn_parameter) 0 t) R"
    if "at k' r t" "\<And>c t. at k' r t \<Longrightarrow> R (c, t)" for k' t R
    by (rule wp_comma_loop [OF that(1) assms(4)]) (rule that wp_rules at_rules | assumption)+
  show ?thesis
    unfolding fn_declaration_def
    by (rule assms at_nonempty [OF assms(1)] wp_end_compiler params wp_rules wp_state_pair at_rules
        at_init_function | assumption)+
qed

lemma sync_loop_wp: "at k r s \<Longrightarrow> wp (sync_loop s) (at k r)"
proof (induction r arbitrary: s rule: less_induct)
  case (less r)
  show ?case
  proof (cases "cur_type s = Special TOKEN_EOF \<or> prev_type s = Special TOKEN_NEWLINE \<or> sync_point (cur_type s)")
    case True
    then show ?thesis using less.prems by (simp add: sync_loop.simps [of s] wp_def)
  next
    case False
    then have "0 < r" using at_pos [OF less.prems] by blast
    then have "wp (sync_loop t) (at k r)" if "at k (r - 1) t" for t
      by (intro wp_less [OF less.IH]) (use that in simp_all)
    then show ?thesis
      using False wp_mono [OF advance_strict [OF less.prems]]
      by (auto simp: sync_loop.simps [of s] simp del: One_nat_def intro!: wp_bind)
  qed
qed

lemma wp_synchronize [wp_rules]:
  assumes "at k r s" "\<And>t. at k r t \<Longrightarrow> Q t"
  shows "wp (synchronize s) Q"
  unfolding synchronize_def by (rule wp_mono [OF sync_loop_wp]) (rule assms at_rules | assumption)+

lemma expression_statement_strict:
  assumes "at k r s" "parses r rec"
  shows "wp (expression_statement rec s) (at k (r - 1))"
  unfolding expression_statement_def
  by (rule wp_bind, rule wp_mono [OF expression_strict [OF at_record(1) [OF assms(1)] assms(2)]])
    (rule wp_rules at_rules | assumption)+

lemma statement_strict:
  assumes "at k r s" "parses r rec" "0 < r \<Longrightarrow> declares (r - 1) rec" "r \<le> n"
  shows "wp (statement n rec s) (at k (r - 1))"
proof (cases "cur_type s = Special TOKEN_EOF")
  case True
  then have "statement n rec s = expression_statement rec s" by (simp add: statement_def check_def)
  then show ?thesis using expression_statement_strict [OF assms(1,2)] by simp
next
  case False
  then have r: "0 < r" using at_pos assms(1) by blast
  then have rec: "parses (r - 1) rec" "declares (r - 1) rec" "r - 1 < n"
    using assms parses_mono by auto
  have step: "wp (advance s \<bind> f) (at k (r - 1))" if "\<And>t. at k (r - 1) t \<Longrightarrow> wp (f t) (at k (r - 1))" for f
    by (rule wp_bind, rule wp_mono [OF advance_strict [OF assms(1)]]) (use that in blast)
  show ?thesis
    unfolding statement_def while_statement_def until_statement_def
    by (rule wp_if step expression_statement_strict [OF assms(1,2)] rec wp_rules at_rules | assumption)+
qed

lemma declaration_strict:
  assumes "at k r s" "parses r rec" "0 < r \<Longrightarrow> declares (r - 1) rec" "r \<le> n"
  shows "wp (declaration_stmt n rec s) (at k (r - 1))"
proof -
  have sync: "wp (if cs_panic_mode t then synchronize t else Some t) (at k (r - 1))" if "at k (r - 1) t" for t
    using that by (auto intro!: wp_rules)
  have body: "wp (if b then fn_declaration n rec t' else statement n rec t') (at k (r - 1))"
    if "at k r t" "if b then 0 < r \<and> at k (r - 1) t' else t' = t \<and> cur_type t \<noteq> Keyword TOKEN_FN" for b t t'
  proof (cases b)
    case True
    then have a: "at k (r - 1) t'" "0 < r" using that by auto
    then have rec: "parses (r - 1) rec" "declares (r - 1) rec" "r - 1 < n"
      using assms parses_mono by auto
    show ?thesis using True by (auto intro!: wp_fn_declaration [OF a(1) rec(2,1,3)])
  qed (use that statement_strict [OF that(1) assms(2-4)] in auto)
  have eof: "at k (r - 1) t" if "at k r t" "check (Special TOKEN_EOF) t" for t
    using that by (auto simp: at_def check_def rem_def)
  have rest: "wp (do {
       (b, s) \<leftarrow> match (Keyword TOKEN_FN) t;
       s \<leftarrow> (if b then fn_declaration n rec s else statement n rec s);
       if cs_panic_mode s then synchronize s else Some s }) (at k (r - 1))" if "at k r t" for t
  proof (rule wp_bind, rule wp_mono [OF match_strict [OF that]], simp)
    fix x :: "bool \<times> cstate"
    assume "case x of (b, t') \<Rightarrow> if b then 0 < r \<and> at k (r - 1) t' else t' = t \<and> cur_type t \<noteq> Keyword TOKEN_FN"
    then have x: "if fst x then 0 < r \<and> at k (r - 1) (snd x) else snd x = t \<and> cur_type t \<noteq> Keyword TOKEN_FN"
      by (simp add: case_prod_beta)
    show "wp (case x of (b, s) \<Rightarrow> do {
       s \<leftarrow> (if b then fn_declaration n rec s else statement n rec s);
       if cs_panic_mode s then synchronize s else Some s }) (at k (r - 1))"
      unfolding case_prod_beta by (rule wp_bind, rule wp_mono [OF body [OF that x]], rule sync)
  qed
  show ?thesis
    unfolding declaration_stmt_def
    by (rule wp_bind, rule wp_skip_newlines [OF assms(1)], rule wp_if)
      (auto intro!: wp_Some eof rest simp del: One_nat_def)
qed

subsection \<open>Tying the knot\<close>

lemma run_compiler_returns: "2 * r < n \<Longrightarrow> parses r (run_compiler strtod n)"
  "2 * r + 1 < n \<Longrightarrow> declares r (run_compiler strtod n)"
proof (induction n arbitrary: r)
  case (Suc n)
  {
    case 1
    show ?case
      unfolding parses_def
    proof (intro allI impI)
      fix k r' s and p :: nat
      assume r': "r' \<le> r" and p: "0 < p" and a: "at k r' s"
      have "0 < r' \<Longrightarrow> parses (r' - 1) (run_compiler strtod n)"
        using 1 r' by (intro Suc.IH(1)) simp
      then show "wp (run_compiler strtod (Suc n) (Parse_Precedence p) s) (at k (r' - 1))"
        using parse_precedence_wp [OF a _ _ p] 1 r' by simp
    qed
  next
    case 2
    show ?case
      unfolding declares_def
    proof (intro allI impI)
      fix k r' s
      assume r': "r' \<le> r" and a: "at k r' s"
      have "0 < r' \<Longrightarrow> declares (r' - 1) (run_compiler strtod n)"
        using 2 r' by (intro Suc.IH(2)) simp
      moreover have "parses r' (run_compiler strtod n)"
        using 2 r' by (intro Suc.IH(1)) simp
      ultimately show "wp (run_compiler strtod (Suc n) Declaration s) (at k (r' - 1))"
        using declaration_strict [OF a] 2 r' by simp
    qed
  }
qed simp_all

lemma program_loop_returns:
  "at k r s \<Longrightarrow> r < m \<Longrightarrow> 2 * r + 1 < n \<Longrightarrow> wp (program_loop strtod m n s) (at k r)"
proof (induction m arbitrary: r s)
  case (Suc m)
  show ?case
  proof (cases "cur_type s = Special TOKEN_EOF")
    case True
    then show ?thesis
      using advance_strict [OF Suc.prems(1)] by (auto simp: match_def check_def wp_def dest: at_less split: option.splits)
  next
    case False
    then have r: "0 < r" using at_pos Suc.prems(1) by blast
    have loop: "wp (program_loop strtod m n t) (at k r)" if "at k (r - 1) t" for t
      by (rule wp_less, rule Suc.IH [OF that]) (use Suc.prems r in simp_all)
    have "wp (run_compiler strtod n Declaration s) (at k (r - 1))"
      using run_compiler_returns(2) [OF Suc.prems(3)] Suc.prems(1) by (simp add: declares_def)
    then show ?thesis
      using False by (auto simp: match_def check_def intro!: wp_bind elim!: wp_mono intro: loop simp del: One_nat_def)
  qed
qed simp

text \<open>The compiler of the script starts without an enclosing one.\<close>

lemma init_script_at:
  assumes "NUL \<notin> set source" and "heap_ok h"
  shows "wp (advance (init_compiler TYPE_SCRIPT (init_state h source))) (at [length h] (Suc (length source)))"
proof -
  let ?s = "init_compiler TYPE_SCRIPT (init_state h source)"
  let ?t = "?s\<lparr>cs_previous := cs_current ?s\<rparr>"
  have hp: "cs_heap ?s = h @ [OBJ_FUNCTION \<lparr>fn_arity = 0, fn_upvalue_count = 0, fn_chunk = chunk_init, fn_name = None\<rparr>]"
    and cs: "\<exists>c. cs_compilers ?s = [c] \<and> cp_function c = length h \<and> length (cp_locals c) = 1"
    and lx: "cs_lexer ?s = lexer_init source"
    by (simp_all add: init_compiler_def init_state_def obj_function_new_def alloc_object_def update_cur_def cur_def)
  have "hinv [length h] (cs_heap ?t) (cs_compilers ?t)"
    using assms(2) hp cs by (auto simp: hinv_def heap_ok_append is_function_def intro!: heap_ok_append)
  moreover have "src_ok (lx_current (cs_lexer ?t))" using lexer_init_ok [OF assms(1)] lx by simp
  ultimately have "wp (advance_loop ?t) (\<lambda>t. at [length h] (Suc (length source)) t \<and> cs_previous t = cs_previous ?t)"
    by (intro advance_loop_wp) (simp_all add: lx lexer_init_def)
  then show ?thesis by (auto simp: advance_def elim: wp_mono)
qed

lemma compile_returns:
  assumes "NUL \<notin> set source" and "heap_ok h" and "2 * length source + 4 \<le> n"
  shows "\<exists>fn s. compile strtod n h source = Some (fn, s) \<and> heap_ok (cs_heap s) \<and> cs_compilers s = [] \<and>
    (fn = None \<longleftrightarrow> cs_had_error s) \<and> (\<forall>p. fn = Some p \<longrightarrow> p = length h \<and> is_function (cs_heap s) p)"
proof -
  have "wp (compile strtod n h source) (\<lambda>(fn, s). heap_ok (cs_heap s) \<and> cs_compilers s = [] \<and>
      (fn = None \<longleftrightarrow> cs_had_error s) \<and> (\<forall>p. fn = Some p \<longrightarrow> p = length h \<and> is_function (cs_heap s) p))"
    unfolding compile_def
  proof (rule wp_let, rule wp_bind, rule wp_mono [OF init_script_at [OF assms(1,2)]])
    fix t assume t: "at [length h] (Suc (length source)) t"
    have l: "wp (program_loop strtod n n t) (at [length h] (Suc (length source)))"
      by (rule program_loop_returns [OF t]) (use assms(3) in simp_all)
    show "wp (program_loop strtod n n t \<bind> (\<lambda>s. let (compiler, s) = end_compiler s
        in Some (if cs_had_error s then None else Some (cp_function compiler), s)))
      (\<lambda>(fn, s). heap_ok (cs_heap s) \<and> cs_compilers s = [] \<and>
        (fn = None \<longleftrightarrow> cs_had_error s) \<and> (\<forall>p. fn = Some p \<longrightarrow> p = length h \<and> is_function (cs_heap s) p))"
    proof (rule wp_bind, rule wp_mono [OF l])
      fix u assume "at [length h] (Suc (length source)) u"
      then have "at [length h] (Suc (length source)) (emit_return u)" by (rule at_emit)
      then have "map cp_function (cs_compilers (emit_return u)) = [length h]" "heap_ok (cs_heap (emit_return u))"
          "is_function (cs_heap (emit_return u)) (length h)"
        by (simp_all add: at_def cinv_def hinv_def)
      then show "wp (let (compiler, s) = end_compiler u
          in Some (if cs_had_error s then None else Some (cp_function compiler), s))
        (\<lambda>(fn, s). heap_ok (cs_heap s) \<and> cs_compilers s = [] \<and>
          (fn = None \<longleftrightarrow> cs_had_error s) \<and> (\<forall>p. fn = Some p \<longrightarrow> p = length h \<and> is_function (cs_heap s) p))"
        by (auto simp: end_compiler_def Let_def wp_def cur_def map_eq_Cons_conv)
    qed
  qed
  then show ?thesis by (auto dest: wpD)
qed


subsection \<open>Properties\<close>

lemma compile_returns_uniformly:
  assumes "NUL \<notin> set source" and "heap_ok h"
  obtains fn s where "\<And>n. 2 * length source + 4 \<le> n \<Longrightarrow> compile strtod n h source = Some (fn, s)"
    and "heap_ok (cs_heap s)" and "cs_compilers s = []" and "fn = None \<longleftrightarrow> cs_had_error s"
    and "\<And>p. fn = Some p \<Longrightarrow> p = length h \<and> is_function (cs_heap s) p"
proof -
  let ?n = "2 * length source + 4"
  obtain fn s where c: "compile strtod ?n h source = Some (fn, s)" and r: "heap_ok (cs_heap s)" "cs_compilers s = []"
      "fn = None \<longleftrightarrow> cs_had_error s" "\<And>p. fn = Some p \<Longrightarrow> p = length h \<and> is_function (cs_heap s) p"
    using compile_returns [OF assms order_refl, of strtod] by auto
  have "compile strtod n h source = Some (fn, s)" if "?n \<le> n" for n
    using le_compile [OF that, of strtod h source] c by (simp add: opt_le_def)
  then show ?thesis using r that by blast
qed





end
