(* ===== verification/Vm_Values.thy ===== *)
theory Vm_Values
  imports Objects "HOL-Library.Monad_Syntax"
begin

section \<open>Values at run time: the C library, printing, comparison (vm.c)\<close>

text \<open>
  What the virtual machine does with values outside the dispatch loop.  Floating-point
  arithmetic, \<open>pow\<close>, \<open>fmod\<close>, \<open>strtod\<close>, the conversions between \<open>double\<close> and \<open>int64_t\<close>,
  the two \<open>printf\<close> conversions of doubles and \<open>qsort\<close> are a record of parameters; doubles are
  bit patterns, as in \<open>Value\<close>.  \<open>None\<close> is undefined behaviour or a loop that never ends.
\<close>

subsection \<open>The C library\<close>

record libc =
  fp_add :: "val64 \<Rightarrow> val64 \<Rightarrow> val64"
  fp_sub :: "val64 \<Rightarrow> val64 \<Rightarrow> val64"
  fp_mul :: "val64 \<Rightarrow> val64 \<Rightarrow> val64"
  fp_div :: "val64 \<Rightarrow> val64 \<Rightarrow> val64"
  fp_mod :: "val64 \<Rightarrow> val64 \<Rightarrow> val64"
  fp_pow :: "val64 \<Rightarrow> val64 \<Rightarrow> val64"
  fp_of_int :: "int \<Rightarrow> val64"
  fp_to_int :: "val64 \<Rightarrow> int"
  fmt_f1 :: "val64 \<Rightarrow> string"
  fmt_g :: "val64 \<Rightarrow> string"
  c_strtod :: "string \<Rightarrow> val64 \<times> nat"
  c_qsort :: "(val64 \<Rightarrow> val64 \<Rightarrow> int) \<Rightarrow> val64 list \<Rightarrow> val64 list"

text \<open>C strings: the characters before the first \<open>NUL\<close>.\<close>

definition c_str :: "string \<Rightarrow> string" where
  "c_str s = takeWhile (\<lambda>c. c \<noteq> CHR 0x00) s"

fun strstr :: "string \<Rightarrow> string \<Rightarrow> nat option" where
  "strstr hay needle =
     (if take (length needle) hay = needle then Some 0
      else case hay of [] \<Rightarrow> None | _ # hay' \<Rightarrow> map_option Suc (strstr hay' needle))"

fun bytes_compare :: "string \<Rightarrow> string \<Rightarrow> int" where
  "bytes_compare [] [] = 0"
| "bytes_compare [] (b # bs) = - 1"
| "bytes_compare (a # as) [] = 1"
| "bytes_compare (a # as) (b # bs) =
     (if a = b then bytes_compare as bs else of_char a - of_char b)"

definition strcmp :: "string \<Rightarrow> string \<Rightarrow> int" where
  "strcmp a b = bytes_compare (c_str a) (c_str b)"

definition is_space :: "char \<Rightarrow> bool" where
  "is_space c \<longleftrightarrow> c = CHR '' '' \<or> (9 \<le> (of_char c :: nat) \<and> (of_char c :: nat) \<le> 13)"

definition to_upper :: "char \<Rightarrow> char" where
  "to_upper c = (if (97::nat) \<le> of_char c \<and> of_char c \<le> (122::nat) then char_of ((of_char c :: nat) - 32) else c)"

definition to_lower :: "char \<Rightarrow> char" where
  "to_lower c = (if (65::nat) \<le> of_char c \<and> of_char c \<le> (90::nat) then char_of ((of_char c :: nat) + 32) else c)"

definition is_digit_char :: "char \<Rightarrow> bool" where
  "is_digit_char c \<longleftrightarrow> (48::nat) \<le> of_char c \<and> of_char c \<le> (57::nat)"

text \<open>\<open>strtoll(s, &end, 10)\<close>: the value, and whether a number was found (\<open>end != s\<close>).\<close>

definition strtoll :: "string \<Rightarrow> int \<times> bool" where
  "strtoll s =
     (let t = dropWhile is_space (c_str s);
          neg = (t \<noteq> [] \<and> hd t = CHR ''-'');
          t = (if t \<noteq> [] \<and> (hd t = CHR ''-'' \<or> hd t = CHR ''+'') then tl t else t);
          digits = takeWhile is_digit_char t;
          n = foldl (\<lambda>n c. n * 10 + (of_char c - 48)) (0::int) digits
      in (if neg then max (- (2 ^ 63)) (- n) else min (2 ^ 63 - 1) n, digits \<noteq> []))"

function show_nat :: "nat \<Rightarrow> string" where
  "show_nat n = (if n < 10 then [char_of (n + 48)] else show_nat (n div 10) @ [char_of (n mod 10 + 48)])"
  by auto
termination by (relation "measure id") auto

text \<open>\<open>%lld\<close>\<close>

definition show_int :: "int \<Rightarrow> string" where
  "show_int i = (if i < 0 then CHR ''-'' # show_nat (nat (- i)) else show_nat (nat i))"

subsection \<open>Reading and making values\<close>

definition AS_INT :: "val64 \<Rightarrow> int" where
  "AS_INT v = sint (value_as_int v)"

definition INT_VAL :: "int \<Rightarrow> val64" where
  "INT_VAL i = int_val (word_of_int i)"

definition IS_MAP :: "heap \<Rightarrow> val64 \<Rightarrow> bool" where
  "IS_MAP h v = (case obj_of h v of Some (OBJ_MAP _) \<Rightarrow> True | _ \<Rightarrow> False)"

definition IS_BYTES :: "heap \<Rightarrow> val64 \<Rightarrow> bool" where
  "IS_BYTES h v = (case obj_of h v of Some (OBJ_BYTES _) \<Rightarrow> True | _ \<Rightarrow> False)"

definition AS_LIST :: "heap \<Rightarrow> val64 \<Rightarrow> obj_list" where
  "AS_LIST h v = (case h ! AS_PTR v of OBJ_LIST l \<Rightarrow> l | _ \<Rightarrow> \<lparr>ol_data = [], ol_capacity = 0\<rparr>)"

definition AS_MAP :: "heap \<Rightarrow> val64 \<Rightarrow> ptr obj_map" where
  "AS_MAP h v = (case h ! AS_PTR v of OBJ_MAP m \<Rightarrow> m | _ \<Rightarrow> obj_map_new)"

definition AS_BYTES :: "heap \<Rightarrow> val64 \<Rightarrow> u8 list" where
  "AS_BYTES h v = (case h ! AS_PTR v of OBJ_BYTES b \<Rightarrow> b | _ \<Rightarrow> [])"

definition set_list :: "heap \<Rightarrow> val64 \<Rightarrow> obj_list \<Rightarrow> heap" where
  "set_list h v l = h[AS_PTR v := OBJ_LIST l]"

definition set_map :: "heap \<Rightarrow> val64 \<Rightarrow> ptr obj_map \<Rightarrow> heap" where
  "set_map h v m = h[AS_PTR v := OBJ_MAP m]"

text \<open>A new string value, a new list with the pushed elements, a new map.\<close>

definition new_string :: "heap \<Rightarrow> string \<Rightarrow> val64 \<times> heap" where
  "new_string h s = (let (p, h) = intern_string h s in (OBJ_VAL p, h))"

definition new_list :: "heap \<Rightarrow> val64 list \<Rightarrow> val64 \<times> heap" where
  "new_list h vs =
     (let (p, h) = obj_list_new h
      in (OBJ_VAL p, set_list h (OBJ_VAL p) (foldl obj_list_push (AS_LIST h (OBJ_VAL p)) vs)))"

definition new_map :: "heap \<Rightarrow> ptr obj_map \<Rightarrow> val64 \<times> heap" where
  "new_map h m = (let (p, h) = alloc_object h (OBJ_MAP m) in (OBJ_VAL p, h))"

text \<open>New one-character strings for the characters of a string, in order.\<close>

fun new_chars :: "heap \<Rightarrow> string \<Rightarrow> val64 list \<times> heap" where
  "new_chars h [] = ([], h)"
| "new_chars h (c # cs) =
     (let (v, h) = new_string h [c]; (vs, h) = new_chars h cs in (v # vs, h))"

definition live_entries :: "ptr obj_map \<Rightarrow> (ptr \<times> val64) list" where
  "live_entries m = [(live_key (me_key e), me_value e). e \<leftarrow> om_entries m, is_Live (me_key e)]"

subsection \<open>Doubles\<close>

text \<open>The order of C's \<open><\<close> on bit patterns.\<close>

definition dbl_rank :: "val64 \<Rightarrow> int" where
  "dbl_rank d = (if d AND 0x8000000000000000 \<noteq> 0 then - uint (dbl_abs d) else uint (dbl_abs d))"

definition dbl_less :: "val64 \<Rightarrow> val64 \<Rightarrow> bool" where
  "dbl_less a b \<longleftrightarrow> \<not> dbl_is_nan a \<and> \<not> dbl_is_nan b \<and> dbl_rank a < dbl_rank b"

definition dbl_less_eq :: "val64 \<Rightarrow> val64 \<Rightarrow> bool" where
  "dbl_less_eq a b \<longleftrightarrow> \<not> dbl_is_nan a \<and> \<not> dbl_is_nan b \<and> dbl_rank a \<le> dbl_rank b"

definition dbl_neg :: "val64 \<Rightarrow> val64" where
  "dbl_neg d = d XOR 0x8000000000000000"

text \<open>The double of a number, as the mixed branches of the operators convert it.\<close>

definition number_as_double :: "libc \<Rightarrow> val64 \<Rightarrow> val64 option" where
  "number_as_double L v =
     (if IS_INT v then Some (fp_of_int L (AS_INT v))
      else if IS_FLOAT v then Some (value_as_double v) else None)"

subsection \<open>Conversion to a string\<close>

text \<open>
  \<open>snprintf\<close> into the 256-byte \<open>buffer\<close>: the characters in the buffer and \<open>len\<close>, which counts
  what was cut off too.  Past 256 the remaining size wraps around and the write leaves the
  buffer.
\<close>

definition buffer_put :: "string \<times> nat \<Rightarrow> string \<Rightarrow> (string \<times> nat) option" where
  "buffer_put b s =
     (let (buffer, len) = b
      in if 256 < len then None
         else Some (if len < 256 then take 255 (buffer @ s) else buffer, len + length s))"

definition buffer_string :: "heap \<Rightarrow> string \<times> nat \<Rightarrow> (val64 \<times> heap) option" where
  "buffer_string h b =
     (let (buffer, len) = b
      in if len < 256 then Some (new_string h buffer)
         else if len = 256 then Some (new_string h (buffer @ [CHR 0x00])) else None)"

definition VALUE_TO_STRING_MAX_DEPTH :: nat where "VALUE_TO_STRING_MAX_DEPTH = 16"

fun list_text ::
  "(heap \<Rightarrow> val64 \<Rightarrow> (val64 \<times> heap) option) \<Rightarrow> heap \<Rightarrow> bool \<Rightarrow> val64 list \<Rightarrow> string \<times> nat \<Rightarrow>
   ((string \<times> nat) \<times> heap) option" where
  "list_text rec h first [] b = Some (b, h)"
| "list_text rec h first (v # vs) b =
     (if 240 \<le> snd b then Some (b, h) else do {
        b \<leftarrow> (if first then Some b else buffer_put b '', '');
        (elem, h) \<leftarrow> rec h v;
        let text = c_str (AS_STRING h elem);
        b \<leftarrow> buffer_put b (if IS_STRING h v then CHR 0x22 # text @ [CHR 0x22] else text);
        list_text rec h False vs b })"

fun map_text ::
  "(heap \<Rightarrow> val64 \<Rightarrow> (val64 \<times> heap) option) \<Rightarrow> heap \<Rightarrow> bool \<Rightarrow> (ptr \<times> val64) list \<Rightarrow> string \<times> nat \<Rightarrow>
   ((string \<times> nat) \<times> heap) option" where
  "map_text rec h first [] b = Some (b, h)"
| "map_text rec h first ((k, v) # es) b =
     (if 240 \<le> snd b then Some (b, h) else do {
        b \<leftarrow> (if first then Some b else buffer_put b '', '');
        b \<leftarrow> buffer_put b (c_str (AS_STRING h (OBJ_VAL k)) @ '': '');
        (val, h) \<leftarrow> rec h v;
        b \<leftarrow> buffer_put b (c_str (AS_STRING h val));
        map_text rec h False es b })"

definition function_text :: "heap \<Rightarrow> ptr \<Rightarrow> string" where
  "function_text h fn =
     (case fn_name (the_function h fn) of
        Some name \<Rightarrow> ''<fn '' @ c_str (AS_STRING h (OBJ_VAL name)) @ ''>''
      | None \<Rightarrow> ''<script>'')"

definition double_text :: "libc \<Rightarrow> val64 \<Rightarrow> string" where
  "double_text L d =
     (if dbl_eq d (fp_of_int L (fp_to_int L d)) \<and> dbl_less (dbl_abs d) (fp_of_int L (10 ^ 15))
      then fmt_f1 L d else fmt_g L d)"

text \<open>The first argument counts down from \<open>VALUE_TO_STRING_MAX_DEPTH + 1\<close> where \<open>depth\<close> counts up.\<close>

fun value_to_string_depth :: "libc \<Rightarrow> nat \<Rightarrow> heap \<Rightarrow> val64 \<Rightarrow> (val64 \<times> heap) option" where
  "value_to_string_depth L 0 h v =
     (if IS_STRING h v then Some (v, h) else Some (new_string h ''...''))"
| "value_to_string_depth L (Suc n) h v =
     (let text = (\<lambda>s. do { b \<leftarrow> buffer_put ([], 0) s; buffer_string h b })
      in if IS_STRING h v then Some (v, h)
         else if IS_NIL v then text ''nil''
         else if IS_BOOL v then text (if AS_BOOL v then ''true'' else ''false'')
         else if IS_INT v then text (show_int (AS_INT v))
         else if IS_FLOAT v then text (double_text L (value_as_double v))
         else if IS_PTR v then
           (case obj_of h v of
              Some (OBJ_FUNCTION _) \<Rightarrow> text (function_text h (AS_PTR v))
            | Some (OBJ_CLOSURE c) \<Rightarrow> text (function_text h (cl_function c))
            | Some (OBJ_NATIVE nt) \<Rightarrow> text (''<native '' @ nt_name nt @ ''>'')
            | Some (OBJ_LIST l) \<Rightarrow> do {
                b \<leftarrow> buffer_put ([], 0) ''['';
                (b, h) \<leftarrow> list_text (value_to_string_depth L n) h True (ol_data l) b;
                b \<leftarrow> buffer_put b '']'';
                buffer_string h b }
            | Some (OBJ_MAP m) \<Rightarrow> do {
                b \<leftarrow> buffer_put ([], 0) ''{'';
                (b, h) \<leftarrow> map_text (value_to_string_depth L n) h True (live_entries m) b;
                b \<leftarrow> buffer_put b ''}'';
                buffer_string h b }
            | Some _ \<Rightarrow> text ''<object>''
            | None \<Rightarrow> None)
         else text ''???'')"

definition value_to_string :: "libc \<Rightarrow> heap \<Rightarrow> val64 \<Rightarrow> (val64 \<times> heap) option" where
  "value_to_string L h v = value_to_string_depth L (VALUE_TO_STRING_MAX_DEPTH + 1) h v"

subsection \<open>Comparison for sorting\<close>

definition sign_of :: "bool \<Rightarrow> bool \<Rightarrow> int" where
  "sign_of gt lt = of_bool gt - of_bool lt"

definition type_order :: "heap \<Rightarrow> val64 \<Rightarrow> int" where
  "type_order h v = (if IS_BOOL v then 0 else if IS_INT v then 1 else if IS_FLOAT v then 2
     else if IS_STRING h v then 3 else 4)"

definition value_compare :: "libc \<Rightarrow> heap \<Rightarrow> val64 \<Rightarrow> val64 \<Rightarrow> int" where
  "value_compare L h va vb =
     (if IS_INT va \<and> IS_INT vb then sign_of (AS_INT va > AS_INT vb) (AS_INT va < AS_INT vb)
      else if (IS_INT va \<or> IS_FLOAT va) \<and> (IS_INT vb \<or> IS_FLOAT vb) then
        let fa = (if IS_INT va then fp_of_int L (AS_INT va) else value_as_double va);
            fb = (if IS_INT vb then fp_of_int L (AS_INT vb) else value_as_double vb)
        in sign_of (dbl_less fb fa) (dbl_less fa fb)
      else if IS_STRING h va \<and> IS_STRING h vb then
        let sa = AS_STRING h va; sb = AS_STRING h vb;
            min_len = min (length sa) (length sb);
            cmp = bytes_compare (take min_len sa) (take min_len sb)
        in if cmp \<noteq> 0 then cmp else sign_of (length sa > length sb) (length sa < length sb)
      else if IS_BOOL va \<and> IS_BOOL vb then of_bool (AS_BOOL va) - of_bool (AS_BOOL vb)
      else if IS_NIL va \<and> IS_NIL vb then 0
      else if IS_NIL va then - 1
      else if IS_NIL vb then 1
      else type_order h va - type_order h vb)"

end
