(* ===== verification/Vm_Methods.thy ===== *)
theory Vm_Methods
  imports Vm_Values
begin

section \<open>The built-in methods of strings, lists and maps (vm.c)\<close>

text \<open>
  A bound method takes the receiver and the arguments and returns a value; the heap is
  threaded through.  \<open>None\<close> is undefined behaviour (a write or a read outside a buffer) or a
  map operation that never ends.
\<close>

type_synonym method_result = "(val64 \<times> heap) option"

abbreviation arg :: "val64 list \<Rightarrow> nat \<Rightarrow> val64" where
  "arg args i \<equiv> args ! i"

definition make_bound_method :: "heap \<Rightarrow> val64 \<Rightarrow> bound_method \<Rightarrow> int \<Rightarrow> val64 \<times> heap" where
  "make_bound_method h receiver m arity =
     (let (p, h) = alloc_object h (OBJ_BOUND_METHOD \<lparr>bm_receiver = receiver, bm_method = m, bm_arity = arity\<rparr>)
      in (OBJ_VAL p, h))"

subsection \<open>Iterators\<close>

definition make_iterator :: "heap \<Rightarrow> val64 \<Rightarrow> val64 \<times> heap" where
  "make_iterator h iterable = new_list h [iterable, INT_VAL 0, INT_VAL (- 9999)]"

fun next_live :: "ptr map_entry list \<Rightarrow> nat \<Rightarrow> (nat \<times> ptr) option" where
  "next_live [] index = None"
| "next_live (e # es) index =
     (case me_key e of Live k \<Rightarrow> Some (index, k) | _ \<Rightarrow> next_live es (index + 1))"

text \<open>
  \<open>iterator_next\<close>: the next value, if any, and the heap with the iterator advanced.  A negative
  index reads before the array.
\<close>

definition iterator_next :: "heap \<Rightarrow> val64 \<Rightarrow> (val64 option \<times> heap) option" where
  "iterator_next h iter_val =
     (if \<not> IS_LIST h iter_val then Some (None, h)
      else
        let iter = AS_LIST h iter_val; data = ol_data iter
        in if length data < 3 then Some (None, h)
        else
          let collection = data ! 0; index = AS_INT (data ! 1);
              advance = (\<lambda>h i. set_list h iter_val ((AS_LIST h iter_val)\<lparr>ol_data := (ol_data (AS_LIST h iter_val))[1 := INT_VAL i]\<rparr>))
          in if IS_LIST h collection then
               (let xs = ol_data (AS_LIST h collection)
                in if index \<ge> int (length xs) then Some (None, h)
                   else if index < 0 then None
                   else Some (Some (xs ! nat index), advance h (index + 1)))
             else if IS_MAP h collection then
               (let m = AS_MAP h collection
                in if index \<ge> int (length (om_entries m)) then Some (None, h)
                   else if index < 0 then None
                   else case next_live (drop (nat index) (om_entries m)) (nat index) of
                     Some (i, k) \<Rightarrow> Some (Some (OBJ_VAL k), advance h (int i + 1))
                   | None \<Rightarrow> Some (None, h))
             else if IS_STRING h collection then
               (let s = AS_STRING h collection
                in if index \<ge> int (length s) then Some (None, h)
                   else if index < 0 then None
                   else let (v, h) = new_string h [s ! nat index] in Some (Some v, advance h (index + 1)))
             else Some (None, h))"

subsection \<open>Lists\<close>

definition list_push_method_fn :: "heap \<Rightarrow> val64 \<Rightarrow> val64 list \<Rightarrow> method_result" where
  "list_push_method_fn h receiver args =
     Some (receiver, set_list h receiver (foldl obj_list_push (AS_LIST h receiver) args))"

definition list_contains_method_fn :: "heap \<Rightarrow> val64 \<Rightarrow> val64 list \<Rightarrow> method_result" where
  "list_contains_method_fn h receiver args =
     Some (BOOL_VAL (\<exists>v \<in> set (ol_data (AS_LIST h receiver)). value_equal v (arg args 0)), h)"

fun join_texts :: "libc \<Rightarrow> heap \<Rightarrow> val64 list \<Rightarrow> (string list \<times> heap) option" where
  "join_texts L h [] = Some ([], h)"
| "join_texts L h (v # vs) = do {
     (s, h) \<leftarrow> value_to_string L h v;
     (ss, h') \<leftarrow> join_texts L h vs;
     Some (AS_STRING h s # ss, h') }"

fun join_with :: "string \<Rightarrow> string list \<Rightarrow> string" where
  "join_with sep [] = []"
| "join_with sep [s] = s"
| "join_with sep (s # ss) = s @ sep @ join_with sep ss"

text \<open>The texts are computed twice, to measure and to copy; the second time finds the same strings.\<close>

definition list_join_method_fn :: "libc \<Rightarrow> heap \<Rightarrow> val64 \<Rightarrow> val64 list \<Rightarrow> method_result" where
  "list_join_method_fn L h receiver args = do {
     let (sep, h) = (if args \<noteq> [] \<and> IS_STRING h (arg args 0) then (arg args 0, h) else new_string h []);
     (ss, h) \<leftarrow> join_texts L h (ol_data (AS_LIST h receiver));
     let total = length (join_with (AS_STRING h sep) ss);
     if int total + 1 < 2 ^ 32 then Some (new_string h (join_with (AS_STRING h sep) ss)) else None }"

definition list_shift_method :: "heap \<Rightarrow> val64 \<Rightarrow> val64 \<times> heap" where
  "list_shift_method h receiver =
     (let l = AS_LIST h receiver
      in case ol_data l of
           [] \<Rightarrow> (VAL_NIL, h)
         | v # vs \<Rightarrow> (v, set_list h receiver (l\<lparr>ol_data := vs\<rparr>)))"

function grow_to :: "nat \<Rightarrow> nat \<Rightarrow> nat" where
  "grow_to cap need = (if cap = 0 \<or> need \<le> cap then cap else grow_to (cap * 2) need)"
  by auto
termination by (relation "measure (\<lambda>(cap, need). need - cap)") auto

definition list_unshift_method_fn :: "heap \<Rightarrow> val64 \<Rightarrow> val64 list \<Rightarrow> method_result" where
  "list_unshift_method_fn h receiver args =
     (let l = AS_LIST h receiver
      in if args = [] then Some (receiver, h)
         else
           let new_len = length (ol_data l) + length args;
               cap = (if new_len > ol_capacity l then grow_to (GROW_CAPACITY (ol_capacity l)) new_len else ol_capacity l)
           in Some (receiver, set_list h receiver \<lparr>ol_data = args @ ol_data l, ol_capacity = cap\<rparr>))"

text \<open>The clamping of indices that the methods share.\<close>

definition from_end :: "int \<Rightarrow> nat \<Rightarrow> int" where
  "from_end i len = (if i < 0 then i + int len else i)"

definition list_insert_method_fn :: "heap \<Rightarrow> val64 \<Rightarrow> val64 list \<Rightarrow> method_result" where
  "list_insert_method_fn h receiver args =
     (let l = AS_LIST h receiver
      in if length args < 2 \<or> \<not> IS_INT (arg args 0) then Some (receiver, h)
         else
           let index = from_end (AS_INT (arg args 0)) (length (ol_data l));
               index = (if index < 0 then 0 else index);
               index = (if index > int (length (ol_data l)) then int (length (ol_data l)) else index);
               cap = (if length (ol_data l) + 1 > ol_capacity l then GROW_CAPACITY (ol_capacity l) else ol_capacity l)
           in Some (receiver, set_list h receiver
                \<lparr>ol_data = take (nat index) (ol_data l) @ arg args 1 # drop (nat index) (ol_data l),
                 ol_capacity = cap\<rparr>))"

definition list_remove_method_fn :: "heap \<Rightarrow> val64 \<Rightarrow> val64 list \<Rightarrow> method_result" where
  "list_remove_method_fn h receiver args =
     (let l = AS_LIST h receiver
      in if length args < 1 \<or> \<not> IS_INT (arg args 0) then Some (VAL_NIL, h)
         else
           let index = from_end (AS_INT (arg args 0)) (length (ol_data l))
           in if index < 0 \<or> index \<ge> int (length (ol_data l)) then Some (VAL_NIL, h)
              else Some (ol_data l ! nat index, set_list h receiver
                (l\<lparr>ol_data := take (nat index) (ol_data l) @ drop (nat index + 1) (ol_data l)\<rparr>)))"

definition slice_bounds :: "nat \<Rightarrow> val64 list \<Rightarrow> int \<times> int" where
  "slice_bounds len args =
     (let start = (if length args \<ge> 1 \<and> IS_INT (arg args 0) then AS_INT (arg args 0) else 0);
          stop = (if length args \<ge> 2 \<and> IS_INT (arg args 1) then AS_INT (arg args 1) else int len);
          start = from_end start len;
          stop = from_end stop len
      in (if start < 0 then 0 else start, if stop > int len then int len else stop))"

definition list_slice_method_fn :: "heap \<Rightarrow> val64 \<Rightarrow> val64 list \<Rightarrow> method_result" where
  "list_slice_method_fn h receiver args =
     (let xs = ol_data (AS_LIST h receiver);
          (start, stop) = slice_bounds (length xs) args
      in Some (new_list h (map (\<lambda>i. xs ! nat i) [start..stop - 1])))"

definition list_sort_method :: "libc \<Rightarrow> heap \<Rightarrow> val64 \<Rightarrow> val64 \<times> heap" where
  "list_sort_method L h receiver =
     (let xs = ol_data (AS_LIST h receiver); (p, h) = obj_list_new h
      in if xs = [] then (OBJ_VAL p, h)
         else (OBJ_VAL p, set_list h (OBJ_VAL p)
           \<lparr>ol_data = c_qsort L (value_compare L h) xs, ol_capacity = length xs\<rparr>))"

fun uniq_loop :: "val64 list \<Rightarrow> val64 list \<Rightarrow> val64 list" where
  "uniq_loop [] result = result"
| "uniq_loop (v # vs) result =
     uniq_loop vs (if \<exists>r \<in> set result. value_equal v r then result else result @ [v])"

definition list_uniq_method :: "heap \<Rightarrow> val64 \<Rightarrow> val64 \<times> heap" where
  "list_uniq_method h receiver = new_list h (uniq_loop (ol_data (AS_LIST h receiver)) [])"

definition list_flatten_method :: "heap \<Rightarrow> val64 \<Rightarrow> val64 \<times> heap" where
  "list_flatten_method h receiver =
     new_list h (concat (map (\<lambda>v. if IS_LIST h v then ol_data (AS_LIST h v) else [v]) (ol_data (AS_LIST h receiver))))"

fun new_pairs :: "heap \<Rightarrow> (val64 \<times> val64) list \<Rightarrow> val64 list \<times> heap" where
  "new_pairs h [] = ([], h)"
| "new_pairs h ((a, b) # ps) =
     (let (v, h) = new_list h [a, b]; (vs, h) = new_pairs h ps in (v # vs, h))"

text \<open>The result list is allocated before the pairs.\<close>

definition list_of_pairs :: "heap \<Rightarrow> (val64 \<times> val64) list \<Rightarrow> val64 \<times> heap" where
  "list_of_pairs h ps =
     (let (p, h) = obj_list_new h; (vs, h) = new_pairs h ps
      in (OBJ_VAL p, set_list h (OBJ_VAL p) (foldl obj_list_push \<lparr>ol_data = [], ol_capacity = 0\<rparr> vs)))"

definition list_zip_method_fn :: "heap \<Rightarrow> val64 \<Rightarrow> val64 list \<Rightarrow> method_result" where
  "list_zip_method_fn h receiver args =
     (if length args < 1 \<or> \<not> IS_LIST h (arg args 0) then Some (new_list h [])
      else Some (list_of_pairs h (zip (ol_data (AS_LIST h receiver)) (ol_data (AS_LIST h (arg args 0))))))"

subsection \<open>Strings\<close>

definition string_contains_method_fn :: "heap \<Rightarrow> val64 \<Rightarrow> val64 list \<Rightarrow> method_result" where
  "string_contains_method_fn h receiver args =
     (let str = AS_STRING h receiver; needle = AS_STRING h (arg args 0)
      in Some (if \<not> IS_STRING h (arg args 0) then VAL_FALSE
               else if needle = [] then VAL_TRUE
               else if length needle > length str then VAL_FALSE
               else BOOL_VAL (strstr (c_str str) (c_str needle) \<noteq> None), h))"

function split_loop :: "string \<Rightarrow> string \<Rightarrow> nat \<Rightarrow> string list" where
  "split_loop str sep start =
     (if sep = [] \<or> length str < start then []
      else case strstr (c_str (drop start str)) (c_str sep) of
             None \<Rightarrow> [drop start str]
           | Some k \<Rightarrow> take k (drop start str) # split_loop str sep (start + k + length sep))"
  by auto
termination
  by (relation "measure (\<lambda>(str, sep, start). length str + 1 - start)") (auto simp: neq_Nil_conv)

fun new_strings :: "heap \<Rightarrow> string list \<Rightarrow> val64 list \<times> heap" where
  "new_strings h [] = ([], h)"
| "new_strings h (s # ss) =
     (let (v, h) = new_string h s; (vs, h) = new_strings h ss in (v # vs, h))"

definition list_of_strings :: "heap \<Rightarrow> string list \<Rightarrow> val64 \<times> heap" where
  "list_of_strings h ss =
     (let (p, h) = obj_list_new h; (vs, h) = new_strings h ss
      in (OBJ_VAL p, set_list h (OBJ_VAL p) (foldl obj_list_push \<lparr>ol_data = [], ol_capacity = 0\<rparr> vs)))"

definition string_split_method_fn :: "heap \<Rightarrow> val64 \<Rightarrow> val64 list \<Rightarrow> method_result" where
  "string_split_method_fn h receiver args =
     (let str = AS_STRING h receiver;
          (sep, h) = (if args \<noteq> [] \<and> IS_STRING h (arg args 0) then (AS_STRING h (arg args 0), h)
                      else ('' '', snd (new_string h '' '')))
      in Some (list_of_strings h (if sep = [] then map (\<lambda>c. [c]) str else split_loop str sep 0)))"

text \<open>
  The two loops of \<open>replace\<close> over the C string from \<open>start\<close>: the number of occurrences, and the
  characters written.  They leave the string when the pattern holds a \<open>NUL\<close>.
\<close>

function count_loop :: "string \<Rightarrow> string \<Rightarrow> nat \<Rightarrow> nat option" where
  "count_loop str old start =
     (if old = [] \<or> length str < start then None
      else case strstr (c_str (drop start str)) (c_str old) of
             None \<Rightarrow> Some 0
           | Some k \<Rightarrow> map_option Suc (count_loop str old (start + k + length old)))"
  by auto
termination
  by (relation "measure (\<lambda>(str, old, start). length str + 1 - start)") (auto simp: neq_Nil_conv)

function replace_loop :: "string \<Rightarrow> string \<Rightarrow> string \<Rightarrow> nat \<Rightarrow> string option" where
  "replace_loop str old new start =
     (if old = [] \<or> length str < start then None
      else case strstr (c_str (drop start str)) (c_str old) of
             None \<Rightarrow> Some (c_str (drop start str))
           | Some k \<Rightarrow> map_option (\<lambda>rest. take k (drop start str) @ new @ rest)
               (replace_loop str old new (start + k + length old)))"
  by auto
termination
  by (relation "measure (\<lambda>(str, old, new, start). length str + 1 - start)") (auto simp: neq_Nil_conv)

definition string_replace_method_fn :: "heap \<Rightarrow> val64 \<Rightarrow> val64 list \<Rightarrow> method_result" where
  "string_replace_method_fn h receiver args =
     (if length args < 2 \<or> \<not> IS_STRING h (arg args 0) \<or> \<not> IS_STRING h (arg args 1) then Some (receiver, h)
      else
        let str = AS_STRING h receiver; old = AS_STRING h (arg args 0); new = AS_STRING h (arg args 1)
        in if old = [] then Some (receiver, h)
           else do {
             count \<leftarrow> count_loop str old 0;
             if count = 0 then Some (receiver, h)
             else do {
               let new_len_s = int (length str) + int count * (int (length new) - int (length old));
               let new_len = max 0 new_len_s mod 2 ^ 32;
               text \<leftarrow> replace_loop str old new 0;
               if int (length text) = new_len \<and> new_len + 1 < 2 ^ 32 then Some (new_string h text) else None } })"

definition string_starts_with_method_fn :: "heap \<Rightarrow> val64 \<Rightarrow> val64 list \<Rightarrow> method_result" where
  "string_starts_with_method_fn h receiver args =
     (let str = AS_STRING h receiver; prefix = AS_STRING h (arg args 0)
      in Some (if \<not> IS_STRING h (arg args 0) then VAL_FALSE
               else if length prefix > length str then VAL_FALSE
               else BOOL_VAL (take (length prefix) str = prefix), h))"

definition string_ends_with_method_fn :: "heap \<Rightarrow> val64 \<Rightarrow> val64 list \<Rightarrow> method_result" where
  "string_ends_with_method_fn h receiver args =
     (let str = AS_STRING h receiver; suffix = AS_STRING h (arg args 0)
      in Some (if \<not> IS_STRING h (arg args 0) then VAL_FALSE
               else if length suffix > length str then VAL_FALSE
               else BOOL_VAL (drop (length str - length suffix) str = suffix), h))"

definition string_slice_method_fn :: "heap \<Rightarrow> val64 \<Rightarrow> val64 list \<Rightarrow> method_result" where
  "string_slice_method_fn h receiver args =
     (let str = AS_STRING h receiver;
          (start, stop) = slice_bounds (length str) args
      in if start \<ge> stop then Some (new_string h [])
         else Some (new_string h (take (nat (stop - start)) (drop (nat start) str))))"

definition string_index_of_method_fn :: "heap \<Rightarrow> val64 \<Rightarrow> val64 list \<Rightarrow> method_result" where
  "string_index_of_method_fn h receiver args =
     (if \<not> IS_STRING h (arg args 0) then Some (INT_VAL (- 1), h)
      else case strstr (c_str (AS_STRING h receiver)) (c_str (AS_STRING h (arg args 0))) of
             None \<Rightarrow> Some (INT_VAL (- 1), h)
           | Some k \<Rightarrow> Some (INT_VAL (int k), h))"

text \<open>The buffer is capped at 16 MB, the number of copies is not.\<close>

definition string_repeat_method_fn :: "heap \<Rightarrow> val64 \<Rightarrow> val64 list \<Rightarrow> method_result" where
  "string_repeat_method_fn h receiver args =
     (let str = AS_STRING h receiver
      in if length args < 1 \<or> \<not> IS_INT (arg args 0) then Some (new_string h [])
         else
           let n = AS_INT (arg args 0)
           in if n \<le> 0 \<or> str = [] then Some (new_string h [])
              else
                let n = (if n > 1024 * 1024 then 1024 * 1024 else n);
                    new_len_s = int (length str) * n;
                    new_len = (if new_len_s > 16 * 1024 * 1024 then 16 * 1024 * 1024 else new_len_s)
                in if new_len + 1 < new_len_s then None
                   else Some (new_string h (take (nat new_len) (concat (replicate (nat n) str)))))"

definition pad_length :: "string \<Rightarrow> val64 list \<Rightarrow> heap \<Rightarrow> (int \<times> char) option" where
  "pad_length str args h =
     (if length args < 1 \<or> \<not> IS_INT (arg args 0) then None
      else
        let target_len = AS_INT (arg args 0);
            pad_char = (if length args \<ge> 2 \<and> IS_STRING h (arg args 1) \<and> AS_STRING h (arg args 1) \<noteq> []
              then hd (AS_STRING h (arg args 1)) else CHR '' '')
        in if target_len \<le> int (length str) then None
           else Some (target_len, pad_char))"

text \<open>\<open>padding\<close> and \<open>new_len\<close> are truncated to 32 bits, and \<open>malloc(new_len + 1)\<close> wraps.\<close>

definition pad_string :: "heap \<Rightarrow> val64 \<Rightarrow> val64 list \<Rightarrow> bool \<Rightarrow> method_result" where
  "pad_string h receiver args left =
     (let str = AS_STRING h receiver
      in case pad_length str args h of
           None \<Rightarrow> Some (receiver, h)
         | Some (target_len, pad_char) \<Rightarrow>
             let padding = (target_len - int (length str)) mod 2 ^ 32;
                 new_len = target_len mod 2 ^ 32
             in if padding + int (length str) > (new_len + 1) mod 2 ^ 32 then None
                else Some (new_string h (if left then replicate (nat padding) pad_char @ str
                  else str @ replicate (nat padding) pad_char)))"

definition string_pad_left_method_fn :: "heap \<Rightarrow> val64 \<Rightarrow> val64 list \<Rightarrow> method_result" where
  "string_pad_left_method_fn h receiver args = pad_string h receiver args True"

definition string_pad_right_method_fn :: "heap \<Rightarrow> val64 \<Rightarrow> val64 list \<Rightarrow> method_result" where
  "string_pad_right_method_fn h receiver args = pad_string h receiver args False"

subsection \<open>Maps\<close>

definition map_has_method_fn :: "heap \<Rightarrow> val64 \<Rightarrow> val64 list \<Rightarrow> method_result" where
  "map_has_method_fn h receiver args =
     (if \<not> IS_STRING h (arg args 0) then Some (VAL_FALSE, h)
      else do {
        v \<leftarrow> obj_map_get (key_hash h) (AS_MAP h receiver) (AS_PTR (arg args 0));
        Some (BOOL_VAL (v \<noteq> None), h) })"

definition map_delete_method_fn :: "heap \<Rightarrow> val64 \<Rightarrow> val64 list \<Rightarrow> method_result" where
  "map_delete_method_fn h receiver args =
     (if \<not> IS_STRING h (arg args 0) then Some (VAL_NIL, h)
      else do {
        r \<leftarrow> obj_map_get (key_hash h) (AS_MAP h receiver) (AS_PTR (arg args 0));
        case r of
          None \<Rightarrow> Some (VAL_NIL, h)
        | Some v \<Rightarrow> do {
            (m, _) \<leftarrow> obj_map_delete (key_hash h) (AS_MAP h receiver) (AS_PTR (arg args 0));
            Some (v, set_map h receiver m) } })"

definition map_get_method_fn :: "heap \<Rightarrow> val64 \<Rightarrow> val64 list \<Rightarrow> method_result" where
  "map_get_method_fn h receiver args =
     (if length args < 1 \<or> \<not> IS_STRING h (arg args 0) then Some (VAL_NIL, h)
      else do {
        r \<leftarrow> obj_map_get (key_hash h) (AS_MAP h receiver) (AS_PTR (arg args 0));
        Some (case r of Some v \<Rightarrow> v | None \<Rightarrow> VAL_NIL, h) })"

definition map_set_method_fn :: "heap \<Rightarrow> val64 \<Rightarrow> val64 list \<Rightarrow> method_result" where
  "map_set_method_fn h receiver args =
     (if length args < 2 \<or> \<not> IS_STRING h (arg args 0) then Some (receiver, h)
      else do {
        (m, _) \<leftarrow> obj_map_set (key_hash h) (AS_MAP h receiver) (AS_PTR (arg args 0)) (arg args 1);
        Some (receiver, set_map h receiver m) })"

definition map_entries_method :: "heap \<Rightarrow> val64 \<Rightarrow> val64 \<times> heap" where
  "map_entries_method h receiver =
     list_of_pairs h (map (\<lambda>(k, v). (OBJ_VAL k, v)) (live_entries (AS_MAP h receiver)))"

fun set_entries :: "heap \<Rightarrow> (ptr \<times> val64) list \<Rightarrow> ptr obj_map \<Rightarrow> ptr obj_map option" where
  "set_entries h [] m = Some m"
| "set_entries h ((k, v) # es) m = do { (m, _) \<leftarrow> obj_map_set (key_hash h) m k v; set_entries h es m }"

definition map_merge_method_fn :: "heap \<Rightarrow> val64 \<Rightarrow> val64 list \<Rightarrow> method_result" where
  "map_merge_method_fn h receiver args =
     (if length args < 1 \<or> \<not> IS_MAP h (arg args 0) then Some (receiver, h)
      else do {
        m \<leftarrow> set_entries h (live_entries (AS_MAP h receiver)) obj_map_new;
        m \<leftarrow> set_entries h (live_entries (AS_MAP h (arg args 0))) m;
        Some (new_map h m) })"

subsection \<open>Looking up a method\<close>

definition trim :: "string \<Rightarrow> string" where
  "trim s = rev (dropWhile is_space (rev (dropWhile is_space s)))"

text \<open>\<open>Some None\<close>: there is no such method.\<close>

type_synonym lookup_result = "(val64 \<times> heap) option option"

definition found :: "val64 \<times> heap \<Rightarrow> lookup_result" where
  "found r = Some (Some r)"

definition string_method :: "libc \<Rightarrow> heap \<Rightarrow> val64 \<Rightarrow> string \<Rightarrow> lookup_result" where
  "string_method L h recv m =
     (let str = AS_STRING h recv
      in if m = ''length'' then found (INT_VAL (int (length str)), h)
         else if m = ''upper'' then found (new_string h (map to_upper str))
         else if m = ''lower'' then found (new_string h (map to_lower str))
         else if m = ''trim'' then found (new_string h (trim str))
         else if m = ''is_empty'' then found (BOOL_VAL (str = []), h)
         else if m = ''reverse'' then found (new_string h (rev str))
         else if m = ''to_i'' then found (INT_VAL (fst (strtoll str)), h)
         else if m = ''to_f'' then found (double_val (fst (c_strtod L (c_str str))), h)
         else if m = ''contains'' then found (make_bound_method h recv string_contains_method 1)
         else if m = ''split'' then found (make_bound_method h recv string_split_method (- 1))
         else if m = ''replace'' then found (make_bound_method h recv string_replace_method 2)
         else if m = ''starts_with'' then found (make_bound_method h recv string_starts_with_method 1)
         else if m = ''ends_with'' then found (make_bound_method h recv string_ends_with_method 1)
         else if m = ''slice'' then found (make_bound_method h recv string_slice_method (- 1))
         else if m = ''index_of'' then found (make_bound_method h recv string_index_of_method 1)
         else if m = ''repeat'' then found (make_bound_method h recv string_repeat_method 1)
         else if m = ''pad_left'' then found (make_bound_method h recv string_pad_left_method (- 1))
         else if m = ''pad_right'' then found (make_bound_method h recv string_pad_right_method (- 1))
         else if m = ''to_bytes'' then
           (let (p, h) = obj_bytes_new h (map of_char str) in found (OBJ_VAL p, h))
         else if m = ''bytes'' then found (new_list h (map (\<lambda>c. INT_VAL (of_char c)) str))
         else if m = ''chars'' then found (list_of_strings h (map (\<lambda>c. [c]) str))
         else Some None)"

definition list_method :: "libc \<Rightarrow> heap \<Rightarrow> val64 \<Rightarrow> string \<Rightarrow> lookup_result" where
  "list_method L h recv m =
     (let l = AS_LIST h recv; xs = ol_data l
      in if m = ''length'' then found (INT_VAL (int (length xs)), h)
         else if m = ''pop'' then
           found (if xs = [] then (VAL_NIL, h) else (last xs, set_list h recv (l\<lparr>ol_data := butlast xs\<rparr>)))
         else if m = ''first'' then found (if xs \<noteq> [] then hd xs else VAL_NIL, h)
         else if m = ''last'' then found (if xs \<noteq> [] then last xs else VAL_NIL, h)
         else if m = ''is_empty'' then found (BOOL_VAL (xs = []), h)
         else if m = ''reverse'' then found (new_list h (rev xs))
         else if m = ''push'' then found (make_bound_method h recv list_push_method (- 1))
         else if m = ''contains'' then found (make_bound_method h recv list_contains_method 1)
         else if m = ''join'' then found (make_bound_method h recv list_join_method (- 1))
         else if m = ''shift'' then found (list_shift_method h recv)
         else if m = ''unshift'' then found (make_bound_method h recv list_unshift_method (- 1))
         else if m = ''insert'' then found (make_bound_method h recv list_insert_method 2)
         else if m = ''remove'' then found (make_bound_method h recv list_remove_method 1)
         else if m = ''slice'' then found (make_bound_method h recv list_slice_method (- 1))
         else if m = ''sort'' then found (list_sort_method L h recv)
         else if m = ''uniq'' then found (list_uniq_method h recv)
         else if m = ''flatten'' then found (list_flatten_method h recv)
         else if m = ''zip'' then found (make_bound_method h recv list_zip_method 1)
         else Some None)"

definition map_method :: "heap \<Rightarrow> val64 \<Rightarrow> string \<Rightarrow> lookup_result" where
  "map_method h recv m =
     (let mp = AS_MAP h recv
      in if m = ''length'' then found (INT_VAL (uint (om_length mp)), h)
         else if m = ''keys'' then found (new_list h (map (\<lambda>(k, v). OBJ_VAL k) (live_entries mp)))
         else if m = ''values'' then found (new_list h (map snd (live_entries mp)))
         else if m = ''is_empty'' then found (BOOL_VAL (om_length mp = 0), h)
         else if m = ''has'' then found (make_bound_method h recv map_has_method 1)
         else if m = ''delete'' then found (make_bound_method h recv map_delete_method 1)
         else if m = ''get'' then found (make_bound_method h recv map_get_method 1)
         else if m = ''set'' then found (make_bound_method h recv map_set_method 2)
         else if m = ''entries'' then found (map_entries_method h recv)
         else if m = ''merge'' then found (make_bound_method h recv map_merge_method 1)
         else Some None)"

subsection \<open>Calling a bound method or a native function\<close>

definition apply_bound_method ::
  "libc \<Rightarrow> bound_method \<Rightarrow> heap \<Rightarrow> val64 \<Rightarrow> val64 list \<Rightarrow> method_result" where
  "apply_bound_method L m h receiver args =
     (case m of
        list_push_method \<Rightarrow> list_push_method_fn h receiver args
      | list_contains_method \<Rightarrow> list_contains_method_fn h receiver args
      | list_join_method \<Rightarrow> list_join_method_fn L h receiver args
      | list_unshift_method \<Rightarrow> list_unshift_method_fn h receiver args
      | list_insert_method \<Rightarrow> list_insert_method_fn h receiver args
      | list_remove_method \<Rightarrow> list_remove_method_fn h receiver args
      | list_slice_method \<Rightarrow> list_slice_method_fn h receiver args
      | list_zip_method \<Rightarrow> list_zip_method_fn h receiver args
      | string_contains_method \<Rightarrow> string_contains_method_fn h receiver args
      | string_split_method \<Rightarrow> string_split_method_fn h receiver args
      | string_replace_method \<Rightarrow> string_replace_method_fn h receiver args
      | string_starts_with_method \<Rightarrow> string_starts_with_method_fn h receiver args
      | string_ends_with_method \<Rightarrow> string_ends_with_method_fn h receiver args
      | string_slice_method \<Rightarrow> string_slice_method_fn h receiver args
      | string_index_of_method \<Rightarrow> string_index_of_method_fn h receiver args
      | string_repeat_method \<Rightarrow> string_repeat_method_fn h receiver args
      | string_pad_left_method \<Rightarrow> string_pad_left_method_fn h receiver args
      | string_pad_right_method \<Rightarrow> string_pad_right_method_fn h receiver args
      | map_has_method \<Rightarrow> map_has_method_fn h receiver args
      | map_delete_method \<Rightarrow> map_delete_method_fn h receiver args
      | map_get_method \<Rightarrow> map_get_method_fn h receiver args
      | map_set_method \<Rightarrow> map_set_method_fn h receiver args
      | map_merge_method \<Rightarrow> map_merge_method_fn h receiver args)"

text \<open>A native returns its value, the heap and what it printed.\<close>

fun print_args :: "libc \<Rightarrow> heap \<Rightarrow> bool \<Rightarrow> val64 list \<Rightarrow> (string \<times> heap) option" where
  "print_args L h first [] = Some ([CHR 0x0A], h)"
| "print_args L h first (v # vs) = do {
     (s, h) \<leftarrow> value_to_string L h v;
     let text = (if first then [] else '' '') @ c_str (AS_STRING h s);
     (out, h) \<leftarrow> print_args L h False vs;
     Some (text @ out, h) }"

definition native_print_fn :: "libc \<Rightarrow> heap \<Rightarrow> val64 list \<Rightarrow> (val64 \<times> heap \<times> string) option" where
  "native_print_fn L h args = do { (out, h) \<leftarrow> print_args L h True args; Some (VAL_NIL, h, out) }"

definition type_name :: "heap \<Rightarrow> val64 \<Rightarrow> string" where
  "type_name h v =
     (if IS_NIL v then ''nil'' else if IS_BOOL v then ''bool'' else if IS_INT v then ''int''
      else if IS_FLOAT v then ''float''
      else if IS_PTR v then
        (case obj_of h v of
           Some (OBJ_STRING _) \<Rightarrow> ''string'' | Some (OBJ_LIST _) \<Rightarrow> ''list'' | Some (OBJ_MAP _) \<Rightarrow> ''map''
         | Some (OBJ_FUNCTION _) \<Rightarrow> ''function'' | Some (OBJ_CLOSURE _) \<Rightarrow> ''function''
         | Some (OBJ_NATIVE _) \<Rightarrow> ''function'' | _ \<Rightarrow> ''object'')
      else ''unknown'')"

definition native_to_i_fn :: "libc \<Rightarrow> heap \<Rightarrow> val64 \<Rightarrow> val64" where
  "native_to_i_fn L h v =
     (if IS_INT v then v
      else if IS_FLOAT v then INT_VAL (fp_to_int L (value_as_double v))
      else if IS_STRING h v then
        (case strtoll (AS_STRING h v) of (n, True) \<Rightarrow> INT_VAL n | (n, False) \<Rightarrow> INT_VAL 0)
      else if IS_BOOL v then INT_VAL (if AS_BOOL v then 1 else 0)
      else INT_VAL 0)"

definition native_to_f_fn :: "libc \<Rightarrow> heap \<Rightarrow> val64 \<Rightarrow> val64" where
  "native_to_f_fn L h v =
     (if IS_FLOAT v then v
      else if IS_INT v then double_val (fp_of_int L (AS_INT v))
      else if IS_STRING h v then
        (case c_strtod L (c_str (AS_STRING h v)) of (d, n) \<Rightarrow> if n = 0 then double_val 0 else double_val d)
      else if IS_BOOL v then double_val (fp_of_int L (if AS_BOOL v then 1 else 0))
      else double_val 0)"

definition native_len_fn :: "heap \<Rightarrow> val64 \<Rightarrow> val64" where
  "native_len_fn h v =
     (if IS_STRING h v then INT_VAL (int (length (AS_STRING h v)))
      else if IS_LIST h v then INT_VAL (int (length (ol_data (AS_LIST h v))))
      else if IS_MAP h v then INT_VAL (uint (om_length (AS_MAP h v)))
      else if IS_BYTES h v then INT_VAL (int (length (AS_BYTES h v)))
      else INT_VAL 0)"

definition apply_native ::
  "libc \<Rightarrow> native_fn \<Rightarrow> heap \<Rightarrow> val64 list \<Rightarrow> (val64 \<times> heap \<times> string) option" where
  "apply_native L f h args =
     (case f of
        native_print \<Rightarrow> native_print_fn L h args
      | native_puts \<Rightarrow> native_print_fn L h args
      | native_type_of \<Rightarrow> (let (v, h) = new_string h (type_name h (arg args 0)) in Some (v, h, []))
      | native_to_s \<Rightarrow> do { (v, h) \<leftarrow> value_to_string L h (arg args 0); Some (v, h, []) }
      | native_to_i \<Rightarrow> Some (native_to_i_fn L h (arg args 0), h, [])
      | native_to_f \<Rightarrow> Some (native_to_f_fn L h (arg args 0), h, [])
      | native_len \<Rightarrow> Some (native_len_fn h (arg args 0), h, []))"

end
