(* ===== verification/Vm.thy ===== *)
theory Vm
  imports Vm_Methods Compiler "HOL-Library.Signed_Division"
begin

section \<open>The virtual machine (vm.c)\<close>

text \<open>
  One definition per opcode, on a record with the fields of the \<open>VM\<close> struct.  The value stack
  is a total function with \<open>vm_top\<close> for \<open>stack_top\<close>; what lies above the top is still there, as
  in the array.  Call frames are a list with the current frame first; the list of open upvalues
  is the linked list through \<open>next\<close>.  \<open>None\<close> is undefined behaviour (a read or write outside an
  array, signed overflow, an object of the wrong type) or a loop that never ends.  Standard
  output is \<open>vm_out\<close>; the stack trace on standard error and the garbage collector, which frees
  only what the program cannot reach, are left out.
\<close>

subsection \<open>State\<close>

definition FRAMES_MAX :: nat where [simp]: "FRAMES_MAX = 256"
definition STACK_MAX :: int where [simp]: "STACK_MAX = 65536"
definition GC_CHECK_INTERVAL :: int where [simp]: "GC_CHECK_INTERVAL = 512"

record call_frame =
  cf_closure :: ptr
  cf_ip :: nat
  cf_slots :: nat

record vm =
  vm_heap :: heap
  vm_stack :: "nat \<Rightarrow> val64"
  vm_top :: nat
  vm_frames :: "call_frame list"
  vm_globals :: ptr
  vm_open_upvalues :: "ptr list"
  vm_had_error :: bool
  vm_error_msg :: string
  vm_gc_countdown :: int
  vm_call_depth :: nat
  vm_out :: string

datatype outcome = Continue vm | Return vm | Fail vm

definition vm_push :: "val64 \<Rightarrow> vm \<Rightarrow> vm" where
  "vm_push v m =
     (if STACK_MAX \<le> int (vm_top m) then m\<lparr>vm_had_error := True\<rparr>
      else m\<lparr>vm_stack := (vm_stack m)(vm_top m := v), vm_top := vm_top m + 1\<rparr>)"

definition vm_pop :: "vm \<Rightarrow> (val64 \<times> vm) option" where
  "vm_pop m = (if vm_top m = 0 then None
     else Some (vm_stack m (vm_top m - 1), m\<lparr>vm_top := vm_top m - 1\<rparr>))"

definition vm_peek :: "nat \<Rightarrow> vm \<Rightarrow> val64 option" where
  "vm_peek distance m = (if vm_top m \<le> distance then None else Some (vm_stack m (vm_top m - 1 - distance)))"

definition vm_slots :: "vm \<Rightarrow> nat \<Rightarrow> nat \<Rightarrow> val64 list" where
  "vm_slots m start count = map (vm_stack m) [start..<start + count]"

text \<open>\<open>runtime_error\<close>: the message is cut to the 512-byte buffer.\<close>

definition runtime_error :: "string \<Rightarrow> vm \<Rightarrow> vm" where
  "runtime_error msg m = m\<lparr>vm_error_msg := take 511 (c_str msg), vm_had_error := True\<rparr>"

definition fail :: "string \<Rightarrow> vm \<Rightarrow> outcome option" where
  "fail msg m = Some (Fail (runtime_error msg m))"

definition continue_push :: "val64 \<Rightarrow> vm \<Rightarrow> outcome option" where
  "continue_push v m = Some (Continue (vm_push v m))"

abbreviation push_new :: "val64 \<times> heap \<Rightarrow> vm \<Rightarrow> outcome option" where
  "push_new r m \<equiv> continue_push (fst r) (m\<lparr>vm_heap := snd r\<rparr>)"

abbreviation vmap :: "vm \<Rightarrow> ptr \<Rightarrow> ptr obj_map" where
  "vmap m p \<equiv> AS_MAP (vm_heap m) (OBJ_VAL p)"

subsection \<open>Upvalues\<close>

definition the_upvalue :: "heap \<Rightarrow> ptr \<Rightarrow> obj_upvalue" where
  "the_upvalue h p = (case h ! p of OBJ_UPVALUE u \<Rightarrow> u | _ \<Rightarrow> \<lparr>uv_location = In_Upvalue, uv_closed = VAL_NIL\<rparr>)"

definition uv_above :: "heap \<Rightarrow> nat \<Rightarrow> ptr \<Rightarrow> bool" where
  "uv_above h slot p = (case uv_location (the_upvalue h p) of On_Stack i \<Rightarrow> i > slot | In_Upvalue \<Rightarrow> False)"

text \<open>The open upvalues are sorted by descending stack slot.\<close>

definition capture_upvalue :: "nat \<Rightarrow> vm \<Rightarrow> ptr \<times> vm" where
  "capture_upvalue local m =
     (let h = vm_heap m;
          above = takeWhile (uv_above h local) (vm_open_upvalues m);
          rest = dropWhile (uv_above h local) (vm_open_upvalues m)
      in if rest \<noteq> [] \<and> uv_location (the_upvalue h (hd rest)) = On_Stack local then (hd rest, m)
         else
           let (p, h) = alloc_object h (OBJ_UPVALUE \<lparr>uv_location = On_Stack local, uv_closed = VAL_NIL\<rparr>)
           in (p, m\<lparr>vm_heap := h, vm_open_upvalues := above @ p # rest\<rparr>))"

fun close_loop :: "ptr list \<Rightarrow> nat \<Rightarrow> vm \<Rightarrow> vm" where
  "close_loop [] bottom m = m\<lparr>vm_open_upvalues := []\<rparr>"
| "close_loop (p # ps) bottom m =
     (case uv_location (the_upvalue (vm_heap m) p) of
        On_Stack i \<Rightarrow>
          if i \<ge> bottom
          then close_loop ps bottom (m\<lparr>vm_heap := (vm_heap m)[p := OBJ_UPVALUE
                 \<lparr>uv_location = In_Upvalue, uv_closed = vm_stack m i\<rparr>]\<rparr>)
          else m\<lparr>vm_open_upvalues := p # ps\<rparr>
      | In_Upvalue \<Rightarrow> m\<lparr>vm_open_upvalues := p # ps\<rparr>)"

definition close_upvalues :: "nat \<Rightarrow> vm \<Rightarrow> vm" where
  "close_upvalues bottom m = close_loop (vm_open_upvalues m) bottom m"

subsection \<open>Calls\<close>

definition the_closure :: "heap \<Rightarrow> ptr \<Rightarrow> obj_closure" where
  "the_closure h p = (case h ! p of OBJ_CLOSURE c \<Rightarrow> c | _ \<Rightarrow> \<lparr>cl_function = 0, cl_upvalues = []\<rparr>)"

definition arity_message :: "int \<Rightarrow> nat \<Rightarrow> string" where
  "arity_message arity arg_count =
     ''Expected '' @ show_int arity @ '' arguments but got '' @ show_nat arg_count @ ''.''"

definition call_closure :: "ptr \<Rightarrow> nat \<Rightarrow> vm \<Rightarrow> (bool \<times> vm) option" where
  "call_closure closure arg_count m =
     (let fn = the_function (vm_heap m) (cl_function (the_closure (vm_heap m) closure))
      in if arg_count \<noteq> unat (fn_arity fn) then Some (False, runtime_error (arity_message (uint (fn_arity fn)) arg_count) m)
         else if length (vm_frames m) = FRAMES_MAX then Some (False, runtime_error ''Stack overflow.'' m)
         else if vm_top m < arg_count + 1 then None
         else Some (True, m\<lparr>vm_frames := \<lparr>cf_closure = closure, cf_ip = 0, cf_slots = vm_top m - arg_count - 1\<rparr>
                # vm_frames m\<rparr>))"

definition finish_native :: "nat \<Rightarrow> val64 \<Rightarrow> vm \<Rightarrow> bool \<times> vm" where
  "finish_native arg_count result m = (True, vm_push result (m\<lparr>vm_top := vm_top m - (arg_count + 1)\<rparr>))"

definition call_value :: "libc \<Rightarrow> val64 \<Rightarrow> nat \<Rightarrow> vm \<Rightarrow> (bool \<times> vm) option" where
  "call_value L callee arg_count m =
     (if vm_top m < arg_count + 1 then None
      else
        let args = vm_slots m (vm_top m - arg_count) arg_count
        in case obj_of (vm_heap m) callee of
             Some (OBJ_CLOSURE _) \<Rightarrow> call_closure (AS_PTR callee) arg_count m
           | Some (OBJ_NATIVE nt) \<Rightarrow>
               if nt_arity nt \<noteq> - 1 \<and> int arg_count \<noteq> nt_arity nt
               then Some (False, runtime_error (arity_message (nt_arity nt) arg_count) m)
               else do {
                 (result, h, out) \<leftarrow> apply_native L (nt_function nt) (vm_heap m) args;
                 Some (finish_native arg_count result (m\<lparr>vm_heap := h, vm_out := vm_out m @ out\<rparr>)) }
           | Some (OBJ_BOUND_METHOD b) \<Rightarrow>
               if bm_arity b \<noteq> - 1 \<and> int arg_count \<noteq> bm_arity b
               then Some (False, runtime_error (arity_message (bm_arity b) arg_count) m)
               else do {
                 (result, h) \<leftarrow> apply_bound_method L (bm_method b) (vm_heap m) (bm_receiver b) args;
                 Some (finish_native arg_count result (m\<lparr>vm_heap := h\<rparr>)) }
           | _ \<Rightarrow> Some (False, runtime_error ''Can only call functions and closures.'' m))"

definition concatenate_strings :: "heap \<Rightarrow> val64 \<Rightarrow> val64 \<Rightarrow> (val64 \<times> heap) option" where
  "concatenate_strings h a b =
     (let s = AS_STRING h a @ AS_STRING h b
      in if int (length s) + 1 < 2 ^ 32 then Some (new_string h s) else None)"

subsection \<open>Reading the code\<close>

definition frame_closure :: "vm \<Rightarrow> obj_closure" where
  "frame_closure m = the_closure (vm_heap m) (cf_closure (hd (vm_frames m)))"

definition frame_chunk :: "vm \<Rightarrow> chunk" where
  "frame_chunk m = fn_chunk (the_function (vm_heap m) (cl_function (frame_closure m)))"

definition set_ip :: "nat \<Rightarrow> vm \<Rightarrow> vm" where
  "set_ip ip m = m\<lparr>vm_frames := (hd (vm_frames m))\<lparr>cf_ip := ip\<rparr> # tl (vm_frames m)\<rparr>"

definition read_byte :: "vm \<Rightarrow> (u8 \<times> vm) option" where
  "read_byte m =
     (let ip = cf_ip (hd (vm_frames m)); code = ck_code (frame_chunk m)
      in if ip < length code then Some (code ! ip, set_ip (ip + 1) m) else None)"

definition read_short :: "vm \<Rightarrow> (nat \<times> vm) option" where
  "read_short m = do {
     (lo, m) \<leftarrow> read_byte m;
     (hi, m) \<leftarrow> read_byte m;
     Some (unat lo + 256 * unat hi, m) }"

definition read_constant :: "vm \<Rightarrow> (val64 \<times> vm) option" where
  "read_constant m = do {
     (i, m) \<leftarrow> read_short m;
     let cs = ck_constants (frame_chunk m);
     if i < length cs then Some (cs ! i, m) else None }"

definition read_string :: "vm \<Rightarrow> (ptr \<times> vm) option" where
  "read_string m = do {
     (c, m) \<leftarrow> read_constant m;
     if IS_STRING (vm_heap m) c then Some (AS_PTR c, m) else None }"

definition str_at :: "vm \<Rightarrow> ptr \<Rightarrow> string" where
  "str_at m p = AS_STRING (vm_heap m) (OBJ_VAL p)"

definition pop2 :: "vm \<Rightarrow> (val64 \<times> val64 \<times> vm) option" where
  "pop2 m = do { (b, m) \<leftarrow> vm_pop m; (a, m) \<leftarrow> vm_pop m; Some (a, b, m) }"

subsection \<open>Constants and literals\<close>

definition op_constant :: "vm \<Rightarrow> outcome option" where
  "op_constant m = do { (c, m) \<leftarrow> read_constant m; continue_push c m }"

definition op_nil :: "vm \<Rightarrow> outcome option" where
  "op_nil m = continue_push VAL_NIL m"

definition op_true :: "vm \<Rightarrow> outcome option" where
  "op_true m = continue_push VAL_TRUE m"

definition op_false :: "vm \<Rightarrow> outcome option" where
  "op_false m = continue_push VAL_FALSE m"

subsection \<open>Arithmetic\<close>

text \<open>The three branches with a float operand.\<close>

definition float_op ::
  "libc \<Rightarrow> (val64 \<Rightarrow> val64 \<Rightarrow> val64) \<Rightarrow> val64 \<Rightarrow> val64 \<Rightarrow> val64 option" where
  "float_op L f a b =
     (case (number_as_double L a, number_as_double L b) of
        (Some x, Some y) \<Rightarrow> Some (double_val (f x y))
      | _ \<Rightarrow> None)"

definition in_int64 :: "int \<Rightarrow> bool" where
  "in_int64 i \<longleftrightarrow> - (2 ^ 63) \<le> i \<and> i < 2 ^ 63"

definition op_add :: "libc \<Rightarrow> vm \<Rightarrow> outcome option" where
  "op_add L m = do {
     (a, b, m) \<leftarrow> pop2 m;
     if IS_INT a \<and> IS_INT b then continue_push (INT_VAL (AS_INT a + AS_INT b)) m
     else case float_op L (fp_add L) a b of
       Some v \<Rightarrow> continue_push v m
     | None \<Rightarrow>
         if IS_STRING (vm_heap m) a \<and> IS_STRING (vm_heap m) b
         then do { r \<leftarrow> concatenate_strings (vm_heap m) a b; push_new r m }
         else fail ''Operands must be numbers or strings for '+'.'' m }"

definition op_sub :: "libc \<Rightarrow> vm \<Rightarrow> outcome option" where
  "op_sub L m = do {
     (a, b, m) \<leftarrow> pop2 m;
     if IS_INT a \<and> IS_INT b then continue_push (INT_VAL (AS_INT a - AS_INT b)) m
     else case float_op L (fp_sub L) a b of
       Some v \<Rightarrow> continue_push v m
     | None \<Rightarrow> fail ''Operands must be numbers for '-'.'' m }"

text \<open>The product of two 48-bit integers can overflow \<open>int64_t\<close>, which is undefined.\<close>

definition op_mul :: "libc \<Rightarrow> vm \<Rightarrow> outcome option" where
  "op_mul L m = do {
     (a, b, m) \<leftarrow> pop2 m;
     if IS_INT a \<and> IS_INT b
     then if in_int64 (AS_INT a * AS_INT b) then continue_push (INT_VAL (AS_INT a * AS_INT b)) m else None
     else case float_op L (fp_mul L) a b of
       Some v \<Rightarrow> continue_push v m
     | None \<Rightarrow> fail ''Operands must be numbers for '*'.'' m }"

definition op_div :: "libc \<Rightarrow> vm \<Rightarrow> outcome option" where
  "op_div L m = do {
     (a, b, m) \<leftarrow> pop2 m;
     case (number_as_double L a, number_as_double L b) of
       (Some da, Some db) \<Rightarrow>
         if dbl_eq db 0 then fail ''Division by zero.'' m else continue_push (double_val (fp_div L da db)) m
     | _ \<Rightarrow> fail ''Operands must be numbers for '/'.'' m }"

definition op_mod :: "libc \<Rightarrow> vm \<Rightarrow> outcome option" where
  "op_mod L m = do {
     (a, b, m) \<leftarrow> pop2 m;
     if IS_INT a \<and> IS_INT b
     then if AS_INT b = 0 then fail ''Modulo by zero.'' m
          else continue_push (INT_VAL (AS_INT a smod AS_INT b)) m
     else case (number_as_double L a, number_as_double L b) of
       (Some da, Some db) \<Rightarrow>
         if dbl_eq db 0 then fail ''Modulo by zero.'' m else continue_push (double_val (fp_mod L da db)) m
     | _ \<Rightarrow> fail ''Operands must be numbers for '%'.'' m }"

definition op_power :: "libc \<Rightarrow> vm \<Rightarrow> outcome option" where
  "op_power L m = do {
     (a, b, m) \<leftarrow> pop2 m;
     case (number_as_double L a, number_as_double L b) of
       (Some da, Some db) \<Rightarrow>
         let result = fp_pow L da db
         in if IS_INT a \<and> IS_INT b \<and> AS_INT b \<ge> 0 then continue_push (INT_VAL (fp_to_int L result)) m
            else continue_push (double_val result) m
     | _ \<Rightarrow> fail ''Operands must be numbers for '**'.'' m }"

definition op_neg :: "vm \<Rightarrow> outcome option" where
  "op_neg m = do {
     (v, m) \<leftarrow> vm_pop m;
     if IS_INT v then continue_push (INT_VAL (- AS_INT v)) m
     else if IS_FLOAT v then continue_push (double_val (dbl_neg (value_as_double v))) m
     else fail ''Operand must be a number for unary '-'.'' m }"

definition op_not :: "vm \<Rightarrow> outcome option" where
  "op_not m = do { (v, m) \<leftarrow> vm_pop m; continue_push (BOOL_VAL (IS_FALSY v)) m }"

subsection \<open>Bitwise operators\<close>

definition bit_op :: "(64 word \<Rightarrow> 64 word \<Rightarrow> 64 word) \<Rightarrow> vm \<Rightarrow> outcome option" where
  "bit_op f m = do {
     (a, b, m) \<leftarrow> pop2 m;
     if \<not> IS_INT a \<or> \<not> IS_INT b then fail ''Bitwise operations require integers.'' m
     else continue_push (int_val (f (value_as_int a) (value_as_int b))) m }"

definition op_band :: "vm \<Rightarrow> outcome option" where
  "op_band = bit_op (\<lambda>a b. a AND b)"

definition op_bor :: "vm \<Rightarrow> outcome option" where
  "op_bor = bit_op (\<lambda>a b. a OR b)"

definition op_bxor :: "vm \<Rightarrow> outcome option" where
  "op_bxor = bit_op (\<lambda>a b. a XOR b)"

definition op_bnot :: "vm \<Rightarrow> outcome option" where
  "op_bnot m = do {
     (v, m) \<leftarrow> vm_pop m;
     if \<not> IS_INT v then fail ''Bitwise NOT requires an integer.'' m
     else continue_push (int_val (NOT (value_as_int v))) m }"

definition shift_op :: "(nat \<Rightarrow> val64 \<Rightarrow> val64) \<Rightarrow> vm \<Rightarrow> outcome option" where
  "shift_op f m = do {
     (a, b, m) \<leftarrow> pop2 m;
     if \<not> IS_INT a \<or> \<not> IS_INT b then fail ''Shift operations require integers.'' m
     else if AS_INT b < 0 \<or> AS_INT b \<ge> 64 then fail ''Shift count must be between 0 and 63.'' m
     else continue_push (f (nat (AS_INT b)) a) m }"

definition op_shl :: "vm \<Rightarrow> outcome option" where
  "op_shl = shift_op (\<lambda>n a. int_val (push_bit n (value_as_int a)))"

definition op_shr :: "vm \<Rightarrow> outcome option" where
  "op_shr = shift_op (\<lambda>n a. INT_VAL (AS_INT a div 2 ^ n))"

subsection \<open>Comparison\<close>

definition vals_equal :: "libc \<Rightarrow> val64 \<Rightarrow> val64 \<Rightarrow> bool" where
  "vals_equal L a b =
     (if IS_INT a \<and> IS_FLOAT b then dbl_eq (fp_of_int L (AS_INT a)) (value_as_double b)
      else if IS_FLOAT a \<and> IS_INT b then dbl_eq (value_as_double a) (fp_of_int L (AS_INT b))
      else value_equal a b)"

definition op_equal :: "libc \<Rightarrow> vm \<Rightarrow> outcome option" where
  "op_equal L m = do { (a, b, m) \<leftarrow> pop2 m; continue_push (BOOL_VAL (vals_equal L a b)) m }"

definition op_not_equal :: "libc \<Rightarrow> vm \<Rightarrow> outcome option" where
  "op_not_equal L m = do { (a, b, m) \<leftarrow> pop2 m; continue_push (BOOL_VAL (\<not> vals_equal L a b)) m }"

definition order_op ::
  "libc \<Rightarrow> (int \<Rightarrow> int \<Rightarrow> bool) \<Rightarrow> (val64 \<Rightarrow> val64 \<Rightarrow> bool) \<Rightarrow> string \<Rightarrow> vm \<Rightarrow> outcome option" where
  "order_op L icmp fcmp op m = do {
     (a, b, m) \<leftarrow> pop2 m;
     if IS_INT a \<and> IS_INT b then continue_push (BOOL_VAL (icmp (AS_INT a) (AS_INT b))) m
     else case (number_as_double L a, number_as_double L b) of
       (Some x, Some y) \<Rightarrow> continue_push (BOOL_VAL (fcmp x y)) m
     | _ \<Rightarrow>
         if IS_STRING (vm_heap m) a \<and> IS_STRING (vm_heap m) b
         then continue_push (BOOL_VAL (icmp (strcmp (AS_STRING (vm_heap m) a) (AS_STRING (vm_heap m) b)) 0)) m
         else fail (''Operands must be numbers or strings for '' @ [SQ] @ op @ [SQ] @ ''.'') m }"

definition op_less :: "libc \<Rightarrow> vm \<Rightarrow> outcome option" where
  "op_less L = order_op L (\<lambda>i j. i < j) dbl_less ''<''"

definition op_less_equal :: "libc \<Rightarrow> vm \<Rightarrow> outcome option" where
  "op_less_equal L = order_op L (\<lambda>i j. i \<le> j) dbl_less_eq ''<=''"

definition op_greater :: "libc \<Rightarrow> vm \<Rightarrow> outcome option" where
  "op_greater L = order_op L (\<lambda>i j. i > j) (\<lambda>x y. dbl_less y x) ''>''"

definition op_greater_equal :: "libc \<Rightarrow> vm \<Rightarrow> outcome option" where
  "op_greater_equal L = order_op L (\<lambda>i j. i \<ge> j) (\<lambda>x y. dbl_less_eq y x) ''>=''"

subsection \<open>Strings, stack, printing\<close>

text \<open>The parts are popped and converted from the last to the first.\<close>

fun concat_parts :: "libc \<Rightarrow> nat \<Rightarrow> vm \<Rightarrow> string \<Rightarrow> (string \<times> vm) option" where
  "concat_parts L 0 m acc = Some (acc, m)"
| "concat_parts L (Suc n) m acc = do {
     (v, m) \<leftarrow> vm_pop m;
     (s, h) \<leftarrow> value_to_string L (vm_heap m) v;
     concat_parts L n (m\<lparr>vm_heap := h\<rparr>) (AS_STRING h s @ acc) }"

definition op_concat :: "libc \<Rightarrow> vm \<Rightarrow> outcome option" where
  "op_concat L m = do {
     (count, m) \<leftarrow> read_byte m;
     (s, m) \<leftarrow> concat_parts L (unat count) m [];
     if int (length s) + 1 < 2 ^ 32 then push_new (new_string (vm_heap m) s) m else None }"

definition op_pop :: "vm \<Rightarrow> outcome option" where
  "op_pop m = do { (_, m) \<leftarrow> vm_pop m; Some (Continue m) }"

definition op_print :: "libc \<Rightarrow> vm \<Rightarrow> outcome option" where
  "op_print L m = do {
     (v, m) \<leftarrow> vm_pop m;
     (s, h) \<leftarrow> value_to_string L (vm_heap m) v;
     Some (Continue (m\<lparr>vm_heap := h, vm_out := vm_out m @ c_str (AS_STRING h s) @ [NL]\<rparr>)) }"

subsection \<open>Variables\<close>

definition local_slot :: "nat \<Rightarrow> vm \<Rightarrow> nat option" where
  "local_slot slot m =
     (let i = cf_slots (hd (vm_frames m)) + slot in if int i < STACK_MAX then Some i else None)"

definition op_get_local :: "vm \<Rightarrow> outcome option" where
  "op_get_local m = do {
     (slot, m) \<leftarrow> read_short m;
     i \<leftarrow> local_slot slot m;
     continue_push (vm_stack m i) m }"

definition op_set_local :: "vm \<Rightarrow> outcome option" where
  "op_set_local m = do {
     (slot, m) \<leftarrow> read_short m;
     i \<leftarrow> local_slot slot m;
     v \<leftarrow> vm_peek 0 m;
     Some (Continue (m\<lparr>vm_stack := (vm_stack m)(i := v)\<rparr>)) }"

definition get_global :: "ptr \<Rightarrow> vm \<Rightarrow> val64 option option" where
  "get_global name m = obj_map_get (key_hash (vm_heap m)) (vmap m (vm_globals m)) name"

definition set_global :: "ptr \<Rightarrow> val64 \<Rightarrow> vm \<Rightarrow> vm option" where
  "set_global name v m = do {
     (g, _) \<leftarrow> obj_map_set (key_hash (vm_heap m)) (vmap m (vm_globals m)) name v;
     Some (m\<lparr>vm_heap := (vm_heap m)[vm_globals m := OBJ_MAP g]\<rparr>) }"

definition op_get_global :: "vm \<Rightarrow> outcome option" where
  "op_get_global m = do {
     (name, m) \<leftarrow> read_string m;
     r \<leftarrow> get_global name m;
     case r of
       Some v \<Rightarrow> continue_push v m
     | None \<Rightarrow> fail (''Undefined variable '' @ [SQ] @ str_at m name @ [SQ] @ ''.'') m }"

definition op_set_global :: "vm \<Rightarrow> outcome option" where
  "op_set_global m = do {
     (name, m) \<leftarrow> read_string m;
     _ \<leftarrow> get_global name m;
     v \<leftarrow> vm_peek 0 m;
     m \<leftarrow> set_global name v m;
     Some (Continue m) }"

definition op_define_global :: "vm \<Rightarrow> outcome option" where
  "op_define_global m = do {
     (name, m) \<leftarrow> read_string m;
     v \<leftarrow> vm_peek 0 m;
     m \<leftarrow> set_global name v m;
     (_, m) \<leftarrow> vm_pop m;
     Some (Continue m) }"

definition closure_upvalue :: "nat \<Rightarrow> vm \<Rightarrow> ptr option" where
  "closure_upvalue slot m =
     (let us = cl_upvalues (frame_closure m)
      in if slot < length us
         then (case obj_of (vm_heap m) (us ! slot) of
                 Some (OBJ_UPVALUE _) \<Rightarrow> Some (AS_PTR (us ! slot)) | _ \<Rightarrow> None)
         else None)"

definition op_get_upvalue :: "vm \<Rightarrow> outcome option" where
  "op_get_upvalue m = do {
     (slot, m) \<leftarrow> read_byte m;
     p \<leftarrow> closure_upvalue (unat slot) m;
     let u = the_upvalue (vm_heap m) p;
     continue_push (case uv_location u of On_Stack i \<Rightarrow> vm_stack m i | In_Upvalue \<Rightarrow> uv_closed u) m }"

definition op_set_upvalue :: "vm \<Rightarrow> outcome option" where
  "op_set_upvalue m = do {
     (slot, m) \<leftarrow> read_byte m;
     p \<leftarrow> closure_upvalue (unat slot) m;
     v \<leftarrow> vm_peek 0 m;
     let u = the_upvalue (vm_heap m) p;
     Some (Continue (case uv_location u of
         On_Stack i \<Rightarrow> m\<lparr>vm_stack := (vm_stack m)(i := v)\<rparr>
       | In_Upvalue \<Rightarrow> m\<lparr>vm_heap := (vm_heap m)[p := OBJ_UPVALUE (u\<lparr>uv_closed := v\<rparr>)]\<rparr>)) }"

definition op_close_upvalue :: "vm \<Rightarrow> outcome option" where
  "op_close_upvalue m =
     (if vm_top m = 0 then None
      else do { (_, m) \<leftarrow> vm_pop (close_upvalues (vm_top m - 1) m); Some (Continue m) })"

subsection \<open>Control flow\<close>

abbreviation vm_ip :: "vm \<Rightarrow> nat" where
  "vm_ip m \<equiv> cf_ip (hd (vm_frames m))"

definition op_jump :: "vm \<Rightarrow> outcome option" where
  "op_jump m = do { (offset, m) \<leftarrow> read_short m; Some (Continue (set_ip (vm_ip m + offset) m)) }"

definition op_jump_if_false :: "vm \<Rightarrow> outcome option" where
  "op_jump_if_false m = do {
     (offset, m) \<leftarrow> read_short m;
     v \<leftarrow> vm_peek 0 m;
     Some (Continue (if IS_FALSY v then set_ip (vm_ip m + offset) m else m)) }"

definition op_loop :: "vm \<Rightarrow> outcome option" where
  "op_loop m = do {
     (offset, m) \<leftarrow> read_short m;
     if vm_ip m < offset then None else Some (Continue (set_ip (vm_ip m - offset) m)) }"

subsection \<open>Functions\<close>

definition op_call :: "libc \<Rightarrow> vm \<Rightarrow> outcome option" where
  "op_call L m = do {
     (arg_count, m) \<leftarrow> read_byte m;
     callee \<leftarrow> vm_peek (unat arg_count) m;
     (ok, m) \<leftarrow> call_value L callee (unat arg_count) m;
     Some (if ok then Continue m else Fail m) }"

definition op_return :: "vm \<Rightarrow> outcome option" where
  "op_return m = do {
     (result, m) \<leftarrow> vm_pop m;
     let slots = cf_slots (hd (vm_frames m));
     let m = close_upvalues slots m;
     let m = m\<lparr>vm_frames := tl (vm_frames m)\<rparr>;
     if length (vm_frames m) = vm_call_depth m
     then do { (_, m) \<leftarrow> vm_pop m; Some (Return (vm_push result m)) }
     else Some (Continue (vm_push result (m\<lparr>vm_top := slots\<rparr>))) }"

fun capture_loop :: "nat \<Rightarrow> nat \<Rightarrow> ptr \<Rightarrow> vm \<Rightarrow> vm option" where
  "capture_loop 0 i closure m = Some m"
| "capture_loop (Suc n) i closure m = do {
     (is_local, m) \<leftarrow> read_byte m;
     (index, m) \<leftarrow> read_byte m;
     (v, m) \<leftarrow>
       (if is_local \<noteq> 0 then
          let (p, m) = capture_upvalue (cf_slots (hd (vm_frames m)) + unat index) m in Some (OBJ_VAL p, m)
        else if unat index < length (cl_upvalues (frame_closure m))
          then Some (cl_upvalues (frame_closure m) ! unat index, m) else None);
     let c = the_closure (vm_heap m) closure;
     capture_loop n (i + 1) closure
       (m\<lparr>vm_heap := (vm_heap m)[closure := OBJ_CLOSURE (c\<lparr>cl_upvalues := (cl_upvalues c)[i := v]\<rparr>)]\<rparr>) }"

definition op_closure :: "vm \<Rightarrow> outcome option" where
  "op_closure m = do {
     (c, m) \<leftarrow> read_constant m;
     case obj_of (vm_heap m) c of
       Some (OBJ_FUNCTION fn) \<Rightarrow> do {
         let (closure, h) = obj_closure_new (vm_heap m) (AS_PTR c);
         let m = vm_push (OBJ_VAL closure) (m\<lparr>vm_heap := h\<rparr>);
         m \<leftarrow> capture_loop (unat (fn_upvalue_count fn)) 0 closure m;
         Some (Continue m) }
     | _ \<Rightarrow> None }"

subsection \<open>Collections\<close>

definition op_new_list :: "vm \<Rightarrow> outcome option" where
  "op_new_list m = do {
     (count, m) \<leftarrow> read_short m;
     if vm_top m < count then None
     else push_new (new_list (vm_heap m) (vm_slots m (vm_top m - count) count)) (m\<lparr>vm_top := vm_top m - count\<rparr>) }"

text \<open>\<open>Some None\<close>: a key is not a string.\<close>

fun fill_map :: "heap \<Rightarrow> val64 list \<Rightarrow> ptr obj_map \<Rightarrow> ptr obj_map option option" where
  "fill_map h (k # v # kvs) mp =
     (if \<not> IS_STRING h k then Some None
      else do { (mp, _) \<leftarrow> obj_map_set (key_hash h) mp (AS_PTR k) v; fill_map h kvs mp })"
| "fill_map h _ mp = Some (Some mp)"

definition op_new_map :: "vm \<Rightarrow> outcome option" where
  "op_new_map m = do {
     (count, m) \<leftarrow> read_short m;
     if vm_top m < 2 * count then None
     else do {
       r \<leftarrow> fill_map (vm_heap m) (vm_slots m (vm_top m - 2 * count) (2 * count)) obj_map_new;
       case r of
         None \<Rightarrow> fail ''Map keys must be strings.'' m
       | Some mp \<Rightarrow> push_new (new_map (vm_heap m) mp) (m\<lparr>vm_top := vm_top m - 2 * count\<rparr>) } }"

text \<open>A checked index: negative indices count from the end.\<close>

definition checked_index :: "val64 \<Rightarrow> nat \<Rightarrow> nat option" where
  "checked_index index len =
     (let i = from_end (AS_INT index) len in if i < 0 \<or> i \<ge> int len then None else Some (nat i))"

definition op_get_index :: "vm \<Rightarrow> outcome option" where
  "op_get_index m = do {
     (obj, index, m) \<leftarrow> pop2 m;
     let h = vm_heap m;
     if IS_LIST h obj then
       if \<not> IS_INT index then fail ''List index must be an integer.'' m
       else case checked_index index (length (ol_data (AS_LIST h obj))) of
         None \<Rightarrow> fail ''List index out of bounds.'' m
       | Some i \<Rightarrow> continue_push (ol_data (AS_LIST h obj) ! i) m
     else if IS_MAP h obj then
       if \<not> IS_STRING h index then fail ''Map key must be a string.'' m
       else do {
         r \<leftarrow> obj_map_get (key_hash h) (AS_MAP h obj) (AS_PTR index);
         continue_push (case r of Some v \<Rightarrow> v | None \<Rightarrow> VAL_NIL) m }
     else if IS_STRING h obj then
       if \<not> IS_INT index then fail ''String index must be an integer.'' m
       else case checked_index index (length (AS_STRING h obj)) of
         None \<Rightarrow> fail ''String index out of bounds.'' m
       | Some i \<Rightarrow> push_new (new_string h [AS_STRING h obj ! i]) m
     else if IS_BYTES h obj then
       if \<not> IS_INT index then fail ''Bytes index must be an integer.'' m
       else case checked_index index (length (AS_BYTES h obj)) of
         None \<Rightarrow> fail ''Bytes index out of bounds.'' m
       | Some i \<Rightarrow> continue_push (INT_VAL (uint (AS_BYTES h obj ! i))) m
     else fail ''Only lists, maps, strings, and bytes support indexing.'' m }"

definition op_set_index :: "vm \<Rightarrow> outcome option" where
  "op_set_index m = do {
     (value, m) \<leftarrow> vm_pop m;
     (obj, index, m) \<leftarrow> pop2 m;
     let h = vm_heap m;
     if IS_LIST h obj then
       if \<not> IS_INT index then fail ''List index must be an integer.'' m
       else case checked_index index (length (ol_data (AS_LIST h obj))) of
         None \<Rightarrow> fail ''List index out of bounds.'' m
       | Some i \<Rightarrow>
           let l = AS_LIST h obj
           in push_new (value, set_list h obj (l\<lparr>ol_data := (ol_data l)[i := value]\<rparr>)) m
     else if IS_MAP h obj then
       if \<not> IS_STRING h index then fail ''Map key must be a string.'' m
       else do {
         (mp, _) \<leftarrow> obj_map_set (key_hash h) (AS_MAP h obj) (AS_PTR index) value;
         push_new (value, set_map h obj mp) m }
     else fail ''Only lists and maps support index assignment.'' m }"

definition push_found :: "(val64 \<times> heap) option \<Rightarrow> string \<Rightarrow> string \<Rightarrow> vm \<Rightarrow> outcome option" where
  "push_found r what name m =
     (case r of
        Some p \<Rightarrow> push_new p m
      | None \<Rightarrow> fail (what @ '' has no property '' @ [SQ] @ c_str name @ [SQ] @ ''.'') m)"

definition op_get_field :: "libc \<Rightarrow> vm \<Rightarrow> outcome option" where
  "op_get_field L m = do {
     (name, m) \<leftarrow> read_string m;
     (obj, m) \<leftarrow> vm_pop m;
     let h = vm_heap m;
     let text = str_at m name;
     if IS_MAP h obj then do {
       r \<leftarrow> obj_map_get (key_hash h) (AS_MAP h obj) name;
       case r of
         Some v \<Rightarrow> continue_push v m
       | None \<Rightarrow> do {
           r \<leftarrow> map_method h obj text;
           case r of Some p \<Rightarrow> push_new p m | None \<Rightarrow> continue_push VAL_NIL m } }
     else if IS_STRING h obj then do { r \<leftarrow> string_method L h obj text; push_found r ''String'' text m }
     else if IS_LIST h obj then do { r \<leftarrow> list_method L h obj text; push_found r ''List'' text m }
     else if IS_BYTES h obj then
       push_found (if text = ''length'' then Some (INT_VAL (int (length (AS_BYTES h obj))), h) else None) ''Bytes'' text m
     else fail ''Only maps, strings, lists, and bytes have fields/methods.'' m }"

definition op_set_field :: "vm \<Rightarrow> outcome option" where
  "op_set_field m = do {
     (name, m) \<leftarrow> read_string m;
     (obj, value, m) \<leftarrow> pop2 m;
     let h = vm_heap m;
     if IS_MAP h obj then do {
       (mp, _) \<leftarrow> obj_map_set (key_hash h) (AS_MAP h obj) name value;
       push_new (value, set_map h obj mp) m }
     else fail ''Only maps support field assignment.'' m }"

definition op_iter_init :: "vm \<Rightarrow> outcome option" where
  "op_iter_init m = do { (iterable, m) \<leftarrow> vm_pop m; push_new (make_iterator (vm_heap m) iterable) m }"

definition op_iter_next :: "vm \<Rightarrow> outcome option" where
  "op_iter_next m = do {
     (offset, m) \<leftarrow> read_short m;
     iter_val \<leftarrow> vm_peek 0 m;
     (r, h) \<leftarrow> iterator_next (vm_heap m) iter_val;
     case r of
       Some v \<Rightarrow> push_new (v, h) m
     | None \<Rightarrow> Some (Continue (set_ip (vm_ip m + offset) (m\<lparr>vm_heap := h\<rparr>))) }"

subsection \<open>The dispatch loop\<close>

definition dispatch_table :: "libc \<Rightarrow> (vm \<Rightarrow> outcome option) list" where
  "dispatch_table L =
    [op_constant, op_nil, op_true, op_false,
     op_add L, op_sub L, op_mul L, op_div L, op_mod L, op_neg, op_not,
     op_band, op_bor, op_bxor, op_bnot, op_shl, op_shr,
     op_equal L, op_not_equal L, op_less L, op_less_equal L, op_greater L, op_greater_equal L,
     op_concat L, op_pop, op_print L,
     op_get_local, op_set_local, op_get_global, op_set_global, op_define_global,
     op_get_upvalue, op_set_upvalue, op_close_upvalue,
     op_jump, op_jump_if_false, op_loop, op_call L, op_return, op_closure,
     op_new_list, op_new_map, op_get_index, op_set_index, op_get_field L, op_set_field,
     op_iter_init, op_iter_next, op_power L]"

definition dispatch :: "libc \<Rightarrow> vm \<Rightarrow> outcome option" where
  "dispatch L m =
     (if vm_had_error m then Some (Fail m)
      else
        let count = vm_gc_countdown m - 1;
            m = m\<lparr>vm_gc_countdown := (if count \<le> 0 then GC_CHECK_INTERVAL else count)\<rparr>
        in do {
          (instruction, m) \<leftarrow> read_byte m;
          if unat instruction < OP_COUNT then (dispatch_table L ! unat instruction) m else None })"

datatype interpret_result = INTERPRET_OK | INTERPRET_COMPILE_ERROR | INTERPRET_RUNTIME_ERROR

partial_function (option) run :: "libc \<Rightarrow> vm \<Rightarrow> (interpret_result \<times> vm) option" where
  "run L m = do {
     r \<leftarrow> dispatch L m;
     case r of
       Continue m \<Rightarrow> run L m
     | Return m \<Rightarrow> Some (INTERPRET_OK, m)
     | Fail m \<Rightarrow> Some (INTERPRET_RUNTIME_ERROR, m) }"

subsection \<open>Start-up\<close>

definition define_native :: "string \<Rightarrow> native_fn \<Rightarrow> int \<Rightarrow> vm \<Rightarrow> vm option" where
  "define_native name f arity m =
     (let (p, h) = alloc_object (vm_heap m) (OBJ_NATIVE \<lparr>nt_function = f, nt_name = name, nt_arity = arity\<rparr>);
          (s, h) = intern_string h name
      in set_global s (OBJ_VAL p) (m\<lparr>vm_heap := h\<rparr>))"

definition vm_init :: "vm option" where
  "vm_init = do {
     let (globals, h) = alloc_object [] (OBJ_MAP obj_map_new);
     let m = \<lparr>vm_heap = h, vm_stack = (\<lambda>_. 0), vm_top = 0, vm_frames = [], vm_globals = globals,
       vm_open_upvalues = [], vm_had_error = False, vm_error_msg = [], vm_gc_countdown = 512,
       vm_call_depth = 0, vm_out = []\<rparr>;
     m \<leftarrow> define_native ''print'' native_print (- 1) m;
     m \<leftarrow> define_native ''puts'' native_puts (- 1) m;
     m \<leftarrow> define_native ''type_of'' native_type_of 1 m;
     m \<leftarrow> define_native ''to_s'' native_to_s 1 m;
     m \<leftarrow> define_native ''to_i'' native_to_i 1 m;
     m \<leftarrow> define_native ''to_f'' native_to_f 1 m;
     define_native ''len'' native_len 1 m }"

text \<open>\<open>n\<close> is the fuel of the compiler.\<close>

definition vm_interpret :: "libc \<Rightarrow> nat \<Rightarrow> string \<Rightarrow> vm \<Rightarrow> (interpret_result \<times> vm) option" where
  "vm_interpret L n source m = do {
     (function, s) \<leftarrow> compile (\<lambda>src. fst (c_strtod L src)) n (vm_heap m) source;
     _ \<leftarrow> (if cs_undefined s then None else Some ());
     let m = m\<lparr>vm_heap := cs_heap s\<rparr>;
     case function of
       None \<Rightarrow> Some (INTERPRET_COMPILE_ERROR, m)
     | Some fn \<Rightarrow> do {
         let (closure, h) = obj_closure_new (vm_heap m) fn;
         (_, m) \<leftarrow> call_closure closure 0 (vm_push (OBJ_VAL closure) (m\<lparr>vm_heap := h\<rparr>));
         run L (m\<lparr>vm_call_depth := 0\<rparr>) } }"

text \<open>\<open>vm_call\<close>: the callee and its arguments are on the stack.\<close>

definition vm_call :: "libc \<Rightarrow> val64 \<Rightarrow> nat \<Rightarrow> vm \<Rightarrow> (val64 \<times> vm) option" where
  "vm_call L callee arg_count m =
     (let native = (case obj_of (vm_heap m) callee of Some (OBJ_NATIVE _) \<Rightarrow> True | _ \<Rightarrow> False)
      in if native then do {
           (ok, m) \<leftarrow> call_value L callee arg_count m;
           if \<not> ok then Some (VAL_NIL, m) else do { v \<leftarrow> vm_peek 0 m; Some (v, m) } }
         else do {
           let saved_call_depth = vm_call_depth m;
           (ok, m) \<leftarrow> call_value L callee arg_count (m\<lparr>vm_call_depth := length (vm_frames m)\<rparr>);
           if \<not> ok then Some (VAL_NIL, m\<lparr>vm_call_depth := saved_call_depth\<rparr>)
           else do {
             (result, m) \<leftarrow> run L m;
             let m = m\<lparr>vm_call_depth := saved_call_depth\<rparr>;
             if result \<noteq> INTERPRET_OK then Some (VAL_NIL, m) else vm_pop m } })"

end
