(* ===== verification/Gc.thy ===== *)
theory Gc
  imports Vm Interning
begin

section \<open>The garbage collector (gc.c)\<close>

text \<open>
  Mark and sweep over the tracked objects.  The heap of the virtual machine holds the objects; the
  state of the collector holds their flag bytes, the tracked, gray and pinned arrays, the roots of
  C code, the intern table's slots and the memory counters.  \<open>gs_freed\<close> records what was handed to
  \<open>free\<close>, and a mark through a pointer to no live object sets \<open>gs_undefined\<close>.  The capacities
  of the collector's own arrays, which \<open>realloc\<close> doubles, are left out.
\<close>

unbundle bit_operations_syntax

subsection \<open>State\<close>

record gc_state =
  gs_flags :: "u8 list"
  gs_tracked :: "ptr list"
  gs_gray :: "ptr list"
  gs_roots :: "val64 list"
  gs_pinned :: "ptr list"
  gs_next_gc :: "64 word"
  gs_enabled :: bool
  gs_bytes_allocated :: "64 word"
  gs_bytes_alive :: "64 word"
  gs_intern_entries :: "ptr slot list"
  gs_intern_count :: u32
  gs_freed :: "ptr list"
  gs_undefined :: bool

definition OBJ_FLAG_MARK :: u8 where "OBJ_FLAG_MARK = 1"
definition OBJ_FLAG_PIN :: u8 where "OBJ_FLAG_PIN = 2"

definition GC_HEAP_GROW_FACTOR :: "64 word" where "GC_HEAP_GROW_FACTOR = 4"
definition GC_INITIAL_THRESHOLD :: "64 word" where "GC_INITIAL_THRESHOLD = 1024 * 256"

definition gc_init :: "gc_state \<Rightarrow> gc_state" where
  "gc_init s = s\<lparr>gs_tracked := [], gs_gray := [], gs_roots := [], gs_pinned := [],
     gs_next_gc := GC_INITIAL_THRESHOLD, gs_enabled := True\<rparr>"

definition is_marked :: "gc_state \<Rightarrow> ptr \<Rightarrow> bool" where
  "is_marked s p \<longleftrightarrow> gs_flags s ! p AND OBJ_FLAG_MARK \<noteq> 0"

text \<open>A new object: its flag byte is cleared and it is tracked.\<close>

definition gc_track_object :: "ptr \<Rightarrow> gc_state \<Rightarrow> gc_state" where
  "gc_track_object p s = s\<lparr>gs_tracked := gs_tracked s @ [p]\<rparr>"

subsection \<open>Marking\<close>

definition gc_mark_object :: "ptr option \<Rightarrow> gc_state \<Rightarrow> gc_state" where
  "gc_mark_object obj s =
     (case obj of
        None \<Rightarrow> s
      | Some p \<Rightarrow>
          if length (gs_flags s) \<le> p \<or> p \<in> set (gs_freed s) then s\<lparr>gs_undefined := True\<rparr>
          else if is_marked s p then s
          else s\<lparr>gs_flags := (gs_flags s)[p := gs_flags s ! p OR OBJ_FLAG_MARK], gs_gray := p # gs_gray s\<rparr>)"

definition gc_mark_value :: "val64 \<Rightarrow> gc_state \<Rightarrow> gc_state" where
  "gc_mark_value v s =
     (if IS_PTR v then gc_mark_object (if value_as_ptr v = 0 then None else Some (AS_PTR v)) s else s)"

fun mark_values :: "val64 list \<Rightarrow> gc_state \<Rightarrow> gc_state" where
  "mark_values [] s = s"
| "mark_values (v # vs) s = mark_values vs (gc_mark_value v s)"

fun mark_objects :: "ptr list \<Rightarrow> gc_state \<Rightarrow> gc_state" where
  "mark_objects [] s = s"
| "mark_objects (p # ps) s = mark_objects ps (gc_mark_object (Some p) s)"

fun mark_entries :: "ptr map_entry list \<Rightarrow> gc_state \<Rightarrow> gc_state" where
  "mark_entries [] s = s"
| "mark_entries (e # es) s =
     (case me_key e of
        Live k \<Rightarrow> mark_entries es (gc_mark_value (me_value e) (gc_mark_object (Some k) s))
      | _ \<Rightarrow> mark_entries es s)"

definition gc_trace_object :: "obj \<Rightarrow> gc_state \<Rightarrow> gc_state" where
  "gc_trace_object obj s =
     (case obj of
        OBJ_STRING _ \<Rightarrow> s
      | OBJ_BYTES _ \<Rightarrow> s
      | OBJ_FUNCTION f \<Rightarrow>
          mark_values (ck_constants (fn_chunk f)) (case fn_name f of Some n \<Rightarrow> gc_mark_object (Some n) s | None \<Rightarrow> s)
      | OBJ_LIST xs \<Rightarrow> mark_values (ol_data xs) s
      | OBJ_MAP m \<Rightarrow> mark_entries (om_entries m) s
      | OBJ_CLOSURE c \<Rightarrow> mark_values (cl_upvalues c) (gc_mark_object (Some (cl_function c)) s)
      | OBJ_UPVALUE u \<Rightarrow> gc_mark_value (uv_closed u) s
      | OBJ_NATIVE _ \<Rightarrow> s
      | OBJ_BOUND_METHOD b \<Rightarrow> gc_mark_value (bm_receiver b) s)"

text \<open>What is left to do: every unmarked object may be pushed and popped once.\<close>

definition gray_work :: "gc_state \<Rightarrow> nat" where
  "gray_work s = 2 * length (filter (\<lambda>f. f AND OBJ_FLAG_MARK = 0) (gs_flags s)) + length (gs_gray s)"

lemma mark_bit: "(f OR OBJ_FLAG_MARK) AND OBJ_FLAG_MARK \<noteq> 0"
proof
  assume "(f OR OBJ_FLAG_MARK) AND OBJ_FLAG_MARK = 0"
  then have "\<not> bit ((f OR OBJ_FLAG_MARK) AND OBJ_FLAG_MARK) 0" by simp
  then show False by (simp add: OBJ_FLAG_MARK_def bit_simps)
qed

lemma filter_update_less:
  assumes "p < length xs" and "P (xs ! p)" and "\<not> P y"
  shows "length (filter P (xs[p := y])) < length (filter P xs)"
proof -
  have "xs = take p xs @ xs ! p # drop (Suc p) xs" using assms(1) by (rule id_take_nth_drop)
  moreover have "xs[p := y] = take p xs @ y # drop (Suc p) xs" using assms(1) by (rule upd_conv_take_nth_drop)
  ultimately have "filter P xs = filter P (take p xs) @ xs ! p # filter P (drop (Suc p) xs)"
      "filter P (xs[p := y]) = filter P (take p xs) @ filter P (drop (Suc p) xs)"
    using assms(2,3) by (metis (no_types, lifting) filter.simps(2) filter_append)+
  then show ?thesis by simp
qed

lemma gray_work_mark_object: "gray_work (gc_mark_object obj s) \<le> gray_work s"
proof (cases obj)
  case (Some p)
  let ?P = "\<lambda>f. f AND OBJ_FLAG_MARK = 0"
  show ?thesis
  proof (cases "p < length (gs_flags s) \<and> p \<notin> set (gs_freed s) \<and> \<not> is_marked s p")
    case True
    then have "length (filter ?P ((gs_flags s)[p := gs_flags s ! p OR OBJ_FLAG_MARK])) < length (filter ?P (gs_flags s))"
      by (intro filter_update_less) (use mark_bit in \<open>auto simp: is_marked_def\<close>)
    then show ?thesis using True Some by (simp add: gc_mark_object_def gray_work_def)
  qed (auto simp: Some gc_mark_object_def gray_work_def)
qed (simp add: gc_mark_object_def)

lemma gray_work_mark_value: "gray_work (gc_mark_value v s) \<le> gray_work s"
  by (simp add: gc_mark_value_def gray_work_mark_object)

lemma gray_work_values: "gray_work (mark_values vs s) \<le> gray_work s"
  by (induction vs arbitrary: s) (auto intro: order_trans gray_work_mark_value)

lemma gray_work_entries: "gray_work (mark_entries es s) \<le> gray_work s"
proof (induction es arbitrary: s)
  case (Cons e es)
  have "gray_work (mark_entries es (gc_mark_value (me_value e) (gc_mark_object (Some k) s))) \<le> gray_work s" for k
    by (rule order_trans [OF Cons.IH order_trans [OF gray_work_mark_value gray_work_mark_object]])
  then show ?case using Cons.IH by (cases "me_key e") auto
qed simp

lemma gray_work_trace: "gray_work (gc_trace_object obj s) \<le> gray_work s"
  by (cases obj) (auto simp: gc_trace_object_def gray_work_mark_value gray_work_entries
      intro: order_trans [OF gray_work_values] gray_work_mark_object split: option.split)

function gc_trace_references :: "heap \<Rightarrow> gc_state \<Rightarrow> gc_state" where
  "gc_trace_references h s =
     (case gs_gray s of
        [] \<Rightarrow> s
      | p # ps \<Rightarrow> gc_trace_references h (gc_trace_object (h ! p) (s\<lparr>gs_gray := ps\<rparr>)))"
  by pat_completeness auto

termination
proof (relation "measure (\<lambda>(h, s). gray_work s)")
  fix h :: heap and s :: gc_state and p ps
  assume "gs_gray s = p # ps"
  then have "gray_work (s\<lparr>gs_gray := ps\<rparr>) < gray_work s" by (simp add: gray_work_def)
  then show "((h, gc_trace_object (h ! p) (s\<lparr>gs_gray := ps\<rparr>)), h, s) \<in> measure (\<lambda>(h, s). gray_work s)"
    using gray_work_trace [of "h ! p" "s\<lparr>gs_gray := ps\<rparr>"] by simp
qed simp

declare gc_trace_references.simps [simp del]

text \<open>\<open>vm_mark_roots\<close> of \<open>vm.c\<close>: the stack, the frames, the globals and the open upvalues.\<close>

definition vm_mark_roots :: "vm \<Rightarrow> gc_state \<Rightarrow> gc_state" where
  "vm_mark_roots m s =
     (let s = mark_values (map (vm_stack m) [0..<vm_top m]) s;
          s = mark_objects (map cf_closure (vm_frames m)) s;
          s = gc_mark_object (Some (vm_globals m)) s
      in mark_objects (vm_open_upvalues m) s)"

definition gc_mark_roots :: "vm \<Rightarrow> gc_state \<Rightarrow> gc_state" where
  "gc_mark_roots m s = vm_mark_roots m (mark_values (gs_roots s) (mark_objects (gs_pinned s) s))"

subsection \<open>Sweeping\<close>

text \<open>What \<open>obj_free\<close> subtracts from \<open>bytes_allocated\<close>, with the struct sizes of an LP64 machine.\<close>

definition obj_bytes :: "obj \<Rightarrow> nat" where
  "obj_bytes obj =
     (case obj of
        OBJ_STRING s \<Rightarrow> 32 + length s + 1
      | OBJ_LIST xs \<Rightarrow> 8 * ol_capacity xs + 40
      | OBJ_MAP m \<Rightarrow> 16 * unat (om_capacity m) + 40
      | OBJ_BYTES bs \<Rightarrow> 32 + length bs
      | OBJ_FUNCTION f \<Rightarrow>
          ck_capacity (fn_chunk f) + 8 * ck_const_capacity (fn_chunk f) + 4 * ck_line_capacity (fn_chunk f) + 88
      | OBJ_CLOSURE c \<Rightarrow> 8 * length (cl_upvalues c) + 48
      | OBJ_UPVALUE u \<Rightarrow> 48
      | OBJ_NATIVE n \<Rightarrow> 48
      | OBJ_BOUND_METHOD b \<Rightarrow> 48)"

definition obj_free :: "heap \<Rightarrow> ptr \<Rightarrow> gc_state \<Rightarrow> gc_state" where
  "obj_free h p s = s\<lparr>gs_freed := gs_freed s @ [p],
     gs_bytes_allocated := gs_bytes_allocated s - of_nat (obj_bytes (h ! p))\<rparr>"

fun sweep_loop :: "heap \<Rightarrow> ptr list \<Rightarrow> gc_state \<Rightarrow> ptr list \<times> gc_state" where
  "sweep_loop h [] s = ([], s)"
| "sweep_loop h (p # ps) s =
     (if is_marked s p then
        let s = s\<lparr>gs_flags := (gs_flags s)[p := gs_flags s ! p AND NOT OBJ_FLAG_MARK]\<rparr>;
            (live, s) = sweep_loop h ps s
        in (p # live, s)
      else sweep_loop h ps (obj_free h p s))"

definition gc_sweep :: "heap \<Rightarrow> gc_state \<Rightarrow> gc_state" where
  "gc_sweep h s = (let (live, s) = sweep_loop h (gs_tracked s) s in s\<lparr>gs_tracked := live\<rparr>)"

definition gc_collect :: "vm \<Rightarrow> gc_state \<Rightarrow> gc_state" where
  "gc_collect m s =
     (if \<not> gs_enabled s then s
      else
        let s = gc_trace_references (vm_heap m) (gc_mark_roots m s);
            (entries, count) = remove_unmarked_loop (is_marked s) (gs_intern_entries s) (gs_intern_count s);
            s = s\<lparr>gs_intern_entries := entries, gs_intern_count := count\<rparr>;
            s = gc_sweep (vm_heap m) s;
            s = s\<lparr>gs_bytes_alive := gs_bytes_allocated s\<rparr>;
            next_gc = gs_bytes_alive s * GC_HEAP_GROW_FACTOR
        in s\<lparr>gs_next_gc := if next_gc < GC_INITIAL_THRESHOLD then GC_INITIAL_THRESHOLD else next_gc\<rparr>)"

definition gc_maybe_collect :: "vm \<Rightarrow> gc_state \<Rightarrow> gc_state" where
  "gc_maybe_collect m s =
     (if \<not> gs_enabled s then s else if gs_next_gc s < gs_bytes_allocated s then gc_collect m s else s)"

fun free_all :: "heap \<Rightarrow> ptr list \<Rightarrow> gc_state \<Rightarrow> gc_state" where
  "free_all h [] s = s"
| "free_all h (p # ps) s = free_all h ps (obj_free h p s)"

definition gc_destroy :: "heap \<Rightarrow> gc_state \<Rightarrow> gc_state" where
  "gc_destroy h s = (free_all h (gs_tracked s) s)\<lparr>gs_tracked := [], gs_gray := [], gs_roots := [], gs_pinned := []\<rparr>"

subsection \<open>Roots of C code and pinned objects\<close>

definition gc_push_root :: "val64 \<Rightarrow> gc_state \<Rightarrow> gc_state" where
  "gc_push_root v s = s\<lparr>gs_roots := gs_roots s @ [v]\<rparr>"

text \<open>\<open>None\<close> is a failed assertion.\<close>

definition gc_pop_root :: "gc_state \<Rightarrow> gc_state option" where
  "gc_pop_root s = (if gs_roots s = [] then None else Some (s\<lparr>gs_roots := butlast (gs_roots s)\<rparr>))"

definition vm_pin :: "ptr option \<Rightarrow> gc_state \<Rightarrow> gc_state" where
  "vm_pin obj s =
     (case obj of
        None \<Rightarrow> s
      | Some p \<Rightarrow> s\<lparr>gs_flags := (gs_flags s)[p := gs_flags s ! p OR OBJ_FLAG_PIN], gs_pinned := gs_pinned s @ [p]\<rparr>)"

text \<open>The first entry of the object is overwritten with the last one.\<close>

fun swap_remove :: "ptr \<Rightarrow> ptr list \<Rightarrow> ptr list" where
  "swap_remove p [] = []"
| "swap_remove p (q # qs) =
     (if q = p then (if qs = [] then [] else last qs # butlast qs) else q # swap_remove p qs)"

definition vm_unpin :: "ptr option \<Rightarrow> gc_state \<Rightarrow> gc_state" where
  "vm_unpin obj s =
     (case obj of
        None \<Rightarrow> s
      | Some p \<Rightarrow> s\<lparr>gs_flags := (gs_flags s)[p := gs_flags s ! p AND NOT OBJ_FLAG_PIN],
          gs_pinned := swap_remove p (gs_pinned s)\<rparr>)"

end
