(* ===== verification/Gc_Correct.thy ===== *)
theory Gc_Correct
  imports Gc
begin

section \<open>The collector frees exactly the unreachable objects\<close>

text \<open>
  \<open>reachable\<close> is the abstract specification: the objects that the roots lead to.  Marking is
  shown to compute it (a worklist invariant over the gray stack), and the sweep to keep what is
  marked; the well-formedness \<open>gc_ok\<close> that this needs is kept by every operation of the collector.
\<close>

unbundle bit_operations_syntax

subsection \<open>References and reachability\<close>

definition val_refs :: "val64 \<Rightarrow> ptr list" where
  "val_refs v = (if IS_PTR v \<and> value_as_ptr v \<noteq> 0 then [AS_PTR v] else [])"

definition vals_refs :: "val64 list \<Rightarrow> ptr list" where
  "vals_refs vs = concat (map val_refs vs)"

fun entries_refs :: "ptr map_entry list \<Rightarrow> ptr list" where
  "entries_refs [] = []"
| "entries_refs (e # es) = (case me_key e of Live k \<Rightarrow> k # val_refs (me_value e) | _ \<Rightarrow> []) @ entries_refs es"

definition obj_refs :: "obj \<Rightarrow> ptr list" where
  "obj_refs obj =
     (case obj of
        OBJ_FUNCTION f \<Rightarrow> (case fn_name f of Some n \<Rightarrow> [n] | None \<Rightarrow> []) @ vals_refs (ck_constants (fn_chunk f))
      | OBJ_LIST xs \<Rightarrow> vals_refs (ol_data xs)
      | OBJ_MAP m \<Rightarrow> entries_refs (om_entries m)
      | OBJ_CLOSURE c \<Rightarrow> cl_function c # vals_refs (cl_upvalues c)
      | OBJ_UPVALUE u \<Rightarrow> val_refs (uv_closed u)
      | OBJ_BOUND_METHOD b \<Rightarrow> val_refs (bm_receiver b)
      | _ \<Rightarrow> [])"

definition root_refs :: "vm \<Rightarrow> gc_state \<Rightarrow> ptr list" where
  "root_refs m s = gs_pinned s @ vals_refs (gs_roots s) @ vals_refs (map (vm_stack m) [0..<vm_top m]) @
     map cf_closure (vm_frames m) @ vm_globals m # vm_open_upvalues m"

inductive reachable :: "heap \<Rightarrow> ptr list \<Rightarrow> ptr \<Rightarrow> bool" for h roots where
  root: "p \<in> set roots \<Longrightarrow> reachable h roots p"
| step: "reachable h roots p \<Longrightarrow> q \<in> set (obj_refs (h ! p)) \<Longrightarrow> reachable h roots q"

subsection \<open>Marking lists of references\<close>

lemma mark_objects_append [simp]: "mark_objects (ps @ qs) s = mark_objects qs (mark_objects ps s)"
  by (induction ps arbitrary: s) simp_all

lemma mark_value_refs [simp]: "gc_mark_value v s = mark_objects (val_refs v) s"
  by (simp add: gc_mark_value_def val_refs_def gc_mark_object_def)

lemma mark_values_refs [simp]: "mark_values vs s = mark_objects (vals_refs vs) s"
  by (induction vs arbitrary: s) (simp_all add: vals_refs_def)

lemma mark_entries_refs [simp]: "mark_entries es s = mark_objects (entries_refs es) s"
  by (induction es arbitrary: s) (simp_all split: slot.split)

lemma trace_object_refs: "gc_trace_object obj s = mark_objects (obj_refs obj) s"
  by (cases obj) (simp_all add: gc_trace_object_def obj_refs_def split: option.split)

lemma mark_roots_refs: "gc_mark_roots m s = mark_objects (root_refs m s) s"
  by (simp add: gc_mark_roots_def vm_mark_roots_def root_refs_def Let_def)

subsection \<open>What marking changes\<close>

definition marks :: "gc_state \<Rightarrow> ptr set" where
  "marks s = {p. p < length (gs_flags s) \<and> is_marked s p}"

text \<open>Only flags and the gray stack change.\<close>

definition mark_only :: "gc_state \<Rightarrow> gc_state \<Rightarrow> bool" where
  "mark_only s t \<longleftrightarrow> t = s\<lparr>gs_flags := gs_flags t, gs_gray := gs_gray t\<rparr> \<and>
     length (gs_flags t) = length (gs_flags s)"

definition valid :: "gc_state \<Rightarrow> ptr \<Rightarrow> bool" where
  "valid s p \<longleftrightarrow> p < length (gs_flags s) \<and> p \<notin> set (gs_freed s)"

lemma mark_only_refl [simp]: "mark_only s s"
  by (simp add: mark_only_def)

lemma mark_only_trans: "mark_only s t \<Longrightarrow> mark_only t u \<Longrightarrow> mark_only s u"
  by (auto simp: mark_only_def) (metis (no_types, lifting) gc_state.surjective gc_state.update_convs(1,3))

lemma mark_only_valid: "mark_only s t \<Longrightarrow> valid t p = valid s p"
  by (auto simp: mark_only_def valid_def) (metis gc_state.select_convs(12) gc_state.surjective gc_state.update_convs(1,3))+

lemma mark_object_effect:
  assumes "valid s p"
  shows "mark_only s (gc_mark_object (Some p) s)"
    and "marks (gc_mark_object (Some p) s) = insert p (marks s)"
    and "set (gs_gray (gc_mark_object (Some p) s)) = set (gs_gray s) \<union> ({p} - marks s)"
proof -
  have p: "p < length (gs_flags s)" "p \<notin> set (gs_freed s)" using assms by (simp_all add: valid_def)
  show "mark_only s (gc_mark_object (Some p) s)"
    using p by (simp add: gc_mark_object_def mark_only_def)
  show "marks (gc_mark_object (Some p) s) = insert p (marks s)"
    using p mark_bit by (auto simp: gc_mark_object_def marks_def is_marked_def nth_list_update)
  show "set (gs_gray (gc_mark_object (Some p) s)) = set (gs_gray s) \<union> ({p} - marks s)"
    using p by (auto simp: gc_mark_object_def marks_def)
qed

lemma mark_objects_effect:
  assumes "\<forall>p \<in> set ps. valid s p"
  shows "mark_only s (mark_objects ps s) \<and> marks (mark_objects ps s) = marks s \<union> set ps \<and>
    set (gs_gray (mark_objects ps s)) = set (gs_gray s) \<union> (set ps - marks s)"
  using assms
proof (induction ps arbitrary: s)
  case (Cons p ps)
  let ?t = "gc_mark_object (Some p) s"
  note e = mark_object_effect [of s p]
  have v: "\<forall>q \<in> set ps. valid ?t q" using Cons.prems e(1) mark_only_valid by auto
  show ?case
    using Cons.IH [OF v] e Cons.prems by (auto intro: mark_only_trans)
qed simp

subsection \<open>Tracing computes reachability\<close>

definition closed_in :: "heap \<Rightarrow> ptr set \<Rightarrow> bool" where
  "closed_in h A \<longleftrightarrow> (\<forall>p \<in> A. set (obj_refs (h ! p)) \<subseteq> A)"

lemma reachable_least:
  assumes "reachable h roots p" and "set roots \<subseteq> A" and "closed_in h A"
  shows "p \<in> A"
  using assms by (induction rule: reachable.induct) (auto simp: closed_in_def)

lemma trace_references_marks:
  assumes "\<And>p. reachable h roots p \<Longrightarrow> valid s p"
    and "marks s \<subseteq> Collect (reachable h roots)" and "set roots \<subseteq> marks s" and "set (gs_gray s) \<subseteq> marks s"
    and "\<forall>p \<in> marks s - set (gs_gray s). set (obj_refs (h ! p)) \<subseteq> marks s"
  shows "mark_only s (gc_trace_references h s) \<and> gs_gray (gc_trace_references h s) = [] \<and>
    marks (gc_trace_references h s) = Collect (reachable h roots)"
  using assms
proof (induction h s rule: gc_trace_references.induct)
  case (1 h s)
  show ?case
  proof (cases "gs_gray s")
    case Nil
    then have "closed_in h (marks s)" using "1.prems"(5) by (simp add: closed_in_def)
    then have "Collect (reachable h roots) \<subseteq> marks s" using reachable_least "1.prems"(3) by auto
    then show ?thesis using Nil "1.prems"(2) by (auto simp: gc_trace_references.simps [of h s])
  next
    case (Cons p ps)
    let ?s = "s\<lparr>gs_gray := ps\<rparr>" and ?refs = "obj_refs (h ! p)"
    let ?t = "gc_trace_object (h ! p) ?s"
    have m: "marks ?s = marks s" by (simp add: marks_def is_marked_def)
    have p: "p \<in> marks s" "reachable h roots p" using "1.prems"(2,4) Cons by auto
    then have refs: "\<forall>q \<in> set ?refs. reachable h roots q" by (auto intro: reachable.step)
    then have "\<forall>q \<in> set ?refs. valid ?s q" using "1.prems"(1) by (auto simp: valid_def)
    from mark_objects_effect [OF this] have
      t: "mark_only ?s ?t" "marks ?t = marks s \<union> set ?refs" "set (gs_gray ?t) = set ps \<union> (set ?refs - marks s)"
      by (auto simp: trace_object_refs m)
    have st: "mark_only s ?t" using t(1) by (auto simp: mark_only_def)
    have "mark_only ?t (gc_trace_references h ?t) \<and> gs_gray (gc_trace_references h ?t) = [] \<and>
        marks (gc_trace_references h ?t) = Collect (reachable h roots)"
    proof (rule "1.IH" [OF Cons])
      show "valid ?t q" if "reachable h roots q" for q
        using "1.prems"(1) [OF that] mark_only_valid [OF st] by simp
      show "marks ?t \<subseteq> Collect (reachable h roots)" using t(2) refs "1.prems"(2) by auto
      show "set roots \<subseteq> marks ?t" using t(2) "1.prems"(3) by auto
      show "set (gs_gray ?t) \<subseteq> marks ?t" using t(2,3) "1.prems"(4) Cons by auto
      show "\<forall>q \<in> marks ?t - set (gs_gray ?t). set (obj_refs (h ! q)) \<subseteq> marks ?t"
        using t(2,3) "1.prems"(5) Cons by auto
    qed
    then show ?thesis
      using mark_only_trans [OF st] Cons by (auto simp: gc_trace_references.simps [of h s])
  qed
qed

subsection \<open>The sweep\<close>

lemma unmark_bit: "(f AND NOT OBJ_FLAG_MARK) AND OBJ_FLAG_MARK = 0"
  by (simp add: bit_eq_iff bit_simps)

lemma sweep_loop_effect:
  assumes "distinct ps" and "\<forall>p \<in> set ps. p < length (gs_flags s)"
  shows "fst (sweep_loop h ps s) = filter (is_marked s) ps \<and>
    gs_freed (snd (sweep_loop h ps s)) = gs_freed s @ filter (\<lambda>p. \<not> is_marked s p) ps \<and>
    marks (snd (sweep_loop h ps s)) = marks s - set ps \<and>
    snd (sweep_loop h ps s) = s\<lparr>gs_flags := gs_flags (snd (sweep_loop h ps s)),
      gs_freed := gs_freed (snd (sweep_loop h ps s)), gs_bytes_allocated := gs_bytes_allocated (snd (sweep_loop h ps s))\<rparr> \<and>
    length (gs_flags (snd (sweep_loop h ps s))) = length (gs_flags s)"
  using assms
proof (induction h ps s rule: sweep_loop.induct)
  case (2 h p ps s)
  show ?case
  proof (cases "is_marked s p")
    case True
    let ?s = "s\<lparr>gs_flags := (gs_flags s)[p := gs_flags s ! p AND NOT OBJ_FLAG_MARK]\<rparr>"
    have m: "is_marked ?s q = is_marked s q" if "q \<in> set ps" for q
      using that "2.prems" by (auto simp: is_marked_def nth_list_update)
    have mm: "marks ?s = marks s - {p}"
      using "2.prems"(2) by (auto simp: marks_def is_marked_def nth_list_update unmark_bit split: if_splits)
    note ih = "2.IH"(1) [OF True refl]
    have "filter (is_marked ?s) ps = filter (is_marked s) ps"
        "filter (\<lambda>p. \<not> is_marked ?s p) ps = filter (\<lambda>p. \<not> is_marked s p) ps"
      using m by (auto intro: filter_cong)
    then show ?thesis
      using ih "2.prems" True mm by (auto simp: Let_def case_prod_beta)
  next
    case False
    have m: "is_marked (obj_free h p s) = is_marked s" "marks (obj_free h p s) = marks s"
      by (auto simp: obj_free_def is_marked_def marks_def fun_eq_iff)
    have "p \<notin> marks s" using False by (simp add: marks_def)
    then show ?thesis
      using "2.IH"(2) [OF False] "2.prems" False m by (auto simp: obj_free_def)
  qed
qed simp

subsection \<open>A collection\<close>

definition gc_ok :: "vm \<Rightarrow> gc_state \<Rightarrow> bool" where
  "gc_ok m s \<longleftrightarrow> \<not> gs_undefined s \<and> gs_gray s = [] \<and> marks s = {} \<and>
     length (gs_flags s) = length (vm_heap m) \<and> distinct (gs_tracked s) \<and>
     (\<forall>p \<in> set (gs_tracked s). valid s p) \<and> (\<forall>p \<in> set (gs_freed s). p < length (gs_flags s)) \<and>
     set (root_refs m s) \<subseteq> set (gs_tracked s) \<and> closed_in (vm_heap m) (set (gs_tracked s)) \<and>
     (\<forall>p. Live p \<in> set (gs_intern_entries s) \<longrightarrow> p \<in> set (gs_tracked s))"

abbreviation alive :: "vm \<Rightarrow> gc_state \<Rightarrow> ptr \<Rightarrow> bool" where
  "alive m s \<equiv> reachable (vm_heap m) (root_refs m s)"

lemma alive_tracked: "gc_ok m s \<Longrightarrow> alive m s p \<Longrightarrow> p \<in> set (gs_tracked s)"
  unfolding gc_ok_def by (elim conjE) (rule reachable_least)

lemma marked_phase:
  assumes "gc_ok m s"
  defines "t \<equiv> gc_trace_references (vm_heap m) (gc_mark_roots m s)"
  shows "mark_only s t" and "gs_gray t = []" and "marks t = Collect (alive m s)"
proof -
  let ?r = "mark_objects (root_refs m s) s"
  have v: "valid s p" if "alive m s p" for p
    using alive_tracked [OF assms(1) that] assms(1) by (simp add: gc_ok_def)
  have "\<forall>p \<in> set (root_refs m s). valid s p" using v by (auto intro: reachable.root)
  from mark_objects_effect [OF this] have r: "mark_only s ?r" "marks ?r = set (root_refs m s)"
      "set (gs_gray ?r) = set (root_refs m s)"
    using assms(1) by (auto simp: gc_ok_def)
  have "mark_only ?r (gc_trace_references (vm_heap m) ?r) \<and> gs_gray (gc_trace_references (vm_heap m) ?r) = [] \<and>
      marks (gc_trace_references (vm_heap m) ?r) = Collect (alive m s)"
    by (rule trace_references_marks) (use r v mark_only_valid [OF r(1)] in \<open>auto intro: reachable.root\<close>)
  then show "mark_only s t" "gs_gray t = []" "marks t = Collect (alive m s)"
    using mark_only_trans [OF r(1)] by (auto simp: t_def mark_roots_refs)
qed


lemma gc_collect_effect:
  assumes ok: "gc_ok m s" and en: "gs_enabled s"
  defines "t \<equiv> gc_collect m s"
  shows "gs_tracked t = filter (alive m s) (gs_tracked s)"
    and "gs_freed t = gs_freed s @ filter (\<lambda>p. \<not> alive m s p) (gs_tracked s)"
    and "gs_intern_entries t = map (sweep_slot (alive m s)) (gs_intern_entries s)"
    and "marks t = {}" and "gs_gray t = []" and "gs_undefined t = gs_undefined s"
    and "length (gs_flags t) = length (gs_flags s)" and "root_refs m t = root_refs m s"
proof -
  define u where "u = gc_trace_references (vm_heap m) (gc_mark_roots m s)"
  note u = marked_phase [OF ok, folded u_def]
  have su: "u = s\<lparr>gs_flags := gs_flags u, gs_gray := []\<rparr>" "length (gs_flags u) = length (gs_flags s)"
    using u(1,2) by (auto simp: mark_only_def)
  have al: "is_marked u p = alive m s p" if "p < length (gs_flags s)" for p
    using u(3) that su(2) by (auto simp: marks_def)
  have tr: "p < length (gs_flags s)" if "p \<in> set (gs_tracked s)" for p
    using ok that by (auto simp: gc_ok_def valid_def)
  define es n where "es = fst (remove_unmarked_loop (is_marked u) (gs_intern_entries u) (gs_intern_count u))"
    and "n = snd (remove_unmarked_loop (is_marked u) (gs_intern_entries u) (gs_intern_count u))"
  define w where "w = u\<lparr>gs_intern_entries := es, gs_intern_count := n\<rparr>"
  have wt: "gs_tracked w = gs_tracked s" by (subst w_def, subst su(1)) simp
  have uw: "gs_tracked u = gs_tracked w" by (simp add: w_def)
  have wf: "gs_flags w = gs_flags u" "is_marked w = is_marked u" "marks w = marks u"
    by (auto simp: w_def is_marked_def marks_def fun_eq_iff)
  have dw: "distinct (gs_tracked w)" "\<forall>p \<in> set (gs_tracked w). p < length (gs_flags w)"
    using ok tr su(2) by (auto simp: wt wf gc_ok_def)
  define v where "v = snd (sweep_loop (vm_heap m) (gs_tracked w) w)"
  note sw = sweep_loop_effect [OF dw, of "vm_heap m", folded v_def]
  have t: "gs_tracked t = fst (sweep_loop (vm_heap m) (gs_tracked w) w)" "gs_freed t = gs_freed v"
      "gs_intern_entries t = gs_intern_entries v" "gs_flags t = gs_flags v" "gs_gray t = gs_gray v"
      "gs_undefined t = gs_undefined v" "gs_roots t = gs_roots v" "gs_pinned t = gs_pinned v"
    using en by (auto simp: t_def gc_collect_def gc_sweep_def Let_def case_prod_beta u_def [symmetric]
        es_def [symmetric] n_def [symmetric] w_def [symmetric] uw v_def [symmetric])
  have vw: "gs_intern_entries v = es" "gs_gray v = []" "gs_undefined v = gs_undefined s" "gs_roots v = gs_roots s"
      "gs_pinned v = gs_pinned s" "gs_freed w = gs_freed s"
  proof -
    have v: "v = w\<lparr>gs_flags := gs_flags v, gs_freed := gs_freed v, gs_bytes_allocated := gs_bytes_allocated v\<rparr>"
      using sw by blast
    have w: "w = s\<lparr>gs_flags := gs_flags u, gs_gray := [], gs_intern_entries := es, gs_intern_count := n\<rparr>"
      unfolding w_def by (subst su(1)) simp
    show "gs_intern_entries v = es" "gs_gray v = []" "gs_undefined v = gs_undefined s" "gs_roots v = gs_roots s"
        "gs_pinned v = gs_pinned s"
      by (subst v, simp add: w)+
    show "gs_freed w = gs_freed s" by (simp add: w)
  qed
  have fl: "filter (is_marked u) (gs_tracked s) = filter (alive m s) (gs_tracked s)"
      "filter (\<lambda>p. \<not> is_marked u p) (gs_tracked s) = filter (\<lambda>p. \<not> alive m s p) (gs_tracked s)"
    using al tr by (auto intro: filter_cong)
  show "gs_tracked t = filter (alive m s) (gs_tracked s)" using t(1) sw wt wf fl by simp
  show "gs_freed t = gs_freed s @ filter (\<lambda>p. \<not> alive m s p) (gs_tracked s)"
    using t(2) sw wt wf fl vw by simp
  have "gs_intern_entries u = gs_intern_entries s" by (subst su(1)) simp
  then have "es = map (sweep_slot (is_marked u)) (gs_intern_entries s)" by (simp add: es_def remove_unmarked_map)
  also have "\<dots> = map (sweep_slot (alive m s)) (gs_intern_entries s)"
    using ok al tr by (auto simp: sweep_slot_def gc_ok_def split: slot.split)
  finally show "gs_intern_entries t = map (sweep_slot (alive m s)) (gs_intern_entries s)"
    using t(3) vw(1) by simp
  have "marks v = marks u - set (gs_tracked s)" using sw wt wf by simp
  also have "\<dots> = {}" using u(3) alive_tracked [OF ok] by auto
  finally show "marks t = {}" using t(4) by (simp add: marks_def is_marked_def)
  show "gs_gray t = []" "gs_undefined t = gs_undefined s" using t vw by simp_all
  show "length (gs_flags t) = length (gs_flags s)" using t(4) sw wf su(2) by simp
  show "root_refs m t = root_refs m s" using t vw by (simp add: root_refs_def)
qed

lemma gc_collect_ok:
  assumes ok: "gc_ok m s"
  shows "gc_ok m (gc_collect m s)"
proof (cases "gs_enabled s")
  case True
  note e = gc_collect_effect [OF ok True]
  have "closed_in (vm_heap m) (set (filter (alive m s) (gs_tracked s)))"
    using ok by (auto simp: gc_ok_def closed_in_def intro: reachable.step)
  moreover have "set (root_refs m s) \<subseteq> set (filter (alive m s) (gs_tracked s))"
    using ok by (auto simp: gc_ok_def intro: reachable.root)
  moreover have "Live p \<in> set (map (sweep_slot (alive m s)) (gs_intern_entries s)) \<Longrightarrow>
      p \<in> set (filter (alive m s) (gs_tracked s))" for p
    using ok by (auto simp: gc_ok_def sweep_slot_def split: slot.splits if_splits)
  ultimately have 1: "closed_in (vm_heap m) (set (gs_tracked (gc_collect m s)))"
      "set (root_refs m (gc_collect m s)) \<subseteq> set (gs_tracked (gc_collect m s))"
      "\<forall>p. Live p \<in> set (gs_intern_entries (gc_collect m s)) \<longrightarrow> p \<in> set (gs_tracked (gc_collect m s))"
    unfolding e by blast+
  have v: "p < length (gs_flags s) \<and> p \<notin> set (gs_freed s)" if "p \<in> set (gs_tracked s)" for p
    using ok that unfolding gc_ok_def valid_def by blast
  have "\<forall>p \<in> set (gs_tracked (gc_collect m s)). valid (gc_collect m s) p"
      "\<forall>p \<in> set (gs_freed (gc_collect m s)). p < length (gs_flags (gc_collect m s))"
    unfolding valid_def e using v ok by (auto simp: gc_ok_def)
  moreover have "distinct (gs_tracked (gc_collect m s))" unfolding e using ok by (simp add: gc_ok_def)
  ultimately show ?thesis
    using 1 ok unfolding gc_ok_def by (simp add: e)
qed (use ok in \<open>simp add: gc_collect_def\<close>)

subsection \<open>The other operations\<close>

text \<open>A new object, as \<open>alloc_object\<close> of \<open>object.c\<close> makes it: a cleared flag byte, and tracked.\<close>

definition gc_new_object :: "obj \<Rightarrow> vm \<Rightarrow> gc_state \<Rightarrow> vm \<times> gc_state" where
  "gc_new_object obj m s =
     (let (p, h) = alloc_object (vm_heap m) obj
      in (m\<lparr>vm_heap := h\<rparr>, gc_track_object p (s\<lparr>gs_flags := gs_flags s @ [0]\<rparr>)))"

lemma set_swap_remove: "set (swap_remove p ps) \<subseteq> set ps"
  by (induction p ps rule: swap_remove.induct) (auto dest: in_set_butlastD)

lemma root_refs_vm [simp]: "root_refs (m\<lparr>vm_heap := h\<rparr>) s = root_refs m s"
  by (simp add: root_refs_def)

lemma gc_ok_roots:
  assumes "gc_ok m s" and "t = s\<lparr>gs_roots := gs_roots t, gs_pinned := gs_pinned t, gs_flags := gs_flags t\<rparr>"
    and "set (vals_refs (gs_roots t)) \<subseteq> set (gs_tracked s)" and "set (gs_pinned t) \<subseteq> set (gs_tracked s)"
    and "length (gs_flags t) = length (gs_flags s)" and "marks t = marks s"
  shows "gc_ok m t"
proof -
  have "gs_undefined t = gs_undefined s" "gs_gray t = gs_gray s" "gs_tracked t = gs_tracked s" "gs_freed t = gs_freed s"
      "gs_intern_entries t = gs_intern_entries s"
    by (subst assms(2), simp)+
  then show ?thesis using assms(1,3-6) by (auto simp: gc_ok_def root_refs_def valid_def)
qed

lemma pin_marks:
  "marks (s\<lparr>gs_flags := (gs_flags s)[p := gs_flags s ! p OR OBJ_FLAG_PIN], gs_pinned := ps\<rparr>) = marks s"
  "marks (s\<lparr>gs_flags := (gs_flags s)[p := gs_flags s ! p AND NOT OBJ_FLAG_PIN], gs_pinned := ps\<rparr>) = marks s"
proof -
  have "(f OR OBJ_FLAG_PIN) AND OBJ_FLAG_MARK = f AND OBJ_FLAG_MARK"
      "(f AND NOT OBJ_FLAG_PIN) AND OBJ_FLAG_MARK = f AND OBJ_FLAG_MARK" for f
    by (auto simp: OBJ_FLAG_PIN_def OBJ_FLAG_MARK_def bit_eq_iff bit_simps)
  then show "marks (s\<lparr>gs_flags := (gs_flags s)[p := gs_flags s ! p OR OBJ_FLAG_PIN], gs_pinned := ps\<rparr>) = marks s"
    "marks (s\<lparr>gs_flags := (gs_flags s)[p := gs_flags s ! p AND NOT OBJ_FLAG_PIN], gs_pinned := ps\<rparr>) = marks s"
    by (cases "p < length (gs_flags s)"; auto simp: marks_def is_marked_def nth_list_update list_update_beyond)+
qed

lemma vals_refs_butlast: "set (vals_refs (butlast vs)) \<subseteq> set (vals_refs vs)"
  by (cases vs rule: rev_cases) (auto simp: vals_refs_def)

lemma gc_ok_vals: "gc_ok m s \<Longrightarrow> set (vals_refs (gs_roots s)) \<subseteq> set (gs_tracked s)"
    and gc_ok_pinned: "gc_ok m s \<Longrightarrow> set (gs_pinned s) \<subseteq> set (gs_tracked s)"
  by (auto simp: gc_ok_def root_refs_def)

lemma gc_ok_push: "gc_ok m s \<Longrightarrow> set (val_refs v) \<subseteq> set (gs_tracked s) \<Longrightarrow> gc_ok m (gc_push_root v s)"
  by (rule gc_ok_roots [of m s])
    (use gc_ok_vals [of m s] gc_ok_pinned [of m s] in \<open>auto simp: gc_push_root_def vals_refs_def marks_def is_marked_def\<close>)

lemma gc_ok_pop: "gc_ok m s \<Longrightarrow> gc_pop_root s = Some t \<Longrightarrow> gc_ok m t"
  by (rule gc_ok_roots [of m s])
    (use gc_ok_vals [of m s] gc_ok_pinned [of m s] vals_refs_butlast [of "gs_roots s"] in
      \<open>auto simp: gc_pop_root_def marks_def is_marked_def split: if_splits\<close>)

lemma gc_ok_pin: "gc_ok m s \<Longrightarrow> p \<in> set (gs_tracked s) \<Longrightarrow> gc_ok m (vm_pin (Some p) s)"
  by (rule gc_ok_roots [of m s])
    (use gc_ok_vals [of m s] gc_ok_pinned [of m s] in \<open>auto simp: vm_pin_def pin_marks\<close>)

lemma gc_ok_unpin: "gc_ok m s \<Longrightarrow> gc_ok m (vm_unpin (Some p) s)"
  by (rule gc_ok_roots [of m s])
    (use gc_ok_vals [of m s] gc_ok_pinned [of m s] set_swap_remove [of p "gs_pinned s"] in
      \<open>auto simp: vm_unpin_def pin_marks\<close>)

lemma gc_ok_new:
  assumes ok: "gc_ok m s" and "set (obj_refs obj) \<subseteq> set (gs_tracked s)"
  shows "gc_ok (fst (gc_new_object obj m s)) (snd (gc_new_object obj m s))"
proof -
  let ?p = "length (vm_heap m)"
  let ?t = "gc_track_object ?p (s\<lparr>gs_flags := gs_flags s @ [0]\<rparr>)"
  have n: "gc_new_object obj m s = (m\<lparr>vm_heap := vm_heap m @ [obj]\<rparr>, ?t)"
    by (simp add: gc_new_object_def alloc_object_def)
  have l: "length (gs_flags s) = ?p" using ok by (simp add: gc_ok_def)
  have tr: "p < ?p" if "p \<in> set (gs_tracked s)" for p using ok that by (auto simp: gc_ok_def valid_def)
  have "marks ?t = {}"
    using ok by (auto simp: marks_def is_marked_def gc_track_object_def gc_ok_def nth_append less_Suc_eq split: if_splits)
  moreover have "closed_in (vm_heap m @ [obj]) (set (gs_tracked ?t))"
    using ok assms(2) tr by (fastforce simp: closed_in_def gc_ok_def gc_track_object_def nth_append)
  moreover have "distinct (gs_tracked ?t)" using ok tr by (auto simp: gc_track_object_def gc_ok_def)
  moreover have "valid ?t p" if "p \<in> set (gs_tracked ?t)" for p
    using that ok l by (auto simp: gc_track_object_def valid_def gc_ok_def)
  moreover have "root_refs m ?t = root_refs m s" by (simp add: root_refs_def gc_track_object_def)
  ultimately show ?thesis
    using ok by (auto simp: n gc_ok_def gc_track_object_def)
qed


subsection \<open>Properties\<close>

text \<open>
  C32: A collection frees exactly the objects that the roots do not reach, once each, and keeps the
  others in allocation order; it never follows a pointer to a freed object, the intern table loses
  exactly the unreachable strings, and the next threshold is never below the initial one.
\<close>

theorem gc_collect_exact:
  assumes "gc_ok m s" and "gs_enabled s"
  shows "gs_tracked (gc_collect m s) = filter (reachable (vm_heap m) (root_refs m s)) (gs_tracked s) \<and>
    gs_freed (gc_collect m s) = gs_freed s @ filter (\<lambda>p. \<not> reachable (vm_heap m) (root_refs m s) p) (gs_tracked s) \<and>
    (\<forall>p. Live p \<in> set (gs_intern_entries (gc_collect m s)) \<longleftrightarrow>
      Live p \<in> set (gs_intern_entries s) \<and> reachable (vm_heap m) (root_refs m s) p) \<and>
    \<not> gs_undefined (gc_collect m s) \<and> GC_INITIAL_THRESHOLD \<le> gs_next_gc (gc_collect m s)"
proof -
  note e = gc_collect_effect [OF assms]
  have "\<not> gs_undefined (gc_collect m s)" unfolding e using assms(1) by (simp add: gc_ok_def)
  moreover have "GC_INITIAL_THRESHOLD \<le> gs_next_gc (gc_collect m s)"
    using assms(2) by (auto simp: gc_collect_def Let_def case_prod_beta not_less)
  ultimately show ?thesis using e(1-3) remove_unmarked_live by simp
qed

text \<open>A machine whose heap holds the globals map and a string that nothing refers to.\<close>

definition example_vm :: vm where
  "example_vm = \<lparr>vm_heap = [OBJ_MAP obj_map_new, OBJ_STRING ''x''], vm_stack = (\<lambda>_. VAL_NIL), vm_top = 0,
     vm_frames = [], vm_globals = 0, vm_open_upvalues = [], vm_had_error = False, vm_error_msg = [],
     vm_gc_countdown = 0, vm_call_depth = 0, vm_out = []\<rparr>"

definition example_gc :: gc_state where
  "example_gc = \<lparr>gs_flags = [0, 0], gs_tracked = [0, 1], gs_gray = [], gs_roots = [], gs_pinned = [],
     gs_next_gc = 0, gs_enabled = True, gs_bytes_allocated = 100, gs_bytes_alive = 0,
     gs_intern_entries = [Empty, Live 1], gs_intern_count = 1, gs_freed = [], gs_undefined = False\<rparr>"

lemma example_ok: "gc_ok example_vm example_gc"
  by (auto simp: gc_ok_def example_vm_def example_gc_def marks_def is_marked_def valid_def root_refs_def vals_refs_def
      closed_in_def obj_refs_def obj_map_new_def less_Suc_eq numeral_2_eq_2 nth_Cons split: nat.splits)

lemma example_gc_simps [simp]:
  "gs_enabled example_gc" "gs_tracked example_gc = [0, 1]" "gs_freed example_gc = []"
  by (simp_all add: example_gc_def)

lemma example_reach: "reachable (vm_heap example_vm) (root_refs example_vm example_gc) p \<longleftrightarrow> p = 0"
proof
  show "reachable (vm_heap example_vm) (root_refs example_vm example_gc) p \<Longrightarrow> p = 0"
    by (drule reachable_least [where A = "{0}"])
      (auto simp: example_vm_def example_gc_def root_refs_def vals_refs_def closed_in_def obj_refs_def obj_map_new_def)
qed (auto simp: example_vm_def root_refs_def intro: reachable.root)

theorem gc_collect_exact_witness:
  "gs_tracked (gc_collect example_vm example_gc) = [0] \<and> gs_freed (gc_collect example_vm example_gc) = [1]"
  using gc_collect_exact [OF example_ok] by (simp add: example_reach)

text \<open>
  C33: Memory safety of the collector's interface: collecting, allocating, pushing and popping roots,
  pinning and unpinning keep the state well-formed, so that every pointer from a root, from a live
  object and from the intern table leads to an object that is tracked and not freed.
\<close>

theorem gc_operations_ok:
  assumes "gc_ok m s"
  shows "gc_ok m (gc_collect m s) \<and> gc_ok m (gc_maybe_collect m s) \<and>
    (\<forall>v. set (val_refs v) \<subseteq> set (gs_tracked s) \<longrightarrow> gc_ok m (gc_push_root v s)) \<and>
    (\<forall>t. gc_pop_root s = Some t \<longrightarrow> gc_ok m t) \<and>
    (\<forall>p \<in> set (gs_tracked s). gc_ok m (vm_pin (Some p) s)) \<and> (\<forall>p. gc_ok m (vm_unpin (Some p) s)) \<and>
    (\<forall>obj. set (obj_refs obj) \<subseteq> set (gs_tracked s) \<longrightarrow>
      gc_ok (fst (gc_new_object obj m s)) (snd (gc_new_object obj m s)))"
  using assms
  by (auto simp: gc_maybe_collect_def intro: gc_collect_ok gc_ok_push gc_ok_pop gc_ok_pin gc_ok_unpin gc_ok_new)

theorem gc_operations_ok_witness:
  "gc_ok example_vm (gc_collect example_vm example_gc) \<and> gc_ok example_vm (vm_pin (Some 1) example_gc)"
  using gc_operations_ok [OF example_ok] by simp

end
