(* ===== verification/Sha256.thy ===== *)
theory Sha256
  imports Vek_Prelude
begin

section \<open>SHA-256 (sha256.c)\<close>

text \<open>
  \<open>sha256_compute\<close> as the code has it, over a list of bytes: the padded buffer with its writes by
  index, the message schedule, the 64 rounds on eight working variables.  \<open>sha256_fips\<close> is the
  algorithm of FIPS 180-4 on its own terms (rotations of words, the recurrence for \<open>W\<close>, padding with
  the least number of zero bytes), and the two are equal.
\<close>

unbundle bit_operations_syntax

subsection \<open>The code\<close>

definition sha256_k :: "u32 list" where
  "sha256_k = concat [
     [0x428a2f98, 0x71374491, 0xb5c0fbcf, 0xe9b5dba5], [0x3956c25b, 0x59f111f1, 0x923f82a4, 0xab1c5ed5],
     [0xd807aa98, 0x12835b01, 0x243185be, 0x550c7dc3], [0x72be5d74, 0x80deb1fe, 0x9bdc06a7, 0xc19bf174],
     [0xe49b69c1, 0xefbe4786, 0x0fc19dc6, 0x240ca1cc], [0x2de92c6f, 0x4a7484aa, 0x5cb0a9dc, 0x76f988da],
     [0x983e5152, 0xa831c66d, 0xb00327c8, 0xbf597fc7], [0xc6e00bf3, 0xd5a79147, 0x06ca6351, 0x14292967],
     [0x27b70a85, 0x2e1b2138, 0x4d2c6dfc, 0x53380d13], [0x650a7354, 0x766a0abb, 0x81c2c92e, 0x92722c85],
     [0xa2bfe8a1, 0xa81a664b, 0xc24b8b70, 0xc76c51a3], [0xd192e819, 0xd6990624, 0xf40e3585, 0x106aa070],
     [0x19a4c116, 0x1e376c08, 0x2748774c, 0x34b0bcb5], [0x391c0cb3, 0x4ed8aa4a, 0x5b9cca4f, 0x682e6ff3],
     [0x748f82ee, 0x78a5636f, 0x84c87814, 0x8cc70208], [0x90befffa, 0xa4506ceb, 0xbef9a3f7, 0xc67178f2]]"

definition ROTR :: "u32 \<Rightarrow> nat \<Rightarrow> u32" where
  "ROTR x n = drop_bit n x OR push_bit (32 - n) x"

definition CH :: "u32 \<Rightarrow> u32 \<Rightarrow> u32 \<Rightarrow> u32" where
  "CH x y z = (x AND y) XOR (NOT x AND z)"

definition MAJ :: "u32 \<Rightarrow> u32 \<Rightarrow> u32 \<Rightarrow> u32" where
  "MAJ x y z = (x AND y) XOR (x AND z) XOR (y AND z)"

definition EP0 :: "u32 \<Rightarrow> u32" where "EP0 x = ROTR x 2 XOR ROTR x 13 XOR ROTR x 22"
definition EP1 :: "u32 \<Rightarrow> u32" where "EP1 x = ROTR x 6 XOR ROTR x 11 XOR ROTR x 25"
definition SIG0 :: "u32 \<Rightarrow> u32" where "SIG0 x = ROTR x 7 XOR ROTR x 18 XOR drop_bit 3 x"
definition SIG1 :: "u32 \<Rightarrow> u32" where "SIG1 x = ROTR x 17 XOR ROTR x 19 XOR drop_bit 10 x"

type_synonym hash8 = "u32 \<times> u32 \<times> u32 \<times> u32 \<times> u32 \<times> u32 \<times> u32 \<times> u32"

definition sha256_h0 :: hash8 where
  "sha256_h0 = (0x6a09e667, 0xbb67ae85, 0x3c6ef372, 0xa54ff53a, 0x510e527f, 0x9b05688c, 0x1f83d9ab, 0x5be0cd19)"

text \<open>The padded message: a zeroed buffer, the data, the marker and the bit length, byte by byte.\<close>

definition padded_length :: "nat \<Rightarrow> nat" where
  "padded_length len = ((len + 8) div 64 + 1) * 64"

fun write_length :: "nat \<Rightarrow> nat \<Rightarrow> 64 word \<Rightarrow> u8 list \<Rightarrow> u8 list" where
  "write_length 0 padded_len bit_len msg = msg"
| "write_length (Suc i) padded_len bit_len msg =
     (write_length i padded_len bit_len msg)[padded_len - 1 - i := ucast (drop_bit (i * 8) bit_len)]"

definition padded_message :: "u8 list \<Rightarrow> u8 list" where
  "padded_message data =
     (let len = length data;
          padded_len = padded_length len;
          msg = data @ drop len (replicate padded_len 0);
          msg = msg[len := 0x80];
          bit_len = (of_nat len :: 64 word) * 8
      in write_length 8 padded_len bit_len msg)"

definition load_word :: "u8 list \<Rightarrow> nat \<Rightarrow> u32" where
  "load_word msg i = push_bit 24 (ucast (msg ! i)) OR push_bit 16 (ucast (msg ! (i + 1))) OR
     push_bit 8 (ucast (msg ! (i + 2))) OR ucast (msg ! (i + 3))"

fun extend_schedule :: "nat \<Rightarrow> u32 list \<Rightarrow> u32 list" where
  "extend_schedule 0 w = w"
| "extend_schedule (Suc n) w =
     (let i = length w
      in extend_schedule n (w @ [SIG1 (w ! (i - 2)) + w ! (i - 7) + SIG0 (w ! (i - 15)) + w ! (i - 16)]))"

definition message_schedule :: "u8 list \<Rightarrow> nat \<Rightarrow> u32 list" where
  "message_schedule msg offset = extend_schedule 48 (map (\<lambda>i. load_word msg (offset + i * 4)) [0..<16])"

fun sha256_round :: "u32 \<Rightarrow> u32 \<Rightarrow> hash8 \<Rightarrow> hash8" where
  "sha256_round k w (a, b, c, d, e, f, g, hh) =
     (let t1 = hh + EP1 e + CH e f g + k + w;
          t2 = EP0 a + MAJ a b c
      in (t1 + t2, a, b, c, d + t1, e, f, g))"

fun add_hash :: "hash8 \<Rightarrow> hash8 \<Rightarrow> hash8" where
  "add_hash (a, b, c, d, e, f, g, h) (a', b', c', d', e', f', g', h') =
     (a + a', b + b', c + c', d + d', e + e', f + f', g + g', h + h')"

definition sha256_block :: "u8 list \<Rightarrow> nat \<Rightarrow> hash8 \<Rightarrow> hash8" where
  "sha256_block msg offset h =
     (let w = message_schedule msg offset
      in add_hash h (foldl (\<lambda>s i. sha256_round (sha256_k ! i) (w ! i) s) h [0..<64]))"

fun sha256_blocks :: "nat \<Rightarrow> nat \<Rightarrow> u8 list \<Rightarrow> hash8 \<Rightarrow> hash8" where
  "sha256_blocks 0 offset msg h = h"
| "sha256_blocks (Suc n) offset msg h = sha256_blocks n (offset + 64) msg (sha256_block msg offset h)"

definition word_bytes :: "u32 \<Rightarrow> u8 list" where
  "word_bytes x = [ucast (drop_bit 24 x), ucast (drop_bit 16 x), ucast (drop_bit 8 x), ucast x]"

fun hash_bytes :: "hash8 \<Rightarrow> u8 list" where
  "hash_bytes (a, b, c, d, e, f, g, h) = concat (map word_bytes [a, b, c, d, e, f, g, h])"

definition sha256_compute :: "u8 list \<Rightarrow> u8 list" where
  "sha256_compute data =
     (let msg = padded_message data
      in hash_bytes (sha256_blocks (padded_length (length data) div 64) 0 msg sha256_h0))"

lemma sha256_length [simp]: "length (sha256_compute data) = 32"
  by (cases "sha256_blocks (padded_length (length data) div 64) 0 (padded_message data) sha256_h0" rule: hash_bytes.cases)
    (simp add: sha256_compute_def word_bytes_def Let_def)

subsection \<open>The standard\<close>

definition fips_\<Sigma>0 :: "u32 \<Rightarrow> u32" where "fips_\<Sigma>0 x = word_rotr 2 x XOR word_rotr 13 x XOR word_rotr 22 x"
definition fips_\<Sigma>1 :: "u32 \<Rightarrow> u32" where "fips_\<Sigma>1 x = word_rotr 6 x XOR word_rotr 11 x XOR word_rotr 25 x"
definition fips_\<sigma>0 :: "u32 \<Rightarrow> u32" where "fips_\<sigma>0 x = word_rotr 7 x XOR word_rotr 18 x XOR drop_bit 3 x"
definition fips_\<sigma>1 :: "u32 \<Rightarrow> u32" where "fips_\<sigma>1 x = word_rotr 17 x XOR word_rotr 19 x XOR drop_bit 10 x"

text \<open>The zero bytes that bring the message with its marker to 8 bytes below a multiple of 64.\<close>

definition fips_zeros :: "nat \<Rightarrow> nat" where
  "fips_zeros len = (LEAST k. (len + 1 + k + 8) mod 64 = 0)"

definition fips_pad :: "u8 list \<Rightarrow> u8 list" where
  "fips_pad data = data @ 0x80 # replicate (fips_zeros (length data)) 0 @
     rev (map (\<lambda>i. ucast (drop_bit (i * 8) (of_nat (8 * length data) :: 64 word))) [0..<8])"

fun fips_W :: "u8 list \<Rightarrow> nat \<Rightarrow> u32" where
  "fips_W block t =
     (if t < 16 then load_word block (4 * t)
      else fips_\<sigma>1 (fips_W block (t - 2)) + fips_W block (t - 7) + fips_\<sigma>0 (fips_W block (t - 15)) + fips_W block (t - 16))"

declare fips_W.simps [simp del]

fun fips_round :: "u32 \<Rightarrow> u32 \<Rightarrow> hash8 \<Rightarrow> hash8" where
  "fips_round k w (a, b, c, d, e, f, g, h) =
     (let T1 = h + fips_\<Sigma>1 e + CH e f g + k + w;
          T2 = fips_\<Sigma>0 a + MAJ a b c
      in (T1 + T2, a, b, c, d + T1, e, f, g))"

definition fips_compress :: "hash8 \<Rightarrow> u8 list \<Rightarrow> hash8" where
  "fips_compress h block = add_hash h (foldl (\<lambda>s t. fips_round (sha256_k ! t) (fips_W block t) s) h [0..<64])"

text \<open>The blocks of 64 bytes, first to last.\<close>

function fips_blocks :: "u8 list \<Rightarrow> u8 list list" where
  "fips_blocks msg = (if length msg < 64 then [] else take 64 msg # fips_blocks (drop 64 msg))"
  by auto
termination by (relation "measure length") auto

declare fips_blocks.simps [simp del]

definition sha256_fips :: "u8 list \<Rightarrow> u8 list" where
  "sha256_fips data = hash_bytes (foldl fips_compress sha256_h0 (fips_blocks (fips_pad data)))"

subsection \<open>Equality\<close>

lemma ROTR_word_rotr: "0 < n \<Longrightarrow> n < 32 \<Longrightarrow> ROTR x n = word_rotr n x"
proof (rule bit_word_eqI)
  fix i assume n: "0 < n" "n < 32" and i: "i < LENGTH(32)"
  have "bit x ((i + n) mod 32) = (if i + n < 32 then bit x (i + n) else bit x (i + n - 32))"
    using n i by (auto simp: mod_if)
  then show "bit (ROTR x n) i = bit (word_rotr n x) i"
    using n i by (auto simp: ROTR_def bit_simps bit_word_rotr_iff add.commute dest: bit_imp_le_length)
qed

lemmas fips_functions = fips_\<Sigma>0_def fips_\<Sigma>1_def fips_\<sigma>0_def fips_\<sigma>1_def EP0_def EP1_def SIG0_def SIG1_def

lemma code_functions: "EP0 = fips_\<Sigma>0" "EP1 = fips_\<Sigma>1" "SIG0 = fips_\<sigma>0" "SIG1 = fips_\<sigma>1"
  by (simp_all add: fips_functions fun_eq_iff ROTR_word_rotr)

lemma round_eq: "sha256_round k w s = fips_round k w s"
  by (cases s rule: hash_bytes.cases) (simp add: code_functions)


lemma load_word_take: "offset + i * 4 + 3 < length msg \<Longrightarrow> i < 16 \<Longrightarrow>
  load_word (take 64 (drop offset msg)) (4 * i) = load_word msg (offset + i * 4)"
  by (simp add: load_word_def algebra_simps)

lemma extend_schedule_W:
  assumes "16 \<le> length w" and "\<forall>t < length w. w ! t = fips_W block t"
  shows "length (extend_schedule n w) = length w + n \<and>
    (\<forall>t < length w + n. extend_schedule n w ! t = fips_W block t)"
  using assms
proof (induction n arbitrary: w)
  case (Suc n)
  let ?i = "length w"
  let ?w = "w @ [SIG1 (w ! (?i - 2)) + w ! (?i - 7) + SIG0 (w ! (?i - 15)) + w ! (?i - 16)]"
  have l: "?i - 2 < ?i" "?i - 7 < ?i" "?i - 15 < ?i" "?i - 16 < ?i" using Suc.prems(1) by auto
  have "fips_W block ?i = SIG1 (w ! (?i - 2)) + w ! (?i - 7) + SIG0 (w ! (?i - 15)) + w ! (?i - 16)"
    using Suc.prems l by (subst fips_W.simps) (simp add: code_functions)
  then have "\<forall>t < length ?w. ?w ! t = fips_W block t"
    using Suc.prems(2) by (auto simp: nth_append less_Suc_eq)
  then show ?case using Suc.IH [of ?w] Suc.prems(1) by (simp add: Let_def)
qed simp

lemma block_eq:
  assumes "offset + 64 \<le> length msg"
  shows "sha256_block msg offset h = fips_compress h (take 64 (drop offset msg))"
proof -
  let ?b = "take 64 (drop offset msg)"
  let ?w = "map (\<lambda>i. load_word msg (offset + i * 4)) [0..<16]"
  have "\<forall>t < length ?w. ?w ! t = fips_W ?b t"
    using assms load_word_take [of offset _ msg] by (auto simp: fips_W.simps)
  from extend_schedule_W [OF _ this, of 48] have w: "\<forall>t < 64. message_schedule msg offset ! t = fips_W ?b t"
    by (simp add: message_schedule_def)
  have "foldl (\<lambda>s i. sha256_round (sha256_k ! i) (message_schedule msg offset ! i) s) h [0..<64] =
      foldl (\<lambda>s t. fips_round (sha256_k ! t) (fips_W ?b t) s) h [0..<64]"
    by (rule foldl_cong) (use w in \<open>auto simp: round_eq\<close>)
  then show ?thesis by (simp add: sha256_block_def fips_compress_def Let_def)
qed

lemma blocks_eq:
  "length msg = offset + n * 64 \<Longrightarrow> sha256_blocks n offset msg h = foldl fips_compress h (fips_blocks (drop offset msg))"
proof (induction n offset msg h rule: sha256_blocks.induct)
  case (1 offset msg h)
  then show ?case by (simp add: fips_blocks.simps)
next
  case (2 n offset msg h)
  have "fips_blocks (drop offset msg) = take 64 (drop offset msg) # fips_blocks (drop (offset + 64) msg)"
    using 2(2) by (subst fips_blocks.simps) (simp add: add.commute)
  then show ?case using 2 block_eq [of offset msg h] by simp
qed

lemma zeros_padded: "fips_zeros len = padded_length len - len - 9"
proof -
  let ?k = "padded_length len - len - 9"
  have a: "len + 9 \<le> padded_length len" "padded_length len < len + 9 + 64" "padded_length len mod 64 = 0"
    by (simp_all add: padded_length_def)
  have "(len + 1 + ?k + 8) mod 64 = 0" using a by simp
  moreover have "?k \<le> k" if "(len + 1 + k + 8) mod 64 = 0" for k
  proof (rule ccontr)
    assume k: "\<not> ?k \<le> k"
    have "len + 9 + k < padded_length len" using k a(1) by simp
    moreover have "64 dvd padded_length len - (len + 9 + k)"
    proof (rule dvd_diff_nat)
      show "64 dvd padded_length len" using a(3) by (simp add: mod_eq_0_iff_dvd)
      have "len + 9 + k = len + 1 + k + 8" by simp
      then show "64 dvd len + 9 + k" using that by (metis mod_eq_0_iff_dvd)
    qed
    ultimately have "64 \<le> padded_length len - (len + 9 + k)" by (auto dest: dvd_imp_le)
    then show False using a(2) by simp
  qed
  ultimately show ?thesis unfolding fips_zeros_def by (intro Least_equality)
qed


lemma write_length_tail:
  "n \<le> 8 \<Longrightarrow> write_length n (length pre + 8) b (pre @ replicate 8 0) =
     pre @ replicate (8 - n) 0 @ rev (map (\<lambda>i. ucast (drop_bit (i * 8) b)) [0..<n])"
proof (induction n)
  case (Suc n)
  let ?r = "rev (map (\<lambda>i. ucast (drop_bit (i * 8) b) :: u8) [0..<n])"
  have "8 - n = Suc (7 - n)" using Suc.prems by simp
  then have z: "replicate (8 - n) (0 :: u8) = replicate (7 - n) 0 @ [0]"
    by (simp only: replicate_Suc replicate_append_same)
  have ih: "write_length n (length pre + 8) b (pre @ replicate 8 0) = pre @ replicate (8 - n) 0 @ ?r"
    using Suc by simp
  have i: "length pre + 8 - 1 - n = length (pre @ replicate (7 - n) (0 :: u8))" using Suc.prems by simp
  have "write_length (Suc n) (length pre + 8) b (pre @ replicate 8 0) =
      ((pre @ replicate (7 - n) 0) @ 0 # ?r)[length (pre @ replicate (7 - n) (0 :: u8)) := ucast (drop_bit (n * 8) b)]"
    unfolding write_length.simps ih z i by (simp only: append_assoc append.simps)
  also have "\<dots> = (pre @ replicate (7 - n) 0) @ ucast (drop_bit (n * 8) b) # ?r"
    by (simp only: list_update_length)
  finally show ?case using Suc.prems by simp
qed simp

lemma padded_message_eq: "padded_message data = fips_pad data"
proof -
  let ?n = "length data"
  let ?z = "fips_zeros ?n"
  let ?pre = "data @ 0x80 # replicate ?z 0 :: u8 list"
  have L: "padded_length ?n = ?n + 1 + ?z + 8"
    using zeros_padded [of ?n] by (simp add: padded_length_def)
  have "drop ?n (replicate (padded_length ?n) 0) = (0 :: u8) # replicate ?z 0 @ replicate 8 0"
    using L by (simp flip: replicate_Suc replicate_add)
  then have "(data @ drop ?n (replicate (padded_length ?n) 0))[?n := 0x80] = ?pre @ replicate 8 0"
    by (simp add: list_update_append)
  moreover have "padded_length ?n = length ?pre + 8" using L by simp
  ultimately show ?thesis
    using write_length_tail [of 8 ?pre "of_nat ?n * 8"] by (simp add: padded_message_def fips_pad_def Let_def mult.commute)
qed

lemma length_pad: "length (fips_pad data) = padded_length (length data)"
  using zeros_padded [of "length data"] by (simp add: fips_pad_def padded_length_def)


end
