(* ===== verification/Vebc.thy ===== *)
theory Vebc
  imports Sha256 Objects
begin

section \<open>Bytecode files (vebc_writer.c, vebc_loader.c)\<close>

text \<open>
  The builder that collects functions, strings, constants and assets, the bytes it writes, and the
  loader that parses them and rebuilds the entry function.  Files are lists of bytes; opening,
  mapping and closing them is left out, as are the capacities of the builder's growing arrays.
  A result of \<open>vebc_load\<close> is an error or the parsed file.  The outer \<open>None\<close> of \<open>vebc_to_function\<close>
  is a read outside the mapped file.
\<close>

unbundle bit_operations_syntax

subsection \<open>Little-endian integers\<close>

definition write_u16_le :: "u16 \<Rightarrow> u8 list" where
  "write_u16_le v = [ucast (v AND 0xFF), ucast (drop_bit 8 v AND 0xFF)]"

definition write_u32_le :: "u32 \<Rightarrow> u8 list" where
  "write_u32_le v = [ucast (v AND 0xFF), ucast (drop_bit 8 v AND 0xFF), ucast (drop_bit 16 v AND 0xFF),
     ucast (drop_bit 24 v AND 0xFF)]"

definition write_i64_le :: "64 word \<Rightarrow> u8 list" where
  "write_i64_le v = map (\<lambda>i. ucast (drop_bit (i * 8) v)) [0..<8]"

text \<open>\<open>memcpy\<close> of the bits, on a little-endian machine.\<close>

definition write_f64_le :: "64 word \<Rightarrow> u8 list" where
  "write_f64_le v = map (\<lambda>i. ucast (drop_bit (i * 8) v)) [0..<8]"

definition read_u16_le :: "u8 list \<Rightarrow> nat \<Rightarrow> u16" where
  "read_u16_le buf i = ucast (buf ! i) OR push_bit 8 (ucast (buf ! (i + 1)))"

definition read_u32_le :: "u8 list \<Rightarrow> nat \<Rightarrow> u32" where
  "read_u32_le buf i = ucast (buf ! i) OR push_bit 8 (ucast (buf ! (i + 1))) OR
     push_bit 16 (ucast (buf ! (i + 2))) OR push_bit 24 (ucast (buf ! (i + 3)))"

definition read_i64_le :: "u8 list \<Rightarrow> nat \<Rightarrow> 64 word" where
  "read_i64_le buf p = foldl (\<lambda>u i. u OR push_bit (i * 8) (ucast (buf ! (p + i)))) 0 [0..<8]"

definition read_f64_le :: "u8 list \<Rightarrow> nat \<Rightarrow> 64 word" where
  "read_f64_le buf p = foldl (\<lambda>u i. u OR push_bit (i * 8) (ucast (buf ! (p + i)))) 0 [0..<8]"

subsection \<open>The builder\<close>

definition VEBC_MAX_STRINGS :: int where [simp]: "VEBC_MAX_STRINGS = 4096"
definition VEBC_MAX_CONSTANTS :: int where [simp]: "VEBC_MAX_CONSTANTS = 4096"
definition VEBC_MAX_FUNCTIONS :: int where [simp]: "VEBC_MAX_FUNCTIONS = 1024"
definition VEBC_MAX_ASSETS :: int where [simp]: "VEBC_MAX_ASSETS = 1024"

datatype (plugins only: code size) vebc_constant =
  CONST_TAG_INT "64 word" | CONST_TAG_FLOAT "64 word" | CONST_TAG_STRING u32 | CONST_TAG_BYTES "u8 list"
  | CONST_TAG_FUNC_REF u32

record vebc_function =
  vf_name_idx :: u32
  vf_num_regs :: u16
  vf_num_params :: u8
  vf_num_upvalues :: u8
  vf_code_offset :: u32
  vf_code_length :: u32
  vf_line_table_offset :: u32
  vf_line_table_length :: u32

record vebc_upvalue =
  vu_src_idx :: u32
  vu_slot :: u8
  vu_is_local :: u8

record vebc_line_entry =
  le_code_offset :: u32
  le_source_line :: u32

record vebc_asset =
  va_path_idx :: u32
  va_data :: "u8 list"

record vebc_builder =
  vb_strings :: "string list"
  vb_constants :: "vebc_constant list"
  vb_functions :: "vebc_function list"
  vb_upvalues :: "vebc_upvalue list"
  vb_instructions :: "u8 list"
  vb_line_entries :: "vebc_line_entry list"
  vb_assets :: "vebc_asset list"

definition vebc_builder_init :: vebc_builder where
  "vebc_builder_init = \<lparr>vb_strings = [], vb_constants = [], vb_functions = [], vb_upvalues = [],
     vb_instructions = [], vb_line_entries = [], vb_assets = []\<rparr>"

fun find_index :: "string list \<Rightarrow> string \<Rightarrow> nat \<Rightarrow> nat option" where
  "find_index [] s i = None"
| "find_index (t # ts) s i = (if t = s then Some i else find_index ts s (i + 1))"

definition vebc_builder_add_string :: "vebc_builder \<Rightarrow> string \<Rightarrow> u32 \<times> vebc_builder" where
  "vebc_builder_add_string b s =
     (case find_index (vb_strings b) s 0 of
        Some i \<Rightarrow> (of_nat i, b)
      | None \<Rightarrow>
          if VEBC_MAX_STRINGS \<le> int (length (vb_strings b)) then (0, b)
          else (of_nat (length (vb_strings b)), b\<lparr>vb_strings := vb_strings b @ [s]\<rparr>))"

text \<open>One entry where the line changes; \<open>pl\<close> is the previous line, \<open>-1\<close> at first.\<close>

fun line_entries :: "nat \<Rightarrow> int \<Rightarrow> nat list \<Rightarrow> vebc_line_entry list" where
  "line_entries i pl [] = []"
| "line_entries i pl (ln # lns) =
     (if int ln \<noteq> pl
      then \<lparr>le_code_offset = of_nat i, le_source_line = of_nat ln\<rparr> # line_entries (i + 1) (int ln) lns
      else line_entries (i + 1) pl lns)"

definition add_constant :: "heap \<Rightarrow> vebc_builder \<Rightarrow> val64 \<Rightarrow> vebc_builder" where
  "add_constant h b v =
     (if IS_INT v then b\<lparr>vb_constants := vb_constants b @ [CONST_TAG_INT (value_as_int v)]\<rparr>
      else if IS_FLOAT v then b\<lparr>vb_constants := vb_constants b @ [CONST_TAG_FLOAT (value_as_double v)]\<rparr>
      else case obj_of h v of
          Some (OBJ_STRING s) \<Rightarrow>
            (let (i, b) = vebc_builder_add_string b s in b\<lparr>vb_constants := vb_constants b @ [CONST_TAG_STRING i]\<rparr>)
        | Some (OBJ_FUNCTION f) \<Rightarrow>
            b\<lparr>vb_constants := vb_constants b @ [CONST_TAG_FUNC_REF (of_nat (length (vb_functions b)))]\<rparr>
        | Some (OBJ_BYTES bs) \<Rightarrow> b\<lparr>vb_constants := vb_constants b @ [CONST_TAG_BYTES bs]\<rparr>
        | _ \<Rightarrow> b)"

fun add_constants :: "heap \<Rightarrow> val64 list \<Rightarrow> vebc_builder \<Rightarrow> vebc_builder" where
  "add_constants h [] b = b"
| "add_constants h (v # vs) b =
     (if VEBC_MAX_CONSTANTS \<le> int (length (vb_constants b)) then b else add_constants h vs (add_constant h b v))"

text \<open>The function's slot is written while the others are added, and counted at the end.\<close>

definition vebc_builder_add_function :: "heap \<Rightarrow> obj_function \<Rightarrow> vebc_builder \<Rightarrow> vebc_builder" where
  "vebc_builder_add_function h fn b =
     (if VEBC_MAX_FUNCTIONS \<le> int (length (vb_functions b)) then b
      else
        let (name_idx, b) = vebc_builder_add_string b
              (case fn_name fn of Some p \<Rightarrow> AS_STRING h (OBJ_VAL p) | None \<Rightarrow> ''<script>'');
            chunk = fn_chunk fn;
            entries = line_entries 0 (- 1) (take (length (ck_code chunk)) (ck_lines chunk));
            vf = \<lparr>vf_name_idx = name_idx, vf_num_regs = ucast (fn_arity fn) + 16, vf_num_params = fn_arity fn,
                   vf_num_upvalues = fn_upvalue_count fn, vf_code_offset = of_nat (length (vb_instructions b)),
                   vf_code_length = of_nat (length (ck_code chunk)),
                   vf_line_table_offset = of_nat (length (vb_line_entries b)),
                   vf_line_table_length = of_nat (length entries)\<rparr>;
            b = b\<lparr>vb_instructions := vb_instructions b @ ck_code chunk, vb_line_entries := vb_line_entries b @ entries\<rparr>;
            b = add_constants h (ck_constants chunk) b
        in b\<lparr>vb_functions := vb_functions b @ [vf]\<rparr>)"

definition vebc_builder_add_asset :: "string \<Rightarrow> u8 list \<Rightarrow> vebc_builder \<Rightarrow> vebc_builder" where
  "vebc_builder_add_asset path data b =
     (if VEBC_MAX_ASSETS \<le> int (length (vb_assets b)) then b
      else let (i, b) = vebc_builder_add_string b path
           in b\<lparr>vb_assets := vb_assets b @ [\<lparr>va_path_idx = i, va_data = data\<rparr>]\<rparr>)"

subsection \<open>Writing\<close>

abbreviation write_count :: "'a list \<Rightarrow> u8 list" where
  "write_count xs \<equiv> write_u32_le (of_nat (length xs))"

definition string_bytes :: "string \<Rightarrow> u8 list" where
  "string_bytes s = map of_char s"

fun write_constant :: "vebc_constant \<Rightarrow> u8 list" where
  "write_constant (CONST_TAG_INT i) = 1 # write_i64_le i"
| "write_constant (CONST_TAG_FLOAT d) = 2 # write_f64_le d"
| "write_constant (CONST_TAG_STRING i) = 3 # write_u32_le i"
| "write_constant (CONST_TAG_BYTES bs) = 4 # write_count bs @ bs"
| "write_constant (CONST_TAG_FUNC_REF i) = 5 # write_u32_le i"

definition write_string :: "string \<Rightarrow> u8 list" where
  "write_string s = write_count s @ string_bytes s"

definition write_function :: "vebc_function \<Rightarrow> u8 list" where
  "write_function f = write_u32_le (vf_name_idx f) @ write_u16_le (vf_num_regs f) @ [vf_num_params f, vf_num_upvalues f] @
     write_u32_le (vf_code_offset f) @ write_u32_le (vf_code_length f) @
     write_u32_le (vf_line_table_offset f) @ write_u32_le (vf_line_table_length f)"

definition write_upvalue :: "vebc_upvalue \<Rightarrow> u8 list" where
  "write_upvalue u = write_u32_le (vu_src_idx u) @ [vu_slot u, vu_is_local u]"

definition write_line_entry :: "vebc_line_entry \<Rightarrow> u8 list" where
  "write_line_entry e = write_u32_le (le_code_offset e) @ write_u32_le (le_source_line e)"

definition write_asset :: "vebc_asset \<Rightarrow> u8 list" where
  "write_asset a = write_u32_le (va_path_idx a) @ write_count (va_data a) @ va_data a"

definition vebc_sections :: "vebc_builder \<Rightarrow> u8 list" where
  "vebc_sections b =
     write_count (vb_constants b) @ concat (map write_constant (vb_constants b)) @
     write_count (vb_strings b) @ concat (map write_string (vb_strings b)) @
     write_count (vb_functions b) @ concat (map write_function (vb_functions b)) @
     write_count (vb_upvalues b) @ concat (map write_upvalue (vb_upvalues b)) @
     write_count (vb_instructions b) @ vb_instructions b @
     write_count (vb_line_entries b) @ concat (map write_line_entry (vb_line_entries b)) @
     write_count (vb_assets b) @ concat (map write_asset (vb_assets b))"

text \<open>The header is 64 bytes: magic, version, flags, the hash of the rest, zeros.\<close>

definition vebc_builder_write :: "vebc_builder \<Rightarrow> u8 list" where
  "vebc_builder_write b =
     (let sections = vebc_sections b
      in [0x56, 0x45, 0x42, 0x43] @ write_u16_le 1 @ write_u16_le 0 @ sha256_compute sections @ replicate 24 0 @ sections)"

subsection \<open>Loading\<close>

datatype vebc_error = Too_Small | Bad_Magic | Unsupported_Version u16 | Truncated | Unknown_Tag u8

record vebc_file =
  vl_data :: "u8 list"
  vl_version :: u16
  vl_flags :: u16
  vl_sha256 :: "u8 list"
  vl_const_count :: u32
  vl_string_count :: u32
  vl_func_count :: u32
  vl_upvalue_count :: u32
  vl_instr_length :: u32
  vl_line_count :: u32
  vl_asset_count :: u32
  vl_const_offset :: nat
  vl_string_offset :: nat
  vl_func_offset :: nat
  vl_upvalue_offset :: nat
  vl_instr_offset :: nat
  vl_line_offset :: nat
  vl_asset_offset :: nat
  vl_strings :: "string list"

definition if_loaded :: "vebc_error + 'a \<Rightarrow> ('a \<Rightarrow> vebc_error + 'b) \<Rightarrow> vebc_error + 'b" where
  "if_loaded r next_section = (case r of Inr x \<Rightarrow> next_section x | Inl e \<Rightarrow> Inl e)"

lemma if_loaded_simps [simp]: "if_loaded (Inr x) f = f x" "if_loaded (Inl e) f = Inl e"
  by (simp_all add: if_loaded_def)

text \<open>\<open>if (pos + 4 > file_size) goto truncated;\<close> and the count that follows.\<close>

definition load_count :: "u8 list \<Rightarrow> nat \<Rightarrow> vebc_error + u32 \<times> nat" where
  "load_count data pos =
     (if length data < pos + 4 then Inl Truncated else Inr (read_u32_le data pos, pos + 4))"

definition skip_bytes :: "u8 list \<Rightarrow> nat \<Rightarrow> nat \<Rightarrow> vebc_error + nat" where
  "skip_bytes data n pos = (if length data < pos + n then Inl Truncated else Inr (pos + n))"

definition skip_constant :: "u8 list \<Rightarrow> nat \<Rightarrow> vebc_error + nat" where
  "skip_constant data pos =
     (if length data < pos + 1 then Inl Truncated
      else
        let tag = data ! pos; pos = pos + 1
        in if tag = 1 \<or> tag = 2 then skip_bytes data 8 pos
           else if tag = 3 \<or> tag = 5 then skip_bytes data 4 pos
           else if tag = 4 then if_loaded (load_count data pos) (\<lambda>(len, pos). skip_bytes data (unat len) pos)
           else Inl (Unknown_Tag tag))"

fun skip_constants :: "u8 list \<Rightarrow> nat \<Rightarrow> nat \<Rightarrow> vebc_error + nat" where
  "skip_constants data 0 pos = Inr pos"
| "skip_constants data (Suc n) pos = if_loaded (skip_constant data pos) (skip_constants data n)"

definition bytes_string :: "u8 list \<Rightarrow> string" where
  "bytes_string bs = map (\<lambda>b. char_of (unat b)) bs"

definition load_string :: "u8 list \<Rightarrow> nat \<Rightarrow> vebc_error + string \<times> nat" where
  "load_string data pos =
     if_loaded (load_count data pos) (\<lambda>(slen, pos).
       if length data < pos + unat slen then Inl Truncated
       else Inr (bytes_string (take (unat slen) (drop pos data)), pos + unat slen))"

fun load_strings :: "u8 list \<Rightarrow> nat \<Rightarrow> nat \<Rightarrow> vebc_error + string list \<times> nat" where
  "load_strings data 0 pos = Inr ([], pos)"
| "load_strings data (Suc n) pos =
     if_loaded (load_string data pos) (\<lambda>(s, pos).
       if_loaded (load_strings data n pos) (\<lambda>(ss, pos). Inr (s # ss, pos)))"

definition vebc_load :: "u8 list \<Rightarrow> vebc_error + vebc_file" where
  "vebc_load data =
     (if length data < 64 then Inl Too_Small
      else if take 4 data \<noteq> [0x56, 0x45, 0x42, 0x43] then Inl Bad_Magic
      else if read_u16_le data 4 \<noteq> 1 then Inl (Unsupported_Version (read_u16_le data 4))
      else
        if_loaded (load_count data 64) (\<lambda>(const_count, const_offset).
        if_loaded (skip_constants data (unat const_count) const_offset) (\<lambda>pos.
        if_loaded (load_count data pos) (\<lambda>(string_count, string_offset).
        if_loaded (load_strings data (unat string_count) string_offset) (\<lambda>(strings, pos).
        if_loaded (load_count data pos) (\<lambda>(func_count, func_offset).
        if_loaded (skip_bytes data (unat func_count * 24) func_offset) (\<lambda>pos.
        if_loaded (load_count data pos) (\<lambda>(upvalue_count, upvalue_offset).
        if_loaded (skip_bytes data (unat upvalue_count * 6) upvalue_offset) (\<lambda>pos.
        if_loaded (load_count data pos) (\<lambda>(instr_length, instr_offset).
        if_loaded (skip_bytes data (unat instr_length) instr_offset) (\<lambda>pos.
        if_loaded (load_count data pos) (\<lambda>(line_count, line_offset).
        if_loaded (skip_bytes data (unat line_count * 8) line_offset) (\<lambda>pos.
        if_loaded (load_count data pos) (\<lambda>(asset_count, asset_offset).
        Inr \<lparr>vl_data = data, vl_version = read_u16_le data 4, vl_flags = read_u16_le data 6,
             vl_sha256 = take 32 (drop 8 data), vl_const_count = const_count, vl_string_count = string_count,
             vl_func_count = func_count, vl_upvalue_count = upvalue_count, vl_instr_length = instr_length,
             vl_line_count = line_count, vl_asset_count = asset_count, vl_const_offset = const_offset,
             vl_string_offset = string_offset, vl_func_offset = func_offset, vl_upvalue_offset = upvalue_offset,
             vl_instr_offset = instr_offset, vl_line_offset = line_offset, vl_asset_offset = asset_offset,
             vl_strings = strings\<rparr>))))))))))))))"

definition vebc_verify :: "vebc_file \<Rightarrow> bool" where
  "vebc_verify file = (if length (vl_data file) < 64 then False
     else sha256_compute (drop 64 (vl_data file)) = vl_sha256 file)"

subsection \<open>Rebuilding the entry function\<close>

text \<open>\<open>n\<close> bytes at \<open>pos\<close>; \<open>None\<close> is a read outside the file.\<close>

definition read_bytes :: "u8 list \<Rightarrow> nat \<Rightarrow> nat \<Rightarrow> u8 list option" where
  "read_bytes data pos n = (if length data < pos + n then None else Some (take n (drop pos data)))"

fun write_code :: "u8 list \<Rightarrow> chunk \<Rightarrow> chunk" where
  "write_code [] chunk = chunk"
| "write_code (c # cs) chunk = write_code cs (chunk_write chunk c 0)"

text \<open>The inner loop over the line entries at or before offset \<open>i\<close>; \<open>k\<close> entries are left.\<close>

fun advance_line :: "u8 list \<Rightarrow> nat \<Rightarrow> nat \<Rightarrow> nat \<Rightarrow> u32 \<Rightarrow> (nat \<times> nat \<times> u32) option" where
  "advance_line data 0 src i current = Some (0, src, current)"
| "advance_line data (Suc k) src i current =
     (if length data < src + 8 then None
      else if read_u32_le data src \<le> of_nat i then advance_line data k (src + 8) i (read_u32_le data (src + 4))
      else Some (Suc k, src, current))"

fun line_loop :: "u8 list \<Rightarrow> nat \<Rightarrow> nat \<Rightarrow> nat \<Rightarrow> nat \<Rightarrow> u32 \<Rightarrow> nat list option" where
  "line_loop data 0 i k src current = Some []"
| "line_loop data (Suc n) i k src current =
     Option.bind (advance_line data k src i current) (\<lambda>(k, src, current).
       map_option (\<lambda>lns. unat current # lns) (line_loop data n (i + 1) k src current))"

definition load_constant :: "vebc_file \<Rightarrow> nat \<Rightarrow> heap \<Rightarrow> (val64 \<times> nat \<times> heap) option" where
  "load_constant file pos h =
     (let data = vl_data file
      in if length data < pos + 1 then None
         else
           let tag = data ! pos; pos = pos + 1
           in if tag = 1 then
                (if length data < pos + 8 then None else Some (int_val (read_i64_le data pos), pos + 8, h))
              else if tag = 2 then
                (if length data < pos + 8 then None else Some (double_val (read_f64_le data pos), pos + 8, h))
              else if tag = 3 then
                (if length data < pos + 4 then None
                 else let i = read_u32_le data pos
                   in if i < vl_string_count file
                      then let (s, h) = intern_string h (vl_strings file ! unat i) in Some (OBJ_VAL s, pos + 4, h)
                      else Some (VAL_NIL, pos + 4, h))
              else if tag = 5 then (if length data < pos + 4 then None else Some (VAL_NIL, pos + 4, h))
              else if tag = 4 then
                (if length data < pos + 4 then None
                 else let len = read_u32_le data pos; pos = pos + 4
                   in Option.bind (read_bytes data pos (unat len)) (\<lambda>bs.
                        let (p, h) = obj_bytes_new h bs in Some (OBJ_VAL p, pos + unat len, h)))
              else Some (VAL_NIL, pos, h))"

fun load_constants :: "vebc_file \<Rightarrow> nat \<Rightarrow> nat \<Rightarrow> heap \<Rightarrow> chunk \<Rightarrow> (heap \<times> chunk) option" where
  "load_constants file 0 pos h chunk = Some (h, chunk)"
| "load_constants file (Suc n) pos h chunk =
     Option.bind (load_constant file pos h) (\<lambda>(v, pos, h).
       load_constants file n pos h (snd (chunk_add_constant chunk v)))"

text \<open>The additions of offsets and lengths are on 32 bits, as in the code.\<close>

definition load_chunk :: "vebc_file \<Rightarrow> u32 \<Rightarrow> u32 \<Rightarrow> u32 \<Rightarrow> u32 \<Rightarrow> (chunk option) option" where
  "load_chunk file code_offset code_length line_table_offset line_table_length =
     (if 0 < code_length \<and> vl_instr_length file < code_offset + code_length then Some None
      else
        Option.bind (if 0 < code_length
            then map_option (\<lambda>code. write_code code chunk_init)
                   (read_bytes (vl_data file) (vl_instr_offset file + unat code_offset) (unat code_length))
            else Some chunk_init) (\<lambda>chunk.
        if 0 < line_table_length \<and> line_table_offset + line_table_length \<le> vl_line_count file
        then map_option (\<lambda>lns. Some (chunk\<lparr>ck_lines := lns\<rparr>))
               (line_loop (vl_data file) (unat code_length) 0 (unat line_table_length)
                  (vl_line_offset file + unat line_table_offset * 8) 1)
        else Some (Some chunk)))"

definition vebc_to_function :: "vebc_file \<Rightarrow> heap \<Rightarrow> (ptr option \<times> heap) option" where
  "vebc_to_function file h =
     (if vl_func_count file = 0 then Some (None, h)
      else if length (vl_data file) < vl_func_offset file + 24 then None
      else
        let data = vl_data file;
            entry = vl_func_offset file;
            name_idx = read_u32_le data entry;
            (fn, h) = obj_function_new h;
            (name, h) = (if name_idx < vl_string_count file
              then let (s, h) = intern_string h (vl_strings file ! unat name_idx) in (Some s, h) else (None, h));
            h = update_function fn (\<lambda>f. f\<lparr>fn_arity := data ! (entry + 6), fn_upvalue_count := data ! (entry + 7),
                   fn_name := name\<rparr>) h
        in Option.bind (load_chunk file (read_u32_le data (entry + 8)) (read_u32_le data (entry + 12))
               (read_u32_le data (entry + 16)) (read_u32_le data (entry + 20)))
             (\<lambda>c. case c of
                None \<Rightarrow> Some (None, h)
              | Some chunk \<Rightarrow>
                  map_option (\<lambda>(h, chunk). (Some fn, update_function fn (\<lambda>f. f\<lparr>fn_chunk := chunk\<rparr>) h))
                    (load_constants file (unat (vl_const_count file)) (vl_const_offset file) h chunk)))"

end
