(* ===== verification/Obj_Refs.thy ===== *)
theory Obj_Refs
  imports Objects
begin

section \<open>Pointers and interned strings\<close>

text \<open>Facts on object pointers and on \<open>intern_string\<close> that the bytecode loader and the machine share.\<close>

unbundle bit_operations_syntax

lemma OBJ_VAL_ptr:
  assumes "p + 1 < 2 ^ 43"
  shows "IS_PTR (OBJ_VAL p)" and "AS_PTR (OBJ_VAL p) = p"
proof -
  let ?a = "of_nat (16 * (p + 1)) :: 64 word"
  have u: "unat ?a = 16 * (p + 1)" using assms by (simp add: unat_of_nat del: of_nat_mult of_nat_add)
  have "?a < 2 ^ 47" using u assms by (simp add: word_less_nat_alt)
  moreover have "take_bit 4 ?a = 0"
  proof -
    have "unat (take_bit 4 ?a) = 0" unfolding unsigned_take_bit_eq u by (simp add: take_bit_eq_mod)
    then show ?thesis by (simp add: unat_eq_0)
  qed
  ultimately have "IS_PTR (OBJ_VAL p) \<and> value_as_ptr (OBJ_VAL p) = ?a"
    unfolding OBJ_VAL_def by (rule ptr_val_roundtrip [rotated])
  then show "IS_PTR (OBJ_VAL p)" "AS_PTR (OBJ_VAL p) = p"
    using u by (simp_all add: AS_PTR_def)
qed

lemma obj_of_OBJ_VAL: "p < length h \<Longrightarrow> length h < 2 ^ 43 \<Longrightarrow> obj_of h (OBJ_VAL p) = Some (h ! p)"
  using OBJ_VAL_ptr [of p] by (simp add: obj_of_def)

lemma int_not_ptr: "IS_INT v \<Longrightarrow> obj_of h v = None" and float_not_ptr: "IS_FLOAT v \<Longrightarrow> obj_of h v = None"
  using value_tags_exclusive [of v] by (auto simp: obj_of_def split: if_splits)

lemma obj_of_append: "obj_of h v = Some ob \<Longrightarrow> obj_of (h @ os) v = Some ob"
  by (auto simp: obj_of_def nth_append split: if_splits)

lemma obj_of_not_tagged: "obj_of h v = Some ob \<Longrightarrow> \<not> IS_INT v \<and> \<not> IS_FLOAT v"
  using int_not_ptr float_not_ptr by fastforce

lemma find_string_Some: "find_string h s i = Some p \<Longrightarrow> i \<le> p \<and> p - i < length h \<and> h ! (p - i) = OBJ_STRING s"
proof (induction h s i rule: find_string.induct)
  case (2 obj h s i)
  then show ?case by (cases obj) (fastforce simp: nth_Cons' Suc_diff_le split: if_splits)+
qed simp

lemma find_string_None: "find_string h s i = None \<longleftrightarrow> OBJ_STRING s \<notin> set h"
  by (induction h s i rule: find_string.induct) (auto split: obj.splits)

lemma intern_string_result:
  assumes "intern_string h s = (p, h')"
  obtains os where "h' = h @ os" "length os \<le> 1" "p < length h'" "h' ! p = OBJ_STRING s"
proof (cases "find_string h s 0")
  case None
  then show ?thesis using assms that [of "[OBJ_STRING s]"] by (auto simp: intern_string_def alloc_object_def)
next
  case (Some q)
  then show ?thesis using assms that [of "[]"] find_string_Some [OF Some] by (auto simp: intern_string_def)
qed

text \<open>A string that is in the heap is found, so two interned pointers agree when the contents do.\<close>

lemma intern_string_found: "OBJ_STRING s \<in> set h \<Longrightarrow> \<exists>p. intern_string h s = (p, h)"
  using find_string_None [of h s 0] by (auto simp: intern_string_def split: option.split)

lemma int_val_of_int: "IS_INT v \<Longrightarrow> int_val (value_as_int v) = v"
proof (rule bit_word_eqI)
  fix n
  assume i: "IS_INT v"
  let ?w = "int_val (value_as_int v)"
  have hi: "drop_bit 48 ?w = drop_bit 48 v" using i by (simp add: tag_iffs int_tag_payload)
  have lo: "take_bit 48 ?w = take_bit 48 v"
    by (simp only: int_tag_payload value_as_int_signed) (rule take_bit_signed_take_bit, simp)
  show "bit ?w n = bit v n"
  proof (cases "n < 48")
    case True
    have "bit (take_bit 48 ?w) n = bit (take_bit 48 v) n" by (simp only: lo)
    then show ?thesis using True by (simp only: bit_take_bit_iff simp_thms)
  next
    case False
    have "bit (drop_bit 48 ?w) (n - 48) = bit (drop_bit 48 v) (n - 48)" by (simp only: hi)
    then show ?thesis using False by (simp only: bit_drop_bit_eq o_def le_add_diff_inverse not_less)
  qed
qed

end
