(* ===== verification/Vebc_Correct.thy ===== *)
theory Vebc_Correct
  imports Vebc Obj_Refs
begin

section \<open>Bytecode files: what is written is loaded\<close>

text \<open>
  \<open>le_codec\<close> is the contract between a writer and a reader of a little-endian integer, interpreted
  on the four pairs of the code; \<open>here data pos bs\<close> says that the file continues with \<open>bs\<close> at
  \<open>pos\<close>.  On top of them: every section is parsed back where it was written, the entry function
  comes back as it was, and what is lost on the way.
\<close>

unbundle bit_operations_syntax

subsection \<open>Positions in a file\<close>

definition here :: "u8 list \<Rightarrow> nat \<Rightarrow> u8 list \<Rightarrow> bool" where
  "here data pos bs \<longleftrightarrow> pos \<le> length data \<and> drop pos data = bs"

lemma here_length: "here data pos (bs @ rest) \<Longrightarrow> pos + length bs \<le> length data"
  by (auto simp: here_def dest!: arg_cong [where f = length])

lemma here_next: "here data pos (bs @ rest) \<Longrightarrow> here data (pos + length bs) rest"
  using here_length [of data pos bs rest] by (auto simp: here_def drop_append_drop)

lemma here_nth: "here data pos (bs @ rest) \<Longrightarrow> i < length bs \<Longrightarrow> data ! (pos + i) = bs ! i"
  by (auto simp: here_def intro: nth_append_drop)

lemma here_take: "here data pos (bs @ rest) \<Longrightarrow> take (length bs) (drop pos data) = bs"
  by (simp add: here_def)

subsection \<open>Little-endian integers\<close>

locale le_codec =
  fixes enc :: "'a::len word \<Rightarrow> u8 list" and dec :: "u8 list \<Rightarrow> nat \<Rightarrow> 'a word" and width :: nat
  assumes enc_length [simp]: "length (enc v) = width"
    and dec_enc: "here data pos (enc v @ rest) \<Longrightarrow> dec data pos = v"
begin

lemma dec_next: "here data pos (enc v @ rest) \<Longrightarrow> here data (pos + width) rest"
  using here_next [of data pos "enc v" rest] by simp

lemma dec_fits: "here data pos (enc v @ rest) \<Longrightarrow> \<not> length data < pos + width"
  using here_length [of data pos "enc v" rest] by simp

lemma dec_pair: "here data pos (enc v @ enc w @ rest) \<Longrightarrow> dec data (pos + width) = w"
  by (rule dec_enc [OF dec_next])

end

lemma low_byte [simp]: "(ucast (v AND 255) :: u8) = ucast v"
proof -
  have "v AND 255 = take_bit 8 v" by (simp add: take_bit_eq_mask mask_eq_exp_minus_1)
  then show ?thesis by (intro bit_word_eqI) (simp add: bit_simps)
qed

text \<open>A word is the OR of its bytes.\<close>

lemma or_bytes:
  fixes v :: "'a::len word"
  shows "foldl (\<lambda>u i. u OR push_bit (i * 8) (ucast (ucast (drop_bit (i * 8) v) :: u8))) 0 [0..<n] = take_bit (8 * n) v"
proof (induction n)
  case (Suc n)
  have "take_bit (8 * n) v OR push_bit (n * 8) (ucast (ucast (drop_bit (n * 8) v) :: u8)) = take_bit (8 * Suc n) v"
    by (intro bit_word_eqI) (auto simp: bit_simps)
  then show ?case using Suc by simp
qed simp

lemma take_bit_full: "LENGTH('a) \<le> n \<Longrightarrow> take_bit n v = v" for v :: "'a::len word"
  by (intro bit_word_eqI) (auto simp: bit_simps)

lemma upt_bytes: "[0..<2] = [0, 1::nat]" "[0..<4] = [0, 1, 2, 3::nat]"
  by (simp_all add: upt_rec)

interpretation u16_le: le_codec write_u16_le read_u16_le 2
proof
  fix data pos v rest
  assume "here data pos (write_u16_le v @ rest)"
  note b = here_nth [OF this]
  have "data ! pos = ucast (v AND 0xFF)" "data ! (pos + 1) = ucast (drop_bit 8 v AND 0xFF)"
    using b [of 0] b [of 1] by (simp_all add: write_u16_le_def)
  then show "read_u16_le data pos = v"
    using or_bytes [of v 2] by (simp add: read_u16_le_def upt_bytes take_bit_full or.assoc)
qed (simp add: write_u16_le_def)

interpretation u32_le: le_codec write_u32_le read_u32_le 4
proof
  fix data pos v rest
  assume "here data pos (write_u32_le v @ rest)"
  note b = here_nth [OF this]
  have "data ! pos = ucast (v AND 0xFF)" "data ! (pos + 1) = ucast (drop_bit 8 v AND 0xFF)"
      "data ! (pos + 2) = ucast (drop_bit 16 v AND 0xFF)" "data ! (pos + 3) = ucast (drop_bit 24 v AND 0xFF)"
    using b [of 0] b [of 1] b [of 2] b [of 3] by (simp_all add: write_u32_le_def)
  then show "read_u32_le data pos = v"
    using or_bytes [of v 4] by (simp add: read_u32_le_def upt_bytes take_bit_full or.assoc)
qed (simp add: write_u32_le_def)

lemma bytes_of_64:
  assumes "here data pos (map (\<lambda>i. ucast (drop_bit (i * 8) v)) [0..<8] @ rest)"
  shows "foldl (\<lambda>u i. u OR push_bit (i * 8) (ucast (data ! (pos + i)))) 0 [0..<8] = (v :: 64 word)"
proof -
  have b: "data ! (pos + i) = ucast (drop_bit (i * 8) v)" if "i < 8" for i
    using here_nth [OF assms, of i] that by simp
  have "foldl (\<lambda>u i. u OR push_bit (i * 8) (ucast (data ! (pos + i)))) 0 [0..<8] =
      foldl (\<lambda>u i. u OR push_bit (i * 8) (ucast (ucast (drop_bit (i * 8) v) :: u8))) 0 [0..<8]"
    by (rule foldl_cong) (auto simp: b)
  also have "\<dots> = v"
    using or_bytes [of v 8] by (simp add: take_bit_full)
  finally show ?thesis .
qed

interpretation i64_le: le_codec write_i64_le read_i64_le 8
  by unfold_locales (auto simp: write_i64_le_def read_i64_le_def intro: bytes_of_64)

interpretation f64_le: le_codec write_f64_le read_f64_le 8
  by unfold_locales (auto simp: write_f64_le_def read_f64_le_def intro: bytes_of_64)

subsection \<open>Loading the sections\<close>

lemma load_count_eq: "here data pos (write_u32_le n @ rest) \<Longrightarrow> load_count data pos = Inr (n, pos + 4)"
  using u32_le.dec_fits u32_le.dec_enc by (simp add: load_count_def)

lemma skip_bytes_eq: "here data pos (bs @ rest) \<Longrightarrow> skip_bytes data (length bs) pos = Inr (pos + length bs)"
  using here_length [of data pos bs rest] by (simp add: skip_bytes_def)

definition constant_fits :: "vebc_constant \<Rightarrow> bool" where
  "constant_fits c \<longleftrightarrow> (case c of CONST_TAG_BYTES bs \<Rightarrow> length bs < 2 ^ 32 | _ \<Rightarrow> True)"

lemma unat_length: "length xs < 2 ^ 32 \<Longrightarrow> unat (of_nat (length xs) :: u32) = length xs"
  by (simp add: unat_of_nat)

lemma skip_constant_eq:
  assumes "here data pos (write_constant c @ rest)" and "constant_fits c"
  shows "skip_constant data pos = Inr (pos + length (write_constant c))"
proof -
  obtain tag body where w: "write_constant c = tag # body" by (cases c) auto
  have t: "data ! pos = tag" "\<not> length data < pos + 1"
    using here_nth [OF assms(1), of 0] here_length [OF assms(1)] w by auto
  have b: "here data (pos + 1) (body @ rest)"
    using here_next [of data pos "[tag]" "body @ rest"] assms(1) w by simp
  note s = skip_bytes_eq [OF b]
  show ?thesis
  proof (cases c)
    case (CONST_TAG_BYTES bs)
    then have "body = write_count bs @ bs" using w by simp
    then have b': "here data (pos + 1) (write_count bs @ bs @ rest)" using b w by simp
    have "load_count data (pos + 1) = Inr (of_nat (length bs), pos + 5)" using load_count_eq [OF b'] by simp
    moreover have "skip_bytes data (length bs) (pos + 5) = Inr (pos + 5 + length bs)"
      using skip_bytes_eq [OF u32_le.dec_next [OF b']] by (simp add: add.commute)
    ultimately show ?thesis
      using CONST_TAG_BYTES w t assms(2) by (auto simp: skip_constant_def constant_fits_def unat_length)
  qed (use w t s in \<open>auto simp: skip_constant_def\<close>)
qed

lemma skip_constants_eq:
  "here data pos (concat (map write_constant cs) @ rest) \<Longrightarrow> \<forall>c \<in> set cs. constant_fits c \<Longrightarrow>
   skip_constants data (length cs) pos = Inr (pos + length (concat (map write_constant cs)))"
proof (induction cs arbitrary: pos)
  case (Cons c cs)
  then have h: "here data pos (write_constant c @ concat (map write_constant cs) @ rest)" by simp
  show ?case
    using skip_constant_eq [OF h] Cons.IH [OF here_next [OF h]] Cons.prems(2) by (simp add: add.assoc)
qed simp

lemma char_of_byte [simp]: "char_of (unat (of_char c :: u8)) = c"
proof -
  have "(of_char c :: nat) < 256" using of_char_mod_256 [of c] mod_less_divisor [of 256 "of_char c"] by simp
  then have "unat (of_nat (of_char c) :: u8) = (of_char c :: nat)" by (simp add: unat_of_nat del: of_nat_of_char)
  then have "unat (of_char c :: u8) = of_char c" by (simp only: of_nat_of_char)
  then show ?thesis by (simp only: char_of_char)
qed

lemma bytes_string_bytes [simp]: "bytes_string (string_bytes s) = s"
  by (induction s) (simp_all add: bytes_string_def string_bytes_def)

lemma length_string_bytes [simp]: "length (string_bytes s) = length s"
  by (simp add: string_bytes_def)

lemma load_string_eq:
  assumes "here data pos (write_string s @ rest)" and "length s < 2 ^ 32"
  shows "load_string data pos = Inr (s, pos + length (write_string s))"
proof -
  have h: "here data pos (write_count s @ string_bytes s @ rest)" using assms(1) by (simp add: write_string_def)
  note n = u32_le.dec_next [OF h]
  have "pos + 4 + length s \<le> length data" using here_length [OF n] by simp
  then show ?thesis
    using load_count_eq [OF h] here_take [OF n] assms(2) by (simp add: load_string_def unat_length write_string_def)
qed

lemma load_strings_eq:
  "here data pos (concat (map write_string ss) @ rest) \<Longrightarrow> \<forall>s \<in> set ss. length s < 2 ^ 32 \<Longrightarrow>
   load_strings data (length ss) pos = Inr (ss, pos + length (concat (map write_string ss)))"
proof (induction ss arbitrary: pos)
  case (Cons s ss)
  then have h: "here data pos (write_string s @ concat (map write_string ss) @ rest)" by simp
  show ?case
    using load_string_eq [OF h] Cons.IH [OF here_next [OF h]] Cons.prems(2) by (simp add: add.assoc)
qed simp

lemma concat_length_const: "(\<And>x. length (f x) = n) \<Longrightarrow> length (concat (map f xs)) = length xs * n"
  by (induction xs) simp_all

lemma section_lengths [simp]:
  "length (write_function f) = 24" "length (write_upvalue u) = 6" "length (write_line_entry e) = 8"
  by (simp_all add: write_function_def write_upvalue_def write_line_entry_def)


definition builder_fits :: "vebc_builder \<Rightarrow> bool" where
  "builder_fits b \<longleftrightarrow> length (vb_constants b) < 2 ^ 32 \<and> (\<forall>c \<in> set (vb_constants b). constant_fits c) \<and>
     length (vb_strings b) < 2 ^ 32 \<and> (\<forall>s \<in> set (vb_strings b). length s < 2 ^ 32) \<and>
     length (vb_functions b) < 2 ^ 32 \<and> length (vb_upvalues b) < 2 ^ 32 \<and>
     length (vb_instructions b) < 2 ^ 32 \<and> length (vb_line_entries b) < 2 ^ 32 \<and> length (vb_assets b) < 2 ^ 32"

text \<open>What a loaded file says of the builder that wrote it.\<close>

definition describes :: "vebc_file \<Rightarrow> vebc_builder \<Rightarrow> bool" where
  "describes file b \<longleftrightarrow> vl_data file = vebc_builder_write b \<and> vl_version file = 1 \<and> vl_flags file = 0 \<and>
     vl_sha256 file = sha256_compute (vebc_sections b) \<and>
     unat (vl_const_count file) = length (vb_constants b) \<and> unat (vl_string_count file) = length (vb_strings b) \<and>
     unat (vl_func_count file) = length (vb_functions b) \<and> unat (vl_upvalue_count file) = length (vb_upvalues b) \<and>
     unat (vl_instr_length file) = length (vb_instructions b) \<and>
     unat (vl_line_count file) = length (vb_line_entries b) \<and> unat (vl_asset_count file) = length (vb_assets b) \<and>
     vl_strings file = vb_strings b \<and>
     (\<exists>rest. here (vl_data file) (vl_const_offset file) (concat (map write_constant (vb_constants b)) @ rest)) \<and>
     (\<exists>rest. here (vl_data file) (vl_func_offset file) (concat (map write_function (vb_functions b)) @ rest)) \<and>
     (\<exists>rest. here (vl_data file) (vl_upvalue_offset file) (concat (map write_upvalue (vb_upvalues b)) @ rest)) \<and>
     (\<exists>rest. here (vl_data file) (vl_instr_offset file) (vb_instructions b @ rest)) \<and>
     (\<exists>rest. here (vl_data file) (vl_line_offset file) (concat (map write_line_entry (vb_line_entries b)) @ rest)) \<and>
     here (vl_data file) (vl_asset_offset file) (concat (map write_asset (vb_assets b)))"

lemma header_here:
  "here (vebc_builder_write b) 0 ([0x56, 0x45, 0x42, 0x43] @ write_u16_le 1 @ write_u16_le 0 @
     sha256_compute (vebc_sections b) @ replicate 24 0 @ vebc_sections b)"
  by (simp add: vebc_builder_write_def here_def Let_def)

text \<open>One section: its count, its bytes, and what follows.\<close>

lemma section_step:
  assumes "here data pos (write_count xs @ concat (map enc xs) @ rest)" and "\<And>x. length (enc x) = n"
    and "length xs < 2 ^ 32"
  shows "load_count data pos = Inr (of_nat (length xs), pos + 4)"
    and "skip_bytes data (unat (of_nat (length xs) :: u32) * n) (pos + 4) = Inr (pos + 4 + length xs * n)"
    and "here data (pos + 4) (concat (map enc xs) @ rest)" and "here data (pos + 4 + length xs * n) rest"
proof -
  note h = u32_le.dec_next [OF assms(1)]
  note l = concat_length_const [of enc n xs, OF assms(2)]
  show "load_count data pos = Inr (of_nat (length xs), pos + 4)" by (rule load_count_eq [OF assms(1)])
  show "skip_bytes data (unat (of_nat (length xs) :: u32) * n) (pos + 4) = Inr (pos + 4 + length xs * n)"
    using skip_bytes_eq [OF h] l assms(3) by (simp add: unat_length)
  show "here data (pos + 4) (concat (map enc xs) @ rest)" by (rule h)
  show "here data (pos + 4 + length xs * n) rest" using here_next [OF h] l by simp
qed

lemma vebc_load_describes:
  assumes fits: "builder_fits b"
  shows "\<exists>file. vebc_load (vebc_builder_write b) = Inr file \<and> describes file b \<and> vebc_verify file"
proof -
  define data where "data = vebc_builder_write b"
  note h0 = header_here [of b, folded data_def]
  have h4: "here data 4 (write_u16_le 1 @ write_u16_le 0 @ sha256_compute (vebc_sections b) @ replicate 24 0 @ vebc_sections b)"
    using here_next [OF h0] by (simp add: eval_nat_numeral(3) eval_nat_numeral(2))
  note h6 = u16_le.dec_next [OF h4]
  have h8: "here data 8 (sha256_compute (vebc_sections b) @ replicate 24 0 @ vebc_sections b)"
    using u16_le.dec_next [OF h6] by simp
  have h40: "here data 40 (replicate 24 0 @ vebc_sections b)" using here_next [OF h8] by simp
  have h64: "here data 64 (vebc_sections b)" using here_next [OF h40] by simp
  have len: "\<not> length data < 64" using h64 by (simp add: here_def)
  have magic: "take 4 data = [0x56, 0x45, 0x42, 0x43]"
    using here_take [OF h0] by (simp add: eval_nat_numeral(3) eval_nat_numeral(2))
  have version: "read_u16_le data 4 = 1" "read_u16_le data 6 = 0"
    using u16_le.dec_enc [OF h4] u16_le.dec_enc [OF h6] by simp_all
  have sha: "take 32 (drop 8 data) = sha256_compute (vebc_sections b)" using here_take [OF h8] by simp
  let ?cs = "vb_constants b" and ?ss = "vb_strings b" and ?fs = "vb_functions b" and ?us = "vb_upvalues b"
    and ?is = "vb_instructions b" and ?ls = "vb_line_entries b" and ?as = "vb_assets b"
  let ?assets = "write_count ?as @ concat (map write_asset ?as)"
  let ?lines = "write_count ?ls @ concat (map write_line_entry ?ls) @ ?assets"
  let ?instrs = "write_count ?is @ ?is @ ?lines"
  let ?ups = "write_count ?us @ concat (map write_upvalue ?us) @ ?instrs"
  let ?funs = "write_count ?fs @ concat (map write_function ?fs) @ ?ups"
  let ?strs = "write_count ?ss @ concat (map write_string ?ss) @ ?funs"
  have c0: "here data 64 (write_count ?cs @ concat (map write_constant ?cs) @ ?strs)"
    using h64 by (simp add: vebc_sections_def)
  note c1 = u32_le.dec_next [OF c0]
  have fc: "\<forall>c \<in> set ?cs. constant_fits c" using fits by (simp add: builder_fits_def)
  note c2 = skip_constants_eq [OF c1 fc]
  define ps where "ps = 64 + 4 + length (concat (map write_constant ?cs))"
  have s0: "here data ps ?strs" using here_next [OF c1] by (simp add: ps_def)
  note s1 = u32_le.dec_next [OF s0]
  have fs: "\<forall>s \<in> set ?ss. length s < 2 ^ 32" using fits by (simp add: builder_fits_def)
  note s2 = load_strings_eq [OF s1 fs]
  define pf where "pf = ps + 4 + length (concat (map write_string ?ss))"
  have f0: "here data pf ?funs" using here_next [OF s1] by (simp add: pf_def)
  have n: "length ?cs < 2 ^ 32" "length ?ss < 2 ^ 32" "length ?fs < 2 ^ 32" "length ?us < 2 ^ 32" "length ?is < 2 ^ 32"
      "length ?ls < 2 ^ 32" "length ?as < 2 ^ 32"
    using fits by (simp_all add: builder_fits_def)
  note f = section_step [OF f0 section_lengths(1) n(3)]
  define pu where "pu = pf + 4 + length ?fs * 24"
  note u = section_step [OF f(4) [folded pu_def] section_lengths(2) n(4)]
  define pi where "pi = pu + 4 + length ?us * 6"
  have i0: "here data pi ?instrs" using u(4) by (simp add: pi_def)
  note i1 = u32_le.dec_next [OF i0]
  define pl where "pl = pi + 4 + length ?is"
  note l0 = here_next [OF i1, folded pl_def]
  note l = section_step [OF l0 section_lengths(3) n(6)]
  define pa where "pa = pl + 4 + length ?ls * 8"
  have a0: "here data pa (write_count ?as @ concat (map write_asset ?as) @ [])"
    using l(4) by (simp add: pa_def)
  note a1 = u32_le.dec_next [OF a0]
  have loads: "load_count data 64 = Inr (of_nat (length ?cs), 68)" "skip_constants data (length ?cs) 68 = Inr ps"
      "load_count data ps = Inr (of_nat (length ?ss), ps + 4)" "load_strings data (length ?ss) (ps + 4) = Inr (?ss, pf)"
      "load_count data pf = Inr (of_nat (length ?fs), pf + 4)" "skip_bytes data (length ?fs * 24) (pf + 4) = Inr pu"
      "load_count data pu = Inr (of_nat (length ?us), pu + 4)" "skip_bytes data (length ?us * 6) (pu + 4) = Inr pi"
      "load_count data pi = Inr (of_nat (length ?is), pi + 4)" "skip_bytes data (length ?is) (pi + 4) = Inr pl"
      "load_count data pl = Inr (of_nat (length ?ls), pl + 4)" "skip_bytes data (length ?ls * 8) (pl + 4) = Inr pa"
      "load_count data pa = Inr (of_nat (length ?as), pa + 4)"
    using load_count_eq [OF c0] c2 load_count_eq [OF s0] s2 f(1,2) u(1,2) load_count_eq [OF i0] skip_bytes_eq [OF i1] l(1,2)
      load_count_eq [OF a0] n
    by (simp_all only: unat_length ps_def pf_def pu_def pi_def pl_def pa_def)
      (simp_all only: add.assoc add_numeral_left numeral_plus_numeral num.simps arith_simps)
  define vf where "vf = \<lparr>vl_data = data, vl_version = 1, vl_flags = 0, vl_sha256 = sha256_compute (vebc_sections b),
     vl_const_count = of_nat (length ?cs), vl_string_count = of_nat (length ?ss), vl_func_count = of_nat (length ?fs),
     vl_upvalue_count = of_nat (length ?us), vl_instr_length = of_nat (length ?is), vl_line_count = of_nat (length ?ls),
     vl_asset_count = of_nat (length ?as), vl_const_offset = 68, vl_string_offset = ps + 4, vl_func_offset = pf + 4,
     vl_upvalue_offset = pu + 4, vl_instr_offset = pi + 4, vl_line_offset = pl + 4, vl_asset_offset = pa + 4,
     vl_strings = ?ss\<rparr>"
  have "vebc_load data = Inr vf"
    unfolding vebc_load_def vf_def by (simp add: len magic version sha loads n [THEN unat_length])
  moreover have "describes vf b"
    using c1 f(3) u(3) i1 l(3) a1 n
    by (auto simp: describes_def vf_def n [THEN unat_length] data_def [symmetric])
  moreover have "vebc_verify vf"
    using h64 len by (simp add: vebc_verify_def vf_def here_def)
  ultimately show ?thesis unfolding data_def by blast
qed


subsection \<open>Code and lines\<close>

lemma write_code_chunk: "ck_code (write_code cs c) = ck_code c @ cs \<and> ck_constants (write_code cs c) = ck_constants c"
  by (induction cs arbitrary: c) (simp_all add: chunk_write_def Let_def)

lemma add_constant_chunk [simp]:
  "ck_code (snd (chunk_add_constant c v)) = ck_code c" "ck_lines (snd (chunk_add_constant c v)) = ck_lines c"
  "ck_constants (snd (chunk_add_constant c v)) = ck_constants c @ [v]"
  by (simp_all add: chunk_add_constant_def Let_def)

text \<open>The entries that are left start after the position of the loop.\<close>

lemma line_entries_offset:
  "e \<in> set (line_entries i pl lns) \<Longrightarrow> \<exists>j. i \<le> j \<and> j < i + length lns \<and> le_code_offset e = of_nat j"
proof (induction lns arbitrary: i pl)
  case (Cons ln lns)
  show ?case
  proof (cases "e \<in> set (line_entries (i + 1) (int ln) lns) \<or> e \<in> set (line_entries (i + 1) pl lns)")
    case True
    then obtain j where "i + 1 \<le> j" "j < i + 1 + length lns" "le_code_offset e = of_nat j" using Cons.IH by blast
    then show ?thesis by (intro exI [of _ j]) simp
  next
    case False
    then have "le_code_offset e = of_nat i" using Cons.prems by (auto split: if_splits)
    then show ?thesis by (intro exI [of _ i]) simp
  qed
qed simp

lemma of_nat_u32_le: "i \<le> j \<Longrightarrow> j < 2 ^ 32 \<Longrightarrow> (of_nat i :: u32) \<le> of_nat j"
  by (simp add: word_le_nat_alt unat_of_nat)

lemma of_nat_u32_less: "i < j \<Longrightarrow> j < 2 ^ 32 \<Longrightarrow> \<not> (of_nat j :: u32) \<le> of_nat i"
  by (simp add: not_le word_less_nat_alt unat_of_nat)

lemma read_entry:
  assumes "here data src (write_line_entry e @ rest)"
  shows "\<not> length data < src + 8" "read_u32_le data src = le_code_offset e" "read_u32_le data (src + 4) = le_source_line e"
    "here data (src + 8) rest"
proof -
  have h: "here data src (write_u32_le (le_code_offset e) @ write_u32_le (le_source_line e) @ rest)"
    using assms by (simp add: write_line_entry_def)
  show "\<not> length data < src + 8" using here_length [OF assms] by simp
  show "read_u32_le data src = le_code_offset e" by (rule u32_le.dec_enc [OF h])
  show "read_u32_le data (src + 4) = le_source_line e" by (rule u32_le.dec_pair [OF h])
  show "here data (src + 8) rest" using here_next [OF assms] by simp
qed

lemma advance_line_stop:
  assumes "here data src (concat (map write_line_entry (line_entries (i + 1) pl lns)) @ rest)"
    and "i + 1 + length lns \<le> 2 ^ 32"
  shows "advance_line data (length (line_entries (i + 1) pl lns)) src i current =
    Some (length (line_entries (i + 1) pl lns), src, current)"
proof (cases "line_entries (i + 1) pl lns")
  case (Cons e es)
  then obtain j where j: "i + 1 \<le> j" "j < i + 1 + length lns" "le_code_offset e = of_nat j"
    using line_entries_offset [of e "i + 1" pl lns] by auto
  have "here data src (write_line_entry e @ concat (map write_line_entry es) @ rest)" using assms(1) Cons by simp
  note r = read_entry [OF this]
  have "\<not> (of_nat j :: u32) \<le> of_nat i" using j assms(2) by (intro of_nat_u32_less) auto
  then show ?thesis using Cons r j(3) by simp
qed simp

lemma line_loop_entries:
  assumes "here data src (concat (map write_line_entry (line_entries i pl lns)) @ rest)"
    and "i + length lns \<le> 2 ^ 32" and "\<forall>l \<in> set lns. l < 2 ^ 32" and "0 \<le> pl \<Longrightarrow> unat current = nat pl"
    and "pl = - 1 \<or> 0 \<le> pl"
  shows "line_loop data (length lns) i (length (line_entries i pl lns)) src current = Some lns"
  using assms
proof (induction lns arbitrary: i pl src current)
  case (Cons ln lns)
  show ?case
  proof (cases "int ln = pl")
    case True
    then have h: "here data src (concat (map write_line_entry (line_entries (i + 1) pl lns)) @ rest)"
      using Cons.prems(1) by simp
    have "unat current = ln" using Cons.prems(4) True by auto
    then show ?thesis
      using advance_line_stop [OF h] Cons.IH [OF h] Cons.prems True by simp
  next
    case False
    let ?e = "\<lparr>le_code_offset = of_nat i, le_source_line = of_nat ln\<rparr>"
    have "here data src (write_line_entry ?e @ concat (map write_line_entry (line_entries (i + 1) (int ln) lns)) @ rest)"
      using Cons.prems(1) False by simp
    note r = read_entry [OF this]
    have u: "unat (of_nat ln :: u32) = ln" using Cons.prems(3) by (simp add: unat_of_nat)
    have s: "advance_line data (length (line_entries (i + 1) (int ln) lns)) (src + 8) i (of_nat ln) =
        Some (length (line_entries (i + 1) (int ln) lns), src + 8, of_nat ln)"
      using advance_line_stop [OF r(4)] Cons.prems(2) by simp
    have "line_loop data (length lns) (i + 1) (length (line_entries (i + 1) (int ln) lns)) (src + 8) (of_nat ln) = Some lns"
      by (rule Cons.IH [OF r(4)]) (use Cons.prems u in auto)
    then show ?thesis using False r s u by simp
  qed
qed simp

lemma length_line_entries: "length (line_entries i pl lns) \<le> length lns"
proof (induction lns arbitrary: i pl)
  case (Cons ln lns)
  then show ?case by (simp add: le_SucI)
qed simp


subsection \<open>Constants\<close>

text \<open>The constants that the writer has an entry for.\<close>

definition storable :: "heap \<Rightarrow> val64 \<Rightarrow> bool" where
  "storable h v \<longleftrightarrow> IS_INT v \<or> IS_FLOAT v \<or>
     (case obj_of h v of
        Some (OBJ_STRING s) \<Rightarrow> length s < 2 ^ 32
      | Some (OBJ_BYTES bs) \<Rightarrow> length bs < 2 ^ 32
      | Some (OBJ_FUNCTION f) \<Rightarrow> True
      | _ \<Rightarrow> False)"

definition entry_of :: "string list \<Rightarrow> heap \<Rightarrow> val64 \<Rightarrow> vebc_constant \<Rightarrow> bool" where
  "entry_of ss h v c \<longleftrightarrow>
     (if IS_INT v then c = CONST_TAG_INT (value_as_int v)
      else if IS_FLOAT v then c = CONST_TAG_FLOAT (value_as_double v)
      else case obj_of h v of
        Some (OBJ_STRING s) \<Rightarrow> \<exists>i < length ss. c = CONST_TAG_STRING (of_nat i) \<and> ss ! i = s
      | Some (OBJ_BYTES bs) \<Rightarrow> c = CONST_TAG_BYTES bs
      | Some (OBJ_FUNCTION f) \<Rightarrow> \<exists>i. c = CONST_TAG_FUNC_REF i
      | _ \<Rightarrow> False)"

text \<open>What a constant is after loading: itself, an object of the same content, or nil for a function.\<close>

definition loaded :: "heap \<Rightarrow> val64 \<Rightarrow> heap \<Rightarrow> val64 \<Rightarrow> bool" where
  "loaded h v h' v' \<longleftrightarrow>
     (if IS_INT v \<or> IS_FLOAT v then v' = v
      else case obj_of h v of
        Some (OBJ_FUNCTION f) \<Rightarrow> v' = VAL_NIL
      | Some ob \<Rightarrow> obj_of h' v' = Some ob
      | None \<Rightarrow> False)"

lemma loaded_append: "loaded h v h' v' \<Longrightarrow> loaded h v (h' @ os) v'"
  by (auto simp: loaded_def obj_of_append split: option.splits obj.splits if_splits)

lemma find_index_Some: "find_index ts s i = Some j \<Longrightarrow> i \<le> j \<and> j - i < length ts \<and> ts ! (j - i) = s"
  by (induction ts s i rule: find_index.induct) (auto simp: nth_Cons' Suc_diff_le split: if_splits)

lemma add_string_result:
  assumes "length (vb_strings b) < 4096"
  obtains i ss where "vebc_builder_add_string b s = (of_nat i, b\<lparr>vb_strings := vb_strings b @ ss\<rparr>)"
    "i < length (vb_strings b @ ss)" "(vb_strings b @ ss) ! i = s" "set ss \<subseteq> {s}" "length ss \<le> 1"
proof (cases "find_index (vb_strings b) s 0")
  case None
  then show ?thesis
    using assms that [of "length (vb_strings b)" "[s]"] by (simp add: vebc_builder_add_string_def)
next
  case (Some j)
  then show ?thesis
    using that [of j "[]"] find_index_Some [OF Some] by (simp add: vebc_builder_add_string_def)
qed

lemma entry_of_append: "entry_of ss h v c \<Longrightarrow> entry_of (ss @ ss') h v c"
  by (force simp: entry_of_def nth_append split: if_splits option.splits obj.splits)

lemma add_constant_result:
  assumes "storable h v" and "length (vb_strings b) < 4096"
  obtains c ss where "add_constant h b v = b\<lparr>vb_constants := vb_constants b @ [c], vb_strings := vb_strings b @ ss\<rparr>"
    "entry_of (vb_strings b @ ss) h v c" "constant_fits c" "length ss \<le> 1" "\<forall>s \<in> set ss. length s < 2 ^ 32"
proof (cases "IS_INT v \<or> IS_FLOAT v")
  case True
  then show ?thesis
    using that [where c = "if IS_INT v then CONST_TAG_INT (value_as_int v) else CONST_TAG_FLOAT (value_as_double v)" and ss = "[]"]
    by (auto simp: add_constant_def entry_of_def constant_fits_def)
next
  case False
  then consider s where "obj_of h v = Some (OBJ_STRING s)" "length s < 2 ^ 32"
    | bs where "obj_of h v = Some (OBJ_BYTES bs)" "length bs < 2 ^ 32" | f where "obj_of h v = Some (OBJ_FUNCTION f)"
    using assms(1) by (auto simp: storable_def split: option.splits obj.splits)
  then show ?thesis
  proof cases
    case 1
    from add_string_result [OF assms(2), of s] obtain i ss where
      a: "vebc_builder_add_string b s = (of_nat i, b\<lparr>vb_strings := vb_strings b @ ss\<rparr>)"
        "i < length (vb_strings b @ ss)" "(vb_strings b @ ss) ! i = s" "set ss \<subseteq> {s}" "length ss \<le> 1" .
    show ?thesis
      using that [where c = "CONST_TAG_STRING (of_nat i)" and ss = ss] False 1 a
      by (auto simp: add_constant_def entry_of_def constant_fits_def)
  next
    case 2
    then show ?thesis
      using that [where c = "CONST_TAG_BYTES bs" and ss = "[]"] False by (simp add: add_constant_def entry_of_def constant_fits_def)
  next
    case 3
    then show ?thesis
      using that [where c = "CONST_TAG_FUNC_REF (of_nat (length (vb_functions b)))" and ss = "[]"] False
      by (simp add: add_constant_def entry_of_def constant_fits_def)
  qed
qed

lemma add_constants_result:
  assumes "\<forall>v \<in> set vs. storable h v" and "length (vb_constants b) + length vs \<le> 4096"
    and "length (vb_strings b) + length vs \<le> 4096"
  shows "\<exists>cs ss. add_constants h vs b = b\<lparr>vb_constants := vb_constants b @ cs, vb_strings := vb_strings b @ ss\<rparr> \<and>
    list_all2 (entry_of (vb_strings b @ ss) h) vs cs \<and> (\<forall>c \<in> set cs. constant_fits c) \<and>
    length ss \<le> length vs \<and> (\<forall>s \<in> set ss. length s < 2 ^ 32)"
  using assms
proof (induction vs arbitrary: b)
  case (Cons v vs)
  have l: "length (vb_strings b) < 4096" "storable h v" using Cons.prems by auto
  from add_constant_result [OF l(2,1)] obtain c ss where
    a: "add_constant h b v = b\<lparr>vb_constants := vb_constants b @ [c], vb_strings := vb_strings b @ ss\<rparr>"
      "entry_of (vb_strings b @ ss) h v c" "constant_fits c" "length ss \<le> 1" "\<forall>s \<in> set ss. length s < 2 ^ 32" .
  let ?b = "b\<lparr>vb_constants := vb_constants b @ [c], vb_strings := vb_strings b @ ss\<rparr>"
  obtain cs ss' where i: "add_constants h vs ?b = ?b\<lparr>vb_constants := vb_constants ?b @ cs, vb_strings := vb_strings ?b @ ss'\<rparr>"
      "list_all2 (entry_of (vb_strings ?b @ ss') h) vs cs" "\<forall>c \<in> set cs. constant_fits c" "length ss' \<le> length vs"
      "\<forall>s \<in> set ss'. length s < 2 ^ 32"
    using Cons.IH [of ?b] Cons.prems a(4) by auto
  have "entry_of (vb_strings b @ ss @ ss') h v c" using entry_of_append [OF a(2), of ss'] by simp
  then show ?case
    using i a Cons.prems(2) by (intro exI [of _ "c # cs"] exI [of _ "ss @ ss'"]) auto
qed simp

lemma load_constant_entry:
  assumes e: "entry_of (vl_strings vf) h v c" and w: "here (vl_data vf) pos (write_constant c @ rest)"
    and n: "unat (vl_string_count vf) = length (vl_strings vf)" and fits: "constant_fits c"
    and l: "length h0 + 1 < 2 ^ 43"
  shows "\<exists>v' os. load_constant vf pos h0 = Some (v', pos + length (write_constant c), h0 @ os) \<and> length os \<le> 1 \<and>
    loaded h v (h0 @ os) v'"
proof -
  let ?d = "vl_data vf"
  obtain tag body where wc: "write_constant c = tag # body" by (cases c) auto
  have t: "?d ! pos = tag" "\<not> length ?d < Suc pos"
    using here_nth [OF w, of 0] here_length [OF w] wc by auto
  have b: "here ?d (Suc pos) (body @ rest)"
    using here_next [of ?d pos "[tag]" "body @ rest"] w wc by simp
  show ?thesis
  proof (cases "IS_INT v \<or> IS_FLOAT v")
    case True
    then show ?thesis
    proof (cases "IS_INT v")
      case True
      then have c: "c = CONST_TAG_INT (value_as_int v)" using e by (simp add: entry_of_def)
      then have "here ?d (Suc pos) (write_i64_le (value_as_int v) @ rest)" using b wc by simp
      note r = i64_le.dec_enc [OF this] i64_le.dec_fits [OF this]
      show ?thesis
        using r t wc c True int_val_of_int [OF True] by (auto simp: load_constant_def loaded_def)
    next
      case False
      then have f: "IS_FLOAT v" using True by simp
      then have c: "c = CONST_TAG_FLOAT (value_as_double v)" using e False by (simp add: entry_of_def)
      then have "here ?d (Suc pos) (write_f64_le (value_as_double v) @ rest)" using b wc by simp
      note r = f64_le.dec_enc [OF this] f64_le.dec_fits [OF this]
      show ?thesis
        using r t wc c f by (auto simp: load_constant_def loaded_def double_val_def value_as_double_def)
    qed
  next
    case False
    then consider s i where "obj_of h v = Some (OBJ_STRING s)" "i < length (vl_strings vf)" "c = CONST_TAG_STRING (of_nat i)"
        "vl_strings vf ! i = s"
      | bs where "obj_of h v = Some (OBJ_BYTES bs)" "c = CONST_TAG_BYTES bs"
      | f i where "obj_of h v = Some (OBJ_FUNCTION f)" "c = CONST_TAG_FUNC_REF i"
      using e by (auto simp: entry_of_def split: option.splits obj.splits)
    then show ?thesis
    proof cases
      case 1
      have "here ?d (Suc pos) (write_u32_le (of_nat i) @ rest)" using b wc 1(3) by simp
      note r = u32_le.dec_enc [OF this] u32_le.dec_fits [OF this]
      have "unat (vl_string_count vf) < 2 ^ LENGTH(32)" by (rule unsigned_less)
      then have "length (vl_strings vf) < 2 ^ 32" using n by simp
      then have i: "unat (of_nat i :: u32) = i" "(of_nat i :: u32) < vl_string_count vf"
        using 1(2) n by (simp_all add: unat_of_nat word_less_nat_alt)
      obtain p h1 where si: "intern_string h0 s = (p, h1)" by force
      from intern_string_result [OF si] obtain os where
        o: "h1 = h0 @ os" "length os \<le> 1" "p < length h1" "h1 ! p = OBJ_STRING s" .
      have "obj_of h1 (OBJ_VAL p) = Some (OBJ_STRING s)" using obj_of_OBJ_VAL [of p h1] o l by simp
      then show ?thesis
        using r i t wc 1 False si o by (auto simp: load_constant_def loaded_def)
    next
      case 2
      have h: "here ?d (Suc pos) (write_count bs @ bs @ rest)" using b wc 2(2) by auto
      note r = u32_le.dec_enc [OF h] u32_le.dec_fits [OF h] here_length [OF u32_le.dec_next [OF h]]
        here_take [OF u32_le.dec_next [OF h]]
      have u: "unat (of_nat (length bs) :: u32) = length bs" using fits 2 by (simp add: constant_fits_def unat_of_nat)
      have "obj_of (h0 @ [OBJ_BYTES bs]) (OBJ_VAL (length h0)) = Some (OBJ_BYTES bs)"
        using obj_of_OBJ_VAL [of "length h0" "h0 @ [OBJ_BYTES bs]"] l by simp
      then show ?thesis
        using r u t wc 2 False by (auto simp: load_constant_def loaded_def read_bytes_def obj_bytes_new_def alloc_object_def)
    next
      case 3
      have "here ?d (Suc pos) (write_u32_le i @ rest)" using b wc 3(2) by simp
      note r = u32_le.dec_fits [OF this]
      show ?thesis using r t wc 3 False by (auto simp: load_constant_def loaded_def)
    qed
  qed
qed


lemma load_constants_entries:
  assumes "unat (vl_string_count vf) = length (vl_strings vf)"
  shows "list_all2 (entry_of (vl_strings vf) h) vs cs \<Longrightarrow>
    here (vl_data vf) pos (concat (map write_constant cs) @ rest) \<Longrightarrow> \<forall>c \<in> set cs. constant_fits c \<Longrightarrow>
    length h0 + length cs < 2 ^ 43 \<Longrightarrow>
    \<exists>os chunk' vs'. load_constants vf (length cs) pos h0 chunk = Some (h0 @ os, chunk') \<and>
      ck_code chunk' = ck_code chunk \<and> ck_lines chunk' = ck_lines chunk \<and>
      ck_constants chunk' = ck_constants chunk @ vs' \<and> list_all2 (\<lambda>v v'. loaded h v (h0 @ os) v') vs vs'"
proof (induction vs cs arbitrary: pos h0 chunk rule: list_all2_induct)
  case Nil
  then show ?case by simp
next
  case (Cons v vs c cs)
  let ?rest = "concat (map write_constant cs) @ rest"
  have w: "here (vl_data vf) pos (write_constant c @ ?rest)" using Cons.prems(1) by simp
  have l: "length h0 + 1 < 2 ^ 43" "constant_fits c" using Cons.prems(2,3) by auto
  from load_constant_entry [OF Cons.hyps(1) w assms l(2,1)] obtain v' os where
    v': "load_constant vf pos h0 = Some (v', pos + length (write_constant c), h0 @ os)" "length os \<le> 1"
      "loaded h v (h0 @ os) v'" by blast
  have l': "length (h0 @ os) + length cs < 2 ^ 43" "\<forall>c \<in> set cs. constant_fits c" using Cons.prems(2,3) v'(2) by auto
  from Cons.IH [OF here_next [OF w] l'(2,1), of "snd (chunk_add_constant chunk v')"] obtain os' chunk' vs' where
    i: "load_constants vf (length cs) (pos + length (write_constant c)) (h0 @ os) (snd (chunk_add_constant chunk v')) =
        Some ((h0 @ os) @ os', chunk')" "ck_code chunk' = ck_code chunk" "ck_lines chunk' = ck_lines chunk"
      "ck_constants chunk' = (ck_constants chunk @ [v']) @ vs'" "list_all2 (\<lambda>v v'. loaded h v ((h0 @ os) @ os') v') vs vs'"
    by auto
  have "loaded h v ((h0 @ os) @ os') v'" by (rule loaded_append [OF v'(3)])
  then show ?case
    using v'(1) i by (intro exI [of _ "os @ os'"] exI [of _ chunk'] exI [of _ "v' # vs'"]) simp
qed

subsection \<open>The entry function\<close>

lemma read_function:
  assumes "here data e (write_function f @ rest)"
  shows "\<not> length data < e + 24" "read_u32_le data e = vf_name_idx f" "data ! (e + 6) = vf_num_params f"
    "data ! (e + 7) = vf_num_upvalues f" "read_u32_le data (e + 8) = vf_code_offset f"
    "read_u32_le data (e + 12) = vf_code_length f" "read_u32_le data (e + 16) = vf_line_table_offset f"
    "read_u32_le data (e + 20) = vf_line_table_length f"
proof -
  let ?tail = "write_u32_le (vf_code_offset f) @ write_u32_le (vf_code_length f) @ write_u32_le (vf_line_table_offset f) @
     write_u32_le (vf_line_table_length f) @ rest"
  have h: "here data e (write_u32_le (vf_name_idx f) @ write_u16_le (vf_num_regs f) @ [vf_num_params f, vf_num_upvalues f] @ ?tail)"
    using assms by (simp add: write_function_def)
  have h4: "here data (e + 4) (write_u16_le (vf_num_regs f) @ [vf_num_params f, vf_num_upvalues f] @ ?tail)"
    using u32_le.dec_next [OF h] .
  have h6: "here data (e + 6) ([vf_num_params f, vf_num_upvalues f] @ ?tail)" using u16_le.dec_next [OF h4] by (simp add: add.commute)
  have h8: "here data (e + 8) ?tail" using here_next [OF h6] by (simp add: add.commute)
  have h12: "here data (e + 12) (write_u32_le (vf_code_length f) @ write_u32_le (vf_line_table_offset f) @
      write_u32_le (vf_line_table_length f) @ rest)" using u32_le.dec_next [OF h8] by (simp add: add.commute)
  have h16: "here data (e + 16) (write_u32_le (vf_line_table_offset f) @ write_u32_le (vf_line_table_length f) @ rest)"
    using u32_le.dec_next [OF h12] by (simp add: add.commute)
  have h20: "here data (e + 20) (write_u32_le (vf_line_table_length f) @ rest)" using u32_le.dec_next [OF h16] by (simp add: add.commute)
  show "\<not> length data < e + 24" using here_length [OF assms] by simp
  show "read_u32_le data e = vf_name_idx f" by (rule u32_le.dec_enc [OF h])
  show "data ! (e + 6) = vf_num_params f" "data ! (e + 7) = vf_num_upvalues f"
    using here_nth [OF h6, of 0] here_nth [OF h6, of 1] by (simp_all add: add.commute)
  show "read_u32_le data (e + 8) = vf_code_offset f" by (rule u32_le.dec_enc [OF h8])
  show "read_u32_le data (e + 12) = vf_code_length f" by (rule u32_le.dec_enc [OF h12])
  show "read_u32_le data (e + 16) = vf_line_table_offset f" by (rule u32_le.dec_enc [OF h16])
  show "read_u32_le data (e + 20) = vf_line_table_length f" by (rule u32_le.dec_enc [OF h20])
qed

lemma load_chunk_back:
  assumes d: "describes vf b" and b: "vb_instructions b = code" "vb_line_entries b = line_entries 0 (- 1) lns"
    and l: "length lns = length code" "length code < 2 ^ 32" "\<forall>l \<in> set lns. l < 2 ^ 32"
  shows "\<exists>chunk. load_chunk vf 0 (of_nat (length code)) 0 (of_nat (length (line_entries 0 (- 1) lns))) = Some (Some chunk) \<and>
    ck_code chunk = code \<and> ck_lines chunk = lns \<and> ck_constants chunk = []"
proof (cases "code = []")
  case True
  then show ?thesis using l(1) by (simp add: load_chunk_def chunk_init_def)
next
  case False
  let ?es = "line_entries 0 (- 1) lns"
  have ne: "lns \<noteq> []" using False l(1) by auto
  have nes: "?es \<noteq> []" using ne by (cases lns) auto
  have n: "unat (of_nat (length code) :: u32) = length code" "unat (of_nat (length ?es) :: u32) = length ?es"
    using l length_line_entries [of 0 "- 1" lns] by (simp_all add: unat_of_nat)
  have pos: "(0 :: u32) < of_nat (length code)" "(0 :: u32) < of_nat (length ?es)"
    using n False nes by (simp_all add: word_less_nat_alt)
  have vi: "vl_instr_length vf = of_nat (length code)" "vl_line_count vf = of_nat (length ?es)"
    using d b n by (simp_all add: describes_def word_unat_eq_iff)
  obtain r where i: "here (vl_data vf) (vl_instr_offset vf) (code @ r)" using d b by (auto simp: describes_def)
  obtain r' where h: "here (vl_data vf) (vl_line_offset vf) (concat (map write_line_entry ?es) @ r')"
    using d b by (auto simp: describes_def)
  have c: "read_bytes (vl_data vf) (vl_instr_offset vf) (length code) = Some code"
    using here_length [OF i] here_take [OF i] by (simp add: read_bytes_def)
  have ll: "line_loop (vl_data vf) (length code) 0 (length ?es) (vl_line_offset vf) 1 = Some lns"
    using line_loop_entries [OF h] l by simp
  show ?thesis
    using pos n c ll write_code_chunk [of code chunk_init] vi by (simp add: load_chunk_def chunk_init_def)
qed

lemma loaded_update:
  assumes "loaded h v h' v'" and "h' ! p = OBJ_FUNCTION f"
  shows "loaded h v (update_function p g h') v'"
proof -
  have "obj_of (update_function p g h') v' = Some ob"
    if "obj_of h' v' = Some ob" "\<nexists>f. ob = OBJ_FUNCTION f" for ob
  proof (cases "AS_PTR v' = p")
    case True
    then have "obj_of h' v' = None \<or> obj_of h' v' = Some (OBJ_FUNCTION f)" using assms(2) by (auto simp: obj_of_def)
    then show ?thesis using that by auto
  next
    case False
    then show ?thesis using that(1) by (simp add: obj_of_def update_function_def split: if_splits obj.splits)
  qed
  then show ?thesis
    using assms(1) by (auto simp: loaded_def split: option.splits obj.splits if_splits)
qed

text \<open>The name that is written for a function, and that the loaded function has.\<close>

definition written_name :: "heap \<Rightarrow> obj_function \<Rightarrow> string" where
  "written_name h f = (case fn_name f of Some p \<Rightarrow> AS_STRING h (OBJ_VAL p) | None \<Rightarrow> ''<script>'')"

definition same_function :: "heap \<Rightarrow> obj_function \<Rightarrow> heap \<Rightarrow> obj_function \<Rightarrow> bool" where
  "same_function h f h' f' \<longleftrightarrow> fn_arity f' = fn_arity f \<and> fn_upvalue_count f' = fn_upvalue_count f \<and>
     ck_code (fn_chunk f') = ck_code (fn_chunk f) \<and> ck_lines (fn_chunk f') = ck_lines (fn_chunk f) \<and>
     (\<exists>p. fn_name f' = Some p \<and> h' ! p = OBJ_STRING (written_name h f)) \<and>
     list_all2 (\<lambda>v v'. loaded h v h' v') (ck_constants (fn_chunk f)) (ck_constants (fn_chunk f'))"

definition writable_function :: "heap \<Rightarrow> obj_function \<Rightarrow> bool" where
  "writable_function h f \<longleftrightarrow> length (ck_lines (fn_chunk f)) = length (ck_code (fn_chunk f)) \<and>
     length (ck_code (fn_chunk f)) < 2 ^ 32 \<and> (\<forall>l \<in> set (ck_lines (fn_chunk f)). l < 2 ^ 32) \<and>
     (\<forall>v \<in> set (ck_constants (fn_chunk f)). storable h v) \<and> length (ck_constants (fn_chunk f)) \<le> 4095 \<and>
     length (written_name h f) < 2 ^ 32"


lemma storable_instr:
  assumes w: "writable_function h f"
  defines "chunk \<equiv> fn_chunk f"
  obtains cs ss vf where
    "vebc_builder_add_function h f vebc_builder_init = \<lparr>vb_strings = written_name h f # ss, vb_constants = cs,
       vb_functions = [vf], vb_upvalues = [], vb_instructions = ck_code chunk,
       vb_line_entries = line_entries 0 (- 1) (ck_lines chunk), vb_assets = []\<rparr>"
    "list_all2 (entry_of (written_name h f # ss) h) (ck_constants chunk) cs" "\<forall>c \<in> set cs. constant_fits c"
    "length ss \<le> 4095" "\<forall>s \<in> set ss. length s < 2 ^ 32"
    "vf_name_idx vf = 0" "vf_num_params vf = fn_arity f" "vf_num_upvalues vf = fn_upvalue_count f"
    "vf_code_offset vf = 0" "vf_code_length vf = of_nat (length (ck_code chunk))" "vf_line_table_offset vf = 0"
    "vf_line_table_length vf = of_nat (length (line_entries 0 (- 1) (ck_lines chunk)))"
proof -
  let ?b = "\<lparr>vb_strings = [written_name h f], vb_constants = [], vb_functions = [], vb_upvalues = [],
     vb_instructions = ck_code chunk, vb_line_entries = line_entries 0 (- 1) (ck_lines chunk), vb_assets = []\<rparr>"
  have w': "\<forall>v \<in> set (ck_constants chunk). storable h v" "length (vb_constants ?b) + length (ck_constants chunk) \<le> 4096"
    "length (vb_strings ?b) + length (ck_constants chunk) \<le> 4096"
    using w by (simp_all add: writable_function_def chunk_def)
  from add_constants_result [OF w'] obtain cs ss where
    a: "add_constants h (ck_constants chunk) ?b = ?b\<lparr>vb_constants := cs, vb_strings := written_name h f # ss\<rparr>"
      "list_all2 (entry_of (written_name h f # ss) h) (ck_constants chunk) cs" "\<forall>c \<in> set cs. constant_fits c"
      "length ss \<le> length (ck_constants chunk)" "\<forall>s \<in> set ss. length s < 2 ^ 32"
    by auto
  let ?vf = "\<lparr>vf_name_idx = 0, vf_num_regs = ucast (fn_arity f) + 16, vf_num_params = fn_arity f,
       vf_num_upvalues = fn_upvalue_count f, vf_code_offset = 0, vf_code_length = of_nat (length (ck_code chunk)),
       vf_line_table_offset = 0, vf_line_table_length = of_nat (length (line_entries 0 (- 1) (ck_lines chunk)))\<rparr>"
  have "vebc_builder_add_function h f vebc_builder_init = ?b\<lparr>vb_constants := cs, vb_strings := written_name h f # ss,
      vb_functions := [?vf]\<rparr>"
    using a(1) w
    by (simp add: vebc_builder_add_function_def vebc_builder_init_def vebc_builder_add_string_def written_name_def
        Let_def writable_function_def chunk_def)
  then show ?thesis
    using that [of ss cs ?vf] a w by (simp add: writable_function_def chunk_def)
qed


lemma function_loads_back:
  assumes w: "writable_function h f" and l: "length h0 + 5000 < 2 ^ 43"
    and ld: "describes file (vebc_builder_add_function h f vebc_builder_init)"
  shows "\<exists>fn h'. vebc_to_function file h0 = Some (Some fn, h') \<and> same_function h f h' (the_function h' fn)"
proof -
  let ?chunk = "fn_chunk f"
  from storable_instr [OF w] obtain cs ss vf where
    b: "vebc_builder_add_function h f vebc_builder_init = \<lparr>vb_strings = written_name h f # ss, vb_constants = cs,
       vb_functions = [vf], vb_upvalues = [], vb_instructions = ck_code ?chunk,
       vb_line_entries = line_entries 0 (- 1) (ck_lines ?chunk), vb_assets = []\<rparr>"
    and es: "list_all2 (entry_of (written_name h f # ss) h) (ck_constants ?chunk) cs" "\<forall>c \<in> set cs. constant_fits c"
      "length ss \<le> 4095" "\<forall>s \<in> set ss. length s < 2 ^ 32"
    and v: "vf_name_idx vf = 0" "vf_num_params vf = fn_arity f" "vf_num_upvalues vf = fn_upvalue_count f"
      "vf_code_offset vf = 0" "vf_code_length vf = of_nat (length (ck_code ?chunk))" "vf_line_table_offset vf = 0"
      "vf_line_table_length vf = of_nat (length (line_entries 0 (- 1) (ck_lines ?chunk)))" .
  note d = ld [unfolded b]
  have n: "unat (vl_string_count file) = length (vl_strings file)" and ss: "vl_strings file = written_name h f # ss"
    and cc: "unat (vl_const_count file) = length cs" and fc: "vl_func_count file = 1"
    using d by (simp_all add: describes_def word_unat_eq_iff)
  obtain r where hf: "here (vl_data file) (vl_func_offset file) (write_function vf @ r)"
    using d by (auto simp: describes_def)
  obtain r' where hc: "here (vl_data file) (vl_const_offset file) (concat (map write_constant cs) @ r')"
    using d by (auto simp: describes_def)
  have lcs: "length cs \<le> 4095" using es(1) w by (simp add: writable_function_def list_all2_lengthD)
  have nidx: "0 < vl_string_count file" using n ss by (simp add: word_less_nat_alt)
  obtain s h1 where i: "intern_string (h0 @ [OBJ_FUNCTION \<lparr>fn_arity = 0, fn_upvalue_count = 0, fn_chunk = chunk_init,
      fn_name = None\<rparr>]) (written_name h f) = (s, h1)" by force
  from intern_string_result [OF i] obtain os where
    o: "h1 = h0 @ OBJ_FUNCTION \<lparr>fn_arity = 0, fn_upvalue_count = 0, fn_chunk = chunk_init, fn_name = None\<rparr> # os"
      "length os \<le> 1" "s < length h1" "h1 ! s = OBJ_STRING (written_name h f)" by auto
  have sn: "s \<noteq> length h0" using o by auto
  define g where "g = \<lparr>fn_arity = fn_arity f, fn_upvalue_count = fn_upvalue_count f, fn_chunk = chunk_init, fn_name = Some s\<rparr>"
  define h2 where "h2 = h1[length h0 := OBJ_FUNCTION g]"
  have h2: "update_function (length h0) (\<lambda>f'. f'\<lparr>fn_arity := fn_arity f, fn_upvalue_count := fn_upvalue_count f,
      fn_name := Some s\<rparr>) h1 = h2"
    using o(1) by (simp add: update_function_def the_function_def h2_def g_def)
  have h2': "length h0 < length h2" "h2 ! length h0 = OBJ_FUNCTION g" "length h2 \<le> length h0 + 2" "s < length h2"
    using o sn by (simp_all add: h2_def)
  have h2s: "h2 ! s = OBJ_STRING (written_name h f)" using o(4) sn by (simp add: h2_def)
  have lns: "length (ck_lines ?chunk) = length (ck_code ?chunk)" "length (ck_code ?chunk) < 2 ^ 32"
      "\<forall>l \<in> set (ck_lines ?chunk). l < 2 ^ 32"
    using w by (simp_all add: writable_function_def)
  obtain chunk where ch: "load_chunk file 0 (of_nat (length (ck_code ?chunk))) 0
      (of_nat (length (line_entries 0 (- 1) (ck_lines ?chunk)))) = Some (Some chunk)"
      "ck_code chunk = ck_code ?chunk" "ck_lines chunk = ck_lines ?chunk" "ck_constants chunk = []"
    using load_chunk_back [OF d _ _ lns] by auto
  have lh: "length h2 + length cs < 2 ^ 43" using h2'(3) lcs l by linarith
  from load_constants_entries [OF n, unfolded ss, OF es(1) hc es(2) lh, of chunk] obtain os' chunk' vs' where
    k: "load_constants file (length cs) (vl_const_offset file) h2 chunk = Some (h2 @ os', chunk')"
      "ck_code chunk' = ck_code chunk" "ck_lines chunk' = ck_lines chunk" "ck_constants chunk' = vs'"
      "list_all2 (\<lambda>v v'. loaded h v (h2 @ os') v') (ck_constants ?chunk) vs'"
    using ch(4) by auto
  define h' where "h' = update_function (length h0) (\<lambda>f'. f'\<lparr>fn_chunk := chunk'\<rparr>) (h2 @ os')"
  have "vebc_to_function file h0 = Some (Some (length h0), h')"
    using read_function [OF hf] v ch(1) k(1) cc fc nidx ss i h2
    by (simp add: vebc_to_function_def obj_function_new_def alloc_object_def Let_def h'_def)
  moreover have "the_function h' (length h0) = g\<lparr>fn_chunk := chunk'\<rparr>"
    using h2' by (simp add: h'_def update_function_def the_function_def nth_append)
  moreover have "h' ! s = OBJ_STRING (written_name h f)"
    using h2' h2s sn by (simp add: h'_def update_function_def nth_append)
  moreover have "list_all2 (\<lambda>v v'. loaded h v h' v') (ck_constants ?chunk) vs'"
  proof (rule list_all2_mono [OF k(5)])
    fix v v' assume "loaded h v (h2 @ os') v'"
    then show "loaded h v h' v'"
      unfolding h'_def using h2' by (intro loaded_update [of _ _ _ _ _ g]) (simp_all add: nth_append)
  qed
  ultimately show ?thesis
    using k ch by (intro exI [of _ "length h0"] exI [of _ h']) (simp add: same_function_def g_def)
qed


subsection \<open>The properties\<close>

lemma builder_fits_function: "writable_function h f \<Longrightarrow> builder_fits (vebc_builder_add_function h f vebc_builder_init)"
proof -
  assume w: "writable_function h f"
  from storable_instr [OF w] obtain cs ss fn where
    b: "vebc_builder_add_function h f vebc_builder_init = \<lparr>vb_strings = written_name h f # ss, vb_constants = cs,
       vb_functions = [fn], vb_upvalues = [], vb_instructions = ck_code (fn_chunk f),
       vb_line_entries = line_entries 0 (- 1) (ck_lines (fn_chunk f)), vb_assets = []\<rparr>"
    and es: "list_all2 (entry_of (written_name h f # ss) h) (ck_constants (fn_chunk f)) cs" "\<forall>c \<in> set cs. constant_fits c"
      "length ss \<le> 4095" "\<forall>s \<in> set ss. length s < 2 ^ 32" .
  have "length cs \<le> 4095" using es(1) w by (simp add: writable_function_def list_all2_lengthD)
  moreover have "length (line_entries 0 (- 1) (ck_lines (fn_chunk f))) < 2 ^ 32"
    using length_line_entries [of 0 "- 1" "ck_lines (fn_chunk f)"] w by (simp add: writable_function_def)
  ultimately show ?thesis using es w by (simp add: builder_fits_def b writable_function_def)
qed


text \<open>A function with an integer constant and a string constant.\<close>

definition example_heap :: heap where
  "example_heap = [OBJ_STRING ''main'', OBJ_STRING ''hi'']"

definition example_function :: obj_function where
  "example_function = \<lparr>fn_arity = 0, fn_upvalue_count = 0,
     fn_chunk = chunk_init\<lparr>ck_code := [0, 0, 0, 41], ck_lines := [1, 1, 1, 2], ck_constants := [int_val 7, OBJ_VAL 1]\<rparr>,
     fn_name = Some 0\<rparr>"

lemma example_writable: "writable_function example_heap example_function"
proof -
  have "obj_of example_heap (OBJ_VAL (Suc 0)) = Some (OBJ_STRING ''hi'')"
    using obj_of_OBJ_VAL [of 1 example_heap] by (simp add: example_heap_def)
  moreover have "IS_INT (int_val 7)" by (simp add: tag_iffs int_tag_payload)
  moreover have "AS_STRING example_heap (OBJ_VAL 0) = ''main''"
    using OBJ_VAL_ptr [of 0] by (simp add: example_heap_def AS_STRING_def)
  ultimately show ?thesis
    by (simp add: writable_function_def example_function_def storable_def written_name_def)
qed


text \<open>C38: A function constant does not survive \<open>vek build\<close>: the loaded function has nil in its place.\<close>

theorem vebc_nested_function_lost:
  assumes "writable_function h f" and "length h0 + 5000 < 2 ^ 43"
    and "k < length (ck_constants (fn_chunk f))" and "obj_of h (ck_constants (fn_chunk f) ! k) = Some (OBJ_FUNCTION g)"
  shows "\<exists>vf fn h'. vebc_load (vebc_builder_write (vebc_builder_add_function h f vebc_builder_init)) = Inr vf \<and>
    vebc_to_function vf h0 = Some (Some fn, h') \<and> ck_constants (fn_chunk (the_function h' fn)) ! k = VAL_NIL"
proof -
  from vebc_load_describes [OF builder_fits_function [OF assms(1)]] obtain vf where
    l: "vebc_load (vebc_builder_write (vebc_builder_add_function h f vebc_builder_init)) = Inr vf"
    "describes vf (vebc_builder_add_function h f vebc_builder_init)" by blast
  from function_loads_back [OF assms(1,2) l(2)] obtain fn h' where
    r: "vebc_to_function vf h0 = Some (Some fn, h')" "same_function h f h' (the_function h' fn)" by blast
  have "loaded h (ck_constants (fn_chunk f) ! k) h' (ck_constants (fn_chunk (the_function h' fn)) ! k)"
    by (rule list_all2_nthD [OF _ assms(3)]) (use r(2) in \<open>simp add: same_function_def\<close>)
  then show ?thesis using l(1) r(1) assms(4) obj_of_not_tagged [OF assms(4)] by (auto simp: loaded_def)
qed

definition nested_heap :: heap where
  "nested_heap = [OBJ_FUNCTION example_function]"

definition nested_function :: obj_function where
  "nested_function = \<lparr>fn_arity = 0, fn_upvalue_count = 0,
     fn_chunk = chunk_init\<lparr>ck_constants := [OBJ_VAL 0]\<rparr>, fn_name = None\<rparr>"

theorem vebc_nested_function_lost_witness:
  "\<exists>vf fn h'. vebc_load (vebc_builder_write (vebc_builder_add_function nested_heap nested_function vebc_builder_init)) =
    Inr vf \<and> vebc_to_function vf [] = Some (Some fn, h') \<and> ck_constants (fn_chunk (the_function h' fn)) ! 0 = VAL_NIL"
proof -
  have o: "obj_of nested_heap (OBJ_VAL 0) = Some (OBJ_FUNCTION example_function)"
    using obj_of_OBJ_VAL [of 0 nested_heap] by (simp add: nested_heap_def)
  have w: "writable_function nested_heap nested_function"
    using o by (simp add: writable_function_def nested_function_def storable_def written_name_def chunk_init_def)
  show ?thesis
    using vebc_nested_function_lost [OF w, of "[]" 0 example_function] o by (simp add: nested_function_def)
qed

text \<open>A file whose one function claims a byte of code at offset \<open>2\<^sup>3\<^sup>2 - 1\<close>.\<close>

definition wrapping_builder :: vebc_builder where
  "wrapping_builder = vebc_builder_init\<lparr>vb_functions := [\<lparr>vf_name_idx = 0, vf_num_regs = 16, vf_num_params = 0,
     vf_num_upvalues = 0, vf_code_offset = 0xFFFFFFFF, vf_code_length = 1, vf_line_table_offset = 0,
     vf_line_table_length = 0\<rparr>]\<rparr>"

text \<open>The bound check of the loader adds offset and length on 32 bits and can wrap: there is a file
  that loads and passes the hash check, on which \<open>vebc_to_function\<close> reads outside the mapped file.\<close>

theorem vebc_offset_check_wraps:
  "\<exists>vf. vebc_load (vebc_builder_write wrapping_builder) = Inr vf \<and> vebc_verify vf \<and> vebc_to_function vf h = None"
proof -
  have "builder_fits wrapping_builder" by (simp add: builder_fits_def wrapping_builder_def vebc_builder_init_def)
  from vebc_load_describes [OF this] obtain vf where
    l: "vebc_load (vebc_builder_write wrapping_builder) = Inr vf" "vebc_verify vf" "describes vf wrapping_builder" by blast
  obtain r where hf: "here (vl_data vf) (vl_func_offset vf) (write_function (hd (vb_functions wrapping_builder)) @ r)"
    using l(3) by (auto simp: describes_def wrapping_builder_def)
  note rf = read_function [OF hf]
  have d: "vl_func_count vf = 1" "vl_string_count vf = 0" "length (vl_data vf) < 1000"
    using l(3) by (simp_all add: describes_def wrapping_builder_def vebc_builder_init_def word_unat_eq_iff
        vebc_builder_write_def vebc_sections_def Let_def)
  have "read_bytes (vl_data vf) (vl_instr_offset vf + 4294967295) (Suc 0) = None"
    using d(3) by (simp add: read_bytes_def)
  moreover have "\<not> vl_instr_length vf < 4294967296" by (simp add: word_less_nat_alt)
  ultimately have "vebc_to_function vf h = None"
    using rf d by (simp add: vebc_to_function_def wrapping_builder_def load_chunk_def Let_def split: prod.splits)
  then show ?thesis using l by blast
qed

end
