(* ===== verification/Json.thy ===== *)
theory Json
  imports Vm_Values
begin

section \<open>JSON (stdlib_json.c)\<close>

text \<open>
  \<open>json.encode\<close> and \<open>json.decode\<close>.  The output buffer is the string it holds; its capacity is left
  out.  The parser's position is the rest of the input.  Both functions of the code recurse without a
  bound, so the encoder counts down the C stack's frames: \<open>None\<close> is a stack that overflows, or a
  dereference of a dangling pointer.  In the parser the outer \<open>None\<close> is a loop that never ends, the
  inner \<open>None\<close> is \<open>*ok = false\<close>.
\<close>

unbundle bit_operations_syntax

subsection \<open>Encoder\<close>

definition json_hex_digit :: "nat \<Rightarrow> char" where
  "json_hex_digit n = (if n < 10 then char_of (n + 48) else char_of (n + 87))"

text \<open>One character of a string; the last escape is \<open>snprintf\<close> of \<open>\u%04x\<close>.\<close>

definition json_escape :: "char \<Rightarrow> string" where
  "json_escape c =
     (if c = CHR 0x22 then [CHR 0x5C, CHR 0x22]
      else if c = CHR 0x5C then [CHR 0x5C, CHR 0x5C]
      else if c = CHR 0x0A then [CHR 0x5C, CHR ''n'']
      else if c = CHR 0x0D then [CHR 0x5C, CHR ''r'']
      else if c = CHR 0x09 then [CHR 0x5C, CHR ''t'']
      else if (of_char c :: nat) < 0x20 then
        [CHR 0x5C, CHR ''u'', CHR ''0'', CHR ''0'', json_hex_digit (of_char c div 16), json_hex_digit (of_char c mod 16)]
      else [c])"

definition json_encode_string :: "string \<Rightarrow> string" where
  "json_encode_string s = CHR 0x22 # concat (map json_escape s) @ [CHR 0x22]"

text \<open>\<open>isnan\<close> or \<open>isinf\<close>.\<close>

definition dbl_not_finite :: "val64 \<Rightarrow> bool" where
  "dbl_not_finite d \<longleftrightarrow> 0x7FF0000000000000 \<le> dbl_abs d"

fun json_encode_list :: "(val64 \<Rightarrow> string option) \<Rightarrow> bool \<Rightarrow> val64 list \<Rightarrow> string option" where
  "json_encode_list rec first [] = Some []"
| "json_encode_list rec first (v # vs) = do {
     t \<leftarrow> rec v;
     ts \<leftarrow> json_encode_list rec False vs;
     Some ((if first then [] else '','') @ t @ ts) }"

fun json_encode_map :: "heap \<Rightarrow> (val64 \<Rightarrow> string option) \<Rightarrow> bool \<Rightarrow> ptr map_entry list \<Rightarrow> string option" where
  "json_encode_map h rec first [] = Some []"
| "json_encode_map h rec first (e # es) =
     (case me_key e of
        Live k \<Rightarrow> do {
          t \<leftarrow> rec (me_value e);
          ts \<leftarrow> json_encode_map h rec False es;
          Some ((if first then [] else '','') @ json_encode_string (AS_STRING h (OBJ_VAL k)) @ '':'' @ t @ ts) }
      | _ \<Rightarrow> json_encode_map h rec first es)"

fun json_encode_value :: "libc \<Rightarrow> nat \<Rightarrow> heap \<Rightarrow> val64 \<Rightarrow> string option" where
  "json_encode_value L 0 h v = None"
| "json_encode_value L (Suc n) h v =
     (if IS_NIL v then Some ''null''
      else if IS_BOOL v then Some (if AS_BOOL v then ''true'' else ''false'')
      else if IS_INT v then Some (show_int (AS_INT v))
      else if IS_FLOAT v then
        (let d = value_as_double v in Some (if dbl_not_finite d then ''null'' else fmt_g L d))
      else if IS_PTR v then
        (case obj_of h v of
           Some (OBJ_STRING s) \<Rightarrow> Some (json_encode_string s)
         | Some (OBJ_LIST l) \<Rightarrow> do {
             ts \<leftarrow> json_encode_list (json_encode_value L n h) True (ol_data l);
             Some (''['' @ ts @ '']'') }
         | Some (OBJ_MAP m) \<Rightarrow> do {
             ts \<leftarrow> json_encode_map h (json_encode_value L n h) True (om_entries m);
             Some (''{'' @ ts @ ''}'') }
         | Some _ \<Rightarrow> Some ''null''
         | None \<Rightarrow> None)
      else Some ''null'')"

definition native_json_encode :: "libc \<Rightarrow> nat \<Rightarrow> heap \<Rightarrow> val64 \<Rightarrow> (val64 \<times> heap) option" where
  "native_json_encode L n h arg = map_option (new_string h) (json_encode_value L n h arg)"

subsection \<open>Lexical level of the decoder\<close>

definition is_json_ws :: "char \<Rightarrow> bool" where
  "is_json_ws c \<longleftrightarrow> c = CHR '' '' \<or> c = CHR 0x09 \<or> c = CHR 0x0A \<or> c = CHR 0x0D"

definition json_skip_ws :: "string \<Rightarrow> string" where
  "json_skip_ws cs = dropWhile is_json_ws cs"

text \<open>The rest of the input after a literal.\<close>

definition json_match :: "string \<Rightarrow> string \<Rightarrow> string option" where
  "json_match lit cs =
     (let cs = json_skip_ws cs
      in if take (length lit) cs = lit then Some (drop (length lit) cs) else None)"

definition json_hex_value :: "char \<Rightarrow> u32 option" where
  "json_hex_value c =
     (let n = of_char c :: nat
      in if 48 \<le> n \<and> n \<le> 57 then Some (of_nat (n - 48))
         else if 97 \<le> n \<and> n \<le> 102 then Some (of_nat (n - 97 + 10))
         else if 65 \<le> n \<and> n \<le> 70 then Some (of_nat (n - 65 + 10)) else None)"

fun json_hex_loop :: "u32 \<Rightarrow> string \<Rightarrow> u32 option" where
  "json_hex_loop cp [] = Some cp"
| "json_hex_loop cp (c # cs) =
     Option.bind (json_hex_value c) (\<lambda>d. json_hex_loop (push_bit 4 cp OR d) cs)"

definition json_utf8 :: "u32 \<Rightarrow> string" where
  "json_utf8 cp =
     (if cp < 0x80 then [char_of (unat cp)]
      else if cp < 0x800 then [char_of (unat (0xC0 OR drop_bit 6 cp)), char_of (unat (0x80 OR (cp AND 0x3F)))]
      else [char_of (unat (0xE0 OR drop_bit 12 cp)), char_of (unat (0x80 OR (drop_bit 6 cp AND 0x3F))),
            char_of (unat (0x80 OR (cp AND 0x3F)))])"

definition json_unescape :: "char \<Rightarrow> char" where
  "json_unescape e =
     (if e = CHR ''n'' then CHR 0x0A else if e = CHR ''r'' then CHR 0x0D else if e = CHR ''t'' then CHR 0x09
      else if e = CHR ''b'' then CHR 0x08 else if e = CHR ''f'' then CHR 0x0C else e)"

text \<open>The characters up to the closing quote: what they stand for, and the rest.\<close>

function json_string_loop :: "string \<Rightarrow> string \<Rightarrow> (string \<times> string) option" where
  "json_string_loop buf [] = None"
| "json_string_loop buf (c # cs) =
     (if c = CHR 0x22 then Some (buf, cs)
      else if c = CHR 0x5C then
        (case cs of
           [] \<Rightarrow> None
         | e # cs \<Rightarrow>
             if e = CHR ''u'' then
               if length cs < 4 then None
               else (case json_hex_loop 0 (take 4 cs) of
                  None \<Rightarrow> None
                | Some cp \<Rightarrow> json_string_loop (buf @ json_utf8 cp) (drop 4 cs))
             else json_string_loop (buf @ [json_unescape e]) cs)
      else json_string_loop (buf @ [c]) cs)"
  by pat_completeness auto
termination by (relation "measure (\<lambda>(buf, cs). length cs)") auto

type_synonym json_result = "((val64 \<times> string) option \<times> heap) option"

definition json_parse_string :: "heap \<Rightarrow> string \<Rightarrow> (val64 \<times> string) option \<times> heap" where
  "json_parse_string h cs =
     (case json_skip_ws cs of
        [] \<Rightarrow> (None, h)
      | c # cs \<Rightarrow>
          if c \<noteq> CHR 0x22 then (None, h)
          else (case json_string_loop [] cs of
              None \<Rightarrow> (None, h)
            | Some (s, cs) \<Rightarrow> (let (v, h) = new_string h s in (Some (v, cs), h))))"

text \<open>One character, if it is there and satisfies \<open>P\<close>; and the digits that come next.\<close>

definition json_optional :: "(char \<Rightarrow> bool) \<Rightarrow> string \<Rightarrow> string \<times> string" where
  "json_optional P cs = (case cs of [] \<Rightarrow> ([], []) | c # r \<Rightarrow> if P c then ([c], r) else ([], cs))"

definition json_digits :: "string \<Rightarrow> string \<times> string" where
  "json_digits cs = (takeWhile is_digit_char cs, dropWhile is_digit_char cs)"

text \<open>The scanned characters, whether they are a float, and the rest.\<close>

definition json_scan_number :: "string \<Rightarrow> string \<times> bool \<times> string" where
  "json_scan_number cs =
     (let (sign, cs) = json_optional (\<lambda>c. c = CHR ''-'') cs;
          (digits, cs) = json_digits cs;
          (point, cs) = json_optional (\<lambda>c. c = CHR ''.'') cs;
          (fraction, cs) = (if point = [] then ([], cs) else json_digits cs);
          (e, cs) = json_optional (\<lambda>c. c = CHR ''e'' \<or> c = CHR ''E'') cs;
          (esign, cs) = (if e = [] then ([], cs) else json_optional (\<lambda>c. c = CHR ''+'' \<or> c = CHR ''-'') cs);
          (exponent, cs) = (if e = [] then ([], cs) else json_digits cs)
      in (sign @ digits @ point @ fraction @ e @ esign @ exponent, point \<noteq> [] \<or> e \<noteq> [], cs))"

text \<open>At most 63 characters are copied for the conversion.\<close>

definition json_parse_number :: "libc \<Rightarrow> string \<Rightarrow> (val64 \<times> string) option" where
  "json_parse_number L cs =
     (let (text, is_float, rest) = json_scan_number (json_skip_ws cs);
          tmp = take 63 text
      in if text = [] then None
         else if is_float then Some (double_val (fst (c_strtod L tmp)), rest)
         else Some (INT_VAL (fst (strtoll tmp)), rest))"

subsection \<open>Decoder\<close>

text \<open>
  One level of recursion per call: the first argument bounds the calls and loop rounds that are left.
  \<open>json_array_loop\<close> and \<open>json_object_loop\<close> are the \<open>for (;;)\<close> of the list and map parsers, which fill the
  object that \<open>p\<close> points to.
\<close>

function (sequential) json_parse_value :: "libc \<Rightarrow> nat \<Rightarrow> heap \<Rightarrow> string \<Rightarrow> json_result"
  and json_array_loop :: "libc \<Rightarrow> nat \<Rightarrow> ptr \<Rightarrow> heap \<Rightarrow> string \<Rightarrow> json_result"
  and json_object_loop :: "libc \<Rightarrow> nat \<Rightarrow> ptr \<Rightarrow> heap \<Rightarrow> string \<Rightarrow> json_result" where
  "json_parse_value L 0 h cs = None"
| "json_parse_value L (Suc n) h cs =
     (case json_skip_ws cs of
        [] \<Rightarrow> Some (None, h)
      | c # rest \<Rightarrow>
          if c = CHR 0x22 then Some (json_parse_string h (c # rest))
          else if c = CHR ''{'' then
            (let (p, h) = alloc_object h (OBJ_MAP obj_map_new); cs = json_skip_ws rest
             in if cs \<noteq> [] \<and> hd cs = CHR ''}'' then Some (Some (OBJ_VAL p, tl cs), h)
                else json_object_loop L n p h cs)
          else if c = CHR ''['' then
            (let (p, h) = obj_list_new h; cs = json_skip_ws rest
             in if cs \<noteq> [] \<and> hd cs = CHR '']'' then Some (Some (OBJ_VAL p, tl cs), h)
                else json_array_loop L n p h cs)
          else if c = CHR ''t'' then Some (map_option (Pair VAL_TRUE) (json_match ''true'' (c # rest)), h)
          else if c = CHR ''f'' then Some (map_option (Pair VAL_FALSE) (json_match ''false'' (c # rest)), h)
          else if c = CHR ''n'' then Some (map_option (Pair VAL_NIL) (json_match ''null'' (c # rest)), h)
          else if c = CHR ''-'' \<or> is_digit_char c then Some (json_parse_number L (c # rest), h)
          else Some (None, h))"
| "json_array_loop L 0 p h cs = None"
| "json_array_loop L (Suc n) p h cs =
     Option.bind (json_parse_value L n h cs) (\<lambda>(r, h).
       case r of
         None \<Rightarrow> Some (None, h)
       | Some (v, cs) \<Rightarrow>
           (let h = set_list h (OBJ_VAL p) (obj_list_push (AS_LIST h (OBJ_VAL p)) v)
            in case json_skip_ws cs of
                 [] \<Rightarrow> Some (None, h)
               | c # cs \<Rightarrow>
                   if c = CHR '']'' then Some (Some (OBJ_VAL p, cs), h)
                   else if c = CHR '','' then json_array_loop L n p h cs
                   else Some (None, h)))"
| "json_object_loop L 0 p h cs = None"
| "json_object_loop L (Suc n) p h cs =
     (case json_parse_string h cs of
        (None, h) \<Rightarrow> Some (None, h)
      | (Some (key, cs), h) \<Rightarrow>
          (case json_skip_ws cs of
             [] \<Rightarrow> Some (None, h)
           | c # cs \<Rightarrow>
               if c \<noteq> CHR '':'' then Some (None, h)
               else Option.bind (json_parse_value L n h cs) (\<lambda>(r, h).
                 case r of
                   None \<Rightarrow> Some (None, h)
                 | Some (v, cs) \<Rightarrow>
                     Option.bind (obj_map_set (key_hash h) (AS_MAP h (OBJ_VAL p)) (AS_PTR key) v) (\<lambda>(m, _).
                       let h = set_map h (OBJ_VAL p) m
                       in case json_skip_ws cs of
                            [] \<Rightarrow> Some (None, h)
                          | c # cs \<Rightarrow>
                              if c = CHR ''}'' then Some (Some (OBJ_VAL p, cs), h)
                              else if c = CHR '','' then json_object_loop L n p h cs
                              else Some (None, h)))))"
  by pat_completeness auto

termination
  by (relation "measure (\<lambda>x. case x of Inl (L, n, h, cs) \<Rightarrow> n | Inr (Inl (L, n, p, h, cs)) \<Rightarrow> n
     | Inr (Inr (L, n, p, h, cs)) \<Rightarrow> n)") auto

text \<open>Every call but one in two consumes a character, so this bound is never reached.\<close>

definition json_fuel :: "string \<Rightarrow> nat" where
  "json_fuel cs = 2 * length cs + 1"

definition native_json_decode :: "libc \<Rightarrow> heap \<Rightarrow> val64 \<Rightarrow> (val64 \<times> heap) option" where
  "native_json_decode L h arg =
     (if \<not> IS_STRING h arg then Some (VAL_NIL, h)
      else
        let input = AS_STRING h arg
        in map_option (\<lambda>(r, h). (case r of None \<Rightarrow> VAL_NIL | Some (v, _) \<Rightarrow> v, h))
             (json_parse_value L (json_fuel input) h input))"

end
