(* ===== verification/Machine_Facts.thy ===== *)
theory Machine_Facts
  imports Obj_Refs Obj_Map_Correct Vm_Values
begin

section \<open>Facts on numbers and on heaps that grow\<close>

text \<open>
  Facts that the JSON functions and the compiler share: the digits of a printed number, what a step
  that allocates objects or fills one object leaves of the heap, interned keys, and maps whose keys are
  interned strings.
\<close>

subsection \<open>Numbers\<close>

declare show_nat.simps [simp del]

lemma show_nat_digits: "show_nat n \<noteq> [] \<and> (\<forall>c \<in> set (show_nat n). is_digit_char c)"
proof (induction n rule: show_nat.induct)
  case (1 n)
  show ?case
  proof (cases "n < 10")
    case True
    then show ?thesis by (simp add: show_nat.simps [of n] is_digit_char_def)
  next
    case False
    have "n mod 10 < 10" by simp
    then show ?thesis using 1 False by (simp add: show_nat.simps [of n] is_digit_char_def)
  qed
qed

lemma digit_value: "n < 10 \<Longrightarrow> (of_char (char_of (n + 48)) :: int) = int n + 48"
proof -
  assume "n < 10"
  then have "(of_char (char_of (n + 48) :: char) :: nat) = n + 48" by simp
  then have "int (of_char (char_of (n + 48) :: char)) = int (n + 48)" by (rule arg_cong)
  then show ?thesis by (simp only: of_nat_of_char)
qed

lemma show_nat_value: "foldl (\<lambda>n c. n * 10 + (of_char c - 48)) (0 :: int) (show_nat n) = int n"
proof (induction n rule: show_nat.induct)
  case (1 n)
  show ?case
  proof (cases "n < 10")
    case True
    then show ?thesis by (subst show_nat.simps) (simp add: digit_value)
  next
    case False
    have "n mod 10 < 10" "int (n div 10) * 10 + int (n mod 10) = int n" by presburger+
    then show ?thesis using 1 False by (subst show_nat.simps) (simp add: digit_value)
  qed
qed

lemma show_nat_length: "n < 10 ^ k \<Longrightarrow> 0 < k \<Longrightarrow> length (show_nat n) \<le> k"
proof (induction n arbitrary: k rule: show_nat.induct)
  case (1 n)
  show ?case
  proof (cases "n < 10")
    case True
    then show ?thesis using "1.prems" by (subst show_nat.simps) simp
  next
    case False
    then obtain k' where k: "k = Suc k'" "0 < k'" using "1.prems" by (cases k; cases "k - 1") auto
    then have "n div 10 < 10 ^ k'" using "1.prems" by (simp add: less_mult_imp_div_less)
    then show ?thesis using "1.IH" [of k'] False k by (subst show_nat.simps) simp
  qed
qed

lemma show_nat_head: "\<exists>c cs. show_nat n = c # cs \<and> is_digit_char c"
  using show_nat_digits [of n] by (cases "show_nat n") auto

lemma INT_VAL_int:
  assumes "- (2 ^ 47) \<le> i" and "i < 2 ^ 47"
  shows "IS_INT (INT_VAL i)" "AS_INT (INT_VAL i) = i"
proof -
  have "sint (word_of_int i :: 64 word) = i"
    using assms by (simp add: int_word_sint)
  then show "IS_INT (INT_VAL i)" "AS_INT (INT_VAL i) = i"
    using int_val_roundtrip [of "word_of_int i"] assms by (simp_all add: INT_VAL_def AS_INT_def wrap48_id)
qed

subsection \<open>Later heaps\<close>

text \<open>The later heap has the objects of the earlier one, and the same strings; \<open>P\<close> says which objects
  are kept as they are.\<close>

definition heap_le :: "(ptr \<Rightarrow> bool) \<Rightarrow> heap \<Rightarrow> heap \<Rightarrow> bool" where
  "heap_le P h h' \<longleftrightarrow> length h \<le> length h' \<and>
     (\<forall>i < length h. (P i \<longrightarrow> h' ! i = h ! i) \<and> (\<forall>s. h' ! i = OBJ_STRING s \<longleftrightarrow> h ! i = OBJ_STRING s))"

lemma heap_le_refl: "heap_le P h h"
  by (simp add: heap_le_def)

lemma heap_le_trans: "heap_le P h1 h2 \<Longrightarrow> heap_le Q h2 h3 \<Longrightarrow> (\<And>i. i < length h1 \<Longrightarrow> R i \<Longrightarrow> P i \<and> Q i) \<Longrightarrow> heap_le R h1 h3"
  unfolding heap_le_def by (auto intro: less_le_trans)

lemma heap_le_append: "heap_le P h (h @ os)"
  by (simp add: heap_le_def nth_append)

lemma heap_le_update:
  assumes "\<And>s. h ! p \<noteq> OBJ_STRING s" and "\<And>s. ob \<noteq> OBJ_STRING s"
  shows "heap_le (\<lambda>i. i \<noteq> p) h (h[p := ob])"
proof (cases "p < length h")
  case True
  then show ?thesis using assms by (auto simp: heap_le_def nth_list_update)
qed (simp add: heap_le_def list_update_beyond)

lemma heap_le_string: "heap_le P h h' \<Longrightarrow> i < length h \<Longrightarrow> h ! i = OBJ_STRING s \<Longrightarrow> i < length h' \<and> h' ! i = OBJ_STRING s"
  by (auto simp: heap_le_def)

lemma heap_le_obj_of:
  assumes "heap_le P h h'" and "obj_of h v = Some ob" and "P (AS_PTR v) \<or> (\<exists>s. ob = OBJ_STRING s)"
  shows "obj_of h' v = Some ob"
  using assms heap_le_string [OF assms(1), of "AS_PTR v"] by (auto simp: obj_of_def heap_le_def split: if_splits)

lemma om_inv_cong:
  assumes "om_inv hs m" and "\<And>k. om_abs m k \<noteq> None \<Longrightarrow> hs' k = hs k"
  shows "om_inv hs' m"
proof -
  let ?ks = "entry_keys (om_entries m)"
  have ok: "slots_ok hs ?ks" using assms(1) by (simp add: om_inv_def)
  have "slots_ok hs' ?ks"
  proof (rule slots_okI)
    fix p k assume p: "p < length ?ks" "?ks ! p = Live k"
    then have "Live k \<in> set ?ks" by (metis nth_mem)
    then have "hs' k = hs k" using assms(2) by (simp add: om_abs_def entries_map_None)
    then show "path_ok hs' ?ks k p" using slots_ok_path [OF ok p] by (simp add: path_ok_def slot_pos_def)
  qed (use ok in \<open>auto intro: slots_ok_unique\<close>)
  then show ?thesis using assms(1) by (simp add: om_inv_def)
qed

lemma key_hash_string: "h ! k = OBJ_STRING s \<Longrightarrow> key_hash h k = hash_string s"
  by (simp add: key_hash_def)

subsection \<open>Interned keys\<close>

lemma find_string_Cons: "find_string (ob # h) s n = (if ob = OBJ_STRING s then Some n else find_string h s (n + 1))"
  by (cases ob) simp_all

lemma find_string_offset:
  "find_string h s n = Some (n + k) \<longleftrightarrow> k < length h \<and> h ! k = OBJ_STRING s \<and> (\<forall>i < k. h ! i \<noteq> OBJ_STRING s)"
proof (induction h arbitrary: n k)
  case (Cons ob h)
  show ?case
  proof (cases k)
    case 0
    then show ?thesis using find_string_Some [of h s "n + 1" n] by (auto simp: find_string_Cons simp del: find_string.simps)
  next
    case (Suc k')
    have "find_string (ob # h) s n = Some (n + k) \<longleftrightarrow> ob \<noteq> OBJ_STRING s \<and> find_string h s (n + 1) = Some ((n + 1) + k')"
      by (simp add: find_string_Cons Suc del: find_string.simps)
    then show ?thesis unfolding Cons.IH by (auto simp: Suc less_Suc_eq_0_disj)
  qed
qed simp

lemma find_string_iff:
  "find_string h s 0 = Some p \<longleftrightarrow> p < length h \<and> h ! p = OBJ_STRING s \<and> (\<forall>i < p. h ! i \<noteq> OBJ_STRING s)"
  using find_string_offset [of h s 0 p] by simp

lemma find_string_heap_le:
  assumes "find_string h s 0 = Some p" and "heap_le P h h'"
  shows "find_string h' s 0 = Some p"
proof -
  have p: "p < length h" "h ! p = OBJ_STRING s" "\<forall>i < p. h ! i \<noteq> OBJ_STRING s"
    using assms(1) by (simp_all add: find_string_iff)
  have "h' ! i \<noteq> OBJ_STRING s" if "i < p" for i
  proof -
    have "i < length h" "h ! i \<noteq> OBJ_STRING s" using that p by auto
    then show ?thesis using assms(2) by (simp add: heap_le_def)
  qed
  then show ?thesis using heap_le_string [OF assms(2) p(1,2)] by (simp add: find_string_iff)
qed

lemma intern_string_found_first:
  assumes "intern_string h s = (p, h')"
  shows "find_string h' s 0 = Some p"
proof (cases "find_string h s 0")
  case None
  then have "OBJ_STRING s \<notin> set h" by (simp add: find_string_None)
  then have "h ! i \<noteq> OBJ_STRING s" if "i < length h" for i using nth_mem [OF that] by metis
  then show ?thesis
    using None assms by (auto simp: intern_string_def alloc_object_def find_string_iff nth_append)
qed (use assms in \<open>simp add: intern_string_def\<close>)

definition keys_ok :: "heap \<Rightarrow> ptr obj_map \<Rightarrow> bool" where
  "keys_ok h m \<longleftrightarrow> (\<forall>k v. om_abs m k = Some v \<longrightarrow> (\<exists>s. find_string h s 0 = Some k))"

definition key_map :: "heap \<Rightarrow> ptr obj_map \<Rightarrow> string \<Rightarrow> val64 option" where
  "key_map h m s = Option.bind (find_string h s 0) (om_abs m)"

lemma keys_heap_le:
  assumes "keys_ok h m" and "heap_le P h h'"
  shows "keys_ok h' m" and "key_map h' m = key_map h m"
proof -
  show k: "keys_ok h' m" using assms(1) find_string_heap_le [OF _ assms(2)] unfolding keys_ok_def by blast
  show "key_map h' m = key_map h m"
  proof
    fix s
    show "key_map h' m s = key_map h m s"
    proof (cases "find_string h s 0")
      case None
      have "om_abs m k = None" if "find_string h' s 0 = Some k" for k
      proof (rule ccontr)
        assume "om_abs m k \<noteq> None"
        then obtain s' where s': "find_string h s' 0 = Some k" using assms(1) by (auto simp: keys_ok_def)
        then have "s' = s" using find_string_heap_le [OF s' assms(2)] that by (simp add: find_string_iff)
        then show False using s' None by simp
      qed
      then show ?thesis using None by (auto simp: key_map_def split: bind_splits)
    qed (use find_string_heap_le [OF _ assms(2)] in \<open>simp add: key_map_def\<close>)
  qed
qed

lemma key_map_update:
  assumes "om_abs m' = (om_abs m)(k \<mapsto> v)" and "find_string h s 0 = Some k"
  shows "key_map h m' = (key_map h m)(s \<mapsto> v)"
proof
  fix s'
  have "s' \<noteq> s \<Longrightarrow> find_string h s' 0 \<noteq> Some k" using assms(2) by (auto simp: find_string_iff)
  then show "key_map h m' s' = ((key_map h m)(s \<mapsto> v)) s'"
    unfolding key_map_def assms(1) using assms(2) by (cases "s' = s"; cases "find_string h s' 0") auto
qed

lemma keys_ok_update:
  "om_abs m' = (om_abs m)(k \<mapsto> v) \<Longrightarrow> keys_ok h m \<Longrightarrow> find_string h s 0 = Some k \<Longrightarrow> keys_ok h m'"
  by (auto simp: keys_ok_def split: if_splits)

lemma om_inv_heap_le:
  assumes "om_inv (key_hash h) m" and "keys_ok h m" and "heap_le P h h'"
  shows "om_inv (key_hash h') m"
  using assms(1)
proof (rule om_inv_cong)
  fix k assume "om_abs m k \<noteq> None"
  then obtain s where "k < length h" "h ! k = OBJ_STRING s" using assms(2) by (auto simp: keys_ok_def find_string_iff)
  then show "key_hash h' k = key_hash h k" using heap_le_string [OF assms(3)] by (simp add: key_hash_string)
qed

definition map_ok :: "heap \<Rightarrow> ptr obj_map \<Rightarrow> bool" where
  "map_ok h m \<longleftrightarrow> om_inv (key_hash h) m \<and> om_clean m \<and> keys_ok h m"

subsection \<open>Map objects with interned keys\<close>

lemma set_map_map:
  assumes "p < length h" and "length h < 2 ^ 43" and "h ! p = OBJ_MAP m"
  shows "AS_MAP h (OBJ_VAL p) = m" "set_map h (OBJ_VAL p) m' = h[p := OBJ_MAP m']"
    "heap_le (\<lambda>i. i \<noteq> p) h (h[p := OBJ_MAP m'])"
proof -
  have "AS_PTR (OBJ_VAL p) = p" using assms OBJ_VAL_ptr [of p] by simp
  then show "AS_MAP h (OBJ_VAL p) = m" "set_map h (OBJ_VAL p) m' = h[p := OBJ_MAP m']"
    using assms by (simp_all add: AS_MAP_def set_map_def)
  show "heap_le (\<lambda>i. i \<noteq> p) h (h[p := OBJ_MAP m'])" by (rule heap_le_update) (simp_all add: assms)
qed

lemma map_ok_heap_le: "map_ok h m \<Longrightarrow> heap_le P h h' \<Longrightarrow> map_ok h' m"
  by (auto simp: map_ok_def intro: om_inv_heap_le keys_heap_le)

lemma map_ok_store:
  assumes ok: "map_ok h m" and small: "unat (om_length m) < 2 ^ 29" and k: "find_string h s 0 = Some k"
  obtains m' b where "obj_map_set (key_hash h) m k v = Some (m', b)" "map_ok h m'"
    "key_map h m' = (key_map h m)(s \<mapsto> v)" "unat (om_length m') \<le> unat (om_length m) + 1"
proof -
  from obj_map.store_law [of "key_hash h" m k v] ok small obtain m' b where
    m': "obj_map_set (key_hash h) m k v = Some (m', b)" "om_inv (key_hash h) m'" "om_clean m'"
      "om_abs m' = (om_abs m)(k \<mapsto> v)" "unat (om_length m') = unat (om_length m) + of_bool b"
    by (auto simp: map_ok_def)
  have "keys_ok h m'" using keys_ok_update [OF m'(4) _ k] ok by (simp add: map_ok_def)
  then show ?thesis
    using that m' key_map_update [OF m'(4) k] by (auto simp: map_ok_def)
qed

lemma map_ok_new: "map_ok h obj_map_new" "key_map h obj_map_new = Map.empty"
  by (auto simp: map_ok_def keys_ok_def key_map_def split: bind_splits)

end
