(* ===== verification/Json_Correct.thy ===== *)
theory Json_Correct
  imports Json Machine_Facts
begin

section \<open>Correctness of the JSON functions\<close>

text \<open>
  \<open>json\<close> is the data that a value stands for, up to the order of a map's keys; \<open>json_text\<close> is the
  grammar of its texts.  The encoder writes a text of the data that its argument stands for, the
  decoder builds a value that stands for the data of its input, so decoding inverts encoding.
\<close>

unbundle bit_operations_syntax

subsection \<open>Data and grammar\<close>

datatype json = JNull | JBool bool | JInt int | JString string | JList "json list" | JMap "string \<Rightarrow> json option"

text \<open>The value stands for the data; its lists and maps are objects at or after \<open>lo\<close>.\<close>

inductive stands :: "nat \<Rightarrow> heap \<Rightarrow> val64 \<Rightarrow> json \<Rightarrow> bool" for lo h where
  stands_null: "stands lo h VAL_NIL JNull"
| stands_true: "stands lo h VAL_TRUE (JBool True)"
| stands_false: "stands lo h VAL_FALSE (JBool False)"
| stands_int: "IS_INT v \<Longrightarrow> stands lo h v (JInt (AS_INT v))"
| stands_string: "obj_of h v = Some (OBJ_STRING s) \<Longrightarrow> stands lo h v (JString s)"
| stands_list: "obj_of h v = Some (OBJ_LIST l) \<Longrightarrow> lo \<le> AS_PTR v \<Longrightarrow> list_all2 (stands lo h) (ol_data l) js \<Longrightarrow>
    stands lo h v (JList js)"
| stands_map: "obj_of h v = Some (OBJ_MAP m) \<Longrightarrow> lo \<le> AS_PTR v \<Longrightarrow> om_inv (key_hash h) m \<Longrightarrow>
    (\<forall>k w. om_abs m k = Some w \<longrightarrow>
      (\<exists>s j. k < length h \<and> h ! k = OBJ_STRING s \<and> f s = Some j \<and> stands lo h w j)) \<Longrightarrow>
    (\<forall>s j. f s = Some j \<longrightarrow> (\<exists>k w. om_abs m k = Some w \<and> h ! k = OBJ_STRING s)) \<Longrightarrow>
    stands lo h v (JMap f)"

abbreviation ws :: "string \<Rightarrow> bool" where
  "ws w \<equiv> \<forall>c \<in> set w. is_json_ws c"

text \<open>The text between the quotes of a string.\<close>

inductive json_body :: "string \<Rightarrow> string \<Rightarrow> bool" where
  body_end: "json_body [] []"
| body_plain: "json_body t s \<Longrightarrow> c \<noteq> CHR 0x22 \<Longrightarrow> c \<noteq> CHR 0x5C \<Longrightarrow> json_body (c # t) (c # s)"
| body_escape: "json_body t s \<Longrightarrow> e \<noteq> CHR ''u'' \<Longrightarrow> json_body (CHR 0x5C # e # t) (json_unescape e # s)"
| body_unicode: "json_body t s \<Longrightarrow> length ds = 4 \<Longrightarrow> json_hex_loop 0 ds = Some cp \<Longrightarrow>
    json_body (CHR 0x5C # CHR ''u'' # ds @ t) (json_utf8 cp @ s)"

inductive json_text :: "string \<Rightarrow> json \<Rightarrow> bool"
  and json_items :: "string \<Rightarrow> json list \<Rightarrow> bool"
  and json_entries :: "string \<Rightarrow> (string \<times> json) list \<Rightarrow> bool" where
  text_null: "json_text ''null'' JNull"
| text_true: "json_text ''true'' (JBool True)"
| text_false: "json_text ''false'' (JBool False)"
| text_int: "- (2 ^ 47) \<le> i \<Longrightarrow> i < 2 ^ 47 \<Longrightarrow> json_text (show_int i) (JInt i)"
| text_string: "json_body t s \<Longrightarrow> json_text (CHR 0x22 # t @ [CHR 0x22]) (JString s)"
| text_nil: "ws w \<Longrightarrow> json_text (CHR ''['' # w @ [CHR '']'']) (JList [])"
| text_list: "json_items t js \<Longrightarrow> json_text (CHR ''['' # t @ [CHR '']'']) (JList js)"
| text_empty: "ws w \<Longrightarrow> json_text (CHR ''{'' # w @ [CHR ''}'']) (JMap Map.empty)"
| text_map: "json_entries t kjs \<Longrightarrow> json_text (CHR ''{'' # t @ [CHR ''}'']) (JMap (map_of (rev kjs)))"
| text_before: "json_text t j \<Longrightarrow> ws w \<Longrightarrow> json_text (w @ t) j"
| text_after: "json_text t j \<Longrightarrow> ws w \<Longrightarrow> json_text (t @ w) j"
| items_one: "json_text t j \<Longrightarrow> json_items t [j]"
| items_more: "json_text t j \<Longrightarrow> json_items ts js \<Longrightarrow> json_items (t @ CHR '','' # ts) (j # js)"
| entries_one: "ws w \<Longrightarrow> json_body k s \<Longrightarrow> ws w' \<Longrightarrow> json_text t j \<Longrightarrow>
    json_entries (w @ CHR 0x22 # k @ CHR 0x22 # w' @ CHR '':'' # t) [(s, j)]"
| entries_more: "ws w \<Longrightarrow> json_body k s \<Longrightarrow> ws w' \<Longrightarrow> json_text t j \<Longrightarrow> json_entries ts kjs \<Longrightarrow>
    json_entries (w @ CHR 0x22 # k @ CHR 0x22 # w' @ CHR '':'' # t @ CHR '','' # ts) ((s, j) # kjs)"

subsection \<open>Strings\<close>

lemma json_string_loop_body:
  "json_body t s \<Longrightarrow> json_string_loop buf (t @ CHR 0x22 # rest) = Some (buf @ s, rest)"
  by (induction arbitrary: buf rule: json_body.induct) simp_all

lemma less_16_cases:
  fixes n :: nat
  assumes "n < 16"
  shows "n \<in> {0, 1, 2, 3, 4, 5, 6, 7, 8, 9, 10, 11, 12, 13, 14, 15}"
  using assms unfolding insert_iff empty_iff by presburger

lemma hex_digit_value: "n < 16 \<Longrightarrow> json_hex_value (json_hex_digit n) = Some (of_nat n)"
  using less_16_cases [of n] by (auto simp: json_hex_value_def json_hex_digit_def)

lemma hex_escape:
  assumes "n < 32"
  shows "json_hex_loop 0 [CHR ''0'', CHR ''0'', json_hex_digit (n div 16), json_hex_digit (n mod 16)] = Some (of_nat n)"
proof -
  have d: "n div 16 < 16" "n mod 16 < 16" "n div 16 \<in> {0, 1}" using assms by auto
  have z: "json_hex_value (CHR ''0'') = Some 0" by (simp add: json_hex_value_def)
  have "push_bit 4 (of_nat a) OR of_nat b = (of_nat (16 * a + b) :: u32)" if "a \<in> {0, 1}" "b < 16" for a b
    using that(1) less_16_cases [OF that(2)] by auto
  from this [OF d(3,2)] have "push_bit 4 (of_nat (n div 16)) OR of_nat (n mod 16) = (of_nat n :: u32)"
    by (simp only: mult_div_mod_eq)
  then show ?thesis using hex_digit_value [OF d(1)] hex_digit_value [OF d(2)] z by simp
qed

lemma json_escape_body:
  assumes "json_body t s" shows "json_body (json_escape c @ t) (c # s)"
proof -
  consider "c \<in> {CHR 0x22, CHR 0x5C, CHR 0x0A, CHR 0x0D, CHR 0x09}" | "c \<notin> {CHR 0x22, CHR 0x5C, CHR 0x0A, CHR 0x0D, CHR 0x09}" "(of_char c :: nat) < 0x20"
    | "c \<notin> {CHR 0x22, CHR 0x5C, CHR 0x0A, CHR 0x0D, CHR 0x09}" "\<not> (of_char c :: nat) < 0x20" by blast
  then show ?thesis
  proof cases
    case 1
    then show ?thesis
      using body_escape [OF assms, of "CHR 0x22"] body_escape [OF assms, of "CHR 0x5C"] body_escape [OF assms, of "CHR ''n''"]
        body_escape [OF assms, of "CHR ''r''"] body_escape [OF assms, of "CHR ''t''"]
      by (auto simp: json_escape_def json_unescape_def)
  next
    case 2
    have "(of_nat (of_char c) :: u32) < 0x80" using 2(2) by (simp add: word_less_nat_alt unat_of_nat)
    moreover have "unat (of_nat (of_char c) :: u32) = of_char c" using 2(2) by (simp add: unat_of_nat)
    ultimately have "json_utf8 (of_nat (of_char c)) = [c]" by (simp add: json_utf8_def)
    then show ?thesis
      using body_unicode [OF assms _ hex_escape [OF 2(2)]] 2 by (simp add: json_escape_def)
  next
    case 3
    then show ?thesis using body_plain [OF assms, of c] by (simp add: json_escape_def)
  qed
qed

lemma json_encode_body: "json_body (concat (map json_escape s)) s"
  by (induction s) (auto intro: body_end json_escape_body)

subsection \<open>Numbers\<close>

declare show_nat.simps [simp del]

definition stops :: "string \<Rightarrow> bool" where
  "stops rest \<longleftrightarrow> (case rest of [] \<Rightarrow> True | c # _ \<Rightarrow> \<not> is_digit_char c \<and> c \<noteq> CHR ''.'' \<and> c \<noteq> CHR ''e'' \<and> c \<noteq> CHR ''E'')"

lemma show_nat_split:
  assumes "stops rest"
  shows "takeWhile is_digit_char (show_nat n @ rest) = show_nat n" "dropWhile is_digit_char (show_nat n @ rest) = rest"
  using assms show_nat_digits [of n]
  by (auto simp: stops_def takeWhile_append2 dropWhile_append2 takeWhile_eq_Nil_iff dropWhile_eq_self_iff split: list.splits)

lemma digit_not:
  "is_digit_char c \<Longrightarrow> c \<noteq> CHR ''-'' \<and> c \<noteq> CHR ''+'' \<and> c \<noteq> CHR 0x00 \<and> \<not> is_json_ws c \<and> \<not> is_space c"
  by (auto simp: is_digit_char_def is_json_ws_def is_space_def)

lemma optional_absent:
  "stops rest \<Longrightarrow> (\<And>c. P c \<Longrightarrow> c = CHR ''.'' \<or> c = CHR ''e'' \<or> c = CHR ''E'') \<Longrightarrow> json_optional P rest = ([], rest)"
  by (cases rest) (auto simp: json_optional_def stops_def)

lemma scan_show_int: "stops rest \<Longrightarrow> json_scan_number (show_int i @ rest) = (show_int i, False, rest)"
proof -
  assume r: "stops rest"
  have z: "json_optional (\<lambda>c. c = CHR ''.'') rest = ([], rest)"
      "json_optional (\<lambda>c. c = CHR ''e'' \<or> c = CHR ''E'') rest = ([], rest)"
    by (rule optional_absent [OF r]; blast)+
  have d: "json_digits (show_nat n @ rest) = (show_nat n, rest)" for n
    using show_nat_split [OF r] by (simp add: json_digits_def)
  obtain c cs where c: "show_nat (nat i) = c # cs" "is_digit_char c" using show_nat_head by blast
  have "json_optional (\<lambda>c. c = CHR ''-'') (show_int i @ rest) =
      (if i < 0 then (''-'', show_nat (nat (- i)) @ rest) else ([], show_nat (nat i) @ rest))"
    using c digit_not [OF c(2)] by (simp add: json_optional_def show_int_def)
  then show ?thesis using z d by (simp add: json_scan_number_def show_int_def)
qed

lemma strtoll_show:
  assumes "- (2 ^ 63) \<le> i" and "i < 2 ^ 63"
  shows "fst (strtoll (show_int i)) = i"
proof -
  have c: "c_str (show_int i) = show_int i"
    using show_nat_digits [of "nat i"] show_nat_digits [of "nat (- i)"] digit_not
    by (fastforce simp: c_str_def show_int_def takeWhile_eq_all_conv)
  have t: "takeWhile is_digit_char (show_nat n) = show_nat n" for n
    using show_nat_digits [of n] by (simp add: takeWhile_eq_all_conv)
  have m: "\<not> is_space (CHR ''-'')" by (simp add: is_space_def)
  obtain d ds where d: "show_nat (nat i) = d # ds" "is_digit_char d" using show_nat_head by blast
  have w: "dropWhile is_space (show_int i) = show_int i"
    using d digit_not [OF d(2)] m by (simp add: show_int_def)
  show ?thesis
  proof (cases "i < 0")
    case True
    then have s: "show_int i = CHR ''-'' # show_nat (nat (- i))" by (simp add: show_int_def)
    show ?thesis
      unfolding strtoll_def c w unfolding s Let_def using show_nat_value [of "nat (- i)"] True assms by (simp add: t)
  next
    case False
    then have s: "show_int i = show_nat (nat i)" by (simp add: show_int_def)
    have h: "show_nat (nat i) \<noteq> []" "hd (show_nat (nat i)) \<noteq> CHR ''-''" "hd (show_nat (nat i)) \<noteq> CHR ''+''"
      using d digit_not [OF d(2)] by simp_all
    show ?thesis
      unfolding strtoll_def c w unfolding s Let_def using h show_nat_value [of "nat i"] False assms by (simp add: t)
  qed
qed

lemma parse_show_int:
  assumes "- (2 ^ 47) \<le> i" and "i < 2 ^ 47" and "stops rest"
  shows "json_parse_number L (show_int i @ rest) = Some (INT_VAL i, rest)"
proof -
  have n: "nat i < 10 ^ 15" "nat (- i) < 10 ^ 15" using assms by simp_all
  have "length (show_int i) \<le> 63"
    using show_nat_length [OF n(1)] show_nat_length [OF n(2)] by (simp add: show_int_def)
  moreover have "show_int i \<noteq> []" using show_nat_digits by (simp add: show_int_def)
  moreover have "json_skip_ws (show_int i @ rest) = show_int i @ rest"
    using show_nat_head [of "nat i"] digit_not by (auto simp: json_skip_ws_def show_int_def is_json_ws_def)
  moreover have "- (2 ^ 63) \<le> i" "i < 2 ^ 63" using assms by simp_all
  ultimately show ?thesis
    using scan_show_int [OF assms(3)] strtoll_show by (simp add: json_parse_number_def)
qed

subsection \<open>Values and later heaps\<close>

lemma stands_heap_le:
  assumes "stands lo h v j" and "heap_le P h h'" and "\<And>i. lo \<le> i \<Longrightarrow> P i"
  shows "stands lo h' v j"
  using assms(1)
proof (induction rule: stands.induct)
  case (stands_list v l js)
  have "list_all2 (stands lo h') (ol_data l) js" by (rule list_all2_mono [OF stands_list(3)]) simp
  then show ?case
    using heap_le_obj_of [OF assms(2) stands_list(1)] assms(3) stands_list(2) by (auto intro: stands.stands_list)
next
  case (stands_map v m f)
  have "om_inv (key_hash h') m"
    using stands_map(3)
  proof (rule om_inv_cong)
    fix k assume "om_abs m k \<noteq> None"
    then obtain s where "k < length h" "h ! k = OBJ_STRING s" using stands_map.IH by blast
    then show "key_hash h' k = key_hash h k" using heap_le_string [OF assms(2)] by (simp add: key_hash_string)
  qed
  moreover have "\<forall>k w. om_abs m k = Some w \<longrightarrow> (\<exists>s j. k < length h' \<and> h' ! k = OBJ_STRING s \<and> f s = Some j \<and> stands lo h' w j)"
    using stands_map.IH heap_le_string [OF assms(2)] by blast
  moreover have "\<forall>s j. f s = Some j \<longrightarrow> (\<exists>k w. om_abs m k = Some w \<and> h' ! k = OBJ_STRING s)"
    using stands_map heap_le_string [OF assms(2)] by blast
  ultimately show ?case
    using heap_le_obj_of [OF assms(2) stands_map(1)] assms(3) stands_map(2) by (auto intro: stands.stands_map)
next
  case (stands_string v s)
  then show ?case using heap_le_obj_of [OF assms(2)] by (blast intro: stands.stands_string)
qed (auto intro: stands.intros)

lemma stands_lower: "stands lo h v j \<Longrightarrow> lo' \<le> lo \<Longrightarrow> stands lo' h v j"
proof (induction rule: stands.induct)
  case (stands_list v l js)
  have "list_all2 (stands lo' h) (ol_data l) js" by (rule list_all2_mono [OF stands_list(3)]) (simp add: stands_list)
  then show ?case using stands_list by (auto intro: stands.stands_list)
next
  case (stands_map v m f)
  then show ?case by (intro stands.stands_map) (auto; blast)+
qed (auto intro: stands.intros)

subsection \<open>Tokens\<close>

lemma skip_ws_append [simp]: "ws w \<Longrightarrow> json_skip_ws (w @ cs) = json_skip_ws cs"
  by (simp add: json_skip_ws_def dropWhile_append2)

lemma skip_ws_Cons [simp]: "\<not> is_json_ws c \<Longrightarrow> json_skip_ws (c # cs) = c # cs"
  by (simp add: json_skip_ws_def)

lemma skip_ws_idem [simp]: "json_skip_ws (json_skip_ws cs) = json_skip_ws cs"
  by (simp add: json_skip_ws_def)

lemma token_not_ws [simp]:
  "\<not> is_json_ws (CHR 0x22)" "\<not> is_json_ws (CHR ''['')" "\<not> is_json_ws (CHR '']'')" "\<not> is_json_ws (CHR ''{'')"
  "\<not> is_json_ws (CHR ''}'')" "\<not> is_json_ws (CHR '','')" "\<not> is_json_ws (CHR '':'')" "\<not> is_json_ws (CHR ''n'')"
  "\<not> is_json_ws (CHR ''t'')" "\<not> is_json_ws (CHR ''f'')" "\<not> is_json_ws (CHR ''-'')"
  by (simp_all add: is_json_ws_def)

lemma parse_value_ws: "json_skip_ws cs = json_skip_ws cs' \<Longrightarrow> json_parse_value L n h cs = json_parse_value L n h cs'"
  by (cases n) simp_all

lemma array_loop_ws: "json_skip_ws cs = json_skip_ws cs' \<Longrightarrow> json_array_loop L n p h cs = json_array_loop L n p h cs'"
  using parse_value_ws [of cs cs'] by (cases n) simp_all

lemma object_loop_ws: "json_skip_ws cs = json_skip_ws cs' \<Longrightarrow> json_object_loop L n p h cs = json_object_loop L n p h cs'"
  by (cases n) (simp_all add: json_parse_string_def)

lemma parse_string_body:
  assumes "ws w" and "json_body k s" and "length h + 1 < 2 ^ 43"
  obtains p h' where "json_parse_string h (w @ CHR 0x22 # k @ CHR 0x22 # rest) = (Some (OBJ_VAL p, rest), h')"
    "heap_le (\<lambda>_. True) h h'" "length h' \<le> length h + 1" "find_string h' s 0 = Some p"
    "obj_of h' (OBJ_VAL p) = Some (OBJ_STRING s)" "AS_PTR (OBJ_VAL p) = p"
proof -
  obtain p h' where i: "intern_string h s = (p, h')" by force
  from intern_string_result [OF i] obtain os where o: "h' = h @ os" "length os \<le> 1" "p < length h'" "h' ! p = OBJ_STRING s" .
  have "json_parse_string h (w @ CHR 0x22 # k @ CHR 0x22 # rest) = (Some (OBJ_VAL p, rest), h')"
    using assms(1) json_string_loop_body [OF assms(2)] i by (simp add: json_parse_string_def new_string_def)
  moreover have "heap_le (\<lambda>_. True) h h'" using o(1) by (simp add: heap_le_append)
  moreover have "obj_of h' (OBJ_VAL p) = Some (OBJ_STRING s)" "AS_PTR (OBJ_VAL p) = p"
    using o assms(3) obj_of_OBJ_VAL [of p h'] OBJ_VAL_ptr [of p] by simp_all
  ultimately show ?thesis using that o intern_string_found_first [OF i] by simp
qed

subsection \<open>What the decoder does with a text\<close>

definition reads_value :: "libc \<Rightarrow> string \<Rightarrow> json \<Rightarrow> bool" where
  "reads_value L t j \<longleftrightarrow> (\<forall>n h rest. 2 * length t + 1 \<le> n \<longrightarrow> stops rest \<longrightarrow> length h + length t < 2 ^ 43 \<longrightarrow>
     length t < 2 ^ 29 \<longrightarrow>
     (\<exists>v cs h'. json_parse_value L n h (t @ rest) = Some (Some (v, cs), h') \<and> json_skip_ws cs = json_skip_ws rest \<and>
        heap_le (\<lambda>_. True) h h' \<and> length h' \<le> length h + length t \<and> stands (length h) h' v j))"

definition reads_items :: "libc \<Rightarrow> string \<Rightarrow> json list \<Rightarrow> bool" where
  "reads_items L t js \<longleftrightarrow> (\<forall>n p h l rest. 2 * length t + 2 \<le> n \<longrightarrow> p < length h \<longrightarrow> h ! p = OBJ_LIST l \<longrightarrow>
     length h + length t < 2 ^ 43 \<longrightarrow> length t < 2 ^ 29 \<longrightarrow>
     (\<exists>h' l' vs. json_array_loop L n p h (t @ CHR '']'' # rest) = Some (Some (OBJ_VAL p, rest), h') \<and>
        heap_le (\<lambda>i. i \<noteq> p) h h' \<and> length h' \<le> length h + length t \<and> h' ! p = OBJ_LIST l' \<and>
        ol_data l' = ol_data l @ vs \<and> list_all2 (stands (length h) h') vs js))"

definition reads_entries :: "libc \<Rightarrow> string \<Rightarrow> (string \<times> json) list \<Rightarrow> bool" where
  "reads_entries L t kjs \<longleftrightarrow> (\<forall>n p h m rest. 2 * length t + 2 \<le> n \<longrightarrow> p < length h \<longrightarrow> h ! p = OBJ_MAP m \<longrightarrow>
     length h + length t < 2 ^ 43 \<longrightarrow> unat (om_length m) + length t < 2 ^ 29 \<longrightarrow>
     map_ok h m \<longrightarrow>
     (\<exists>h' m' us. json_object_loop L n p h (t @ CHR ''}'' # rest) = Some (Some (OBJ_VAL p, rest), h') \<and>
        heap_le (\<lambda>i. i \<noteq> p) h h' \<and> length h' \<le> length h + length t \<and> h' ! p = OBJ_MAP m' \<and>
        map_ok h' m' \<and> key_map h' m' = key_map h m ++ map_of (rev us) \<and>
        list_all2 (\<lambda>(s, v) (s', j). s = s' \<and> stands (length h) h' v j) us kjs))"

lemma reads_valueD:
  assumes "reads_value L t j" and "2 * length t + 1 \<le> n" and "stops rest" and "length h + length t < 2 ^ 43"
    and "length t < 2 ^ 29"
  obtains v cs h' where "json_parse_value L n h (t @ rest) = Some (Some (v, cs), h')"
    "json_skip_ws cs = json_skip_ws rest" "heap_le (\<lambda>_. True) h h'" "length h' \<le> length h + length t"
    "stands (length h) h' v j"
  using assms unfolding reads_value_def by meson

lemma stops_punct [simp]: "stops []" "c \<in> {CHR '','', CHR '']'', CHR ''}''} \<Longrightarrow> stops (c # cs)"
  by (auto simp: stops_def is_digit_char_def)

lemma ws_not: "is_json_ws c \<Longrightarrow> \<not> is_digit_char c \<and> c \<noteq> CHR ''.'' \<and> c \<noteq> CHR ''e'' \<and> c \<noteq> CHR ''E''"
  by (auto simp: is_json_ws_def is_digit_char_def)

lemma stops_ws:
  assumes "ws w" and "stops rest" shows "stops (w @ rest)"
proof (cases w)
  case (Cons c cs)
  then show ?thesis using ws_not [of c] assms(1) by (simp add: stops_def)
qed (use assms in simp)

text \<open>One step of the decoder is enough for a rule of the grammar to hold.\<close>

lemma reads_valueI:
  assumes "\<And>n h rest. 2 * length t \<le> n \<Longrightarrow> stops rest \<Longrightarrow> length h + length t < 2 ^ 43 \<Longrightarrow> length t < 2 ^ 29 \<Longrightarrow>
    \<exists>v cs h'. json_parse_value L (Suc n) h (t @ rest) = Some (Some (v, cs), h') \<and> json_skip_ws cs = json_skip_ws rest \<and>
      heap_le (\<lambda>_. True) h h' \<and> length h' \<le> length h + length t \<and> stands (length h) h' v j"
  shows "reads_value L t j"
  unfolding reads_value_def
proof (intro allI impI)
  fix n rest and h :: heap
  assume a: "2 * length t + 1 \<le> n" "stops rest" "length h + length t < 2 ^ 43" "length t < 2 ^ 29"
  then obtain n' where n: "n = Suc n'" "2 * length t \<le> n'" by (cases n) auto
  show "\<exists>v cs h'. json_parse_value L n h (t @ rest) = Some (Some (v, cs), h') \<and> json_skip_ws cs = json_skip_ws rest \<and>
      heap_le (\<lambda>_. True) h h' \<and> length h' \<le> length h + length t \<and> stands (length h) h' v j"
    unfolding n(1) by (rule assms [OF n(2) a(2-4)])
qed

lemma reads_literals: "reads_value L ''null'' JNull" "reads_value L ''true'' (JBool True)" "reads_value L ''false'' (JBool False)"
  by (rule reads_valueI, simp add: json_match_def heap_le_refl stands.intros)+

lemma reads_int:
  assumes "- (2 ^ 47) \<le> i" and "i < 2 ^ 47"
  shows "reads_value L (show_int i) (JInt i)"
proof (rule reads_valueI)
  fix n rest and h :: heap
  assume r: "stops rest"
  obtain c cs where c: "show_int i = c # cs" "c = CHR ''-'' \<or> is_digit_char c"
    using show_nat_head [of "nat i"] by (cases "i < 0") (auto simp: show_int_def)
  then have "\<not> is_json_ws c" "c \<notin> {CHR 0x22, CHR ''{'', CHR ''['', CHR ''t'', CHR ''f'', CHR ''n''}"
    using digit_not [of c] by (auto simp: is_digit_char_def)
  then have "json_parse_value L (Suc n) h (show_int i @ rest) = Some (Some (INT_VAL i, rest), h)"
    using c parse_show_int [OF assms r, of L] by auto
  moreover have "stands (length h) h (INT_VAL i) (JInt i)"
    using stands_int [of "INT_VAL i"] INT_VAL_int [OF assms] by simp
  ultimately show "\<exists>v cs h'. json_parse_value L (Suc n) h (show_int i @ rest) = Some (Some (v, cs), h') \<and>
      json_skip_ws cs = json_skip_ws rest \<and> heap_le (\<lambda>_. True) h h' \<and> length h' \<le> length h + length (show_int i) \<and>
      stands (length h) h' v (JInt i)"
    using heap_le_refl by fastforce
qed

lemma reads_string:
  assumes "json_body t s" shows "reads_value L (CHR 0x22 # t @ [CHR 0x22]) (JString s)"
proof (rule reads_valueI)
  fix n rest and h :: heap
  assume l: "length h + length (CHR 0x22 # t @ [CHR 0x22]) < 2 ^ 43"
  have e: "ws []" "length h + 1 < 2 ^ 43" using l by simp_all
  from parse_string_body [OF e(1) assms e(2), of rest] obtain p h' where
    p: "json_parse_string h ([] @ CHR 0x22 # t @ CHR 0x22 # rest) = (Some (OBJ_VAL p, rest), h')"
    "heap_le (\<lambda>_. True) h h'" "length h' \<le> length h + 1" "find_string h' s 0 = Some p"
    "obj_of h' (OBJ_VAL p) = Some (OBJ_STRING s)" "AS_PTR (OBJ_VAL p) = p" .
  then show "\<exists>v cs h'. json_parse_value L (Suc n) h ((CHR 0x22 # t @ [CHR 0x22]) @ rest) = Some (Some (v, cs), h') \<and>
      json_skip_ws cs = json_skip_ws rest \<and> heap_le (\<lambda>_. True) h h' \<and>
      length h' \<le> length h + length (CHR 0x22 # t @ [CHR 0x22]) \<and> stands (length h) h' v (JString s)"
    by (auto intro!: exI [of _ "OBJ_VAL p"] exI [of _ rest] exI [of _ h'] stands_string)
qed

lemma reads_before: "reads_value L t j \<Longrightarrow> ws w \<Longrightarrow> reads_value L (w @ t) j"
proof (rule reads_valueI)
  fix n rest and h :: heap
  assume r: "reads_value L t j" and w: "ws w" and a: "2 * length (w @ t) \<le> n" "stops rest" "length h + length (w @ t) < 2 ^ 43"
    "length (w @ t) < 2 ^ 29"
  have "2 * length t + 1 \<le> Suc n" "length h + length t < 2 ^ 43" "length t < 2 ^ 29" using a by simp_all
  from reads_valueD [OF r this(1) a(2) this(2,3)] obtain v cs h' where
    "json_parse_value L (Suc n) h (t @ rest) = Some (Some (v, cs), h')" "json_skip_ws cs = json_skip_ws rest"
    "heap_le (\<lambda>_. True) h h'" "length h' \<le> length h + length t" "stands (length h) h' v j" .
  moreover have "json_parse_value L (Suc n) h (w @ t @ rest) = json_parse_value L (Suc n) h (t @ rest)"
    using w by (intro parse_value_ws) simp
  ultimately show "\<exists>v cs h'. json_parse_value L (Suc n) h ((w @ t) @ rest) = Some (Some (v, cs), h') \<and>
      json_skip_ws cs = json_skip_ws rest \<and> heap_le (\<lambda>_. True) h h' \<and> length h' \<le> length h + length (w @ t) \<and>
      stands (length h) h' v j"
    by (intro exI [of _ v] exI [of _ cs] exI [of _ h']) (simp del: json_parse_value.simps)
qed

lemma reads_after: "reads_value L t j \<Longrightarrow> ws w \<Longrightarrow> reads_value L (t @ w) j"
proof (rule reads_valueI)
  fix n rest and h :: heap
  assume r: "reads_value L t j" and w: "ws w" and a: "2 * length (t @ w) \<le> n" "stops rest" "length h + length (t @ w) < 2 ^ 43"
    "length (t @ w) < 2 ^ 29"
  have "2 * length t + 1 \<le> Suc n" "length h + length t < 2 ^ 43" "length t < 2 ^ 29" using a by simp_all
  from reads_valueD [OF r this(1) stops_ws [OF w a(2)] this(2,3)] obtain v cs h' where
    "json_parse_value L (Suc n) h (t @ w @ rest) = Some (Some (v, cs), h')" "json_skip_ws cs = json_skip_ws (w @ rest)"
    "heap_le (\<lambda>_. True) h h'" "length h' \<le> length h + length t" "stands (length h) h' v j" .
  then show "\<exists>v cs h'. json_parse_value L (Suc n) h ((t @ w) @ rest) = Some (Some (v, cs), h') \<and>
      json_skip_ws cs = json_skip_ws rest \<and> heap_le (\<lambda>_. True) h h' \<and> length h' \<le> length h + length (t @ w) \<and>
      stands (length h) h' v j"
    using w by (intro exI [of _ v] exI [of _ cs] exI [of _ h']) (simp del: json_parse_value.simps)
qed

subsection \<open>Lists\<close>

lemma set_list_list:
  assumes "p < length h" and "length h < 2 ^ 43" and "h ! p = OBJ_LIST l"
  shows "AS_LIST h (OBJ_VAL p) = l" "set_list h (OBJ_VAL p) l' = h[p := OBJ_LIST l']"
    "heap_le (\<lambda>i. i \<noteq> p) h (h[p := OBJ_LIST l'])"
proof -
  have "AS_PTR (OBJ_VAL p) = p" using assms OBJ_VAL_ptr [of p] by simp
  then show "AS_LIST h (OBJ_VAL p) = l" "set_list h (OBJ_VAL p) l' = h[p := OBJ_LIST l']"
    using assms by (simp_all add: AS_LIST_def set_list_def)
  show "heap_le (\<lambda>i. i \<noteq> p) h (h[p := OBJ_LIST l'])" by (rule heap_le_update) (simp_all add: assms)
qed

lemma ol_data_push: "ol_data (obj_list_push l v) = ol_data l @ [v]"
  by (simp add: obj_list_push_def Let_def)

text \<open>The value read in one round, and the list it is pushed onto.\<close>

lemma array_loop_round:
  assumes r: "reads_value L t j" and n: "2 * length t + 1 \<le> n" and c: "c \<in> {CHR '','', CHR '']''}"
    and p: "p < length h" "h ! p = OBJ_LIST l" and b: "length h + length t < 2 ^ 43" "length t < 2 ^ 29"
  obtains v h' where "heap_le (\<lambda>i. i \<noteq> p) h h'" "length h' \<le> length h + length t"
    "h' ! p = OBJ_LIST (obj_list_push l v)" "stands (length h) h' v j"
    "json_array_loop L (Suc n) p h (t @ c # rest) =
       (if c = CHR '']'' then Some (Some (OBJ_VAL p, rest), h') else json_array_loop L n p h' rest)"
proof -
  have "stops (c # rest)" using c by auto
  from reads_valueD [OF r n this b] obtain v cs h1 where
    v: "json_parse_value L n h (t @ c # rest) = Some (Some (v, cs), h1)" "json_skip_ws cs = json_skip_ws (c # rest)"
    "heap_le (\<lambda>_. True) h h1" "length h1 \<le> length h + length t" "stands (length h) h1 v j" .
  have p1: "p < length h1" "h1 ! p = OBJ_LIST l" "length h1 < 2 ^ 43" using v(3,4) p b(1) by (auto simp: heap_le_def)
  let ?h = "h1[p := OBJ_LIST (obj_list_push l v)]"
  note u = set_list_list [OF p1(1,3,2)]
  have w: "json_skip_ws cs = c # rest" using v(2) c by auto
  show ?thesis
  proof (rule that [of ?h v])
    show "heap_le (\<lambda>i. i \<noteq> p) h ?h" by (rule heap_le_trans [OF v(3) u(3)]) simp
    show "stands (length h) ?h v j" by (rule stands_heap_le [OF v(5) u(3)]) (use p(1) in simp)
    show "json_array_loop L (Suc n) p h (t @ c # rest) =
        (if c = CHR '']'' then Some (Some (OBJ_VAL p, rest), ?h) else json_array_loop L n p ?h rest)"
      using c by (auto simp: v(1) w u)
  qed (use v(4) p1 in simp_all)
qed

lemma reads_items_one:
  assumes "reads_value L t j" shows "reads_items L t [j]"
  unfolding reads_items_def
proof (intro allI impI)
  fix n p l rest and h :: heap
  assume a: "2 * length t + 2 \<le> n" "p < length h" "h ! p = OBJ_LIST l" "length h + length t < 2 ^ 43" "length t < 2 ^ 29"
  then obtain n' where n: "n = Suc n'" "2 * length t + 1 \<le> n'" by (cases n) auto
  have c: "CHR '']'' \<in> {CHR '','', CHR '']''}" by simp
  from array_loop_round [OF assms n(2) c a(2-5), of rest] obtain v h' where
    "heap_le (\<lambda>i. i \<noteq> p) h h'" "length h' \<le> length h + length t" "h' ! p = OBJ_LIST (obj_list_push l v)"
    "stands (length h) h' v j" "json_array_loop L (Suc n') p h (t @ CHR '']'' # rest) =
      (if CHR '']'' = CHR '']'' then Some (Some (OBJ_VAL p, rest), h') else json_array_loop L n' p h' rest)" .
  then show "\<exists>h' l' vs. json_array_loop L n p h (t @ CHR '']'' # rest) = Some (Some (OBJ_VAL p, rest), h') \<and>
      heap_le (\<lambda>i. i \<noteq> p) h h' \<and> length h' \<le> length h + length t \<and> h' ! p = OBJ_LIST l' \<and>
      ol_data l' = ol_data l @ vs \<and> list_all2 (stands (length h) h') vs [j]"
    unfolding n(1) by (intro exI [of _ h'] exI [of _ "obj_list_push l v"] exI [of _ "[v]"]) (simp add: ol_data_push del: json_array_loop.simps)
qed

lemma reads_items_more:
  assumes "reads_value L t j" and "reads_items L ts js" shows "reads_items L (t @ CHR '','' # ts) (j # js)"
  unfolding reads_items_def
proof (intro allI impI)
  fix n p l rest and h :: heap
  let ?t = "t @ CHR '','' # ts"
  assume a: "2 * length ?t + 2 \<le> n" "p < length h" "h ! p = OBJ_LIST l" "length h + length ?t < 2 ^ 43" "length ?t < 2 ^ 29"
  then obtain n' where n: "n = Suc n'" "2 * length t + 1 \<le> n'" "2 * length ts + 2 \<le> n'" by (cases n) auto
  have b: "length h + length t < 2 ^ 43" "length t < 2 ^ 29" using a by simp_all
  have c: "CHR '','' \<in> {CHR '','', CHR '']''}" by simp
  from array_loop_round [OF assms(1) n(2) c a(2,3) b, of "ts @ CHR '']'' # rest"] obtain v h1 where
    v: "heap_le (\<lambda>i. i \<noteq> p) h h1" "length h1 \<le> length h + length t" "h1 ! p = OBJ_LIST (obj_list_push l v)"
    "stands (length h) h1 v j"
    "json_array_loop L (Suc n') p h (t @ CHR '','' # ts @ CHR '']'' # rest) =
      (if CHR '','' = CHR '']'' then Some (Some (OBJ_VAL p, ts @ CHR '']'' # rest), h1)
       else json_array_loop L n' p h1 (ts @ CHR '']'' # rest))" .
  have h1: "p < length h1" "length h \<le> length h1" "length h1 + length ts < 2 ^ 43" "length ts < 2 ^ 29"
    using v(1,2) a by (auto simp: heap_le_def)
  from assms(2) [unfolded reads_items_def, rule_format, OF n(3) h1(1) v(3) h1(3,4), of rest] obtain h' l' vs where
    i: "json_array_loop L n' p h1 (ts @ CHR '']'' # rest) = Some (Some (OBJ_VAL p, rest), h')"
    "heap_le (\<lambda>i. i \<noteq> p) h1 h'" "length h' \<le> length h1 + length ts" "h' ! p = OBJ_LIST l'"
    "ol_data l' = ol_data (obj_list_push l v) @ vs" "list_all2 (stands (length h1) h') vs js" by blast
  have "heap_le (\<lambda>i. i \<noteq> p) h h'" by (rule heap_le_trans [OF v(1) i(2)]) simp
  moreover have "stands (length h) h' v j" by (rule stands_heap_le [OF v(4) i(2)]) (use a(2) in simp)
  moreover have "list_all2 (stands (length h) h') vs js"
    by (rule list_all2_mono [OF i(6)]) (rule stands_lower [OF _ h1(2)])
  ultimately show "\<exists>h' l' vs. json_array_loop L n p h (?t @ CHR '']'' # rest) = Some (Some (OBJ_VAL p, rest), h') \<and>
      heap_le (\<lambda>i. i \<noteq> p) h h' \<and> length h' \<le> length h + length ?t \<and> h' ! p = OBJ_LIST l' \<and>
      ol_data l' = ol_data l @ vs \<and> list_all2 (stands (length h) h') vs (j # js)"
    unfolding n(1) using v i
    by (intro exI [of _ h'] exI [of _ l'] exI [of _ "v # vs"]) (simp add: ol_data_push del: json_array_loop.simps)
qed

definition starts :: "string \<Rightarrow> bool" where
  "starts t \<longleftrightarrow> (\<exists>w c r. t = w @ c # r \<and> ws w \<and> \<not> is_json_ws c \<and> c \<noteq> CHR '']'' \<and> c \<noteq> CHR ''}'')"

lemma startsI: "\<not> is_json_ws c \<Longrightarrow> c \<noteq> CHR '']'' \<Longrightarrow> c \<noteq> CHR ''}'' \<Longrightarrow> starts (c # r)"
  unfolding starts_def by (intro exI [of _ "[]"] exI [of _ c] exI [of _ r]) simp

lemma starts_append: "starts t \<Longrightarrow> starts (t @ u)"
  unfolding starts_def by (metis append_Cons append_assoc)

lemma starts_before: "ws w \<Longrightarrow> starts t \<Longrightarrow> starts (w @ t)"
  unfolding starts_def by (metis UnE append_assoc set_append)

lemma starts_skip: "starts t \<Longrightarrow> \<exists>c r. json_skip_ws (t @ rest) = c # r \<and> c \<noteq> CHR '']'' \<and> c \<noteq> CHR ''}''"
  unfolding starts_def by auto

lemma text_starts:
  "json_text t j \<Longrightarrow> starts t" "json_items t js \<Longrightarrow> starts t" "json_entries t kjs \<Longrightarrow> starts t"
proof (induction rule: json_text_json_items_json_entries.inducts)
  case (text_int i)
  obtain c cs where "show_nat (nat i) = c # cs" "is_digit_char c" using show_nat_head by blast
  then show ?case using digit_not [of c] by (auto simp: show_int_def is_digit_char_def intro: startsI)
next
  case (entries_one w k s w' t j)
  then show ?case by (intro starts_before startsI) simp_all
next
  case (entries_more w k s w' t j ts kjs)
  then show ?case by (intro starts_before startsI) simp_all
qed (auto intro: startsI starts_append starts_before)

lemma heap_le_end:
  assumes "heap_le (\<lambda>i. i \<noteq> length h) (h @ [ob]) h'"
  shows "heap_le (\<lambda>_. True) h h'"
  by (rule heap_le_trans [OF heap_le_append [where P = "\<lambda>_. True"] assms]) simp

lemma reads_nil:
  assumes "ws w" shows "reads_value L (CHR ''['' # w @ [CHR '']'']) (JList [])"
proof (rule reads_valueI)
  fix n rest and h :: heap
  let ?h = "h @ [OBJ_LIST \<lparr>ol_data = [], ol_capacity = 0\<rparr>]"
  assume "length h + length (CHR ''['' # w @ [CHR '']'']) < 2 ^ 43"
  then have l: "length h < length ?h" "length ?h < 2 ^ 43" by simp_all
  have "stands (length h) ?h (OBJ_VAL (length h)) (JList [])"
    using obj_of_OBJ_VAL [OF l] OBJ_VAL_ptr [of "length h"] l by (intro stands_list) auto
  then show "\<exists>v cs h'. json_parse_value L (Suc n) h ((CHR ''['' # w @ [CHR '']'']) @ rest) = Some (Some (v, cs), h') \<and>
      json_skip_ws cs = json_skip_ws rest \<and> heap_le (\<lambda>_. True) h h' \<and>
      length h' \<le> length h + length (CHR ''['' # w @ [CHR '']'']) \<and> stands (length h) h' v (JList [])"
    using assms by (intro exI [of _ "OBJ_VAL (length h)"] exI [of _ rest] exI [of _ ?h])
      (simp add: obj_list_new_def alloc_object_def heap_le_append)
qed

lemma reads_list:
  assumes "reads_items L t js" and "starts t" shows "reads_value L (CHR ''['' # t @ [CHR '']'']) (JList js)"
proof (rule reads_valueI)
  fix n rest and h :: heap
  let ?h = "h @ [OBJ_LIST \<lparr>ol_data = [], ol_capacity = 0\<rparr>]"
  let ?t = "CHR ''['' # t @ [CHR '']'']"
  assume a: "2 * length ?t \<le> n" "length h + length ?t < 2 ^ 43" "length ?t < 2 ^ 29"
  have b: "2 * length t + 2 \<le> n" "length h < length ?h" "?h ! length h = OBJ_LIST \<lparr>ol_data = [], ol_capacity = 0\<rparr>"
      "length ?h + length t < 2 ^ 43" "length t < 2 ^ 29"
    using a by simp_all
  from assms(1) [unfolded reads_items_def, rule_format, OF b, of rest] obtain h' l' vs where
    i: "json_array_loop L n (length h) ?h (t @ CHR '']'' # rest) = Some (Some (OBJ_VAL (length h), rest), h')"
    "heap_le (\<lambda>i. i \<noteq> length h) ?h h'" "length h' \<le> length ?h + length t" "h' ! length h = OBJ_LIST l'"
    "ol_data l' = [] @ vs" "list_all2 (stands (length ?h) h') vs js" by auto
  obtain c r where c: "json_skip_ws (t @ CHR '']'' # rest) = c # r" "c \<noteq> CHR '']''" using starts_skip [OF assms(2)] by blast
  have "json_array_loop L n (length h) ?h (c # r) = Some (Some (OBJ_VAL (length h), rest), h')"
    using i(1) array_loop_ws [of "c # r" "t @ CHR '']'' # rest"] c(1) by (metis skip_ws_idem)
  then have "json_parse_value L (Suc n) h (?t @ rest) = Some (Some (OBJ_VAL (length h), rest), h')"
    using c by (simp add: obj_list_new_def alloc_object_def)
  moreover have "stands (length h) h' (OBJ_VAL (length h)) (JList js)"
  proof (rule stands_list)
    have "length h < length h'" "length h' < 2 ^ 43" using i(2,3) a by (auto simp: heap_le_def)
    then show "obj_of h' (OBJ_VAL (length h)) = Some (OBJ_LIST l')" "length h \<le> AS_PTR (OBJ_VAL (length h))"
      using obj_of_OBJ_VAL [of "length h" h'] OBJ_VAL_ptr [of "length h"] i(4) by auto
    show "list_all2 (stands (length h) h') (ol_data l') js"
      unfolding i(5) append_Nil by (rule list_all2_mono [OF i(6)]) (erule stands_lower, simp)
  qed
  ultimately show "\<exists>v cs h'. json_parse_value L (Suc n) h (?t @ rest) = Some (Some (v, cs), h') \<and>
      json_skip_ws cs = json_skip_ws rest \<and> heap_le (\<lambda>_. True) h h' \<and> length h' \<le> length h + length ?t \<and>
      stands (length h) h' v (JList js)"
    using heap_le_end [OF i(2)] i(3)
    by (intro exI [of _ "OBJ_VAL (length h)"] exI [of _ rest] exI [of _ h']) (simp del: json_parse_value.simps)
qed

subsection \<open>Maps\<close>

text \<open>One round: the key, the value, and the map they are stored in.\<close>

lemma object_loop_round:
  assumes r: "reads_value L t j" and n: "2 * length t + 1 \<le> n" and c: "c \<in> {CHR '','', CHR ''}''}"
    and w: "ws w" "json_body k s" "ws w'"
    and p: "p < length h" "h ! p = OBJ_MAP m" and b: "length h + 1 + length t < 2 ^ 43" "length t < 2 ^ 29"
    and m: "map_ok h m" "unat (om_length m) < 2 ^ 29"
  obtains v h' m' where "heap_le (\<lambda>i. i \<noteq> p) h h'" "length h' \<le> length h + 1 + length t"
    "h' ! p = OBJ_MAP m'" "map_ok h' m'" "unat (om_length m') \<le> unat (om_length m) + 1"
    "key_map h' m' = (key_map h m)(s \<mapsto> v)" "stands (length h) h' v j"
    "json_object_loop L (Suc n) p h (w @ CHR 0x22 # k @ CHR 0x22 # w' @ CHR '':'' # t @ c # rest) =
       (if c = CHR ''}'' then Some (Some (OBJ_VAL p, rest), h') else json_object_loop L n p h' rest)"
proof -
  have "length h + 1 < 2 ^ 43" using b(1) by linarith
  from parse_string_body [OF w(1,2) this, of "w' @ CHR '':'' # t @ c # rest"] obtain kp h1 where
    k: "json_parse_string h (w @ CHR 0x22 # k @ CHR 0x22 # w' @ CHR '':'' # t @ c # rest) =
        (Some (OBJ_VAL kp, w' @ CHR '':'' # t @ c # rest), h1)"
    "heap_le (\<lambda>_. True) h h1" "length h1 \<le> length h + 1" "find_string h1 s 0 = Some kp"
    "obj_of h1 (OBJ_VAL kp) = Some (OBJ_STRING s)" "AS_PTR (OBJ_VAL kp) = kp" .
  have s: "stops (c # rest)" using c by auto
  have "length h1 + length t < 2 ^ 43" using k(3) b(1) by linarith
  from reads_valueD [OF r n s this b(2)] obtain v cs h2 where
    v: "json_parse_value L n h1 (t @ c # rest) = Some (Some (v, cs), h2)" "json_skip_ws cs = json_skip_ws (c # rest)"
    "heap_le (\<lambda>_. True) h1 h2" "length h2 \<le> length h1 + length t" "stands (length h1) h2 v j" .
  have le: "heap_le (\<lambda>_. True) h h2" by (rule heap_le_trans [OF k(2) v(3)]) simp
  have p2: "p < length h2" "h2 ! p = OBJ_MAP m" "length h2 < 2 ^ 43" using le v(4) k(3) p b(1) by (auto simp: heap_le_def)
  from map_ok_store [OF map_ok_heap_le [OF m(1) le] m(2) find_string_heap_le [OF k(4) v(3)], of v] obtain m' b' where
    m': "obj_map_set (key_hash h2) m kp v = Some (m', b')" "map_ok h2 m'" "key_map h2 m' = (key_map h2 m)(s \<mapsto> v)"
    "unat (om_length m') \<le> unat (om_length m) + 1" .
  let ?h = "h2[p := OBJ_MAP m']"
  note u = set_map_map [OF p2(1,3,2)]
  have ws: "json_skip_ws cs = c # rest" using v(2) c by auto
  have le': "heap_le (\<lambda>i. i \<noteq> p) h ?h" by (rule heap_le_trans [OF le u(3)]) simp
  have hl: "length h \<le> length h1" using k(2) by (simp add: heap_le_def)
  show ?thesis
  proof (rule that [of ?h m' v])
    show "stands (length h) ?h v j"
      by (rule stands_heap_le [OF stands_lower [OF v(5) hl] u(3)]) (use p(1) in simp)
    show "map_ok ?h m'" by (rule map_ok_heap_le [OF m'(2) u(3)])
    have "key_map ?h m' = key_map h2 m'" using m'(2) keys_heap_le(2) [OF _ u(3)] by (simp add: map_ok_def)
    moreover have "key_map h2 m = key_map h m" using m(1) keys_heap_le(2) [OF _ le] by (simp add: map_ok_def)
    ultimately show "key_map ?h m' = (key_map h m)(s \<mapsto> v)" using m'(3) by simp
    show "json_object_loop L (Suc n) p h (w @ CHR 0x22 # k @ CHR 0x22 # w' @ CHR '':'' # t @ c # rest) =
       (if c = CHR ''}'' then Some (Some (OBJ_VAL p, rest), ?h) else json_object_loop L n p ?h rest)"
      using c w(3) by (auto simp: k(1,6) v(1) ws u m'(1))
  qed (use le' v(4) k(3) p2 m'(4) in simp_all)
qed

abbreviation entry_stands :: "nat \<Rightarrow> heap \<Rightarrow> string \<times> val64 \<Rightarrow> string \<times> json \<Rightarrow> bool" where
  "entry_stands lo h \<equiv> \<lambda>(s, v) (s', j). s = s' \<and> stands lo h v j"

lemma reads_entries_one:
  assumes "ws w" "json_body k s" "ws w'" and r: "reads_value L t j"
  shows "reads_entries L (w @ CHR 0x22 # k @ CHR 0x22 # w' @ CHR '':'' # t) [(s, j)]"
  unfolding reads_entries_def
proof (intro allI impI)
  fix n p m rest and h :: heap
  let ?t = "w @ CHR 0x22 # k @ CHR 0x22 # w' @ CHR '':'' # t"
  assume a: "2 * length ?t + 2 \<le> n" "p < length h" "h ! p = OBJ_MAP m" "length h + length ?t < 2 ^ 43"
    "unat (om_length m) + length ?t < 2 ^ 29" "map_ok h m"
  then obtain n' where n: "n = Suc n'" "2 * length t + 1 \<le> n'" by (cases n) auto
  have b: "length h + 1 + length t < 2 ^ 43" "length t < 2 ^ 29" "unat (om_length m) < 2 ^ 29" using a by simp_all
  have c: "CHR ''}'' \<in> {CHR '','', CHR ''}''}" by simp
  from object_loop_round [OF r n(2) c assms(1-3) a(2,3) b(1,2) a(6) b(3), of rest] obtain v h' m' where
    "heap_le (\<lambda>i. i \<noteq> p) h h'" "length h' \<le> length h + 1 + length t"
    "h' ! p = OBJ_MAP m'" "map_ok h' m'" "unat (om_length m') \<le> unat (om_length m) + 1"
    "key_map h' m' = (key_map h m)(s \<mapsto> v)" "stands (length h) h' v j"
    "json_object_loop L (Suc n') p h (w @ CHR 0x22 # k @ CHR 0x22 # w' @ CHR '':'' # t @ CHR ''}'' # rest) =
       (if CHR ''}'' = CHR ''}'' then Some (Some (OBJ_VAL p, rest), h') else json_object_loop L n' p h' rest)" .
  then show "\<exists>h' m' us. json_object_loop L n p h (?t @ CHR ''}'' # rest) = Some (Some (OBJ_VAL p, rest), h') \<and>
      heap_le (\<lambda>i. i \<noteq> p) h h' \<and> length h' \<le> length h + length ?t \<and> h' ! p = OBJ_MAP m' \<and> map_ok h' m' \<and>
      key_map h' m' = key_map h m ++ map_of (rev us) \<and> list_all2 (entry_stands (length h) h') us [(s, j)]"
    unfolding n(1)
    by (intro exI [of _ h'] exI [of _ m'] exI [of _ "[(s, v)]"]) (simp del: json_object_loop.simps)
qed

lemma reads_entries_more:
  assumes "ws w" "json_body k s" "ws w'" and r: "reads_value L t j" and rs: "reads_entries L ts kjs"
  shows "reads_entries L (w @ CHR 0x22 # k @ CHR 0x22 # w' @ CHR '':'' # t @ CHR '','' # ts) ((s, j) # kjs)"
  unfolding reads_entries_def
proof (intro allI impI)
  fix n p m rest and h :: heap
  let ?t = "w @ CHR 0x22 # k @ CHR 0x22 # w' @ CHR '':'' # t @ CHR '','' # ts"
  assume a: "2 * length ?t + 2 \<le> n" "p < length h" "h ! p = OBJ_MAP m" "length h + length ?t < 2 ^ 43"
    "unat (om_length m) + length ?t < 2 ^ 29" "map_ok h m"
  then obtain n' where n: "n = Suc n'" "2 * length t + 1 \<le> n'" "2 * length ts + 2 \<le> n'" by (cases n) auto
  have b: "length h + 1 + length t < 2 ^ 43" "length t < 2 ^ 29" "unat (om_length m) < 2 ^ 29" using a by simp_all
  have c: "CHR '','' \<in> {CHR '','', CHR ''}''}" by simp
  from object_loop_round [OF r n(2) c assms(1-3) a(2,3) b(1,2) a(6) b(3), of "ts @ CHR ''}'' # rest"] obtain v h1 m1 where
    v: "heap_le (\<lambda>i. i \<noteq> p) h h1" "length h1 \<le> length h + 1 + length t"
    "h1 ! p = OBJ_MAP m1" "map_ok h1 m1" "unat (om_length m1) \<le> unat (om_length m) + 1"
    "key_map h1 m1 = (key_map h m)(s \<mapsto> v)" "stands (length h) h1 v j"
    "json_object_loop L (Suc n') p h (w @ CHR 0x22 # k @ CHR 0x22 # w' @ CHR '':'' # t @ CHR '','' # ts @ CHR ''}'' # rest) =
       (if CHR '','' = CHR ''}'' then Some (Some (OBJ_VAL p, ts @ CHR ''}'' # rest), h1)
        else json_object_loop L n' p h1 (ts @ CHR ''}'' # rest))" .
  have h1: "p < length h1" "length h \<le> length h1" "length h1 + length ts < 2 ^ 43" "unat (om_length m1) + length ts < 2 ^ 29"
    using v(1,2,5) a by (auto simp: heap_le_def)
  from rs [unfolded reads_entries_def, rule_format, OF n(3) h1(1) v(3) h1(3,4) v(4), of rest] obtain h' m' us where
    i: "json_object_loop L n' p h1 (ts @ CHR ''}'' # rest) = Some (Some (OBJ_VAL p, rest), h')"
    "heap_le (\<lambda>i. i \<noteq> p) h1 h'" "length h' \<le> length h1 + length ts" "h' ! p = OBJ_MAP m'" "map_ok h' m'"
    "key_map h' m' = key_map h1 m1 ++ map_of (rev us)" "list_all2 (entry_stands (length h1) h') us kjs" by blast
  have "heap_le (\<lambda>i. i \<noteq> p) h h'" by (rule heap_le_trans [OF v(1) i(2)]) simp
  moreover have "stands (length h) h' v j" by (rule stands_heap_le [OF v(7) i(2)]) (use a(2) in simp)
  moreover have "list_all2 (entry_stands (length h) h') us kjs"
    by (rule list_all2_mono [OF i(7)]) (auto intro: stands_lower [OF _ h1(2)])
  ultimately show "\<exists>h' m' us. json_object_loop L n p h (?t @ CHR ''}'' # rest) = Some (Some (OBJ_VAL p, rest), h') \<and>
      heap_le (\<lambda>i. i \<noteq> p) h h' \<and> length h' \<le> length h + length ?t \<and> h' ! p = OBJ_MAP m' \<and> map_ok h' m' \<and>
      key_map h' m' = key_map h m ++ map_of (rev us) \<and> list_all2 (entry_stands (length h) h') us ((s, j) # kjs)"
    unfolding n(1) using v i
    by (intro exI [of _ h'] exI [of _ m'] exI [of _ "(s, v) # us"]) (simp add: map_add_upd_left del: json_object_loop.simps)
qed

lemma entry_stands_map_of:
  "list_all2 (entry_stands lo h) us kjs \<Longrightarrow> rel_option (stands lo h) (map_of us s) (map_of kjs s)"
  by (induction rule: list_all2_induct) auto

text \<open>The object that was filled stands for the map of its entries.\<close>

lemma filled_map_stands:
  assumes ok: "map_ok h m" and km: "key_map h m = map_of (rev us)" and us: "list_all2 (entry_stands lo h) us kjs"
    and v: "obj_of h v = Some (OBJ_MAP m)" "lo \<le> AS_PTR v"
  shows "stands lo h v (JMap (map_of (rev kjs)))"
proof (rule stands_map [OF v])
  have rel: "rel_option (stands lo h) (key_map h m s) (map_of (rev kjs) s)" for s
    unfolding km by (rule entry_stands_map_of) (simp add: us)
  show "om_inv (key_hash h) m" using ok by (simp add: map_ok_def)
  show "\<forall>k w. om_abs m k = Some w \<longrightarrow>
      (\<exists>s j. k < length h \<and> h ! k = OBJ_STRING s \<and> map_of (rev kjs) s = Some j \<and> stands lo h w j)"
  proof (intro allI impI)
    fix k w assume k: "om_abs m k = Some w"
    then obtain s where s: "find_string h s 0 = Some k" using ok by (auto simp: map_ok_def keys_ok_def)
    then have "key_map h m s = Some w" using k by (simp add: key_map_def)
    then obtain j where "map_of (rev kjs) s = Some j" "stands lo h w j" using rel [of s] by (auto simp: option_rel_Some1)
    then show "\<exists>s j. k < length h \<and> h ! k = OBJ_STRING s \<and> map_of (rev kjs) s = Some j \<and> stands lo h w j"
      using s by (auto simp: find_string_iff)
  qed
  show "\<forall>s j. map_of (rev kjs) s = Some j \<longrightarrow> (\<exists>k w. om_abs m k = Some w \<and> h ! k = OBJ_STRING s)"
  proof (intro allI impI)
    fix s j assume "map_of (rev kjs) s = Some j"
    then obtain w where "key_map h m s = Some w" using rel [of s] by (auto simp: option_rel_Some2)
    then show "\<exists>k w. om_abs m k = Some w \<and> h ! k = OBJ_STRING s"
      by (auto simp: key_map_def find_string_iff split: bind_splits)
  qed
qed

lemma reads_empty:
  assumes "ws w" shows "reads_value L (CHR ''{'' # w @ [CHR ''}'']) (JMap Map.empty)"
proof (rule reads_valueI)
  fix n rest and h :: heap
  let ?h = "h @ [OBJ_MAP obj_map_new]"
  assume "length h + length (CHR ''{'' # w @ [CHR ''}'']) < 2 ^ 43"
  then have l: "length h < length ?h" "length ?h < 2 ^ 43" by simp_all
  have "stands (length h) ?h (OBJ_VAL (length h)) (JMap (map_of (rev [])))"
    using obj_of_OBJ_VAL [OF l] OBJ_VAL_ptr [of "length h"] l map_ok_new
    by (intro filled_map_stands [where us = "[]"]) auto
  then show "\<exists>v cs h'. json_parse_value L (Suc n) h ((CHR ''{'' # w @ [CHR ''}'']) @ rest) = Some (Some (v, cs), h') \<and>
      json_skip_ws cs = json_skip_ws rest \<and> heap_le (\<lambda>_. True) h h' \<and>
      length h' \<le> length h + length (CHR ''{'' # w @ [CHR ''}'']) \<and> stands (length h) h' v (JMap Map.empty)"
    using assms by (intro exI [of _ "OBJ_VAL (length h)"] exI [of _ rest] exI [of _ ?h])
      (simp add: alloc_object_def heap_le_append)
qed

lemma reads_map:
  assumes "reads_entries L t kjs" and "starts t"
  shows "reads_value L (CHR ''{'' # t @ [CHR ''}'']) (JMap (map_of (rev kjs)))"
proof (rule reads_valueI)
  fix n rest and h :: heap
  let ?h = "h @ [OBJ_MAP obj_map_new]"
  let ?t = "CHR ''{'' # t @ [CHR ''}'']"
  assume a: "2 * length ?t \<le> n" "length h + length ?t < 2 ^ 43" "length ?t < 2 ^ 29"
  have b: "2 * length t + 2 \<le> n" "length h < length ?h" "?h ! length h = OBJ_MAP obj_map_new"
      "length ?h + length t < 2 ^ 43" "unat (om_length (obj_map_new :: ptr obj_map)) + length t < 2 ^ 29"
    using a by (simp_all add: obj_map_new_def)
  from assms(1) [unfolded reads_entries_def, rule_format, OF b map_ok_new(1), of rest] obtain h' m' us where
    i: "json_object_loop L n (length h) ?h (t @ CHR ''}'' # rest) = Some (Some (OBJ_VAL (length h), rest), h')"
    "heap_le (\<lambda>i. i \<noteq> length h) ?h h'" "length h' \<le> length ?h + length t" "h' ! length h = OBJ_MAP m'" "map_ok h' m'"
    "key_map h' m' = map_of (rev us)" "list_all2 (entry_stands (length ?h) h') us kjs"
    by (auto simp: map_ok_new)
  obtain c r where c: "json_skip_ws (t @ CHR ''}'' # rest) = c # r" "c \<noteq> CHR ''}''" using starts_skip [OF assms(2)] by blast
  have "json_object_loop L n (length h) ?h (c # r) = Some (Some (OBJ_VAL (length h), rest), h')"
    using i(1) object_loop_ws [of "c # r" "t @ CHR ''}'' # rest"] c(1) by (metis skip_ws_idem)
  then have "json_parse_value L (Suc n) h (?t @ rest) = Some (Some (OBJ_VAL (length h), rest), h')"
    using c by (simp add: alloc_object_def)
  moreover have "stands (length h) h' (OBJ_VAL (length h)) (JMap (map_of (rev kjs)))"
  proof (rule filled_map_stands [OF i(5,6)])
    have "length h < length h'" "length h' < 2 ^ 43" using i(2,3) a by (auto simp: heap_le_def)
    then show "obj_of h' (OBJ_VAL (length h)) = Some (OBJ_MAP m')" "length h \<le> AS_PTR (OBJ_VAL (length h))"
      using obj_of_OBJ_VAL [of "length h" h'] OBJ_VAL_ptr [of "length h"] i(4) by auto
    show "list_all2 (entry_stands (length h) h') us kjs"
      by (rule list_all2_mono [OF i(7)]) (auto intro: stands_lower)
  qed
  ultimately show "\<exists>v cs h'. json_parse_value L (Suc n) h (?t @ rest) = Some (Some (v, cs), h') \<and>
      json_skip_ws cs = json_skip_ws rest \<and> heap_le (\<lambda>_. True) h h' \<and> length h' \<le> length h + length ?t \<and>
      stands (length h) h' v (JMap (map_of (rev kjs)))"
    using heap_le_end [OF i(2)] i(3)
    by (intro exI [of _ "OBJ_VAL (length h)"] exI [of _ rest] exI [of _ h']) (simp del: json_parse_value.simps)
qed

lemma decoder_reads_text:
  "json_text t j \<Longrightarrow> reads_value L t j" "json_items t js \<Longrightarrow> reads_items L t js" "json_entries t kjs \<Longrightarrow> reads_entries L t kjs"
proof (induction rule: json_text_json_items_json_entries.inducts)
qed (simp_all add: reads_literals reads_int reads_string reads_nil reads_list reads_empty reads_map reads_before reads_after
    reads_items_one reads_items_more reads_entries_one reads_entries_more text_starts)

subsection \<open>The encoder writes a text\<close>

text \<open>With enough stack the value is written, as a text of its data.\<close>

definition writes :: "libc \<Rightarrow> heap \<Rightarrow> val64 \<Rightarrow> json \<Rightarrow> bool" where
  "writes L h v j \<longleftrightarrow> (\<exists>n t. (\<forall>k \<ge> n. json_encode_value L k h v = Some t) \<and> json_text t j)"

lemma writesI: "(\<And>k. n \<le> k \<Longrightarrow> json_encode_value L (Suc k) h v = Some t) \<Longrightarrow> json_text t j \<Longrightarrow> writes L h v j"
  unfolding writes_def by (intro exI [of _ "Suc n"] exI [of _ t]) (metis Suc_le_D Suc_le_mono)

lemma encode_list_text:
  "list_all2 (writes L h) vs js \<Longrightarrow> vs \<noteq> [] \<Longrightarrow>
   \<exists>n t. (\<forall>k \<ge> n. \<forall>first. json_encode_list (json_encode_value L k h) first vs = Some ((if first then [] else '','') @ t)) \<and>
     json_items t js"
proof (induction rule: list_all2_induct)
  case (Cons v vs j js)
  obtain n t where t: "\<forall>k \<ge> n. json_encode_value L k h v = Some t" "json_text t j"
    using Cons.hyps(1) by (auto simp: writes_def)
  show ?case
  proof (cases "vs = []")
    case True
    then have "js = []" using Cons.hyps(2) by simp
    then show ?thesis using t True by (intro exI [of _ n] exI [of _ t]) (auto intro: items_one)
  next
    case False
    then obtain n' ts where ts: "json_items ts js"
      "\<forall>k \<ge> n'. \<forall>first. json_encode_list (json_encode_value L k h) first vs = Some ((if first then [] else '','') @ ts)"
      using Cons.IH by blast
    have "json_items (t @ CHR '','' # ts) (j # js)" by (rule items_more [OF t(2) ts(1)])
    moreover have "json_encode_list (json_encode_value L k h) first (v # vs) =
        Some ((if first then [] else '','') @ t @ CHR '','' # ts)" if "max n n' \<le> k" for k first
      using t(1) ts(2) that by simp
    ultimately show ?thesis by (intro exI [of _ "max n n'"] exI [of _ "t @ CHR '','' # ts"]) blast
  qed
qed simp

lemma encode_map_text:
  assumes "\<forall>e \<in> set es. \<forall>k. me_key e = Live k \<longrightarrow>
    (\<exists>s j. AS_STRING h (OBJ_VAL k) = s \<and> f s = Some j \<and> writes L h (me_value e) j)"
  shows "(\<forall>e \<in> set es. \<not> is_Live (me_key e)) \<and> (\<forall>rec first. json_encode_map h rec first es = Some []) \<or>
   (\<exists>n t kjs. (\<forall>k \<ge> n. \<forall>first. json_encode_map h (json_encode_value L k h) first es = Some ((if first then [] else '','') @ t)) \<and>
     json_entries t kjs \<and> (\<forall>(s, j) \<in> set kjs. f s = Some j) \<and>
     (\<forall>e \<in> set es. \<forall>k. me_key e = Live k \<longrightarrow> AS_STRING h (OBJ_VAL k) \<in> fst ` set kjs))"
  using assms
proof (induction es)
  case (Cons e es)
  have IH: "(\<forall>e \<in> set es. \<not> is_Live (me_key e)) \<and> (\<forall>rec first. json_encode_map h rec first es = Some []) \<or>
   (\<exists>n t kjs. (\<forall>k \<ge> n. \<forall>first. json_encode_map h (json_encode_value L k h) first es = Some ((if first then [] else '','') @ t)) \<and>
     json_entries t kjs \<and> (\<forall>(s, j) \<in> set kjs. f s = Some j) \<and>
     (\<forall>e \<in> set es. \<forall>k. me_key e = Live k \<longrightarrow> AS_STRING h (OBJ_VAL k) \<in> fst ` set kjs))"
    using Cons by simp
  show ?case
  proof (cases "me_key e")
    case (Live k)
    define s where "s = AS_STRING h (OBJ_VAL k)"
    obtain j n t where j: "f s = Some j" "\<forall>k \<ge> n. json_encode_value L k h (me_value e) = Some t" "json_text t j"
      using Cons.prems Live by (auto simp: writes_def s_def)
    let ?k = "concat (map json_escape s)"
    let ?t = "[] @ CHR 0x22 # ?k @ CHR 0x22 # [] @ CHR '':'' # t"
    have one: "json_entries ?t [(s, j)]" by (rule entries_one) (use json_encode_body j(3) in simp_all)
    show ?thesis
      using IH
    proof (elim disjE exE conjE)
      assume "\<forall>e \<in> set es. \<not> is_Live (me_key e)" "\<forall>rec first. json_encode_map h rec first es = Some []"
      then have "(\<forall>k \<ge> n. \<forall>first. json_encode_map h (json_encode_value L k h) first (e # es) =
          Some ((if first then [] else '','') @ ?t)) \<and>
        (\<forall>e' \<in> set (e # es). \<forall>k. me_key e' = Live k \<longrightarrow> AS_STRING h (OBJ_VAL k) \<in> fst ` set [(s, j)])"
        using j Live by (auto simp: json_encode_string_def s_def)
      then show ?thesis
        using one j(1) by (intro disjI2 exI [of _ n] exI [of _ ?t] exI [of _ "[(s, j)]"]) auto
    next
      fix n' ts kjs
      assume i: "\<forall>k \<ge> n'. \<forall>first. json_encode_map h (json_encode_value L k h) first es = Some ((if first then [] else '','') @ ts)"
        "json_entries ts kjs" "\<forall>(s, j) \<in> set kjs. f s = Some j"
        "\<forall>e \<in> set es. \<forall>k. me_key e = Live k \<longrightarrow> AS_STRING h (OBJ_VAL k) \<in> fst ` set kjs"
      let ?ts = "[] @ CHR 0x22 # ?k @ CHR 0x22 # [] @ CHR '':'' # t @ CHR '','' # ts"
      have "json_entries ?ts ((s, j) # kjs)" by (rule entries_more) (use json_encode_body j(3) i(2) in simp_all)
      moreover have "json_encode_map h (json_encode_value L k h) first (e # es) = Some ((if first then [] else '','') @ ?ts)"
        if "max n n' \<le> k" for k first
        using that i(1) j(2) Live by (simp add: json_encode_string_def s_def)
      ultimately show ?thesis
        using i(3,4) j(1) Live
        by (intro disjI2 exI [of _ "max n n'"] exI [of _ ?ts] exI [of _ "(s, j) # kjs"]) (auto simp: s_def)
    qed
  qed (use IH in auto)
qed simp

lemma om_abs_entry:
  assumes "om_inv hs m" and "e \<in> set (om_entries m)" and "me_key e = Live k"
  shows "om_abs m k = Some (me_value e)"
proof -
  have "slots_ok hs (entry_keys (om_entries m))" using assms(1) by (simp add: om_inv_def)
  from entries_map_Some [OF this] show ?thesis
    using assms(2,3) by (auto simp: om_abs_def in_set_conv_nth)
qed

lemma om_abs_slot: "om_abs m k = Some w \<Longrightarrow> \<exists>e \<in> set (om_entries m). me_key e = Live k"
  by (auto simp: om_abs_def entries_map_def find_Some_iff)

lemma obj_of_tags:
  assumes "obj_of h v = Some ob"
  shows "IS_PTR v" "\<not> IS_NIL v" "\<not> IS_BOOL v" "\<not> IS_INT v" "\<not> IS_FLOAT v"
proof -
  show p: "IS_PTR v" using assms by (simp add: obj_of_def split: if_splits)
  show "\<not> IS_NIL v" "\<not> IS_BOOL v" "\<not> IS_INT v" "\<not> IS_FLOAT v"
    using value_tags_exclusive [of v] p by (simp_all split: if_splits)
qed

lemma encode_object:
  assumes "obj_of h v = Some ob"
  shows "json_encode_value L (Suc n) h v =
     (case ob of
        OBJ_STRING s \<Rightarrow> Some (json_encode_string s)
      | OBJ_LIST l \<Rightarrow> map_option (\<lambda>ts. ''['' @ ts @ '']'') (json_encode_list (json_encode_value L n h) True (ol_data l))
      | OBJ_MAP m \<Rightarrow> map_option (\<lambda>ts. ''{'' @ ts @ ''}'') (json_encode_map h (json_encode_value L n h) True (om_entries m))
      | _ \<Rightarrow> Some ''null'')"
  using obj_of_tags [OF assms] assms by (cases ob) (simp_all add: map_conv_bind_option o_def)

lemma stands_writes:
  assumes "stands lo h v j" and "length h < 2 ^ 43"
  shows "writes L h v j"
  using assms(1)
proof (induction rule: stands.induct)
  case stands_null
  then show ?case by (rule writesI [of 0 _ _ _ "''null''"]) (simp_all add: vek_defs text_null)
next
  case stands_true
  then show ?case by (rule writesI [of 0 _ _ _ "''true''"]) (simp_all add: vek_defs text_true)
next
  case stands_false
  then show ?case by (rule writesI [of 0 _ _ _ "''false''"]) (simp_all add: vek_defs text_false)
next
  case (stands_int v)
  have x: "\<not> IS_NIL v" "\<not> IS_BOOL v" using value_tags_exclusive [of v] stands_int by (auto split: if_splits)
  have "- (2 ^ 47) \<le> AS_INT v" "AS_INT v < 2 ^ 47" using wrap48_range by (simp_all add: AS_INT_def sint_value_as_int)
  then show ?case
    using x stands_int by (intro writesI [of 0 _ _ _ "show_int (AS_INT v)"] text_int) simp_all
next
  case (stands_string v s)
  then show ?case
    using text_string [OF json_encode_body, of s]
    by (intro writesI [of 0 _ _ _ "json_encode_string s"])
      (simp_all add: encode_object json_encode_string_def del: json_encode_value.simps)
next
  case (stands_list v l js)
  have ws: "list_all2 (writes L h) (ol_data l) js" by (rule list_all2_mono [OF stands_list.IH]) simp
  show ?case
  proof (cases "ol_data l = []")
    case True
    then have "js = []" using ws by simp
    then show ?thesis
      using True stands_list.hyps text_nil [of "[]"]
      by (intro writesI [of 0 _ _ _ "''[]''"]) (simp_all add: encode_object del: json_encode_value.simps)
  next
    case False
    from encode_list_text [OF ws False] obtain n t where
      t: "\<forall>k \<ge> n. \<forall>first. json_encode_list (json_encode_value L k h) first (ol_data l) = Some ((if first then [] else '','') @ t)"
      "json_items t js" by blast
    show ?thesis
      using text_list [OF t(2)] t(1) stands_list.hyps
      by (intro writesI [of n _ _ _ "''['' @ t @ '']''"]) (simp_all add: encode_object del: json_encode_value.simps)
  qed
next
  case (stands_map v m f)
  have str: "AS_STRING h (OBJ_VAL k) = s" if "k < length h" "h ! k = OBJ_STRING s" for k s
    using that OBJ_VAL_ptr [of k] assms(2) by (simp add: AS_STRING_def)
  have "\<forall>e \<in> set (om_entries m). \<forall>k. me_key e = Live k \<longrightarrow>
    (\<exists>s j. AS_STRING h (OBJ_VAL k) = s \<and> f s = Some j \<and> writes L h (me_value e) j)"
    using om_abs_entry [OF stands_map.hyps(3)] stands_map.IH str by blast
  from encode_map_text [OF this] show ?case
  proof (elim disjE exE conjE)
    assume e: "\<forall>e \<in> set (om_entries m). \<not> is_Live (me_key e)" "\<forall>rec first. json_encode_map h rec first (om_entries m) = Some []"
    have "f = Map.empty"
    proof
      fix s show "f s = None"
        using stands_map.hyps(4) om_abs_slot [of m] e(1) by (cases "f s") fastforce+
    qed
    then show ?thesis
      using e(2) stands_map.hyps text_empty [of "[]"]
      by (intro writesI [of 0 _ _ _ "''{}''"]) (simp_all add: encode_object del: json_encode_value.simps)
  next
    fix n t kjs
    assume i: "\<forall>k \<ge> n. \<forall>first. json_encode_map h (json_encode_value L k h) first (om_entries m) = Some ((if first then [] else '','') @ t)"
      "json_entries t kjs" "\<forall>(s, j) \<in> set kjs. f s = Some j"
      "\<forall>e \<in> set (om_entries m). \<forall>k. me_key e = Live k \<longrightarrow> AS_STRING h (OBJ_VAL k) \<in> fst ` set kjs"
    have "f = map_of (rev kjs)"
    proof (rule map_ext_Some)
      fix s j
      show "f s = Some j \<longleftrightarrow> map_of (rev kjs) s = Some j"
      proof
        assume j: "f s = Some j"
        then obtain k w where k: "om_abs m k = Some w" "h ! k = OBJ_STRING s" using stands_map.hyps(4) by blast
        moreover have "k < length h" using stands_map.IH k(1) by blast
        ultimately have "s \<in> fst ` set kjs" using om_abs_slot [OF k(1)] i(4) str by blast
        then obtain j' where "map_of (rev kjs) s = Some j'" by (metis image_set list.set_map map_of_eq_None_iff not_Some_eq set_rev)
        moreover from map_of_SomeD [OF this] have "f s = Some j'" using i(3) by auto
        ultimately show "map_of (rev kjs) s = Some j" using j by simp
      next
        assume "map_of (rev kjs) s = Some j"
        from map_of_SomeD [OF this] show "f s = Some j" using i(3) by auto
      qed
    qed
    then show ?thesis
      using text_map [OF i(2)] i(1) stands_map.hyps
      by (intro writesI [of n _ _ _ "''{'' @ t @ ''}''"]) (simp_all add: encode_object del: json_encode_value.simps)
  qed
qed

subsection \<open>The decoder returns on every input\<close>

text \<open>What a returning call may do: use up input, and allocate no more objects than it uses characters.\<close>

definition consumes :: "heap \<Rightarrow> string \<Rightarrow> (ptr \<Rightarrow> bool) \<Rightarrow> (val64 \<times> string) option \<times> heap \<Rightarrow> bool" where
  "consumes h cs P res \<longleftrightarrow> (case res of
       (None, h') \<Rightarrow> heap_le P h h'
     | (Some (v, cs'), h') \<Rightarrow> heap_le P h h' \<and> length cs' < length cs \<and> length h' + length cs' \<le> length h + length cs)"

lemma consumes_simps [simp]:
  "consumes h cs P (None, h') \<longleftrightarrow> heap_le P h h'"
  "consumes h cs P (Some (v, cs'), h') \<longleftrightarrow> heap_le P h h' \<and> length cs' < length cs \<and> length h' + length cs' \<le> length h + length cs"
  by (simp_all add: consumes_def)

lemma skip_ws_length: "length (json_skip_ws cs) \<le> length cs"
  unfolding json_skip_ws_def by (rule length_dropWhile_le)

lemma skip_ws_rest: "json_skip_ws cs = c # r \<Longrightarrow> length r < length cs"
  using skip_ws_length [of cs] by simp

lemma string_loop_length: "json_string_loop buf cs = Some (s, cs') \<Longrightarrow> length cs' < length cs"
proof (induction buf cs rule: json_string_loop.induct)
  case (2 buf c cs)
  show ?case
  proof (cases "c = CHR 0x22 \<or> c \<noteq> CHR 0x5C")
    case True
    then show ?thesis using "2.IH"(3) "2.prems" by (cases "c = CHR 0x22") auto
  next
    case False
    then obtain e r where e: "cs = e # r" using "2.prems" by (cases cs) auto
    show ?thesis
    proof (cases "e = CHR ''u''")
      case True
      then obtain cp where "\<not> length r < 4" "json_hex_loop 0 (take 4 r) = Some cp"
        "json_string_loop (buf @ json_utf8 cp) (drop 4 r) = Some (s, cs')"
        using "2.prems" False e by (auto split: if_splits option.splits)
      then show ?thesis using "2.IH"(1) [of e r cp] False e True by simp
    next
      case no_u: False
      then have "json_string_loop (buf @ [json_unescape e]) r = Some (s, cs')" using "2.prems" False e by simp
      then show ?thesis using "2.IH"(2) [of e r] False e no_u by simp
    qed
  qed
qed simp

lemma parse_string_consumes:
  assumes "json_parse_string h cs = res"
  shows "consumes h cs (\<lambda>_. True) res" "\<And>v cs' h'. res = (Some (v, cs'), h') \<Longrightarrow>
     \<exists>s p. v = OBJ_VAL p \<and> find_string h' s 0 = Some p"
proof -
  show "consumes h cs (\<lambda>_. True) res"
  proof (cases "json_skip_ws cs")
    case (Cons c r)
    note sk = skip_ws_rest [OF Cons]
    show ?thesis
    proof (cases "c = CHR 0x22")
      case True
      show ?thesis
      proof (cases "json_string_loop [] r")
        case (Some sr)
        obtain s r' p h' where e: "sr = (s, r')" "intern_string h s = (p, h')" by (cases sr) force
        from intern_string_result [OF e(2)] obtain os where "h' = h @ os" "length os \<le> 1" .
        then show ?thesis
          using assms Cons True Some e sk string_loop_length [of "[]" r s r'] heap_le_append [of _ h os]
          by (auto simp: json_parse_string_def new_string_def)
      qed (use assms Cons True heap_le_refl in \<open>auto simp: json_parse_string_def\<close>)
    qed (use assms Cons heap_le_refl in \<open>auto simp: json_parse_string_def\<close>)
  qed (use assms heap_le_refl in \<open>auto simp: json_parse_string_def\<close>)
  fix v cs' h' assume "res = (Some (v, cs'), h')"
  then show "\<exists>s p. v = OBJ_VAL p \<and> find_string h' s 0 = Some p"
    using assms intern_string_found_first
    by (fastforce simp: json_parse_string_def new_string_def split: list.splits if_splits option.splits prod.splits)
qed

lemma optional_split: "json_optional P cs = (a, b) \<Longrightarrow> a @ b = cs"
  by (cases cs) (auto simp: json_optional_def split: if_splits)

lemma digits_split: "json_digits cs = (a, b) \<Longrightarrow> a @ b = cs"
  by (auto simp: json_digits_def)

lemma scan_number_split: "json_scan_number cs = (t, f, rest) \<Longrightarrow> t @ rest = cs"
proof -
  assume sc: "json_scan_number cs = (t, f, rest)"
  obtain a c1 where a: "json_optional (\<lambda>c. c = CHR ''-'') cs = (a, c1)" by force
  obtain b c2 where b: "json_digits c1 = (b, c2)" by force
  obtain p c3 where p: "json_optional (\<lambda>c. c = CHR ''.'') c2 = (p, c3)" by force
  obtain d c4 where d: "(if p = [] then ([], c3) else json_digits c3) = (d, c4)" by force
  obtain e c5 where e: "json_optional (\<lambda>c. c = CHR ''e'' \<or> c = CHR ''E'') c4 = (e, c5)" by force
  obtain g c6 where g: "(if e = [] then ([], c5) else json_optional (\<lambda>c. c = CHR ''+'' \<or> c = CHR ''-'') c5) = (g, c6)" by force
  obtain x c7 where x: "(if e = [] then ([], c6) else json_digits c6) = (x, c7)" by force
  have "d @ c4 = c3" "g @ c6 = c5" "x @ c7 = c6"
    using d g x by (auto dest: digits_split optional_split split: if_splits)
  then have "a @ b @ p @ d @ e @ g @ x @ c7 = cs"
    using optional_split [OF a] digits_split [OF b] optional_split [OF p] optional_split [OF e] by simp
  then show ?thesis using sc unfolding json_scan_number_def Let_def a b p prod.case d e g x by auto
qed

lemma parse_number_consumes:
  assumes "json_parse_number L cs = Some (v, rest)" shows "length rest < length cs"
proof -
  obtain t f r where sc: "json_scan_number (json_skip_ws cs) = (t, f, r)" by (metis prod_cases3)
  then have "t \<noteq> []" "rest = r" using assms by (auto simp: json_parse_number_def Let_def split: if_splits)
  moreover have "length t + length r \<le> length cs" using scan_number_split [OF sc] skip_ws_length [of cs] by (metis length_append)
  ultimately show ?thesis by (cases t) auto
qed

definition value_returns :: "libc \<Rightarrow> nat \<Rightarrow> bool" where
  "value_returns L n \<longleftrightarrow> (\<forall>h cs. 2 * length cs + 1 \<le> n \<longrightarrow> length h + length cs < 2 ^ 43 \<longrightarrow> length cs < 2 ^ 29 \<longrightarrow>
     (\<exists>res. json_parse_value L n h cs = Some res \<and> consumes h cs (\<lambda>_. True) res))"

definition array_returns :: "libc \<Rightarrow> nat \<Rightarrow> bool" where
  "array_returns L n \<longleftrightarrow> (\<forall>p h l cs. 2 * length cs + 2 \<le> n \<longrightarrow> p < length h \<longrightarrow> h ! p = OBJ_LIST l \<longrightarrow>
     length h + length cs < 2 ^ 43 \<longrightarrow> length cs < 2 ^ 29 \<longrightarrow>
     (\<exists>res. json_array_loop L n p h cs = Some res \<and> consumes h cs (\<lambda>i. i \<noteq> p) res))"

definition object_returns :: "libc \<Rightarrow> nat \<Rightarrow> bool" where
  "object_returns L n \<longleftrightarrow> (\<forall>p h m cs. 2 * length cs + 2 \<le> n \<longrightarrow> p < length h \<longrightarrow> h ! p = OBJ_MAP m \<longrightarrow> map_ok h m \<longrightarrow>
     length h + length cs < 2 ^ 43 \<longrightarrow> unat (om_length m) + length cs < 2 ^ 29 \<longrightarrow>
     (\<exists>res. json_object_loop L n p h cs = Some res \<and> consumes h cs (\<lambda>i. i \<noteq> p) res))"

lemma heap_le_weaken: "heap_le P h h' \<Longrightarrow> (\<And>i. Q i \<Longrightarrow> P i) \<Longrightarrow> heap_le Q h h'"
  by (auto simp: heap_le_def)

lemma array_step_returns:
  assumes v: "value_returns L n" and a: "array_returns L n" shows "array_returns L (Suc n)"
  unfolding array_returns_def
proof (intro allI impI)
  fix p l and cs :: string and h :: heap
  assume n: "2 * length cs + 2 \<le> Suc n" and p: "p < length h" "h ! p = OBJ_LIST l"
    and b: "length h + length cs < 2 ^ 43" "length cs < 2 ^ 29"
  have "2 * length cs + 1 \<le> n" using n by simp
  from v [unfolded value_returns_def, rule_format, OF this b] obtain r h1 where
    r: "json_parse_value L n h cs = Some (r, h1)" "consumes h cs (\<lambda>_. True) (r, h1)" by auto
  show "\<exists>res. json_array_loop L (Suc n) p h cs = Some res \<and> consumes h cs (\<lambda>i. i \<noteq> p) res"
  proof (cases r)
    case None
    then show ?thesis using r by (auto intro: heap_le_weaken)
  next
    case (Some vc)
    obtain w c1 where vc: "vc = (w, c1)" by force
    have c: "heap_le (\<lambda>_. True) h h1" "length c1 < length cs" "length h1 + length c1 \<le> length h + length cs"
      using r(2) Some vc by simp_all
    have p1: "p < length h1" "h1 ! p = OBJ_LIST l" "length h1 < 2 ^ 43" using c p b by (auto simp: heap_le_def)
    note u = set_list_list [OF p1(1,3,2)]
    let ?h = "h1[p := OBJ_LIST (obj_list_push l w)]"
    have le: "heap_le (\<lambda>i. i \<noteq> p) h ?h" by (rule heap_le_trans [OF c(1) u(3)]) simp
    show ?thesis
    proof (cases "json_skip_ws c1")
      case Nil
      then show ?thesis using r(1) Some vc u le by simp
    next
      case (Cons d rest)
      have rest: "length rest < length c1" by (rule skip_ws_rest [OF Cons])
      have "2 * length rest + 2 \<le> n" "length ?h + length rest < 2 ^ 43" "length rest < 2 ^ 29" "p < length ?h"
        "?h ! p = OBJ_LIST (obj_list_push l w)"
        using n rest c(2,3) b p1 by simp_all
      from a [unfolded array_returns_def, rule_format, OF this(1,4,5,2,3)] obtain r' h' where
        i: "json_array_loop L n p ?h rest = Some (r', h')" "consumes ?h rest (\<lambda>i. i \<noteq> p) (r', h')" by auto
      have "consumes h cs (\<lambda>i. i \<noteq> p) (r', h')"
        using i(2) rest c(2,3) heap_le_trans [OF le, of "\<lambda>i. i \<noteq> p" h' "\<lambda>i. i \<noteq> p"]
        by (auto simp: consumes_def split: option.splits prod.splits)
      moreover have "consumes h cs (\<lambda>i. i \<noteq> p) (Some (OBJ_VAL p, rest), ?h)" using le rest c(2,3) by simp
      ultimately show ?thesis using r(1) Some vc u le i(1) Cons by (auto simp: Let_def)
    qed
  qed
qed

lemma object_step_returns:
  assumes v: "value_returns L n" and a: "object_returns L n" shows "object_returns L (Suc n)"
  unfolding object_returns_def
proof (intro allI impI)
  fix p m and cs :: string and h :: heap
  assume n: "2 * length cs + 2 \<le> Suc n" and p: "p < length h" "h ! p = OBJ_MAP m" and ok: "map_ok h m"
    and b: "length h + length cs < 2 ^ 43" "unat (om_length m) + length cs < 2 ^ 29"
  obtain k h1 where k: "json_parse_string h cs = (k, h1)" by force
  note kc = parse_string_consumes(1) [OF k]
  show "\<exists>res. json_object_loop L (Suc n) p h cs = Some res \<and> consumes h cs (\<lambda>i. i \<noteq> p) res"
  proof (cases k)
    case None
    then show ?thesis using k kc by (auto intro: heap_le_weaken)
  next
    case (Some kc1)
    obtain kv c1 where kv: "kc1 = (kv, c1)" by force
    have c: "heap_le (\<lambda>_. True) h h1" "length c1 < length cs" "length h1 + length c1 \<le> length h + length cs"
      using kc Some kv by simp_all
    obtain s kp where kp: "kv = OBJ_VAL kp" "find_string h1 s 0 = Some kp"
      using parse_string_consumes(2) [OF k, of kv c1 h1] Some kv by auto
    have w: "heap_le (\<lambda>i. i \<noteq> p) h h1" using c(1) by (rule heap_le_weaken) simp
    show ?thesis
    proof (cases "\<exists>rest. json_skip_ws c1 = CHR '':'' # rest")
      case False
      then show ?thesis using k Some kv w by (cases "json_skip_ws c1") auto
    next
      case True
      then obtain r1 where r1: "json_skip_ws c1 = CHR '':'' # r1" by blast
      have l1: "length r1 < length c1" by (rule skip_ws_rest [OF r1])
      have "2 * length r1 + 1 \<le> n" "length h1 + length r1 < 2 ^ 43" "length r1 < 2 ^ 29" using n l1 c(2,3) b by simp_all
      from v [unfolded value_returns_def, rule_format, OF this] obtain r h2 where
        r: "json_parse_value L n h1 r1 = Some (r, h2)" "consumes h1 r1 (\<lambda>_. True) (r, h2)" by auto
      show ?thesis
      proof (cases r)
        case None
        then have "heap_le (\<lambda>i. i \<noteq> p) h h2" using r(2) heap_le_trans [OF c(1), of "\<lambda>_. True" h2] by simp
        then show ?thesis using k Some kv r1 r(1) None by simp
      next
        case (Some vc)
        obtain x c2 where vc: "vc = (x, c2)" by force
        have c2: "heap_le (\<lambda>_. True) h1 h2" "length c2 < length r1" "length h2 + length c2 \<le> length h1 + length r1"
          using r(2) Some vc by simp_all
        have le: "heap_le (\<lambda>_. True) h h2" by (rule heap_le_trans [OF c(1) c2(1)]) simp
        have p2: "p < length h2" "h2 ! p = OBJ_MAP m" "length h2 < 2 ^ 43" using le c(2,3) c2 l1 p b(1) by (auto simp: heap_le_def)
        have sm: "unat (om_length m) < 2 ^ 29" using b(2) by simp
        from map_ok_store [OF map_ok_heap_le [OF ok le] sm find_string_heap_le [OF kp(2) c2(1)], of x] obtain m' b' where
          m': "obj_map_set (key_hash h2) m kp x = Some (m', b')" "map_ok h2 m'"
          "key_map h2 m' = (key_map h2 m)(s \<mapsto> x)" "unat (om_length m') \<le> unat (om_length m) + 1" .
        note u = set_map_map [OF p2(1,3,2)]
        let ?h = "h2[p := OBJ_MAP m']"
        have le': "heap_le (\<lambda>i. i \<noteq> p) h ?h" by (rule heap_le_trans [OF le u(3)]) simp
        have "kp < length h1" using kp(2) by (simp add: find_string_iff)
        then have ap: "AS_PTR (OBJ_VAL kp) = kp" using OBJ_VAL_ptr [of kp] c(3) b(1) by simp
        note step = k \<open>k = Some kc1\<close> kv r1 r(1) Some vc kp(1) ap u(1,2) m'(1)
        show ?thesis
        proof (cases "json_skip_ws c2")
          case Nil
          then show ?thesis using step le' by simp
        next
          case (Cons d rest)
          have rest: "length rest < length c2" by (rule skip_ws_rest [OF Cons])
          have "2 * length rest + 2 \<le> n" "length ?h + length rest < 2 ^ 43" "unat (om_length m') + length rest < 2 ^ 29"
            "p < length ?h" "?h ! p = OBJ_MAP m'"
            using n rest c(2,3) c2(2,3) l1 b p2 m'(4) by simp_all
          from a [unfolded object_returns_def, rule_format, OF this(1,4,5) map_ok_heap_le [OF m'(2) u(3)] this(2,3)] obtain r' h' where
            i: "json_object_loop L n p ?h rest = Some (r', h')" "consumes ?h rest (\<lambda>i. i \<noteq> p) (r', h')" by auto
          have "consumes h cs (\<lambda>i. i \<noteq> p) (r', h')"
            using i(2) rest c(2,3) c2(2,3) l1 heap_le_trans [OF le', of "\<lambda>i. i \<noteq> p" h' "\<lambda>i. i \<noteq> p"]
            by (auto simp: consumes_def split: option.splits prod.splits)
          moreover have "consumes h cs (\<lambda>i. i \<noteq> p) (Some (OBJ_VAL p, rest), ?h)" using le' rest c(2,3) c2(2,3) l1 by simp
          ultimately show ?thesis using step le' i(1) Cons by (auto simp: Let_def)
        qed
      qed
    qed
  qed
qed

lemma match_length: "json_match lit cs = Some rest \<Longrightarrow> lit \<noteq> [] \<Longrightarrow> length rest < length cs"
  using skip_ws_length [of cs]
  by (auto simp: json_match_def Let_def split: if_splits) (metis diff_less length_drop length_greater_0_conv length_take less_le_trans min_less_iff_conj not_gr_zero take_eq_Nil)

lemma value_step_returns:
  assumes a: "array_returns L n" and o: "object_returns L n" shows "value_returns L (Suc n)"
  unfolding value_returns_def
proof (intro allI impI)
  fix cs :: string and h :: heap
  assume n: "2 * length cs + 1 \<le> Suc n" and b: "length h + length cs < 2 ^ 43" "length cs < 2 ^ 29"
  show "\<exists>res. json_parse_value L (Suc n) h cs = Some res \<and> consumes h cs (\<lambda>_. True) res"
  proof (cases "json_skip_ws cs")
    case Nil
    then show ?thesis by (simp add: heap_le_refl)
  next
    case (Cons c rest)
    have sk: "json_skip_ws (c # rest) = c # rest" by (metis Cons skip_ws_idem)
    have l: "length (c # rest) \<le> length cs" using skip_ws_length [of cs] Cons by simp
    let ?cs = "json_skip_ws rest"
    have lc: "length ?cs < length cs" using skip_ws_length [of rest] l by simp
    have loop: "2 * length ?cs + 2 \<le> n" "length (h @ [ob]) + length ?cs < 2 ^ 43" "length ?cs < 2 ^ 29" for ob
      using n lc b by simp_all
    have widen: "consumes h cs (\<lambda>_. True) res" if "consumes (h @ [ob]) ?cs (\<lambda>i. i \<noteq> length h) res" for res ob
      using that lc heap_le_end [of h ob] by (auto simp: consumes_def split: option.splits prod.splits)
    consider "c = CHR 0x22" | "c = CHR ''{''" | "c = CHR ''[''" | "c = CHR ''t'' \<or> c = CHR ''f'' \<or> c = CHR ''n''"
      | "c \<notin> {CHR 0x22, CHR ''{'', CHR ''['', CHR ''t'', CHR ''f'', CHR ''n''}" by blast
    then show ?thesis
    proof cases
      case 1
      obtain res where s: "json_parse_string h (c # rest) = res" by blast
      have "consumes h cs (\<lambda>_. True) res"
        using parse_string_consumes(1) [OF s] l by (auto simp: consumes_def split: option.splits prod.splits)
      then show ?thesis using 1 Cons s by simp
    next
      case 2
      have p: "length h < length (h @ [OBJ_MAP obj_map_new])" "(h @ [OBJ_MAP obj_map_new]) ! length h = OBJ_MAP obj_map_new" by simp_all
      have z: "unat (om_length (obj_map_new :: ptr obj_map)) + length ?cs < 2 ^ 29" using loop(3) by (simp add: obj_map_new_def)
      from o [unfolded object_returns_def, rule_format, OF loop(1) p map_ok_new(1) loop(2) z] obtain r h' where
        res: "json_object_loop L n (length h) (h @ [OBJ_MAP obj_map_new]) ?cs = Some (r, h')"
        "consumes (h @ [OBJ_MAP obj_map_new]) ?cs (\<lambda>i. i \<noteq> length h) (r, h')" by (metis surj_pair)
      have "consumes h cs (\<lambda>_. True) (Some (OBJ_VAL (length h), tl ?cs), h @ [OBJ_MAP obj_map_new])"
        if "?cs \<noteq> []" using lc that by (cases ?cs) (simp_all add: heap_le_append)
      then show ?thesis using 2 Cons res widen [OF res(2)] by (auto simp: alloc_object_def Let_def)
    next
      case 3
      let ?ob = "OBJ_LIST \<lparr>ol_data = [], ol_capacity = 0\<rparr>"
      have p: "length h < length (h @ [?ob])" "(h @ [?ob]) ! length h = ?ob" by simp_all
      from a [unfolded array_returns_def, rule_format, OF loop(1) p loop(2,3)] obtain r h' where
        res: "json_array_loop L n (length h) (h @ [?ob]) ?cs = Some (r, h')"
        "consumes (h @ [?ob]) ?cs (\<lambda>i. i \<noteq> length h) (r, h')" by (metis surj_pair)
      have "consumes h cs (\<lambda>_. True) (Some (OBJ_VAL (length h), tl ?cs), h @ [?ob])"
        if "?cs \<noteq> []" using lc that by (cases ?cs) (simp_all add: heap_le_append)
      then show ?thesis using 3 Cons res widen [OF res(2)] by (auto simp: alloc_object_def obj_list_new_def Let_def)
    next
      case 4
      have "consumes h cs (\<lambda>_. True) (map_option (Pair w) (json_match lit (c # rest)), h)" if "lit \<noteq> []" for w lit
        using match_length [of lit "c # rest"] that l by (cases "json_match lit (c # rest)") (auto simp: heap_le_refl)
      then show ?thesis using 4 Cons by auto
    next
      case 5
      have "consumes h cs (\<lambda>_. True) (json_parse_number L (c # rest), h)"
        using parse_number_consumes [of L "c # rest"] l by (cases "json_parse_number L (c # rest)") (auto simp: heap_le_refl)
      then show ?thesis using 5 Cons by (auto simp: heap_le_refl)
    qed
  qed
qed

lemma decoder_returns: "value_returns L n \<and> array_returns L n \<and> object_returns L n"
proof (induction n)
  case 0
  show ?case by (simp add: value_returns_def array_returns_def object_returns_def)
next
  case (Suc n)
  then show ?case using value_step_returns array_step_returns object_step_returns by blast
qed

subsection \<open>The properties\<close>

lemma decode_string_arg:
  assumes "obj_of h arg = Some (OBJ_STRING s)"
  shows "native_json_decode L h arg = map_option (\<lambda>(r, h). (case r of None \<Rightarrow> VAL_NIL | Some (v, _) \<Rightarrow> v, h))
    (json_parse_value L (json_fuel s) h s)"
proof -
  have "AS_STRING h arg = s" using assms by (auto simp: AS_STRING_def obj_of_def split: if_splits)
  then show ?thesis using assms by (simp add: native_json_decode_def IS_STRING_def)
qed

text \<open>C35: Decoding inverts encoding: with enough C stack \<open>json.encode\<close> returns a text for a value made of nil,
  booleans, integers, strings, lists and maps, and \<open>json.decode\<close> of that text, in any heap with room, returns a
  value that stands for the same data, the order of the keys of a map excepted.\<close>

theorem json_roundtrip:
  assumes "stands 0 h v j" and "length h < 2 ^ 43"
  shows "\<exists>n s. (\<forall>k \<ge> n. json_encode_value L k h v = Some s) \<and>
    (\<forall>h0 arg. obj_of h0 arg = Some (OBJ_STRING s) \<and> length s < 2 ^ 29 \<and> length h0 + length s < 2 ^ 43 \<longrightarrow>
      (\<exists>v' h'. native_json_decode L h0 arg = Some (v', h') \<and> stands 0 h' v' j))"
proof -
  from stands_writes [OF assms, of L] obtain n s where
    s: "\<forall>k \<ge> n. json_encode_value L k h v = Some s" "json_text s j" by (auto simp: writes_def)
  have "\<exists>v' h'. native_json_decode L h0 arg = Some (v', h') \<and> stands 0 h' v' j"
    if a: "obj_of h0 arg = Some (OBJ_STRING s)" and b: "length h0 + length s < 2 ^ 43" "length s < 2 ^ 29" for h0 arg
  proof -
    have n: "2 * length s + 1 \<le> json_fuel s" by (simp add: json_fuel_def)
    from reads_valueD [OF decoder_reads_text(1) [OF s(2)] n stops_punct(1) b] obtain v' cs h' where
      "json_parse_value L (json_fuel s) h0 (s @ []) = Some (Some (v', cs), h')" "stands (length h0) h' v' j" .
    then show ?thesis by (auto simp: decode_string_arg [OF a] intro: stands_lower)
  qed
  then show ?thesis using s(1) by blast
qed

definition example_json :: heap where
  "example_json = [OBJ_LIST \<lparr>ol_data = [VAL_TRUE, VAL_NIL], ol_capacity = 8\<rparr>]"

lemma example_json_stands: "stands 0 example_json (OBJ_VAL 0) (JList [JBool True, JNull])"
  by (rule stands_list [where l = "\<lparr>ol_data = [VAL_TRUE, VAL_NIL], ol_capacity = 8\<rparr>"])
    (use obj_of_OBJ_VAL [of 0 example_json] in \<open>auto simp: example_json_def intro: stands.intros\<close>)

theorem json_roundtrip_witness:
  "\<forall>L. \<exists>v' h'. native_json_decode L [OBJ_STRING ''[true,null]''] (OBJ_VAL 0) = Some (v', h') \<and>
    stands 0 h' v' (JList [JBool True, JNull])"
proof
  fix L
  have l: "length example_json < 2 ^ 43" by (simp add: example_json_def)
  obtain n s where s: "\<forall>k \<ge> n. json_encode_value L k example_json (OBJ_VAL 0) = Some s"
    "\<forall>h0 arg. obj_of h0 arg = Some (OBJ_STRING s) \<and> length s < 2 ^ 29 \<and> length h0 + length s < 2 ^ 43 \<longrightarrow>
      (\<exists>v' h'. native_json_decode L h0 arg = Some (v', h') \<and> stands 0 h' v' (JList [JBool True, JNull]))"
    using json_roundtrip [OF example_json_stands l, of L] by blast
  have "json_encode_value L (Suc (Suc n)) example_json (OBJ_VAL 0) = Some ''[true,null]''"
    using obj_of_OBJ_VAL [of 0 example_json]
    by (subst encode_object [where ob = "OBJ_LIST \<lparr>ol_data = [VAL_TRUE, VAL_NIL], ol_capacity = 8\<rparr>"])
      (simp_all add: example_json_def vek_defs)
  moreover have "json_encode_value L (Suc (Suc n)) example_json (OBJ_VAL 0) = Some s"
    using s(1) by (simp del: json_encode_value.simps)
  ultimately have "s = ''[true,null]''" by simp
  then show "\<exists>v' h'. native_json_decode L [OBJ_STRING ''[true,null]''] (OBJ_VAL 0) = Some (v', h') \<and>
      stands 0 h' v' (JList [JBool True, JNull])"
    using s(2) obj_of_OBJ_VAL [of 0 "[OBJ_STRING ''[true,null]'']"] by auto
qed



text \<open>Three defects.  A list that holds itself is never written; a number outside 48 bits wraps around and
  what follows the first value is ignored.\<close>

lemma json_encode_cycle:
  assumes "obj_of h v = Some (OBJ_LIST l)" and "v \<in> set (ol_data l)"
  shows "json_encode_value L n h v = None"
proof (induction n)
  case (Suc n)
  have "json_encode_list (json_encode_value L n h) first vs = None" if "v \<in> set vs" for first vs
    using that
  proof (induction vs arbitrary: first)
    case (Cons w vs)
    then show ?case using Suc.IH by (cases "w = v"; cases "json_encode_value L n h w") auto
  qed simp
  then show ?case using assms by (simp add: encode_object del: json_encode_value.simps)
qed simp

lemma int_val_wraps: "INT_VAL 140737488355328 = INT_VAL (- 140737488355328)"
  by (simp add: INT_VAL_def vek_defs)

lemma json_decode_ignores_rest:
  assumes "obj_of h arg = Some (OBJ_STRING (''null'' @ cs))"
  shows "native_json_decode L h arg = Some (VAL_NIL, h)"
  by (simp add: decode_string_arg [OF assms] json_fuel_def json_skip_ws_def is_json_ws_def json_match_def)

end
