(* ===== verification/Core_Language.thy ===== *)
theory Core_Language
  imports Compiler Vm_Values "HOL-Library.Signed_Division"
begin

section \<open>The core of the language\<close>

text \<open>
  What the language promises of its core, without lexer, compiler and machine: programs made of
  assignments to global variables, \<open>if\<close> and \<open>while\<close>, with expressions over nil, booleans and 48-bit
  integers; their meaning as a big-step semantics with run-time errors; and their concrete syntax with
  as few parentheses as the precedences allow.
\<close>

unbundle bit_operations_syntax

subsection \<open>Syntax and values\<close>

datatype unop = Neg | Logic_Not | Bit_Not

datatype binop =
  Add | Sub | Mul | Mod | Eq | Not_Eq | Less | Less_Eq | Greater | Greater_Eq | Bit_And | Bit_Or | Bit_Xor | Shl | Shr

datatype expr =
  Nil_Lit | Bool_Lit bool | Int_Lit nat | Var string | Unary unop expr | Binary binop expr expr
  | And_Then expr expr | Or_Else expr expr

datatype stmt = Assign string expr | If_Else expr "stmt list" "stmt list" | While expr "stmt list"

datatype val = VNil | VBool bool | VInt "48 word"

type_synonym env = "string \<Rightarrow> val option"

subsection \<open>Meaning of expressions\<close>

text \<open>A value, a run-time error, or a product outside \<open>int64_t\<close>, which the code leaves undefined.\<close>

datatype eval_result = Yields val | Fails string | Overflows

fun truthy :: "val \<Rightarrow> bool" where
  "truthy VNil = False"
| "truthy (VBool b) = b"
| "truthy (VInt i) = True"

fun int_binop :: "binop \<Rightarrow> 48 word \<Rightarrow> 48 word \<Rightarrow> eval_result" where
  "int_binop Add a b = Yields (VInt (a + b))"
| "int_binop Sub a b = Yields (VInt (a - b))"
| "int_binop Mul a b = (if - (2 ^ 63) \<le> sint a * sint b \<and> sint a * sint b < 2 ^ 63 then Yields (VInt (a * b)) else Overflows)"
| "int_binop Mod a b = (if b = 0 then Fails ''Modulo by zero.'' else Yields (VInt (word_of_int (sint a smod sint b))))"
| "int_binop Eq a b = Yields (VBool (a = b))"
| "int_binop Not_Eq a b = Yields (VBool (a \<noteq> b))"
| "int_binop Less a b = Yields (VBool (sint a < sint b))"
| "int_binop Less_Eq a b = Yields (VBool (sint a \<le> sint b))"
| "int_binop Greater a b = Yields (VBool (sint a > sint b))"
| "int_binop Greater_Eq a b = Yields (VBool (sint a \<ge> sint b))"
| "int_binop Bit_And a b = Yields (VInt (a AND b))"
| "int_binop Bit_Or a b = Yields (VInt (a OR b))"
| "int_binop Bit_Xor a b = Yields (VInt (a XOR b))"
| "int_binop Shl a b = (if sint b < 0 \<or> 64 \<le> sint b then Fails ''Shift count must be between 0 and 63.''
     else Yields (VInt (push_bit (nat (sint b)) a)))"
| "int_binop Shr a b = (if sint b < 0 \<or> 64 \<le> sint b then Fails ''Shift count must be between 0 and 63.''
     else Yields (VInt (word_of_int (sint a div 2 ^ nat (sint b)))))"

fun operand_error :: "binop \<Rightarrow> string" where
  "operand_error Add = ''Operands must be numbers or strings for '+'.''"
| "operand_error Sub = ''Operands must be numbers for '-'.''"
| "operand_error Mul = ''Operands must be numbers for '*'.''"
| "operand_error Mod = ''Operands must be numbers for '%'.''"
| "operand_error Less = ''Operands must be numbers or strings for '<'.''"
| "operand_error Less_Eq = ''Operands must be numbers or strings for '<='.''"
| "operand_error Greater = ''Operands must be numbers or strings for '>'.''"
| "operand_error Greater_Eq = ''Operands must be numbers or strings for '>='.''"
| "operand_error Shl = ''Shift operations require integers.''"
| "operand_error Shr = ''Shift operations require integers.''"
| "operand_error _ = ''Bitwise operations require integers.''"

definition binop_result :: "binop \<Rightarrow> val \<Rightarrow> val \<Rightarrow> eval_result" where
  "binop_result op v w =
     (case (v, w) of
        (VInt a, VInt b) \<Rightarrow> int_binop op a b
      | _ \<Rightarrow> if op = Eq then Yields (VBool (v = w)) else if op = Not_Eq then Yields (VBool (v \<noteq> w))
             else Fails (operand_error op))"

fun unop_result :: "unop \<Rightarrow> val \<Rightarrow> eval_result" where
  "unop_result Logic_Not v = Yields (VBool (\<not> truthy v))"
| "unop_result Neg (VInt a) = Yields (VInt (- a))"
| "unop_result Neg _ = Fails ''Operand must be a number for unary '-'.''"
| "unop_result Bit_Not (VInt a) = Yields (VInt (NOT a))"
| "unop_result Bit_Not _ = Fails ''Bitwise NOT requires an integer.''"

definition and_then :: "eval_result \<Rightarrow> (val \<Rightarrow> eval_result) \<Rightarrow> eval_result" where
  "and_then r f = (case r of Yields v \<Rightarrow> f v | _ \<Rightarrow> r)"

lemma and_then_simps [simp]:
  "and_then (Yields v) f = f v" "and_then (Fails e) f = Fails e" "and_then Overflows f = Overflows"
  by (simp_all add: and_then_def)

fun eval :: "env \<Rightarrow> expr \<Rightarrow> eval_result" where
  "eval env Nil_Lit = Yields VNil"
| "eval env (Bool_Lit b) = Yields (VBool b)"
| "eval env (Int_Lit n) = Yields (VInt (of_nat n))"
| "eval env (Var x) =
     (case env x of Some v \<Rightarrow> Yields v | None \<Rightarrow> Fails (''Undefined variable '' @ [SQ] @ x @ [SQ] @ ''.''))"
| "eval env (Unary op a) = and_then (eval env a) (unop_result op)"
| "eval env (Binary op a b) = and_then (eval env a) (\<lambda>v. and_then (eval env b) (binop_result op v))"
| "eval env (And_Then a b) = and_then (eval env a) (\<lambda>v. if truthy v then eval env b else Yields v)"
| "eval env (Or_Else a b) = and_then (eval env a) (\<lambda>v. if truthy v then Yields v else eval env b)"

subsection \<open>Meaning of programs\<close>

text \<open>\<open>exec env p env' r\<close>: the program ends with the globals \<open>env'\<close>, normally or with the error \<open>r\<close>.\<close>

inductive exec :: "env \<Rightarrow> stmt list \<Rightarrow> env \<Rightarrow> string option \<Rightarrow> bool" where
  exec_end: "exec env [] env None"
| exec_assign: "eval env e = Yields v \<Longrightarrow> exec (env(x \<mapsto> v)) p env' r \<Longrightarrow> exec env (Assign x e # p) env' r"
| exec_assign_fails: "eval env e = Fails msg \<Longrightarrow> exec env (Assign x e # p) env (Some msg)"
| exec_if: "eval env c = Yields v \<Longrightarrow> exec env (if truthy v then a else b) env' None \<Longrightarrow> exec env' p env'' r \<Longrightarrow>
    exec env (If_Else c a b # p) env'' r"
| exec_if_fails: "eval env c = Yields v \<Longrightarrow> exec env (if truthy v then a else b) env' (Some msg) \<Longrightarrow>
    exec env (If_Else c a b # p) env' (Some msg)"
| exec_if_cond: "eval env c = Fails msg \<Longrightarrow> exec env (If_Else c a b # p) env (Some msg)"
| exec_while_end: "eval env c = Yields v \<Longrightarrow> \<not> truthy v \<Longrightarrow> exec env p env' r \<Longrightarrow> exec env (While c a # p) env' r"
| exec_while: "eval env c = Yields v \<Longrightarrow> truthy v \<Longrightarrow> exec env a env' None \<Longrightarrow> exec env' (While c a # p) env'' r \<Longrightarrow>
    exec env (While c a # p) env'' r"
| exec_while_fails: "eval env c = Yields v \<Longrightarrow> truthy v \<Longrightarrow> exec env a env' (Some msg) \<Longrightarrow>
    exec env (While c a # p) env' (Some msg)"
| exec_while_cond: "eval env c = Fails msg \<Longrightarrow> exec env (While c a # p) env (Some msg)"

subsection \<open>Concrete syntax\<close>

type_synonym tok = "string \<times> token_type"

fun unop_tok :: "unop \<Rightarrow> tok" where
  "unop_tok Neg = (''-'', Single TOKEN_MINUS)"
| "unop_tok Logic_Not = (''!'', Single TOKEN_BANG)"
| "unop_tok Bit_Not = (''~'', Single TOKEN_TILDE)"

fun binop_tok :: "binop \<Rightarrow> tok" where
  "binop_tok Add = (''+'', Single TOKEN_PLUS)"
| "binop_tok Sub = (''-'', Single TOKEN_MINUS)"
| "binop_tok Mul = (''*'', Single TOKEN_STAR)"
| "binop_tok Mod = (''%'', Single TOKEN_PERCENT)"
| "binop_tok Eq = (''=='', Multi TOKEN_EQUAL_EQUAL)"
| "binop_tok Not_Eq = (''!='', Multi TOKEN_BANG_EQUAL)"
| "binop_tok Less = (''<'', Single TOKEN_LESS)"
| "binop_tok Less_Eq = (''<='', Multi TOKEN_LESS_EQUAL)"
| "binop_tok Greater = (''>'', Single TOKEN_GREATER)"
| "binop_tok Greater_Eq = (''>='', Multi TOKEN_GREATER_EQUAL)"
| "binop_tok Bit_And = (''&'', Single TOKEN_AMP)"
| "binop_tok Bit_Or = (''|'', Single TOKEN_PIPE)"
| "binop_tok Bit_Xor = (''^'', Single TOKEN_CARET)"
| "binop_tok Shl = (''<<'', Multi TOKEN_LSHIFT)"
| "binop_tok Shr = (''>>'', Multi TOKEN_RSHIFT)"

text \<open>How tightly an operator binds; \<open>2\<close> is \<open>||\<close>, \<open>3\<close> is \<open>&&\<close>, \<open>14\<close> the prefix operators.\<close>

fun binop_level :: "binop \<Rightarrow> nat" where
  "binop_level Bit_Or = 4"
| "binop_level Bit_Xor = 5"
| "binop_level Bit_And = 6"
| "binop_level Eq = 7"
| "binop_level Not_Eq = 7"
| "binop_level Less = 8"
| "binop_level Less_Eq = 8"
| "binop_level Greater = 8"
| "binop_level Greater_Eq = 8"
| "binop_level Shl = 9"
| "binop_level Shr = 9"
| "binop_level Add = 11"
| "binop_level Sub = 11"
| "binop_level Mul = 12"
| "binop_level Mod = 12"

fun level :: "expr \<Rightarrow> nat" where
  "level (Binary op a b) = binop_level op"
| "level (And_Then a b) = 3"
| "level (Or_Else a b) = 2"
| "level e = 15"

definition parens :: "bool \<Rightarrow> tok list \<Rightarrow> tok list" where
  "parens b ts = (if b then (''('', Single TOKEN_LPAREN) # ts @ [('')'', Single TOKEN_RPAREN)] else ts)"

text \<open>The tokens of an expression where one that binds at least as tightly as \<open>q\<close> is expected.
  Binary operators associate to the left, \<open>&&\<close> and \<open>||\<close> to the right.\<close>

fun expr_body :: "expr \<Rightarrow> tok list" and expr_toks :: "nat \<Rightarrow> expr \<Rightarrow> tok list" where
  "expr_body Nil_Lit = [(''nil'', Keyword TOKEN_NIL)]"
| "expr_body (Bool_Lit b) = [if b then (''true'', Keyword TOKEN_TRUE) else (''false'', Keyword TOKEN_FALSE)]"
| "expr_body (Int_Lit n) = [(show_nat n, Literal TOKEN_INT)]"
| "expr_body (Var x) = [(x, Literal TOKEN_IDENTIFIER)]"
| "expr_body (Unary op a) = unop_tok op # expr_toks 14 a"
| "expr_body (Binary op a b) = expr_toks (binop_level op) a @ binop_tok op # expr_toks (binop_level op + 1) b"
| "expr_body (And_Then a b) = expr_toks 4 a @ (''&&'', Multi TOKEN_AMP_AMP) # expr_toks 3 b"
| "expr_body (Or_Else a b) = expr_toks 3 a @ (''||'', Multi TOKEN_PIPE_PIPE) # expr_toks 2 b"
| "expr_toks q e = parens (level e < q) (expr_body e)"

abbreviation newline :: tok where
  "newline \<equiv> ([NL], Special TOKEN_NEWLINE)"

abbreviation end_word :: tok where
  "end_word \<equiv> (''end'', Keyword TOKEN_END)"

text \<open>One statement per line; an empty \<open>else\<close> is left out.\<close>

fun stmt_toks :: "stmt \<Rightarrow> tok list" and block_toks :: "stmt list \<Rightarrow> tok list" where
  "stmt_toks (Assign x e) = (x, Literal TOKEN_IDENTIFIER) # (''='', Single TOKEN_EQUAL) # expr_toks 1 e"
| "stmt_toks (If_Else c a b) = (''if'', Keyword TOKEN_IF) # expr_toks 1 c @ newline # block_toks a @
     (if b = [] then [end_word] else (''else'', Keyword TOKEN_ELSE) # newline # block_toks b @ [end_word])"
| "stmt_toks (While c a) = (''while'', Keyword TOKEN_WHILE) # expr_toks 1 c @ newline # block_toks a @ [end_word]"
| "block_toks [] = []"
| "block_toks (st # p) = stmt_toks st @ newline # block_toks p"

definition print_tok :: "tok \<Rightarrow> string" where
  "print_tok t = (if t = newline then [NL] else fst t @ '' '')"

definition program_text :: "stmt list \<Rightarrow> string" where
  "program_text p = concat (map print_tok (block_toks p))"

subsection \<open>Variables and sizes\<close>

text \<open>The names a program may use: letters, digits and underscores, no keywords.\<close>

definition is_name :: "string \<Rightarrow> bool" where
  "is_name x \<longleftrightarrow> x \<noteq> [] \<and> is_alpha (hd x) \<and> (\<forall>c \<in> set x. word_char c) \<and> x \<notin> fst ` set keyword_table"

fun names_ok :: "expr \<Rightarrow> bool" where
  "names_ok (Var x) = is_name x"
| "names_ok (Unary op a) = names_ok a"
| "names_ok (Binary op a b) = (names_ok a \<and> names_ok b)"
| "names_ok (And_Then a b) = (names_ok a \<and> names_ok b)"
| "names_ok (Or_Else a b) = (names_ok a \<and> names_ok b)"
| "names_ok _ = True"

fun stmt_ok :: "stmt \<Rightarrow> bool" and block_ok :: "stmt list \<Rightarrow> bool" where
  "stmt_ok (Assign x e) = (is_name x \<and> names_ok e)"
| "stmt_ok (If_Else c a b) = (names_ok c \<and> block_ok a \<and> block_ok b)"
| "stmt_ok (While c a) = (names_ok c \<and> block_ok a)"
| "block_ok [] = True"
| "block_ok (st # p) = (stmt_ok st \<and> block_ok p)"

fun expr_vars :: "expr \<Rightarrow> string set" where
  "expr_vars (Var x) = {x}"
| "expr_vars (Unary op a) = expr_vars a"
| "expr_vars (Binary op a b) = expr_vars a \<union> expr_vars b"
| "expr_vars (And_Then a b) = expr_vars a \<union> expr_vars b"
| "expr_vars (Or_Else a b) = expr_vars a \<union> expr_vars b"
| "expr_vars _ = {}"

fun stmt_vars :: "stmt \<Rightarrow> string set" and block_vars :: "stmt list \<Rightarrow> string set" where
  "stmt_vars (Assign x e) = insert x (expr_vars e)"
| "stmt_vars (If_Else c a b) = expr_vars c \<union> block_vars a \<union> block_vars b"
| "stmt_vars (While c a) = expr_vars c \<union> block_vars a"
| "block_vars [] = {}"
| "block_vars (st # p) = stmt_vars st \<union> block_vars p"

text \<open>Bytes of code.\<close>

fun expr_size :: "expr \<Rightarrow> nat" where
  "expr_size Nil_Lit = 1"
| "expr_size (Bool_Lit b) = 1"
| "expr_size (Int_Lit n) = 3"
| "expr_size (Var x) = 3"
| "expr_size (Unary op a) = expr_size a + 1"
| "expr_size (Binary op a b) = expr_size a + expr_size b + 1"
| "expr_size (And_Then a b) = expr_size a + expr_size b + 4"
| "expr_size (Or_Else a b) = expr_size a + expr_size b + 7"

fun stmt_size :: "stmt \<Rightarrow> nat" and block_size :: "stmt list \<Rightarrow> nat" where
  "stmt_size (Assign x e) = expr_size e + 4"
| "stmt_size (If_Else c a b) = expr_size c + block_size a + block_size b + 8"
| "stmt_size (While c a) = expr_size c + block_size a + 8"
| "block_size [] = 0"
| "block_size (st # p) = stmt_size st + block_size p"

end
