(* ===== verification/Core_Code.thy ===== *)
theory Core_Code
  imports Core_Language Machine_Facts Compiler_Total
begin

section \<open>The code of the core language, and how the compiler emits it\<close>

text \<open>
  The relation \<open>expr_code\<close> says which bytecode, in a given constant table and heap, is the code of an
  expression.  The rest is about single steps of the compiler: taking a token from a lexer that feeds
  printed tokens, appending code and constants to the current function (\<open>ext\<close>), patching a jump.
\<close>

subsection \<open>Feeding tokens\<close>

fun feeds :: "lexer \<Rightarrow> tok list \<Rightarrow> bool" where
  "feeds lx [] \<longleftrightarrow> skip_whitespace (lx_current lx) = [NUL]"
| "feeds lx (t # ts) \<longleftrightarrow> snd t \<noteq> Special TOKEN_ERROR \<and>
     (\<exists>tk lx'. lexer_next_token lx = (tk, lx') \<and> tok_text tk = fst t \<and> tk_type tk = snd t \<and> feeds lx' ts)"

definition tok_ok :: "tok \<Rightarrow> bool" where
  "tok_ok t \<longleftrightarrow> t = newline \<or> spells (fst t) (snd t)"

lemma spells_not_special: "spells s t \<Longrightarrow> t \<noteq> Special x"
  by (auto simp: spells_def operator_table_def dest: keyword_kinds)

lemma feeds_space: "feeds (lx\<lparr>lx_current := CHR '' '' # r\<rparr>) ts = feeds (lx\<lparr>lx_current := r\<rparr>) ts"
  by (cases ts) (simp_all add: next_token_space)

lemma next_token_newline:
  "lx_current lx = NL # r \<Longrightarrow> lexer_next_token lx =
    (token_of [NL] (Special TOKEN_NEWLINE) r (lx_line lx), lx\<lparr>lx_start := NL # r, lx_current := r, lx_line := lx_line lx + 1\<rparr>)"
  using next_token_at [of lx NL r]
  by (simp add: is_alpha_def is_digit_def scan_switch_def make_token_def token_of_def Let_def)

lemma print_tok_simps [simp]: "print_tok newline = [NL]" "t \<noteq> newline \<Longrightarrow> print_tok t = fst t @ '' ''"
  by (simp_all add: print_tok_def)

lemma feeds_print:
  assumes "lx_current lx = concat (map print_tok ts) @ [NUL]" and "\<forall>t \<in> set ts. tok_ok t"
  shows "feeds lx ts"
  using assms
proof (induction ts arbitrary: lx)
  case Nil
  then show ?case by simp
next
  case (Cons t ts)
  let ?r = "concat (map print_tok ts) @ [NUL]"
  show ?case
  proof (cases "t = newline")
    case True
    then have c: "lx_current lx = NL # ?r" using Cons.prems by simp
    have "feeds (lx\<lparr>lx_start := NL # ?r, lx_current := ?r, lx_line := lx_line lx + 1\<rparr>) ts"
      using Cons by simp
    then show ?thesis using True next_token_newline [OF c] by (simp add: token_of_def)
  next
    case False
    then have sp: "spells (fst t) (snd t)" using Cons.prems by (simp add: tok_ok_def)
    have c: "lx_current lx = fst t @ CHR '' '' # ?r" using Cons.prems False by simp
    have "feeds (lx\<lparr>lx_start := fst t @ CHR '' '' # ?r, lx_current := ?r\<rparr>) ts" using Cons by simp
    then have "feeds (before_space (fst t) ?r lx) ts"
      using feeds_space [where lx = "lx\<lparr>lx_start := fst t @ CHR '' '' # ?r\<rparr>" and r = ?r and ts = ts] by simp
    then show ?thesis using lex_spelled [OF sp c] spells_not_special [OF sp] by (simp add: token_of_def)
  qed
qed

text \<open>The current token and those that the lexer still has.\<close>

fun at_toks :: "cstate \<Rightarrow> tok list \<Rightarrow> bool" where
  "at_toks s [] \<longleftrightarrow> cur_type s = Special TOKEN_EOF \<and> feeds (cs_lexer s) []"
| "at_toks s (t # ts) \<longleftrightarrow> cur_type s = snd t \<and> tok_text (cs_current s) = fst t \<and> feeds (cs_lexer s) ts"

lemma advance_at:
  assumes "feeds (cs_lexer s) ts"
  obtains tk lx where "advance s = Some (s\<lparr>cs_previous := cs_current s, cs_lexer := lx, cs_current := tk\<rparr>)"
    "at_toks (s\<lparr>cs_previous := cs_current s, cs_lexer := lx, cs_current := tk\<rparr>) ts"
proof (cases ts)
  case Nil
  let ?l = "(cs_lexer s)\<lparr>lx_start := [NUL], lx_current := [NUL]\<rparr>"
  have "skip_whitespace (lx_current (cs_lexer s)) = [NUL]" using assms Nil by simp
  from next_token_at [OF this] have n: "lexer_next_token (cs_lexer s) = make_token ?l (Special TOKEN_EOF)" by simp
  show ?thesis
    by (rule that [of "fst (make_token ?l (Special TOKEN_EOF))" ?l])
      (simp_all add: advance_def advance_loop.simps n make_token_def Nil)
next
  case (Cons t us)
  then obtain tk lx where n: "lexer_next_token (cs_lexer s) = (tk, lx)" "tok_text tk = fst t" "tk_type tk = snd t"
    "feeds lx us" "snd t \<noteq> Special TOKEN_ERROR" using assms by auto
  show ?thesis
    by (rule that [of tk lx]) (use n Cons in \<open>simp_all add: advance_def advance_loop.simps\<close>)
qed

subsection \<open>The code of an expression\<close>

definition short_is :: "u8 \<Rightarrow> u8 \<Rightarrow> nat \<Rightarrow> bool" where
  "short_is lo hi n \<longleftrightarrow> unat lo + 256 * unat hi = n"

definition const_is :: "val64 list \<Rightarrow> u8 \<Rightarrow> u8 \<Rightarrow> val64 \<Rightarrow> bool" where
  "const_is cs lo hi v \<longleftrightarrow> (\<exists>i < length cs. short_is lo hi i \<and> cs ! i = v)"

text \<open>The constant is the interned name.\<close>

definition name_is :: "heap \<Rightarrow> val64 list \<Rightarrow> u8 \<Rightarrow> u8 \<Rightarrow> string \<Rightarrow> bool" where
  "name_is h cs lo hi x \<longleftrightarrow> (\<exists>p. find_string h x 0 = Some p \<and> const_is cs lo hi (OBJ_VAL p))"

fun unop_code :: "unop \<Rightarrow> u8" where
  "unop_code Neg = OP_NEG"
| "unop_code Logic_Not = OP_NOT"
| "unop_code Bit_Not = OP_BNOT"

fun binop_code :: "binop \<Rightarrow> u8" where
  "binop_code Add = OP_ADD"
| "binop_code Sub = OP_SUB"
| "binop_code Mul = OP_MUL"
| "binop_code Mod = OP_MOD"
| "binop_code Eq = OP_EQUAL"
| "binop_code Not_Eq = OP_NOT_EQUAL"
| "binop_code Less = OP_LESS"
| "binop_code Less_Eq = OP_LESS_EQUAL"
| "binop_code Greater = OP_GREATER"
| "binop_code Greater_Eq = OP_GREATER_EQUAL"
| "binop_code Bit_And = OP_BAND"
| "binop_code Bit_Or = OP_BOR"
| "binop_code Bit_Xor = OP_BXOR"
| "binop_code Shl = OP_SHL"
| "binop_code Shr = OP_SHR"

fun expr_code :: "heap \<Rightarrow> val64 list \<Rightarrow> expr \<Rightarrow> u8 list \<Rightarrow> bool" where
  "expr_code h cs Nil_Lit code \<longleftrightarrow> code = [OP_NIL]"
| "expr_code h cs (Bool_Lit b) code \<longleftrightarrow> code = [if b then OP_TRUE else OP_FALSE]"
| "expr_code h cs (Int_Lit n) code \<longleftrightarrow> (\<exists>lo hi. code = [OP_CONSTANT, lo, hi] \<and> const_is cs lo hi (int_val (of_nat n)))"
| "expr_code h cs (Var x) code \<longleftrightarrow> (\<exists>lo hi. code = [OP_GET_GLOBAL, lo, hi] \<and> name_is h cs lo hi x)"
| "expr_code h cs (Unary op a) code \<longleftrightarrow> (\<exists>ca. code = ca @ [unop_code op] \<and> expr_code h cs a ca)"
| "expr_code h cs (Binary op a b) code \<longleftrightarrow>
     (\<exists>ca cb. code = ca @ cb @ [binop_code op] \<and> expr_code h cs a ca \<and> expr_code h cs b cb)"
| "expr_code h cs (And_Then a b) code \<longleftrightarrow>
     (\<exists>ca cb lo hi. code = ca @ [OP_JUMP_IF_FALSE, lo, hi, OP_POP] @ cb \<and> short_is lo hi (length cb + 1) \<and>
        expr_code h cs a ca \<and> expr_code h cs b cb)"
| "expr_code h cs (Or_Else a b) code \<longleftrightarrow>
     (\<exists>ca cb lo hi lo' hi'. code = ca @ [OP_JUMP_IF_FALSE, lo, hi, OP_JUMP, lo', hi', OP_POP] @ cb \<and>
        short_is lo hi 3 \<and> short_is lo' hi' (length cb + 1) \<and> expr_code h cs a ca \<and> expr_code h cs b cb)"

lemma expr_code_length: "expr_code h cs e code \<Longrightarrow> length code = expr_size e"
  by (induction e arbitrary: code) fastforce+

lemma const_is_append: "const_is cs lo hi v \<Longrightarrow> const_is (cs @ cs') lo hi v"
  by (auto simp: const_is_def nth_append intro: exI)

lemma name_is_mono: "name_is h cs lo hi x \<Longrightarrow> heap_le P h h' \<Longrightarrow> name_is h' (cs @ cs') lo hi x"
  using find_string_heap_le const_is_append unfolding name_is_def by blast

lemma expr_code_mono: "expr_code h cs e code \<Longrightarrow> heap_le P h h' \<Longrightarrow> expr_code h' (cs @ cs') e code"
proof (induction e arbitrary: code)
  case (Int_Lit n)
  then show ?case using const_is_append by auto
next
  case (Var x)
  then show ?case using name_is_mono by auto
next
  case (And_Then a b)
  then show ?case by auto blast
next
  case (Or_Else a b)
  then show ?case by auto blast
qed auto

subsection \<open>The code of statements\<close>

fun stmt_code :: "heap \<Rightarrow> val64 list \<Rightarrow> stmt \<Rightarrow> u8 list \<Rightarrow> bool"
  and block_code :: "heap \<Rightarrow> val64 list \<Rightarrow> stmt list \<Rightarrow> u8 list \<Rightarrow> bool" where
  "stmt_code h cs (Assign x e) code \<longleftrightarrow>
     (\<exists>ce lo hi. code = ce @ [OP_SET_GLOBAL, lo, hi, OP_POP] \<and> expr_code h cs e ce \<and> name_is h cs lo hi x)"
| "stmt_code h cs (If_Else c a b) code \<longleftrightarrow>
     (\<exists>cc ca cb lo hi lo' hi'. code = cc @ [OP_JUMP_IF_FALSE, lo, hi, OP_POP] @ ca @ [OP_JUMP, lo', hi', OP_POP] @ cb \<and>
        short_is lo hi (length ca + 4) \<and> short_is lo' hi' (length cb + 1) \<and>
        expr_code h cs c cc \<and> block_code h cs a ca \<and> block_code h cs b cb)"
| "stmt_code h cs (While c a) code \<longleftrightarrow>
     (\<exists>cc ca lo hi lo' hi'. code = cc @ [OP_JUMP_IF_FALSE, lo, hi, OP_POP] @ ca @ [OP_LOOP, lo', hi', OP_POP] \<and>
        short_is lo hi (length ca + 4) \<and> short_is lo' hi' (length cc + length ca + 7) \<and>
        expr_code h cs c cc \<and> block_code h cs a ca)"
| "block_code h cs [] code \<longleftrightarrow> code = []"
| "block_code h cs (st # p) code \<longleftrightarrow> (\<exists>c1 c2. code = c1 @ c2 \<and> stmt_code h cs st c1 \<and> block_code h cs p c2)"

lemma stmt_code_length: "stmt_code h cs st code \<Longrightarrow> length code = stmt_size st"
  and block_code_length: "block_code h cs p code \<Longrightarrow> length code = block_size p"
proof (induction st and p arbitrary: code and code rule: stmt_size_block_size.induct)
qed (auto dest!: expr_code_length)

lemma stmt_code_mono: "stmt_code h cs st code \<Longrightarrow> heap_le P h h' \<Longrightarrow> stmt_code h' (cs @ cs') st code"
  and block_code_mono: "block_code h cs p code \<Longrightarrow> heap_le P h h' \<Longrightarrow> block_code h' (cs @ cs') p code"
proof (induction st and p arbitrary: code and code rule: stmt_size_block_size.induct)
  case (1 x e)
  then show ?case using expr_code_mono name_is_mono by auto
next
  case (2 c a b)
  then show ?case using expr_code_mono by auto blast
next
  case (3 c a)
  then show ?case using expr_code_mono by auto blast
qed auto

subsection \<open>Appending code\<close>

definition fn_of :: "cstate \<Rightarrow> ptr" where
  "fn_of s = cp_function (cur s)"

abbreviation pool :: "cstate \<Rightarrow> val64 list" where
  "pool s \<equiv> ck_constants (current_chunk s)"

text \<open>The compiler is at the top level of a script, outside every scope, and has met no error.\<close>

definition script :: "cstate \<Rightarrow> bool" where
  "script s \<longleftrightarrow> (\<exists>f. cs_compilers s = [\<lparr>cp_function = fn_of s, cp_type = TYPE_SCRIPT,
       cp_locals = [\<lparr>lc_name = [], lc_depth = 0, lc_is_captured = False\<rparr>], cp_upvalues = [], cp_scope_depth = 0\<rparr>] \<and>
     fn_of s < length (cs_heap s) \<and> cs_heap s ! fn_of s = OBJ_FUNCTION f \<and>
     \<not> cs_had_error s \<and> \<not> cs_panic_mode s \<and> \<not> cs_undefined s \<and>
     \<not> cs_created_local s)"

text \<open>From \<open>s\<close> to \<open>s'\<close> the compiler has appended \<open>code\<close>, at most \<open>k\<close> constants and at most \<open>k\<close> objects.\<close>

definition ext :: "nat \<Rightarrow> cstate \<Rightarrow> cstate \<Rightarrow> u8 list \<Rightarrow> bool" where
  "ext k s s' code \<longleftrightarrow>
     cs_compilers s' = cs_compilers s \<and> cs_loops s' = cs_loops s \<and> cs_had_error s' = cs_had_error s \<and>
     cs_panic_mode s' = cs_panic_mode s \<and> cs_undefined s' = cs_undefined s \<and> cs_created_local s' = cs_created_local s \<and>
     heap_le (\<lambda>i. i \<noteq> fn_of s) (cs_heap s) (cs_heap s') \<and> length (cs_heap s') \<le> length (cs_heap s) + k \<and>
     (\<exists>ch. cs_heap s' ! fn_of s = OBJ_FUNCTION ((the_function (cs_heap s) (fn_of s))\<lparr>fn_chunk := ch\<rparr>)) \<and>
     (\<exists>cs. pool s' = pool s @ cs \<and> length cs \<le> k) \<and>
     ck_code (current_chunk s') = ck_code (current_chunk s) @ code"

definition room :: "nat \<Rightarrow> cstate \<Rightarrow> bool" where
  "room n s \<longleftrightarrow> code_count s + n \<le> 65535 \<and> length (pool s) + n \<le> 65535 \<and> length (cs_heap s) + n < 2 ^ 43"

lemma current_chunk_fn: "current_chunk s = fn_chunk (the_function (cs_heap s) (fn_of s))"
  by (simp add: current_chunk_def fn_of_def)

lemma script_fn: "script s \<Longrightarrow> fn_of s < length (cs_heap s) \<and> cs_heap s ! fn_of s = OBJ_FUNCTION (the_function (cs_heap s) (fn_of s))"
  by (auto simp: script_def the_function_def)

lemma ext_fn: "ext k s s' code \<Longrightarrow> fn_of s' = fn_of s"
  by (simp add: ext_def fn_of_def cur_def)

lemma ext_script: "ext k s s' code \<Longrightarrow> script s \<Longrightarrow> script s'"
  using ext_fn [of k s s' code] by (auto simp: ext_def script_def heap_le_def)

lemma ext_refl: "script s \<Longrightarrow> ext 0 s s []"
  using script_fn [of s] by (auto simp: ext_def heap_le_refl intro: exI [of _ "current_chunk s"] simp: current_chunk_fn)

lemma ext_trans:
  assumes "ext j s s1 c1" and "ext k s1 s2 c2"
  shows "ext (j + k) s s2 (c1 @ c2)"
proof -
  have f: "fn_of s1 = fn_of s" by (rule ext_fn [OF assms(1)])
  have h: "heap_le (\<lambda>i. i \<noteq> fn_of s) (cs_heap s) (cs_heap s2)"
    using assms f unfolding ext_def by (elim conjE) (rule heap_le_trans, assumption, simp, simp)
  obtain ch1 where "cs_heap s1 ! fn_of s = OBJ_FUNCTION ((the_function (cs_heap s) (fn_of s))\<lparr>fn_chunk := ch1\<rparr>)"
    using assms(1) by (auto simp: ext_def)
  moreover obtain ch2 where "cs_heap s2 ! fn_of s = OBJ_FUNCTION ((the_function (cs_heap s1) (fn_of s))\<lparr>fn_chunk := ch2\<rparr>)"
    using assms(2) f by (auto simp: ext_def)
  ultimately have "cs_heap s2 ! fn_of s = OBJ_FUNCTION ((the_function (cs_heap s) (fn_of s))\<lparr>fn_chunk := ch2\<rparr>)"
    by (simp add: the_function_def)
  then show ?thesis using assms h unfolding ext_def by auto
qed

lemma ext_room:
  assumes "room n s" and "ext k s s' code" and "k + m \<le> n" and "length code + m \<le> n"
  shows "room m s'"
  using assms by (auto simp: room_def ext_def)

lemma ext_weaken: "ext j s s' code \<Longrightarrow> j \<le> k \<Longrightarrow> ext k s s' code"
  by (auto simp: ext_def intro: le_trans)

lemma ext_mono:
  assumes "ext k s s' code" and "expr_code (cs_heap s) (pool s) e c"
  shows "expr_code (cs_heap s') (pool s') e c"
  using assms expr_code_mono unfolding ext_def by metis

lemma ext_name_mono:
  assumes "ext k s s' code" and "name_is (cs_heap s) (pool s) lo hi x"
  shows "name_is (cs_heap s') (pool s') lo hi x"
  using assms name_is_mono unfolding ext_def by metis

text \<open>Only the tokens change.\<close>

lemma current_chunk_tokens [simp]:
  "current_chunk (s\<lparr>cs_previous := a, cs_lexer := b, cs_current := c\<rparr>) = current_chunk s"
  "fn_of (s\<lparr>cs_previous := a, cs_lexer := b, cs_current := c\<rparr>) = fn_of s"
  by (simp_all add: current_chunk_def cur_def fn_of_def)

lemma script_tokens [simp]: "script (s\<lparr>cs_previous := a, cs_lexer := b, cs_current := c\<rparr>) = script s"
  and ext_tokens_left [simp]: "ext k (s\<lparr>cs_previous := a, cs_lexer := b, cs_current := c\<rparr>) s' code = ext k s s' code"
  and ext_tokens_right [simp]: "ext k s (s'\<lparr>cs_previous := a, cs_lexer := b, cs_current := c\<rparr>) code = ext k s s' code"
  and room_tokens [simp]: "room n (s\<lparr>cs_previous := a, cs_lexer := b, cs_current := c\<rparr>) = room n s"
  by (simp_all add: script_def ext_def room_def)

subsection \<open>Emitting\<close>

lemma update_chunk_same [simp]:
  "cs_lexer (update_chunk g s) = cs_lexer s" "cs_current (update_chunk g s) = cs_current s"
  "cs_previous (update_chunk g s) = cs_previous s" "cs_compilers (update_chunk g s) = cs_compilers s"
  "cs_loops (update_chunk g s) = cs_loops s" "cs_had_error (update_chunk g s) = cs_had_error s"
  "cs_panic_mode (update_chunk g s) = cs_panic_mode s" "cs_undefined (update_chunk g s) = cs_undefined s"
  "cs_created_local (update_chunk g s) = cs_created_local s" "cur (update_chunk g s) = cur s"
  "fn_of (update_chunk g s) = fn_of s" "length (cs_heap (update_chunk g s)) = length (cs_heap s)"
  by (simp_all add: update_chunk_def cur_def fn_of_def update_function_def)

lemma at_toks_update_chunk [simp]: "at_toks (update_chunk g s) ts = at_toks s ts"
  by (cases ts) simp_all

lemma update_chunk_heap:
  assumes "script s"
  shows "cs_heap (update_chunk g s) = (cs_heap s)[fn_of s := OBJ_FUNCTION
      ((the_function (cs_heap s) (fn_of s))\<lparr>fn_chunk := g (current_chunk s)\<rparr>)]"
    and "current_chunk (update_chunk g s) = g (current_chunk s)"
    and "heap_le (\<lambda>i. i \<noteq> fn_of s) (cs_heap s) (cs_heap (update_chunk g s))"
proof -
  show h: "cs_heap (update_chunk g s) = (cs_heap s)[fn_of s := OBJ_FUNCTION
      ((the_function (cs_heap s) (fn_of s))\<lparr>fn_chunk := g (current_chunk s)\<rparr>)]"
    by (simp add: update_chunk_def update_function_def fn_of_def current_chunk_fn)
  show "current_chunk (update_chunk g s) = g (current_chunk s)"
    using script_fn [OF assms] unfolding current_chunk_fn [of "update_chunk g s"] h by (simp add: the_function_def)
  show "heap_le (\<lambda>i. i \<noteq> fn_of s) (cs_heap s) (cs_heap (update_chunk g s))"
    unfolding h using script_fn [OF assms] by (intro heap_le_update) auto
qed

lemma ext_update_chunk:
  assumes "script s" and "ck_code (g (current_chunk s)) = ck_code (current_chunk s) @ code"
    and "ck_constants (g (current_chunk s)) = pool s @ cs" and "length cs \<le> k"
  shows "ext k s (update_chunk g s) code"
proof -
  have "cs_heap (update_chunk g s) ! fn_of s = OBJ_FUNCTION ((the_function (cs_heap s) (fn_of s))\<lparr>fn_chunk := g (current_chunk s)\<rparr>)"
    using update_chunk_heap(1) [OF assms(1)] script_fn [OF assms(1)] by simp
  then show ?thesis using assms update_chunk_heap [OF assms(1)] by (auto simp: ext_def)
qed

lemma chunk_write_fields:
  "ck_code (chunk_write ch b l) = ck_code ch @ [b]" "ck_constants (chunk_write ch b l) = ck_constants ch"
  "fst (chunk_add_constant ch v) = length (ck_constants ch)"
  "ck_code (snd (chunk_add_constant ch v)) = ck_code ch"
  "ck_constants (snd (chunk_add_constant ch v)) = ck_constants ch @ [v]"
  by (simp_all add: chunk_write_def chunk_add_constant_def Let_def)

lemma ext_emit_byte: "script s \<Longrightarrow> ext 0 s (emit_byte b s) [b]"
  unfolding emit_byte_def by (rule ext_update_chunk [where cs = "[]"]) (simp_all add: chunk_write_fields)

lemma emit_byte_same [simp]:
  "cs_lexer (emit_byte b s) = cs_lexer s" "cs_current (emit_byte b s) = cs_current s"
  "cs_previous (emit_byte b s) = cs_previous s" "cur (emit_byte b s) = cur s" "fn_of (emit_byte b s) = fn_of s"
  "at_toks (emit_byte b s) ts = at_toks s ts"
  by (simp_all add: emit_byte_def)

lemma ext_emit: "ext k s s' code \<Longrightarrow> script s \<Longrightarrow> ext k s (emit_byte b s') (code @ [b])"
  using ext_trans [OF _ ext_emit_byte [OF ext_script]] by fastforce

lemma short_bytes: "n \<le> 65535 \<Longrightarrow> short_is (lo_byte (int n)) (hi_byte (int n)) n"
proof -
  assume n: "n \<le> 65535"
  have "int n div 256 = int (n div 256)" by (simp add: zdiv_int)
  then have "lo_byte (int n) = of_nat n" "hi_byte (int n) = of_nat (n div 256)" by (simp_all add: lo_byte_def hi_byte_def)
  moreover have "n div 256 < 256" using n by simp
  ultimately show ?thesis using n by (simp add: short_is_def unat_of_nat)
qed

lemma ext_emit_short:
  "ext k s s' code \<Longrightarrow> script s \<Longrightarrow> ext k s (emit_short v s') (code @ [lo_byte (uint v), hi_byte (uint v)])"
  unfolding emit_short_def using ext_emit [of k s s'] ext_emit [of k s _ "code @ [lo_byte (uint v)]"] by fastforce

lemma emit_short_same [simp]:
  "cs_lexer (emit_short v s) = cs_lexer s" "cs_current (emit_short v s) = cs_current s"
  "cs_previous (emit_short v s) = cs_previous s" "cur (emit_short v s) = cur s" "fn_of (emit_short v s) = fn_of s"
  "at_toks (emit_short v s) ts = at_toks s ts"
  by (simp_all add: emit_short_def)

lemma pool_emit [simp]:
  assumes "script s"
  shows "pool (emit_byte b s) = pool s" and "pool (emit_short v s) = pool s"
proof -
  have e: "pool (emit_byte b s) = pool s" if "script s" for b s
    unfolding emit_byte_def update_chunk_heap(2) [OF that] by (simp add: chunk_write_fields)
  then show "pool (emit_byte b s) = pool s" using assms by blast
  have "script (emit_byte b s)" for b using ext_script [OF ext_emit_byte] assms by blast
  then show "pool (emit_short v s) = pool s" using e assms by (simp add: emit_short_def)
qed

text \<open>What a step leaves of the tokens.\<close>

definition same_toks :: "cstate \<Rightarrow> cstate \<Rightarrow> bool" where
  "same_toks s s' \<longleftrightarrow> cs_lexer s' = cs_lexer s \<and> cs_current s' = cs_current s \<and> cs_previous s' = cs_previous s"

lemma same_toks_at: "same_toks s s' \<Longrightarrow> at_toks s' ts = at_toks s ts"
  by (cases ts) (simp_all add: same_toks_def)

lemma make_constant_ext:
  assumes "script s" and "length (pool s) \<le> 65535"
  obtains s' where "make_constant v s = (of_nat (length (pool s)), s')" "ext 1 s s' []" "same_toks s s'"
    "pool s' = pool s @ [v]"
proof
  let ?s = "update_chunk (\<lambda>ch. snd (chunk_add_constant ch v)) s"
  show "make_constant v s = (of_nat (length (pool s)), ?s)"
    using assms by (simp add: make_constant_def chunk_write_fields case_prod_beta)
  show "ext 1 s ?s []" by (rule ext_update_chunk [OF assms(1), where cs = "[v]"]) (simp_all add: chunk_write_fields)
  show "same_toks s ?s" by (simp add: same_toks_def)
  show "pool ?s = pool s @ [v]" unfolding update_chunk_heap(2) [OF assms(1)] by (simp add: chunk_write_fields)
qed

lemma const_is_last:
  assumes "length cs \<le> 65535"
  shows "const_is (cs @ [v]) (lo_byte (uint (of_nat (length cs) :: u16))) (hi_byte (uint (of_nat (length cs) :: u16))) v"
proof -
  have "uint (of_nat (length cs) :: u16) = int (length cs)" using assms by (simp add: uint_nat unat_of_nat)
  then show ?thesis unfolding const_is_def using short_bytes [OF assms] by (intro exI [of _ "length cs"]) simp
qed

lemma emit_constant_ext:
  assumes "script s" and "length (pool s) \<le> 65535"
  obtains lo hi where "ext 1 s (emit_constant v s) [OP_CONSTANT, lo, hi]" "same_toks s (emit_constant v s)"
    "const_is (pool (emit_constant v s)) lo hi v"
proof -
  from make_constant_ext [OF assms, of v] obtain s' where
    s': "make_constant v s = (of_nat (length (pool s)), s')" "ext 1 s s' []" "same_toks s s'" "pool s' = pool s @ [v]" .
  note sc = ext_script [OF s'(2) assms(1)]
  have e: "emit_constant v s = emit_short (of_nat (length (pool s))) (emit_byte OP_CONSTANT s')"
    by (simp add: emit_constant_def s'(1))
  have x: "ext 1 s (emit_byte OP_CONSTANT s') [OP_CONSTANT]" using ext_emit [OF s'(2) assms(1)] by simp
  have "pool (emit_constant v s) = pool s @ [v]" unfolding e using sc ext_script [OF x assms(1)] by (simp add: s'(4))
  then show ?thesis
    using that [of "lo_byte (uint (of_nat (length (pool s)) :: u16))" "hi_byte (uint (of_nat (length (pool s)) :: u16))"]
      ext_emit_short [OF x assms(1), of "of_nat (length (pool s))"] const_is_last [OF assms(2)] s'(3)
    by (simp add: e same_toks_def)
qed

lemma obj_string_copy_ext:
  assumes "script s" and "obj_string_copy x s = (p, s')"
  shows "ext 1 s s' []" and "same_toks s s'" and "find_string (cs_heap s') x 0 = Some p" and "pool s' = pool s"
proof -
  obtain h where h: "intern_string (cs_heap s) x = (p, h)" "s' = s\<lparr>cs_heap := h\<rparr>"
    using assms(2) by (auto simp: obj_string_copy_def split: prod.splits)
  from intern_string_result [OF h(1)] obtain os where os: "h = cs_heap s @ os" "length os \<le> 1" .
  have f: "fn_of s' = fn_of s" by (simp add: fn_of_def cur_def h(2))
  have c: "current_chunk s' = current_chunk s"
    unfolding current_chunk_fn f using script_fn [OF assms(1)] by (simp add: h(2) os(1) the_function_def nth_append)
  have "\<exists>ch. cs_heap s' ! fn_of s = OBJ_FUNCTION ((the_function (cs_heap s) (fn_of s))\<lparr>fn_chunk := ch\<rparr>)"
    using script_fn [OF assms(1)] by (intro exI [of _ "current_chunk s"]) (simp add: h(2) os(1) nth_append current_chunk_fn)
  then show "ext 1 s s' []" using os c by (auto simp: ext_def h(2) heap_le_append)
  show "same_toks s s'" by (simp add: same_toks_def h(2))
  show "find_string (cs_heap s') x 0 = Some p" using intern_string_found_first [OF h(1)] by (simp add: h(2))
  show "pool s' = pool s" by (simp add: c)
qed

lemma identifier_constant_ext:
  assumes "script s" and "length (pool s) \<le> 65535"
  obtains c s' where "identifier_constant x s = (c, s')" "ext 2 s s' []" "same_toks s s'"
    "name_is (cs_heap s') (pool s') (lo_byte (uint c)) (hi_byte (uint c)) x"
proof -
  obtain p s1 where s1: "obj_string_copy x s = (p, s1)" by force
  note c = obj_string_copy_ext [OF assms(1) s1]
  have "script s1" by (rule ext_script [OF c(1) assms(1)])
  from make_constant_ext [OF this, of "OBJ_VAL p"] assms(2) c(4) obtain s2 where
    s2: "make_constant (OBJ_VAL p) s1 = (of_nat (length (pool s1)), s2)" "ext 1 s1 s2 []" "same_toks s1 s2"
      "pool s2 = pool s1 @ [OBJ_VAL p]" by auto
  have "heap_le (\<lambda>i. i \<noteq> fn_of s1) (cs_heap s1) (cs_heap s2)" using s2(2) by (simp add: ext_def)
  then have "find_string (cs_heap s2) x 0 = Some p" by (rule find_string_heap_le [OF c(3)])
  then have "name_is (cs_heap s2) (pool s2) (lo_byte (uint (of_nat (length (pool s1)) :: u16)))
      (hi_byte (uint (of_nat (length (pool s1)) :: u16))) x"
    unfolding name_is_def s2(4) using const_is_last [of "pool s1"] assms(2) by (simp add: c(4))
  moreover have "ext 2 s s2 []" using ext_trans [OF c(1) s2(2)] by (simp add: numeral_2_eq_2)
  ultimately show ?thesis
    using that [of "of_nat (length (pool s1))" s2] s1 s2(1,3) c(2) by (simp add: identifier_constant_def same_toks_def)
qed

subsection \<open>Patching\<close>

lemma list_update_append_2: "(xs @ a # b # ys)[length xs := x, length xs + 1 := y] = xs @ x # y # ys"
  by (simp add: list_update_append)

lemma patch_jump_ext:
  assumes "script s0" and "ext k s0 s (c1 @ op # x # y # c2)" and "length c2 \<le> 65535"
    and "off = code_count s0 + length c1 + 1"
  obtains lo hi where "short_is lo hi (length c2)" "ext k s0 (patch_jump off s) (c1 @ op # lo # hi # c2)"
    "same_toks s (patch_jump off s)" "pool (patch_jump off s) = pool s"
    "heap_le (\<lambda>i. i \<noteq> fn_of s) (cs_heap s) (cs_heap (patch_jump off s))"
proof -
  let ?pre = "ck_code (current_chunk s0) @ c1 @ [op]"
  have code: "ck_code (current_chunk s) = ?pre @ x # y # c2" using assms(2) by (simp add: ext_def)
  have off: "off = length ?pre" by (simp add: assms(4))
  let ?j = "int (length c2)"
  let ?g = "\<lambda>ch. ch\<lparr>ck_code := (ck_code ch)[off := lo_byte ?j, off + 1 := hi_byte ?j]\<rparr>"
  have p: "patch_jump off s = update_chunk ?g s"
    using assms(3) unfolding patch_jump_def by (simp add: code off Let_def)
  have sc: "script s" by (rule ext_script [OF assms(2,1)])
  note u = update_chunk_heap [OF sc, of ?g]
  have new: "ck_code (current_chunk (update_chunk ?g s)) = ck_code (current_chunk s0) @ c1 @ op # lo_byte ?j # hi_byte ?j # c2"
    unfolding u(2) using list_update_append_2 [of ?pre x y c2 "lo_byte ?j" "hi_byte ?j"] by (simp add: code off)
  have f: "fn_of s = fn_of s0" by (rule ext_fn [OF assms(2)])
  have "heap_le (\<lambda>i. i \<noteq> fn_of s0) (cs_heap s0) (cs_heap (update_chunk ?g s))"
    using assms(2) u(3) f unfolding ext_def by (elim conjE) (rule heap_le_trans, assumption, simp, simp)
  moreover have "\<exists>ch. cs_heap (update_chunk ?g s) ! fn_of s0 = OBJ_FUNCTION ((the_function (cs_heap s0) (fn_of s0))\<lparr>fn_chunk := ch\<rparr>)"
    using assms(2) u(1) script_fn [OF sc] f by (auto simp: ext_def the_function_def)
  moreover have pool: "pool (update_chunk ?g s) = pool s" unfolding u(2) by simp
  ultimately have "ext k s0 (update_chunk ?g s) (c1 @ op # lo_byte ?j # hi_byte ?j # c2)"
    using assms(2) new by (auto simp: ext_def)
  then show ?thesis
    using that [of "lo_byte ?j" "hi_byte ?j"] short_bytes [OF assms(3)] pool u(3) by (simp add: p same_toks_def)
qed

end
