(* ===== verification/Compile_Correct.thy ===== *)
theory Compile_Correct
  imports Core_Code
begin

section \<open>The compiler implements the core language\<close>

text \<open>
  From a state whose lexer feeds the tokens of an expression the parser of the compiler appends code of
  this expression: the Pratt parser with the table \<open>init_rules\<close> reads the grammar of \<open>expr_toks\<close>.  The
  same is then shown for statements and for whole programs.
\<close>

declare show_nat.simps [simp del]

subsection \<open>The rule table\<close>

abbreviation prec_of :: "token_type \<Rightarrow> nat" where
  "prec_of t \<equiv> pr_precedence (get_rule t)"

lemma binop_rule:
  "prec_of (snd (binop_tok op)) = binop_level op" "pr_infix (get_rule (snd (binop_tok op))) = Some Fn_binary"
  "map_of binary_op (snd (binop_tok op)) = Some (binop_code op)"
  by (cases op; simp add: get_rule_def init_rules_def binary_op_def)+

lemma unop_rule: "pr_prefix (get_rule (snd (unop_tok op))) = Some Fn_unary"
  by (cases op; simp add: get_rule_def init_rules_def)

lemma other_rules:
  "get_rule (Single TOKEN_LPAREN) = \<lparr>pr_prefix = Some Fn_grouping, pr_infix = Some Fn_call, pr_precedence = 15\<rparr>"
  "get_rule (Keyword TOKEN_NIL) = prefix_rule Fn_literal" "get_rule (Keyword TOKEN_TRUE) = prefix_rule Fn_literal"
  "get_rule (Keyword TOKEN_FALSE) = prefix_rule Fn_literal" "get_rule (Literal TOKEN_INT) = prefix_rule Fn_number"
  "get_rule (Literal TOKEN_IDENTIFIER) = prefix_rule Fn_variable"
  "get_rule (Multi TOKEN_AMP_AMP) = infix_rule Fn_and 3" "get_rule (Multi TOKEN_PIPE_PIPE) = infix_rule Fn_or 2"
  "prec_of (Single TOKEN_RPAREN) = 0" "prec_of (Special x) = 0" "prec_of (Single TOKEN_EQUAL) = 0"
  by (simp_all add: get_rule_def init_rules_def)

lemma binop_level_range: "4 \<le> binop_level op \<and> binop_level op \<le> 12"
  by (cases op) simp_all

lemma prec_of_not_unary: "prec_of t \<noteq> 14"
proof -
  have "list_all (\<lambda>(t, r). pr_precedence r \<noteq> 14) init_rules" by (simp add: init_rules_def)
  then show ?thesis by (auto simp: get_rule_def list_all_iff dest: map_of_SomeD split: option.split)
qed

lemma tok_kinds:
  "\<exists>x. snd (unop_tok op) = Single x \<and> x \<noteq> TOKEN_EQUAL"
  "(\<exists>x. snd (binop_tok bop) = Single x \<and> x \<noteq> TOKEN_EQUAL) \<or> (\<exists>x. snd (binop_tok bop) = Multi x)"
  by (cases op; simp) (cases bop; simp)

subsection \<open>Enough fuel\<close>

definition loops_to :: "(string \<Rightarrow> val64) \<Rightarrow> precedence \<Rightarrow> cstate \<Rightarrow> cstate \<Rightarrow> bool" where
  "loops_to strtod p s s' \<longleftrightarrow> (\<exists>k. \<forall>m \<ge> k. \<forall>n \<ge> k.
     infix_loop m strtod n (run_compiler strtod n) p (p \<le> PREC_ASSIGNMENT) s = Some s')"

definition applies_to :: "(string \<Rightarrow> val64) \<Rightarrow> precedence \<Rightarrow> parse_fn \<Rightarrow> cstate \<Rightarrow> cstate \<Rightarrow> bool" where
  "applies_to strtod p f s s' \<longleftrightarrow> (\<exists>k. \<forall>n \<ge> k.
     apply_parse_fn strtod n (run_compiler strtod n) f (p \<le> PREC_ASSIGNMENT) s = Some s')"

text \<open>A prefix and what follows it.\<close>

definition reads_to :: "(string \<Rightarrow> val64) \<Rightarrow> precedence \<Rightarrow> cstate \<Rightarrow> cstate \<Rightarrow> bool" where
  "reads_to strtod p s s' \<longleftrightarrow> (\<exists>s1 f s2. cur_type s \<noteq> Special TOKEN_NEWLINE \<and> advance s = Some s1 \<and>
     pr_prefix (get_rule (prev_type s1)) = Some f \<and> applies_to strtod p f s1 s2 \<and> loops_to strtod p s2 s')"

definition parses_to :: "(string \<Rightarrow> val64) \<Rightarrow> precedence \<Rightarrow> cstate \<Rightarrow> cstate \<Rightarrow> bool" where
  "parses_to strtod p s s' \<longleftrightarrow> (\<exists>k. \<forall>n \<ge> k. run_compiler strtod n (Parse_Precedence p) s = Some s')"

lemma match_no: "cur_type s \<noteq> t \<Longrightarrow> match t s = Some (False, s)"
  by (simp add: match_def check_def)

lemma skip_newlines_no: "cur_type s \<noteq> Special TOKEN_NEWLINE \<Longrightarrow> skip_newlines s = Some s"
  by (simp add: skip_newlines.simps match_no)

lemma loops_stop:
  assumes "prec_of (cur_type s) < p" shows "loops_to strtod p s s"
proof -
  have "infix_loop m strtod n rec p ca s = Some s" if "1 \<le> m" for m n rec ca
    using that assms by (cases m) simp_all
  then show ?thesis unfolding loops_to_def by blast
qed

lemma loops_step:
  assumes "p \<le> prec_of (cur_type s)" and "advance s = Some s1" and "pr_infix (get_rule (prev_type s1)) = Some f"
    and "applies_to strtod p f s1 s2" and "loops_to strtod p s2 s3"
  shows "loops_to strtod p s s3"
proof -
  obtain k where k: "\<forall>n \<ge> k. apply_parse_fn strtod n (run_compiler strtod n) f (p \<le> PREC_ASSIGNMENT) s1 = Some s2"
    using assms(4) by (auto simp: applies_to_def)
  obtain l where l: "\<forall>m \<ge> l. \<forall>n \<ge> l. infix_loop m strtod n (run_compiler strtod n) p (p \<le> PREC_ASSIGNMENT) s2 = Some s3"
    using assms(5) by (auto simp: loops_to_def)
  have "infix_loop m strtod n (run_compiler strtod n) p (p \<le> PREC_ASSIGNMENT) s = Some s3"
    if mk: "m \<ge> Suc (max k l)" and nk: "n \<ge> Suc (max k l)" for m n
  proof -
    obtain m' where m: "m = Suc m'" "l \<le> m'" using mk by (cases m) auto
    have n: "k \<le> n" "l \<le> n" using nk by simp_all
    show ?thesis
      unfolding m(1) infix_loop.simps using assms(1-3) spec [OF k, of n] l m(2) n by simp
  qed
  then show ?thesis unfolding loops_to_def by blast
qed

lemma parses_reads:
  assumes "reads_to strtod p s s'" and "cur_type s' \<noteq> Single TOKEN_EQUAL"
  shows "parses_to strtod p s s'"
proof -
  obtain s1 f s2 k l where r: "cur_type s \<noteq> Special TOKEN_NEWLINE" "advance s = Some s1" "pr_prefix (get_rule (prev_type s1)) = Some f"
    and k: "\<forall>n \<ge> k. apply_parse_fn strtod n (run_compiler strtod n) f (p \<le> PREC_ASSIGNMENT) s1 = Some s2"
    and l: "\<forall>m \<ge> l. \<forall>n \<ge> l. infix_loop m strtod n (run_compiler strtod n) p (p \<le> PREC_ASSIGNMENT) s2 = Some s'"
    using assms(1) unfolding reads_to_def applies_to_def loops_to_def by blast
  have "run_compiler strtod n (Parse_Precedence p) s = Some s'" if n: "n \<ge> Suc (max k l)" for n
  proof -
    obtain n' where n': "n = Suc n'" "k \<le> n'" "l \<le> n'" using n by (cases n) auto
    show ?thesis
      unfolding n'(1) run_compiler.simps call.case parse_precedence_def Let_def skip_newlines_no [OF r(1)]
      using r(2,3) spec [OF k, of n'] l n'(2,3) match_no [OF assms(2)] by simp
  qed
  then show ?thesis unfolding parses_to_def by blast
qed

subsection \<open>Expressions\<close>

definition produces :: "cstate \<Rightarrow> cstate \<Rightarrow> expr \<Rightarrow> tok list \<Rightarrow> bool" where
  "produces s s' e ts \<longleftrightarrow> (\<exists>code. ext (expr_size e) s s' code \<and> expr_code (cs_heap s') (pool s') e code \<and> at_toks s' ts)"

text \<open>The token after an expression of level \<open>q\<close> does not continue it.\<close>

definition ends_at :: "nat \<Rightarrow> tok \<Rightarrow> bool" where
  "ends_at q t \<longleftrightarrow> snd t \<noteq> Single TOKEN_EQUAL \<and> prec_of (snd t) \<le> q \<and> (q \<le> 3 \<longrightarrow> prec_of (snd t) < q)"

lemma expr_size_pos: "0 < expr_size e"
  by (cases e) simp_all

lemma unop_tok_not_special [simp]: "snd (unop_tok op) \<noteq> Special x"
  by (cases op) simp_all

lemma expr_body_hd: "\<exists>t ts. expr_body e = t # ts \<and> (\<forall>x. snd t \<noteq> Special x)"
  by (induction e) (auto simp: parens_def)

lemma expr_toks_hd: "\<exists>t ts. expr_toks q e = t # ts \<and> (\<forall>x. snd t \<noteq> Special x)"
  using expr_body_hd [of e] by (auto simp: parens_def)

lemma at_expr_not_newline:
  "at_toks s (expr_body e @ ts) \<Longrightarrow> cur_type s \<noteq> Special x" "at_toks s (expr_toks q e @ ts) \<Longrightarrow> cur_type s \<noteq> Special x"
  using expr_body_hd [of e] expr_toks_hd [of q e] by (auto simp del: expr_toks.simps)

text \<open>What is shown of an expression, for its body and in a place that expects the level \<open>q\<close>.\<close>

definition body_parses :: "(string \<Rightarrow> val64) \<Rightarrow> expr \<Rightarrow> bool" where
  "body_parses strtod e \<longleftrightarrow> (\<forall>p s t ts. names_ok e \<longrightarrow> 1 \<le> p \<longrightarrow> p \<le> level e \<longrightarrow> script s \<longrightarrow> room (expr_size e) s \<longrightarrow>
     at_toks s (expr_body e @ t # ts) \<longrightarrow> ends_at (min (level e) 14) t \<longrightarrow>
     (\<exists>s1. produces s s1 e (t # ts) \<and> (\<forall>s2. loops_to strtod p s1 s2 \<longrightarrow> reads_to strtod p s s2)))"

definition toks_parse :: "(string \<Rightarrow> val64) \<Rightarrow> expr \<Rightarrow> bool" where
  "toks_parse strtod e \<longleftrightarrow> (\<forall>p q s t ts. names_ok e \<longrightarrow> 1 \<le> p \<longrightarrow> p \<le> q \<longrightarrow> q \<le> 14 \<longrightarrow> script s \<longrightarrow> room (expr_size e) s \<longrightarrow>
     at_toks s (expr_toks q e @ t # ts) \<longrightarrow> ends_at q t \<longrightarrow>
     (\<exists>s1. produces s s1 e (t # ts) \<and> (\<forall>s2. loops_to strtod p s1 s2 \<longrightarrow> reads_to strtod p s s2)))"

lemma toks_parseD:
  assumes "toks_parse strtod e" and "names_ok e" and "1 \<le> p" and "p \<le> q" and "q \<le> 14" and "script s" and "room (expr_size e) s"
    and "at_toks s (expr_toks q e @ t # ts)" and "ends_at q t"
  obtains s1 where "produces s s1 e (t # ts)" "\<And>s2. loops_to strtod p s1 s2 \<Longrightarrow> reads_to strtod p s s2"
  using assms unfolding toks_parse_def by metis

lemma ends_stop: "ends_at q t \<Longrightarrow> cur_type s = snd t \<Longrightarrow> q < p \<or> q \<le> 3 \<and> q \<le> p \<Longrightarrow> loops_to strtod p s s"
  by (rule loops_stop) (auto simp: ends_at_def)

text \<open>A whole operand.\<close>

lemma operand_parses:
  assumes "toks_parse strtod e" and "names_ok e" and "1 \<le> p" and "p \<le> 14" and "script s" and "room (expr_size e) s"
    and "at_toks s (expr_toks p e @ t # ts)" and "ends_at p t" and "prec_of (snd t) < p"
  obtains s1 where "produces s s1 e (t # ts)" "parses_to strtod p s s1"
proof -
  from toks_parseD [OF assms(1,2,3) order_refl assms(4,5,6,7,8)] obtain s1 where
    s1: "produces s s1 e (t # ts)" "\<And>s2. loops_to strtod p s1 s2 \<Longrightarrow> reads_to strtod p s s2" by blast
  have c: "cur_type s1 = snd t" using s1(1) by (auto simp: produces_def)
  have "loops_to strtod p s1 s1" by (rule loops_stop) (simp add: c assms(9))
  from parses_reads [OF s1(2) [OF this]] show ?thesis using that s1(1) assms(8) by (simp add: c ends_at_def)
qed

lemma body_parsesI:
  assumes "\<And>p s s0 tk t' ts' t ts. names_ok e \<Longrightarrow> 1 \<le> p \<Longrightarrow> p \<le> level e \<Longrightarrow> script s \<Longrightarrow> room (expr_size e) s \<Longrightarrow>
     ends_at (min (level e) 14) t \<Longrightarrow> expr_body e = t' # ts' \<Longrightarrow> prev_type s = snd t' \<Longrightarrow> tok_text (cs_previous s) = fst t' \<Longrightarrow>
     at_toks s (ts' @ t # ts) \<Longrightarrow>
     \<exists>f s1. pr_prefix (get_rule (snd t')) = Some f \<and> applies_to strtod p f s s1 \<and> produces s s1 e (t # ts)"
  shows "body_parses strtod e"
  unfolding body_parses_def
proof (intro allI impI)
  fix p :: nat and s :: cstate and t ts
  assume a: "names_ok e" "1 \<le> p" "p \<le> level e" "script s" "room (expr_size e) s" "at_toks s (expr_body e @ t # ts)"
    "ends_at (min (level e) 14) t"
  obtain t' ts' where b: "expr_body e = t' # ts'" using expr_body_hd by blast
  have f: "feeds (cs_lexer s) (ts' @ t # ts)" using a(6) by (simp add: b)
  from advance_at [OF f] obtain tk lx where
    adv: "advance s = Some (s\<lparr>cs_previous := cs_current s, cs_lexer := lx, cs_current := tk\<rparr>)"
      "at_toks (s\<lparr>cs_previous := cs_current s, cs_lexer := lx, cs_current := tk\<rparr>) (ts' @ t # ts)" .
  let ?s = "s\<lparr>cs_previous := cs_current s, cs_lexer := lx, cs_current := tk\<rparr>"
  have "prev_type ?s = snd t'" "tok_text (cs_previous ?s) = fst t'" using a(6) by (simp_all add: b)
  from assms [OF a(1-3) _ _ a(7) b this adv(2)] a(4,5) obtain f s1 where
    s1: "pr_prefix (get_rule (snd t')) = Some f" "applies_to strtod p f ?s s1" "produces ?s s1 e (t # ts)" by auto
  have "produces s s1 e (t # ts)" using s1(3) by (simp add: produces_def)
  moreover have "pr_prefix (get_rule (prev_type ?s)) = Some f" using s1(1) a(6) by (simp add: b)
  then have "reads_to strtod p s s2" if "loops_to strtod p s1 s2" for s2
    unfolding reads_to_def using that adv(1) s1(2) at_expr_not_newline(1) [OF a(6)] by blast
  ultimately show "\<exists>s1. produces s s1 e (t # ts) \<and> (\<forall>s2. loops_to strtod p s1 s2 \<longrightarrow> reads_to strtod p s s2)" by blast
qed

text \<open>Parentheses where the level asks for them.\<close>

lemma toks_from_body:
  assumes "body_parses strtod e" shows "toks_parse strtod e"
  unfolding toks_parse_def
proof (intro allI impI)
  fix p q :: nat and s :: cstate and t ts
  assume a: "names_ok e" "1 \<le> p" "p \<le> q" "q \<le> 14" "script s" "room (expr_size e) s" "at_toks s (expr_toks q e @ t # ts)" "ends_at q t"
  note body = assms [unfolded body_parses_def, rule_format, OF a(1)]
  show "\<exists>s1. produces s s1 e (t # ts) \<and> (\<forall>s2. loops_to strtod p s1 s2 \<longrightarrow> reads_to strtod p s s2)"
  proof (cases "level e < q")
    case False
    then have "ends_at (min (level e) 14) t" using a(4,8) by (auto simp: ends_at_def)
    then show ?thesis using body [of p s t ts] a False by (simp add: parens_def)
  next
    case True
    let ?rp = "('')'', Single TOKEN_RPAREN)"
    have at: "at_toks s ((''('', Single TOKEN_LPAREN) # expr_body e @ ?rp # t # ts)" using a(7) True by (simp add: parens_def)
    then have f: "feeds (cs_lexer s) (expr_body e @ ?rp # t # ts)" by simp
    from advance_at [OF f] obtain tk lx where
      adv: "advance s = Some (s\<lparr>cs_previous := cs_current s, cs_lexer := lx, cs_current := tk\<rparr>)"
        "at_toks (s\<lparr>cs_previous := cs_current s, cs_lexer := lx, cs_current := tk\<rparr>) (expr_body e @ ?rp # t # ts)" .
    let ?s = "s\<lparr>cs_previous := cs_current s, cs_lexer := lx, cs_current := tk\<rparr>"
    have l: "1 \<le> level e" by (cases e) (use binop_level_range in \<open>auto intro: order_trans [of _ 4]\<close>)
    have "ends_at (min (level e) 14) ?rp" using l by (cases e) (simp_all add: ends_at_def other_rules)
    then obtain s1 where s1: "produces ?s s1 e (?rp # t # ts)" "\<And>s2. loops_to strtod 1 s1 s2 \<Longrightarrow> reads_to strtod 1 ?s s2"
      using body [of 1 ?s ?rp "t # ts"] l adv(2) a(5,6) by auto
    have c: "cur_type s1 = Single TOKEN_RPAREN" using s1(1) by (auto simp: produces_def)
    have "loops_to strtod 1 s1 s1" by (rule loops_stop) (simp add: c other_rules)
    then have "parses_to strtod 1 ?s s1" using parses_reads [OF s1(2)] c by simp
    then obtain k where k: "\<forall>n \<ge> k. run_compiler strtod n (Parse_Precedence 1) ?s = Some s1" by (auto simp: parses_to_def)
    have f1: "feeds (cs_lexer s1) (t # ts)" using s1(1) by (auto simp: produces_def)
    from advance_at [OF f1] obtain tk' lx' where
      adv1: "advance s1 = Some (s1\<lparr>cs_previous := cs_current s1, cs_lexer := lx', cs_current := tk'\<rparr>)"
        "at_toks (s1\<lparr>cs_previous := cs_current s1, cs_lexer := lx', cs_current := tk'\<rparr>) (t # ts)" .
    let ?s1 = "s1\<lparr>cs_previous := cs_current s1, cs_lexer := lx', cs_current := tk'\<rparr>"
    have "grouping (run_compiler strtod n) ?s = Some ?s1" if "n \<ge> k" for n
      unfolding grouping_def expression_def skip_newlines_no [OF at_expr_not_newline(1) [OF adv(2)]]
      using spec [OF k, of n] that adv1(1) c by (simp add: skip_newlines_no consume_def)
    then have "applies_to strtod p Fn_grouping ?s ?s1" by (auto simp: applies_to_def apply_parse_fn_def)
    moreover have "cur_type s \<noteq> Special TOKEN_NEWLINE" "pr_prefix (get_rule (prev_type ?s)) = Some Fn_grouping"
      using at by (simp_all add: other_rules)
    ultimately have "reads_to strtod p s s2" if "loops_to strtod p ?s1 s2" for s2
      unfolding reads_to_def using that adv(1) by blast
    moreover have "produces s ?s1 e (t # ts)"
      using s1(1) adv1(2) by (auto simp: produces_def simp del: at_toks.simps)
    ultimately show ?thesis by blast
  qed
qed

lemma producesI:
  assumes "ext k s s' code" and "k \<le> expr_size e" and "expr_code (cs_heap s') (pool s') e code" and "at_toks s' ts"
  shows "produces s s' e ts"
  using assms ext_weaken unfolding produces_def by blast

lemma room_pool: "room n s \<Longrightarrow> length (pool s) \<le> 65535"
  by (simp add: room_def)

lemma constant_bodies:
  "body_parses strtod Nil_Lit" "body_parses strtod (Bool_Lit b)"
proof -
  have lit: "\<exists>f s1. pr_prefix (get_rule (snd t')) = Some f \<and> applies_to strtod p f s s1 \<and> produces s s1 e (t # ts)"
    if "script s" "prev_type s = snd t'" "at_toks s (t # ts)" "expr_code [] [] e [c]"
      "snd t' = Keyword k" "(k, c) \<in> {(TOKEN_NIL, OP_NIL), (TOKEN_TRUE, OP_TRUE), (TOKEN_FALSE, OP_FALSE)}"
    for p s t' t ts e c k
  proof -
    have "literal s = emit_byte c s" using that(2,5,6) by (auto simp: literal_def)
    moreover have "expr_code (cs_heap (emit_byte c s)) (pool (emit_byte c s)) e [c]"
      using expr_code_mono [OF that(4), of "\<lambda>_. True" "cs_heap (emit_byte c s)" "pool (emit_byte c s)"] by (simp add: heap_le_def)
    then have "produces s (emit_byte c s) e (t # ts)"
      using producesI [OF ext_emit_byte [OF that(1)], of e c "t # ts"] that(3) by simp
    ultimately show ?thesis
      using that(5,6) by (intro exI [of _ Fn_literal] exI [of _ "emit_byte c s"])
        (auto simp: other_rules applies_to_def apply_parse_fn_def)
  qed
  show "body_parses strtod Nil_Lit" by (rule body_parsesI, rule lit [of _ _ _ _ _ OP_NIL TOKEN_NIL]) auto
  show "body_parses strtod (Bool_Lit b)"
    by (rule body_parsesI, rule lit [of _ _ _ _ _ "if b then OP_TRUE else OP_FALSE" "if b then TOKEN_TRUE else TOKEN_FALSE"]) auto
qed

lemma int_literal_show: "int_literal (show_nat n) = of_nat n"
proof -
  have d: "is_digit_char c \<Longrightarrow> c \<noteq> CHR ''_'' \<and> c \<noteq> CHR ''-''" for c by (auto simp: is_digit_char_def)
  have f: "foldl (\<lambda>v c. if c = CHR ''_'' then v else v * 10 + (of_char c - 48)) (word_of_int i :: 64 word) cs =
      word_of_int (foldl (\<lambda>n c. n * 10 + (of_char c - 48)) i cs)" if "\<forall>c \<in> set cs. is_digit_char c" for i cs
    using that
  proof (induction cs arbitrary: i)
    case (Cons c cs)
    have "of_char c = (word_of_int (of_char c) :: 64 word)" by (metis of_int_of_nat_eq of_nat_of_char)
    then have "word_of_int i * 10 + (of_char c - 48) = (word_of_int (i * 10 + (of_char c - 48)) :: 64 word)" by simp
    then show ?case using Cons.IH [of "i * 10 + (of_char c - 48)"] Cons.prems d [of c] by simp
  qed simp
  obtain c cs where "show_nat n = c # cs" "is_digit_char c" using show_nat_head by blast
  then show ?thesis
    using f [of "show_nat n" 0] show_nat_digits [of n] show_nat_value [of n] d [of c] by (simp add: int_literal_def)
qed

lemma int_body: "body_parses strtod (Int_Lit n)"
proof (rule body_parsesI)
  fix p :: nat and s t' ts' t ts
  assume a: "script s" "room (expr_size (Int_Lit n)) s" "expr_body (Int_Lit n) = t' # ts'" "prev_type s = snd t'"
    "tok_text (cs_previous s) = fst t'" "at_toks s (ts' @ t # ts)"
  have x: "tok_text (cs_previous s) = show_nat n" "snd t' = Literal TOKEN_INT" "ts' = []" using a(3,5) by auto
  have "is_digit_char c \<Longrightarrow> c \<noteq> CHR ''.'' \<and> c \<noteq> CHR ''e'' \<and> c \<noteq> CHR ''E''" for c by (auto simp: is_digit_char_def)
  then have nf: "\<not> (\<exists>c \<in> set (show_nat n). c = CHR ''.'' \<or> c = CHR ''e'' \<or> c = CHR ''E'')" using show_nat_digits by blast
  from emit_constant_ext [OF a(1) room_pool [OF a(2)], of "int_val (of_nat n)"] obtain lo hi where
    e: "ext 1 s (emit_constant (int_val (of_nat n)) s) [OP_CONSTANT, lo, hi]" "same_toks s (emit_constant (int_val (of_nat n)) s)"
      "const_is (pool (emit_constant (int_val (of_nat n)) s)) lo hi (int_val (of_nat n))" .
  have "number strtod s = emit_constant (int_val (of_nat n)) s"
    unfolding number_def Let_def x(1) using nf by (simp add: int_literal_show)
  moreover have "produces s (emit_constant (int_val (of_nat n)) s) (Int_Lit n) (t # ts)"
    by (rule producesI [OF e(1)]) (use e(3) a(6) same_toks_at [OF e(2)] x(3) in \<open>simp_all del: at_toks.simps\<close>)
  ultimately show "\<exists>f s1. pr_prefix (get_rule (snd t')) = Some f \<and> applies_to strtod p f s s1 \<and> produces s s1 (Int_Lit n) (t # ts)"
    by (intro exI [of _ Fn_number] exI [of _ "emit_constant (int_val (of_nat n)) s"])
      (simp add: x(2) other_rules applies_to_def apply_parse_fn_def)
qed

lemma resolve_global:
  assumes "script s" and "x \<noteq> []" and "length (pool s) \<le> 65535"
  obtains c :: u16 and s' where "resolve_variable x s = (OP_GET_GLOBAL, OP_SET_GLOBAL, unat c, s')" "ext 2 s s' []" "same_toks s s'"
    "name_is (cs_heap s') (pool s') (lo_byte (uint c)) (hi_byte (uint c)) x"
proof -
  from identifier_constant_ext [OF assms(1,3), of x] obtain c s' where
    i: "identifier_constant x s = (c, s')" "ext 2 s s' []" "same_toks s s'"
      "name_is (cs_heap s') (pool s') (lo_byte (uint c)) (hi_byte (uint c)) x" .
  obtain fn where "cs_compilers s = [\<lparr>cp_function = fn, cp_type = TYPE_SCRIPT,
      cp_locals = [\<lparr>lc_name = [], lc_depth = 0, lc_is_captured = False\<rparr>], cp_upvalues = [], cp_scope_depth = 0\<rparr>]"
    using assms(1) by (auto simp: script_def)
  then have "resolve_variable x s = (OP_GET_GLOBAL, OP_SET_GLOBAL, unat c, s')"
    using assms(2) i(1) by (simp add: resolve_variable_def resolve_local_def)
  then show ?thesis using that i(2-4) by blast
qed

lemma emit_name_ext:
  assumes "ext k s s' code" and "script s"
  shows "ext k s (emit_short (of_nat (unat (c :: u16))) (emit_byte b s')) (code @ [b, lo_byte (uint c), hi_byte (uint c)])"
  using ext_emit_short [OF ext_emit [OF assms] assms(2), of c b] by simp

lemma var_body: "body_parses strtod (Var x)"
proof (rule body_parsesI)
  fix p :: nat and s t' ts' t ts
  assume a: "names_ok (Var x)" "script s" "room (expr_size (Var x)) s" "ends_at (min (level (Var x)) 14) t"
    "expr_body (Var x) = t' # ts'" "prev_type s = snd t'" "tok_text (cs_previous s) = fst t'" "at_toks s (ts' @ t # ts)"
  have x: "tok_text (cs_previous s) = x" "snd t' = Literal TOKEN_IDENTIFIER" "ts' = []" "x \<noteq> []"
    using a(1,5,7) by (auto simp: is_name_def)
  from resolve_global [OF a(2) x(4) room_pool [OF a(3)]] obtain c :: u16 and s' where
    r: "resolve_variable x s = (OP_GET_GLOBAL, OP_SET_GLOBAL, unat c, s')" "ext 2 s s' []" "same_toks s s'"
      "name_is (cs_heap s') (pool s') (lo_byte (uint c)) (hi_byte (uint c)) x" .
  let ?s = "emit_short (of_nat (unat c)) (emit_byte OP_GET_GLOBAL s')"
  have sc: "script s'" by (rule ext_script [OF r(2) a(2)])
  have e: "ext 2 s ?s [OP_GET_GLOBAL, lo_byte (uint c), hi_byte (uint c)]" using emit_name_ext [OF r(2) a(2), of c OP_GET_GLOBAL] by simp
  have "ext 0 s' ?s [OP_GET_GLOBAL, lo_byte (uint c), hi_byte (uint c)]" using emit_name_ext [OF ext_refl [OF sc] sc, of c OP_GET_GLOBAL] by simp
  then have n: "name_is (cs_heap ?s) (pool ?s) (lo_byte (uint c)) (hi_byte (uint c)) x" by (rule ext_name_mono [OF _ r(4)])
  have at: "at_toks s' (t # ts)" using a(8) unfolding same_toks_at [OF r(3)] x(3) by simp
  then have "cur_type s' \<noteq> Single TOKEN_EQUAL" using a(4) by (simp add: ends_at_def)
  then have "variable rec ca s = Some ?s" for rec ca
    unfolding variable_def x(1) named_variable_def r(1) by (simp add: match_no emit_arg_def)
  moreover have "produces s ?s (Var x) (t # ts)" by (rule producesI [OF e]) (use n at in auto)
  ultimately show "\<exists>f s1. pr_prefix (get_rule (snd t')) = Some f \<and> applies_to strtod p f s s1 \<and> produces s s1 (Var x) (t # ts)"
    by (intro exI [of _ Fn_variable] exI [of _ ?s]) (simp add: x(2) other_rules applies_to_def apply_parse_fn_def)
qed

subsection \<open>Operators\<close>

lemma ext_mono_trans:
  assumes "ext k s s' code" and "expr_code (cs_heap s) (pool s) e c" and "ext k' s' s'' code'"
  shows "expr_code (cs_heap s'') (pool s'') e c"
  by (rule ext_mono [OF assms(3)], rule ext_mono [OF assms(1,2)])

lemma producesE:
  assumes "produces s s' e ts"
  obtains code where "ext (expr_size e) s s' code" "expr_code (cs_heap s') (pool s') e code" "at_toks s' ts"
    "length code = expr_size e"
  using assms expr_code_length unfolding produces_def by blast

lemma unary_body:
  assumes "toks_parse strtod a" shows "body_parses strtod (Unary op a)"
proof (rule body_parsesI)
  fix p :: nat and s t' ts' t ts
  assume a: "names_ok (Unary op a)" "script s" "room (expr_size (Unary op a)) s" "ends_at (min (level (Unary op a)) 14) t"
    "expr_body (Unary op a) = t' # ts'" "prev_type s = snd t'" "at_toks s (ts' @ t # ts)"
  have x: "t' = unop_tok op" "ts' = expr_toks 14 a" "names_ok a" "ends_at 14 t" "room (expr_size a) s"
    using a(1,3,4,5) by (simp_all add: room_def)
  have "prec_of (snd t) < 14" using x(4) prec_of_not_unary [of "snd t"] by (simp add: ends_at_def)
  from operand_parses [OF assms x(3) _ _ a(2) x(5) a(7) [unfolded x(2)] x(4) this] obtain s1 where
    s1: "produces s s1 a (t # ts)" "parses_to strtod 14 s s1" by auto
  from producesE [OF s1(1)] obtain code where
    c: "ext (expr_size a) s s1 code" "expr_code (cs_heap s1) (pool s1) a code" "at_toks s1 (t # ts)" .
  note sc = ext_script [OF c(1) a(2)]
  let ?s = "emit_byte (unop_code op) s1"
  have "produces s ?s (Unary op a) (t # ts)"
    by (rule producesI [OF ext_emit [OF c(1) a(2)]]) (use ext_mono [OF ext_emit_byte [OF sc] c(2)] c(3) in auto)
  moreover obtain k where k: "\<forall>n \<ge> k. run_compiler strtod n (Parse_Precedence 14) s = Some s1"
    using s1(2) by (auto simp: parses_to_def)
  have "unary (run_compiler strtod n) s = Some ?s" if "n \<ge> k" for n
    using spec [OF k, of n] that a(6) x(1) by (cases op) (simp_all add: unary_def)
  then have "applies_to strtod p Fn_unary s ?s" by (auto simp: applies_to_def apply_parse_fn_def)
  ultimately show "\<exists>f s1. pr_prefix (get_rule (snd t')) = Some f \<and> applies_to strtod p f s s1 \<and> produces s s1 (Unary op a) (t # ts)"
    using unop_rule x(1) by blast
qed

text \<open>The operators between operands: the left operand, then the operator and the right one in the loop.\<close>

lemma infix_bodyI:
  assumes a: "toks_parse strtod a" and body: "expr_body e = expr_toks q a @ op # right"
    and e: "names_ok e \<Longrightarrow> names_ok a" "expr_size a \<le> expr_size e"
    and lv: "level e \<le> q" "q \<le> 14" "prec_of (snd op) = level e" "ends_at q op" "pr_infix (get_rule (snd op)) = Some f"
    and step: "\<And>p s0 s s1 t ts code. names_ok e \<Longrightarrow> script s \<Longrightarrow> room (expr_size e) s \<Longrightarrow> ends_at (min (level e) 14) t \<Longrightarrow>
      ext (expr_size a) s s1 code \<Longrightarrow> expr_code (cs_heap s1) (pool s1) a code \<Longrightarrow> length code = expr_size a \<Longrightarrow>
      prev_type s1 = snd op \<Longrightarrow> at_toks s1 (right @ t # ts) \<Longrightarrow>
      \<exists>s2. applies_to strtod p f s1 s2 \<and> produces s s2 e (t # ts)"
  shows "body_parses strtod e"
  unfolding body_parses_def
proof (intro allI impI)
  fix p :: nat and s :: cstate and t ts
  assume b: "names_ok e" "1 \<le> p" "p \<le> level e" "script s" "room (expr_size e) s" "at_toks s (expr_body e @ t # ts)"
    "ends_at (min (level e) 14) t"
  have r: "room (expr_size a) s" using b(5) e(2) by (simp add: room_def)
  have at: "at_toks s (expr_toks q a @ op # right @ t # ts)" using b(6) body by simp
  have pq: "p \<le> q" using b(3) lv(1) by simp
  from toks_parseD [OF a e(1) [OF b(1)] b(2) pq lv(2) b(4) r at lv(4)] obtain s1 where
    s1: "produces s s1 a (op # right @ t # ts)" "\<And>s2. loops_to strtod p s1 s2 \<Longrightarrow> reads_to strtod p s s2" by blast
  from producesE [OF s1(1)] obtain code where
    c: "ext (expr_size a) s s1 code" "expr_code (cs_heap s1) (pool s1) a code" "at_toks s1 (op # right @ t # ts)"
      "length code = expr_size a" .
  have f: "feeds (cs_lexer s1) (right @ t # ts)" using c(3) by simp
  from advance_at [OF f] obtain tk lx where
    adv: "advance s1 = Some (s1\<lparr>cs_previous := cs_current s1, cs_lexer := lx, cs_current := tk\<rparr>)"
      "at_toks (s1\<lparr>cs_previous := cs_current s1, cs_lexer := lx, cs_current := tk\<rparr>) (right @ t # ts)" .
  let ?s = "s1\<lparr>cs_previous := cs_current s1, cs_lexer := lx, cs_current := tk\<rparr>"
  have prev: "prev_type ?s = snd op" using c(3) by simp
  obtain s2 where s2: "applies_to strtod p f ?s s2" "produces s s2 e (t # ts)"
    using step [OF b(1,4,5,7) _ _ c(4) prev adv(2)] c(1,2) by auto
  have "loops_to strtod p s1 s3" if "loops_to strtod p s2 s3" for s3
    by (rule loops_step [OF _ adv(1) _ s2(1) that]) (use b(3) lv(3,5) c(3) prev in simp_all)
  then show "\<exists>s1. produces s s1 e (t # ts) \<and> (\<forall>s2. loops_to strtod p s1 s2 \<longrightarrow> reads_to strtod p s s2)"
    using s1(2) s2(2) by blast
qed

lemma binary_body:
  assumes "toks_parse strtod a" and "toks_parse strtod b" shows "body_parses strtod (Binary op a b)"
proof (rule infix_bodyI [OF assms(1) expr_body.simps(6)])
  note lv = binop_level_range [of op]
  show "level (Binary op a b) \<le> binop_level op" "prec_of (snd (binop_tok op)) = level (Binary op a b)"
    "pr_infix (get_rule (snd (binop_tok op))) = Some Fn_binary" by (simp_all add: binop_rule)
  show "binop_level op \<le> 14" using lv by simp
  show "ends_at (binop_level op) (binop_tok op)" using tok_kinds(2) [of op] lv by (auto simp: ends_at_def binop_rule)
  fix p :: nat and s s1 t ts code
  assume x: "names_ok (Binary op a b)" "script s" "room (expr_size (Binary op a b)) s"
    "ends_at (min (level (Binary op a b)) 14) t" "ext (expr_size a) s s1 code" "expr_code (cs_heap s1) (pool s1) a code"
    "length code = expr_size a" "prev_type s1 = snd (binop_tok op)" "at_toks s1 (expr_toks (binop_level op + 1) b @ t # ts)"
  have q: "ends_at (binop_level op + 1) t" "prec_of (snd t) < binop_level op + 1" "binop_level op + 1 \<le> 14"
    using x(4) lv by (auto simp: ends_at_def)
  have sc: "script s1" by (rule ext_script [OF x(5,2)])
  have r: "room (expr_size b) s1" by (rule ext_room [OF x(3,5)]) (simp_all add: x(7))
  have n: "names_ok b" using x(1) by simp
  from operand_parses [OF assms(2) n _ q(3) sc r x(9) q(1,2)] obtain s2 where
    s2: "produces s1 s2 b (t # ts)" "parses_to strtod (binop_level op + 1) s1 s2" by auto
  from producesE [OF s2(1)] obtain cb where
    c: "ext (expr_size b) s1 s2 cb" "expr_code (cs_heap s2) (pool s2) b cb" "at_toks s2 (t # ts)" .
  note sc2 = ext_script [OF c(1) sc]
  let ?s = "emit_byte (binop_code op) s2"
  note em = ext_emit_byte [OF sc2, of "binop_code op"]
  have "produces s ?s (Binary op a b) (t # ts)"
    by (rule producesI [OF ext_emit [OF ext_trans [OF x(5) c(1)] x(2)]])
      (use ext_mono [OF em c(2)] ext_mono [OF em ext_mono [OF c(1) x(6)]] c(3) in auto)
  moreover obtain k where k: "\<forall>n \<ge> k. run_compiler strtod n (Parse_Precedence (binop_level op + 1)) s1 = Some s2"
    using s2(2) by (auto simp: parses_to_def)
  have "binary (run_compiler strtod n) (prec_of (prev_type s1)) s1 = Some ?s" if "n \<ge> k" for n
    using spec [OF k, of n] that x(8) by (simp add: binary_def binop_rule)
  then have "applies_to strtod p Fn_binary s1 ?s" by (auto simp: applies_to_def apply_parse_fn_def)
  ultimately show "\<exists>s2. applies_to strtod p Fn_binary s1 s2 \<and> produces s s2 (Binary op a b) (t # ts)" by blast
qed simp_all

text \<open>The right operand of \<open>&&\<close> and \<open>||\<close>, after the code that skips it, and the patch of the jump over it.\<close>

lemma right_operand:
  assumes b: "toks_parse strtod b" "names_ok b" and q: "1 \<le> q" "q \<le> 3" "ends_at q t"
    and s: "script s" "ext k s s1 (pre @ [op, x, y, OP_POP])" "room n s" "k + expr_size b \<le> n"
      "length pre + 4 + expr_size b \<le> n"
    and at: "at_toks s1 (expr_toks q b @ t # ts)"
  obtains s2 s3 lo hi cb where "parses_to strtod q s1 s2" "patch_jump (code_count s + length pre + 1) s2 = s3"
    "ext (k + expr_size b) s s3 (pre @ [op, lo, hi, OP_POP] @ cb)" "short_is lo hi (length cb + 1)"
    "expr_code (cs_heap s3) (pool s3) b cb" "at_toks s3 (t # ts)"
    "\<And>e c. expr_code (cs_heap s1) (pool s1) e c \<Longrightarrow> expr_code (cs_heap s3) (pool s3) e c"
proof -
  have sc: "script s1" by (rule ext_script [OF s(2,1)])
  have r: "room (expr_size b) s1" by (rule ext_room [OF s(3,2,4)]) (use s(5) in simp)
  have p: "prec_of (snd t) < q" "q \<le> 14" using q by (simp_all add: ends_at_def)
  from operand_parses [OF b q(1) p(2) sc r at q(3) p(1)] obtain s2 where
    s2: "produces s1 s2 b (t # ts)" "parses_to strtod q s1 s2" by blast
  from producesE [OF s2(1)] obtain cb where
    c: "ext (expr_size b) s1 s2 cb" "expr_code (cs_heap s2) (pool s2) b cb" "at_toks s2 (t # ts)" "length cb = expr_size b" .
  have e: "ext (k + expr_size b) s s2 (pre @ op # x # y # OP_POP # cb)" using ext_trans [OF s(2) c(1)] by simp
  have l: "length (OP_POP # cb) \<le> 65535" using s(3,5) c(4) by (simp add: room_def)
  from patch_jump_ext [OF s(1) e l refl] obtain lo hi where
    pj: "short_is lo hi (length (OP_POP # cb))" "ext (k + expr_size b) s (patch_jump (code_count s + length pre + 1) s2)
        (pre @ op # lo # hi # OP_POP # cb)" "same_toks s2 (patch_jump (code_count s + length pre + 1) s2)"
      "pool (patch_jump (code_count s + length pre + 1) s2) = pool s2"
      "heap_le (\<lambda>i. i \<noteq> fn_of s2) (cs_heap s2) (cs_heap (patch_jump (code_count s + length pre + 1) s2))" .
  have m: "expr_code (cs_heap s2) (pool s2) e c \<Longrightarrow>
      expr_code (cs_heap (patch_jump (code_count s + length pre + 1) s2)) (pool (patch_jump (code_count s + length pre + 1) s2)) e c"
    for e c unfolding pj(4) using expr_code_mono [OF _ pj(5), of "pool s2" e c "[]"] by simp
  show ?thesis
    by (rule that [OF s2(2) refl _ _ m [OF c(2)]])
      (use pj c(3) same_toks_at [OF pj(3)] m ext_mono [OF c(1)] in \<open>simp_all del: at_toks.simps\<close>)
qed

lemma emit_jump_ext:
  assumes "script s0" and "ext k s0 s code"
  obtains s' where "emit_jump i s = (code_count s0 + length code + 1, s')" "ext k s0 s' (code @ [i, 0xFF, 0xFF])"
    "ext 0 s s' [i, 0xFF, 0xFF]" "same_toks s s'"
proof
  let ?s = "emit_byte 0xFF (emit_byte 0xFF (emit_byte i s))"
  have sc: "script s" by (rule ext_script [OF assms(2,1)])
  have e: "ext j s1 ?s (c @ [i, 0xFF, 0xFF])" if "ext j s1 s c" "script s1" for j s1 c
    using ext_emit [OF ext_emit [OF ext_emit [OF that, of i] that(2), of "0xFF"] that(2), of "0xFF"] by simp
  show "ext k s0 ?s (code @ [i, 0xFF, 0xFF])" "ext 0 s ?s [i, 0xFF, 0xFF]"
    using e [OF assms(2,1)] e [OF ext_refl [OF sc] sc] by simp_all
  then have "code_count ?s = code_count s0 + length code + 3" by (simp add: ext_def)
  then show "emit_jump i s = (code_count s0 + length code + 1, ?s)" by (simp add: emit_jump_def)
  show "same_toks s ?s" by (simp add: same_toks_def)
qed

lemma ext_extend: "ext k s0 s c \<Longrightarrow> script s0 \<Longrightarrow> ext 0 s s' c' \<Longrightarrow> ext k s0 s' (c @ c')"
  using ext_trans by fastforce

lemma and_body:
  assumes "toks_parse strtod a" and "toks_parse strtod b" shows "body_parses strtod (And_Then a b)"
proof (rule infix_bodyI [OF assms(1) expr_body.simps(7)])
  show "ends_at 4 (''&&'', Multi TOKEN_AMP_AMP)" by (simp add: ends_at_def other_rules)
  fix p :: nat and s s1 t ts code
  assume x: "names_ok (And_Then a b)" "script s" "room (expr_size (And_Then a b)) s"
    "ends_at (min (level (And_Then a b)) 14) t" "ext (expr_size a) s s1 code" "expr_code (cs_heap s1) (pool s1) a code"
    "length code = expr_size a" "prev_type s1 = snd (''&&'', Multi TOKEN_AMP_AMP)" "at_toks s1 (expr_toks 3 b @ t # ts)"
  from emit_jump_ext [OF x(2,5), of OP_JUMP_IF_FALSE] obtain sj where
    j: "emit_jump OP_JUMP_IF_FALSE s1 = (code_count s + length code + 1, sj)"
      "ext (expr_size a) s sj (code @ [OP_JUMP_IF_FALSE, 0xFF, 0xFF])" "ext 0 s1 sj [OP_JUMP_IF_FALSE, 0xFF, 0xFF]"
      "same_toks s1 sj" .
  let ?sp = "emit_byte OP_POP sj"
  have at: "at_toks ?sp (expr_toks 3 b @ t # ts)" using x(9) same_toks_at [OF j(4)] by (simp del: at_toks.simps)
  have e: "ext (expr_size a) s ?sp (code @ [OP_JUMP_IF_FALSE, 0xFF, 0xFF, OP_POP])"
    using ext_emit [OF j(2) x(2), of OP_POP] by simp
  note ca = ext_mono [OF ext_emit_byte [OF ext_script [OF j(2) x(2)]] ext_mono [OF j(3) x(6)], of OP_POP]
  have q: "names_ok b" "ends_at 3 t" "(1 :: nat) \<le> 3" "(3 :: nat) \<le> 3" using x(1,4) by simp_all
  have sz: "expr_size a + expr_size b \<le> expr_size (And_Then a b)" "length code + 4 + expr_size b \<le> expr_size (And_Then a b)"
    by (simp_all add: x(7))
  from right_operand [OF assms(2) q(1,3,4,2) x(2) e x(3) sz at] obtain s2 s3 lo hi cb where
    r: "parses_to strtod 3 ?sp s2" "patch_jump (code_count s + length code + 1) s2 = s3"
      "ext (expr_size a + expr_size b) s s3 (code @ [OP_JUMP_IF_FALSE, lo, hi, OP_POP] @ cb)" "short_is lo hi (length cb + 1)"
      "expr_code (cs_heap s3) (pool s3) b cb" "at_toks s3 (t # ts)"
      "\<And>e c. expr_code (cs_heap ?sp) (pool ?sp) e c \<Longrightarrow> expr_code (cs_heap s3) (pool s3) e c" by blast
  have "produces s s3 (And_Then a b) (t # ts)"
    by (rule producesI [OF r(3)]) (use r(4,5,6) r(7) [OF ca] in auto)
  moreover obtain k where k: "\<forall>n \<ge> k. run_compiler strtod n (Parse_Precedence 3) ?sp = Some s2"
    using r(1) by (auto simp: parses_to_def)
  have "and_expr (run_compiler strtod n) s1 = Some s3" if "n \<ge> k" for n
    unfolding and_expr_def j(1) using spec [OF k, of n] that skip_newlines_no [OF at_expr_not_newline(2) [OF at]] r(2) by simp
  then have "applies_to strtod p Fn_and s1 s3" by (auto simp: applies_to_def apply_parse_fn_def)
  ultimately show "\<exists>s2. applies_to strtod p Fn_and s1 s2 \<and> produces s s2 (And_Then a b) (t # ts)" by blast
qed (simp_all add: other_rules)

lemma or_body:
  assumes "toks_parse strtod a" and "toks_parse strtod b" shows "body_parses strtod (Or_Else a b)"
proof (rule infix_bodyI [OF assms(1) expr_body.simps(8)])
  show "ends_at 3 (''||'', Multi TOKEN_PIPE_PIPE)" by (simp add: ends_at_def other_rules)
  fix p :: nat and s s1 t ts code
  assume x: "names_ok (Or_Else a b)" "script s" "room (expr_size (Or_Else a b)) s"
    "ends_at (min (level (Or_Else a b)) 14) t" "ext (expr_size a) s s1 code" "expr_code (cs_heap s1) (pool s1) a code"
    "length code = expr_size a" "prev_type s1 = snd (''||'', Multi TOKEN_PIPE_PIPE)" "at_toks s1 (expr_toks 2 b @ t # ts)"
  from emit_jump_ext [OF x(2,5), of OP_JUMP_IF_FALSE] obtain sj where
    j: "emit_jump OP_JUMP_IF_FALSE s1 = (code_count s + length code + 1, sj)"
      "ext (expr_size a) s sj (code @ [OP_JUMP_IF_FALSE, 0xFF, 0xFF])" "ext 0 s1 sj [OP_JUMP_IF_FALSE, 0xFF, 0xFF]"
      "same_toks s1 sj" .
  from emit_jump_ext [OF x(2) j(2), of OP_JUMP] obtain sk where
    k: "emit_jump OP_JUMP sj = (code_count s + length (code @ [OP_JUMP_IF_FALSE, 0xFF, 0xFF]) + 1, sk)"
      "ext (expr_size a) s sk ((code @ [OP_JUMP_IF_FALSE, 0xFF, 0xFF]) @ [OP_JUMP, 0xFF, 0xFF])"
      "ext 0 sj sk [OP_JUMP, 0xFF, 0xFF]" "same_toks sj sk" .
  have k2: "ext (expr_size a) s sk (code @ OP_JUMP_IF_FALSE # 0xFF # 0xFF # [OP_JUMP, 0xFF, 0xFF])" using k(2) by simp
  have l: "length [OP_JUMP, 0xFF, 0xFF] \<le> 65535" by simp
  from patch_jump_ext [OF x(2) k2 l refl] obtain lo hi where
    pj: "short_is lo hi (length [OP_JUMP, 0xFF, 0xFF])"
      "ext (expr_size a) s (patch_jump (code_count s + length code + 1) sk) (code @ OP_JUMP_IF_FALSE # lo # hi # [OP_JUMP, 0xFF, 0xFF])"
      "same_toks sk (patch_jump (code_count s + length code + 1) sk)"
      "pool (patch_jump (code_count s + length code + 1) sk) = pool sk"
      "heap_le (\<lambda>i. i \<noteq> fn_of sk) (cs_heap sk) (cs_heap (patch_jump (code_count s + length code + 1) sk))" .
  let ?sq = "patch_jump (code_count s + length code + 1) sk"
  let ?sp = "emit_byte OP_POP ?sq"
  let ?pre = "code @ [OP_JUMP_IF_FALSE, lo, hi]"
  have at: "at_toks ?sp (expr_toks 2 b @ t # ts)"
    using x(9) same_toks_at [OF j(4)] same_toks_at [OF k(4)] same_toks_at [OF pj(3)] by (simp del: at_toks.simps)
  have e: "ext (expr_size a) s ?sp (?pre @ [OP_JUMP, 0xFF, 0xFF, OP_POP])" using ext_emit [OF pj(2) x(2), of OP_POP] by simp
  have "expr_code (cs_heap ?sq) (pool ?sq) a code"
    using expr_code_mono [OF ext_mono [OF k(3) ext_mono [OF j(3) x(6)]] pj(5), of "[]"] unfolding pj(4) by simp
  note ca = ext_mono [OF ext_emit_byte [OF ext_script [OF pj(2) x(2)]] this, of OP_POP]
  have q: "names_ok b" "ends_at 2 t" "(1 :: nat) \<le> 2" "(2 :: nat) \<le> 3" using x(1,4) by simp_all
  have sz: "expr_size a + expr_size b \<le> expr_size (Or_Else a b)" "length ?pre + 4 + expr_size b \<le> expr_size (Or_Else a b)"
    by (simp_all add: x(7))
  from right_operand [OF assms(2) q(1,3,4,2) x(2) e x(3) sz at] obtain s2 s3 lo' hi' cb where
    r: "parses_to strtod 2 ?sp s2" "patch_jump (code_count s + length ?pre + 1) s2 = s3"
      "ext (expr_size a + expr_size b) s s3 (?pre @ [OP_JUMP, lo', hi', OP_POP] @ cb)" "short_is lo' hi' (length cb + 1)"
      "expr_code (cs_heap s3) (pool s3) b cb" "at_toks s3 (t # ts)"
      "\<And>e c. expr_code (cs_heap ?sp) (pool ?sp) e c \<Longrightarrow> expr_code (cs_heap s3) (pool s3) e c" by blast
  have jf: "short_is lo hi 3" using pj(1) by (simp add: numeral_3_eq_3)
  have "expr_code (cs_heap s3) (pool s3) (Or_Else a b) (?pre @ [OP_JUMP, lo', hi', OP_POP] @ cb)"
    using r(4,5) r(7) [OF ca] jf
    by (simp only: expr_code.simps)
      (intro exI [of _ code] exI [of _ cb] exI [of _ lo] exI [of _ hi] exI [of _ lo'] exI [of _ hi'], simp)
  then have "produces s s3 (Or_Else a b) (t # ts)"
    by (intro producesI [OF r(3)]) (use r(6) in simp_all)
  moreover obtain m where m: "\<forall>n \<ge> m. run_compiler strtod n (Parse_Precedence 2) ?sp = Some s2"
    using r(1) by (auto simp: parses_to_def)
  have "or_expr (run_compiler strtod n) s1 = Some s3" if "n \<ge> m" for n
    unfolding or_expr_def j(1) Let_def case_prod_conv k(1)
    using spec [OF m, of n] that skip_newlines_no [OF at_expr_not_newline(2) [OF at]] r(2) by simp
  then have "applies_to strtod p Fn_or s1 s3" by (auto simp: applies_to_def apply_parse_fn_def)
  ultimately show "\<exists>s2. applies_to strtod p Fn_or s1 s2 \<and> produces s s2 (Or_Else a b) (t # ts)" by blast
qed (simp_all add: other_rules)

lemma expr_parses: "toks_parse strtod e"
  by (induction e) (blast intro: toks_from_body constant_bodies int_body var_body unary_body binary_body and_body or_body)+

end
