(* ===== verification/Compile_Program.thy ===== *)
theory Compile_Program
  imports Compile_Correct
begin

section \<open>Statements and programs\<close>

text \<open>The compiler appends code of each statement, related to it by \<open>stmt_code\<close>, and of a whole program.\<close>

text \<open>The code that a state has stays code.\<close>

definition keeps :: "cstate \<Rightarrow> cstate \<Rightarrow> bool" where
  "keeps s s' \<longleftrightarrow> (\<exists>P cs. heap_le P (cs_heap s) (cs_heap s') \<and> pool s' = pool s @ cs)"

lemma keeps_code:
  assumes "keeps s s'"
  shows "expr_code (cs_heap s) (pool s) e c \<Longrightarrow> expr_code (cs_heap s') (pool s') e c"
    and "stmt_code (cs_heap s) (pool s) st c \<Longrightarrow> stmt_code (cs_heap s') (pool s') st c"
    and "block_code (cs_heap s) (pool s) p c \<Longrightarrow> block_code (cs_heap s') (pool s') p c"
    and "name_is (cs_heap s) (pool s) lo hi x \<Longrightarrow> name_is (cs_heap s') (pool s') lo hi x"
  using assms expr_code_mono stmt_code_mono block_code_mono name_is_mono unfolding keeps_def by metis+

lemma keeps_trans:
  assumes "keeps s s'" and "keeps s' s''" shows "keeps s s''"
proof -
  obtain P Q cs cs' where p: "heap_le P (cs_heap s) (cs_heap s')" "heap_le Q (cs_heap s') (cs_heap s'')"
    "pool s' = pool s @ cs" "pool s'' = pool s' @ cs'" using assms unfolding keeps_def by blast
  have "heap_le (\<lambda>i. P i \<and> Q i) (cs_heap s) (cs_heap s'')" by (rule heap_le_trans [OF p(1,2)]) simp
  moreover have "pool s'' = pool s @ (cs @ cs')" using p(3,4) by simp
  ultimately show ?thesis unfolding keeps_def by blast
qed

lemma ext_keeps: "ext k s s' code \<Longrightarrow> keeps s s'"
  unfolding keeps_def ext_def by blast

subsection \<open>Tokens\<close>

definition moved :: "cstate \<Rightarrow> cstate \<Rightarrow> bool" where
  "moved s s' \<longleftrightarrow> (\<exists>a b c. s' = s\<lparr>cs_previous := a, cs_lexer := b, cs_current := c\<rparr>)"

lemma moved_refl [simp]: "moved s s"
  unfolding moved_def by (intro exI [of _ "cs_previous s"] exI [of _ "cs_lexer s"] exI [of _ "cs_current s"]) simp

lemma moved_trans: "moved s s' \<Longrightarrow> moved s' s'' \<Longrightarrow> moved s s''"
  unfolding moved_def by (elim exE, hypsubst, intro exI, simp)

lemma moved_same:
  assumes "moved s s'"
  shows "script s' = script s" "room n s' = room n s" "ext k s0 s' c = ext k s0 s c" "ext k s' s0 c = ext k s s0 c"
    "cs_heap s' = cs_heap s" "current_chunk s' = current_chunk s" "cs_loops s' = cs_loops s" "cur s' = cur s"
    "cs_panic_mode s' = cs_panic_mode s" "cs_created_local s' = cs_created_local s" "fn_of s' = fn_of s"
    "cs_compilers s' = cs_compilers s"
  using assms by (auto simp: moved_def cur_def fn_of_def)

lemma advance_moves:
  assumes "at_toks s (t # ts)"
  obtains s' where "advance s = Some s'" "moved s s'" "at_toks s' ts" "cs_previous s' = cs_current s"
proof -
  have "feeds (cs_lexer s) ts" using assms by simp
  from advance_at [OF this] obtain tk lx where
    a: "advance s = Some (s\<lparr>cs_previous := cs_current s, cs_lexer := lx, cs_current := tk\<rparr>)"
      "at_toks (s\<lparr>cs_previous := cs_current s, cs_lexer := lx, cs_current := tk\<rparr>) ts" .
  have "moved s (s\<lparr>cs_previous := cs_current s, cs_lexer := lx, cs_current := tk\<rparr>)" unfolding moved_def by blast
  then show ?thesis using that a by simp
qed

fun no_newline :: "tok list \<Rightarrow> bool" where
  "no_newline [] = True"
| "no_newline (t # ts) = (snd t \<noteq> Special TOKEN_NEWLINE)"

lemma skip_none: "at_toks s ts \<Longrightarrow> no_newline ts \<Longrightarrow> skip_newlines s = Some s"
  by (cases ts) (simp_all add: skip_newlines_no)

lemma skip_one:
  assumes "at_toks s (newline # ts)" and "no_newline ts"
  obtains s' where "skip_newlines s = Some s'" "moved s s'" "at_toks s' ts"
proof -
  from advance_moves [OF assms(1)] obtain s' where s': "advance s = Some s'" "moved s s'" "at_toks s' ts" .
  have "skip_newlines s = Some s'"
    using assms(1) s'(1) skip_none [OF s'(3) assms(2)] by (simp add: skip_newlines.simps [of s] match_def check_def)
  then show ?thesis using that s'(2,3) by blast
qed

lemma consume_moves:
  assumes "at_toks s (t # ts)"
  obtains s' where "consume (snd t) m s = Some s'" "moved s s'" "at_toks s' ts"
proof -
  from advance_moves [OF assms] obtain s' where "advance s = Some s'" "moved s s'" "at_toks s' ts" .
  then show ?thesis using that assms by (simp add: consume_def)
qed

lemma match_moves:
  assumes "at_toks s (t # ts)"
  obtains s' where "match (snd t) s = Some (True, s')" "moved s s'" "at_toks s' ts"
proof -
  from advance_moves [OF assms] obtain s' where "advance s = Some s'" "moved s s'" "at_toks s' ts" .
  then show ?thesis using that assms by (simp add: match_def check_def)
qed

subsection \<open>What is shown of a statement and of a block\<close>

definition stmt_compiles :: "(string \<Rightarrow> val64) \<Rightarrow> stmt \<Rightarrow> bool" where
  "stmt_compiles strtod st \<longleftrightarrow> (\<forall>s ts. stmt_ok st \<longrightarrow> script s \<longrightarrow> room (stmt_size st) s \<longrightarrow> at_toks s (stmt_toks st @ newline # ts) \<longrightarrow>
     (\<exists>s' code k. ext (stmt_size st) s s' code \<and> stmt_code (cs_heap s') (pool s') st code \<and> at_toks s' (newline # ts) \<and>
        (\<forall>n \<ge> k. statement n (run_compiler strtod n) s = Some s')))"

definition block_compiles :: "(string \<Rightarrow> val64) \<Rightarrow> stmt list \<Rightarrow> bool" where
  "block_compiles strtod p \<longleftrightarrow> (\<forall>s t ts stops. block_ok p \<longrightarrow> script s \<longrightarrow> room (block_size p) s \<longrightarrow>
     at_toks s (block_toks p @ t # ts) \<longrightarrow> snd t \<in> stops \<longrightarrow> stops \<subseteq> else_stops \<longrightarrow>
     (\<exists>s' code k. ext (block_size p) s s' code \<and> block_code (cs_heap s') (pool s') p code \<and> at_toks s' (t # ts) \<and>
        (\<forall>m \<ge> k. \<forall>n \<ge> k. block_loop m (run_compiler strtod n) stops s = Some s')))"

lemma stmt_toks_hd:
  "\<exists>t ts. stmt_toks st = t # ts \<and> snd t \<in> {Literal TOKEN_IDENTIFIER, Keyword TOKEN_IF, Keyword TOKEN_WHILE}"
  by (cases st) simp_all

lemma block_no_newline:
  assumes "snd t \<noteq> Special TOKEN_NEWLINE" shows "no_newline (block_toks p @ t # ts)"
proof (cases p)
  case (Cons st q)
  then show ?thesis using stmt_toks_hd [of st] by auto
qed (use assms in simp)

text \<open>A statement, as \<open>declaration\<close> calls it.\<close>

lemma declaration_compiles:
  assumes "stmt_compiles strtod st" and "stmt_ok st" and "script s" and "room (stmt_size st) s" and "at_toks s (stmt_toks st @ newline # ts)"
  obtains s' code k where "ext (stmt_size st) s s' code" "stmt_code (cs_heap s') (pool s') st code" "at_toks s' (newline # ts)"
    "\<And>n. n \<ge> k \<Longrightarrow> run_compiler strtod n Declaration s = Some s'"
proof -
  obtain s' code k where s': "ext (stmt_size st) s s' code" "stmt_code (cs_heap s') (pool s') st code" "at_toks s' (newline # ts)"
    "\<forall>n \<ge> k. statement n (run_compiler strtod n) s = Some s'"
    using assms unfolding stmt_compiles_def by blast
  obtain t us where t: "stmt_toks st = t # us" "snd t \<in> {Literal TOKEN_IDENTIFIER, Keyword TOKEN_IF, Keyword TOKEN_WHILE}"
    using stmt_toks_hd by blast
  have c: "cur_type s = snd t" using assms(5) t(1) by simp
  have np: "\<not> cs_panic_mode s'" using ext_script [OF s'(1) assms(3)] by (auto simp: script_def)
  have "run_compiler strtod n Declaration s = Some s'" if nk: "n \<ge> Suc k" for n
  proof -
    obtain n' where n: "n = Suc n'" "k \<le> n'" using nk by (cases n) auto
    have "cur_type s \<noteq> Special x" "cur_type s \<noteq> Keyword TOKEN_FN" for x using c t(2) by auto
    then show ?thesis
      using spec [OF s'(4), of n'] n(2) np
      by (simp add: n(1) declaration_stmt_def skip_newlines_no match_no check_def)
  qed
  then show ?thesis using that s'(1-3) by blast
qed

lemma empty_block: "block_compiles strtod []"
  unfolding block_compiles_def
proof (intro allI impI)
  fix s t ts stops
  assume "script s" "at_toks s (block_toks [] @ t # ts)" "snd t \<in> stops"
  then have "block_loop m rec stops s = Some s" if "1 \<le> m" for m rec using that by (cases m) simp_all
  then show "\<exists>s' code k. ext (block_size []) s s' code \<and> block_code (cs_heap s') (pool s') [] code \<and> at_toks s' (t # ts) \<and>
      (\<forall>m \<ge> k. \<forall>n \<ge> k. block_loop m (run_compiler strtod n) stops s = Some s')"
    using ext_refl [OF \<open>script s\<close>] \<open>at_toks s (block_toks [] @ t # ts)\<close>
    by (intro exI [of _ s] exI [of _ "[]"] exI [of _ 1]) simp
qed

lemma block_step:
  assumes st: "stmt_compiles strtod st" and p: "block_compiles strtod p" shows "block_compiles strtod (st # p)"
  unfolding block_compiles_def
proof (intro allI impI)
  fix s t ts stops
  assume a: "block_ok (st # p)" "script s" "room (block_size (st # p)) s" "at_toks s (block_toks (st # p) @ t # ts)" "snd t \<in> stops"
    "stops \<subseteq> else_stops"
  have ok: "stmt_ok st" "block_ok p" using a(1) by simp_all
  have r: "room (stmt_size st) s" using a(3) by (simp add: room_def)
  have at: "at_toks s (stmt_toks st @ newline # block_toks p @ t # ts)" using a(4) by simp
  from declaration_compiles [OF st ok(1) a(2) r at] obtain s1 c1 k where
    s1: "ext (stmt_size st) s s1 c1" "stmt_code (cs_heap s1) (pool s1) st c1" "at_toks s1 (newline # block_toks p @ t # ts)"
      "\<And>n. n \<ge> k \<Longrightarrow> run_compiler strtod n Declaration s = Some s1" by blast
  have "no_newline (block_toks p @ t # ts)" using a(5,6) by (intro block_no_newline) auto
  from skip_one [OF s1(3) this] obtain s2 where s2: "skip_newlines s1 = Some s2" "moved s1 s2" "at_toks s2 (block_toks p @ t # ts)" .
  note m = moved_same [OF s2(2)]
  have sc: "script s2" using ext_script [OF s1(1) a(2)] m(1) by simp
  have l1: "length c1 = stmt_size st" by (rule stmt_code_length [OF s1(2)])
  have r2: "room (block_size p) s2" unfolding m(2) by (rule ext_room [OF a(3) s1(1)]) (simp_all add: l1)
  from p [unfolded block_compiles_def, rule_format, OF ok(2) sc r2 s2(3) a(5,6)] obtain s3 c2 l where
    s3: "ext (block_size p) s2 s3 c2" "block_code (cs_heap s3) (pool s3) p c2" "at_toks s3 (t # ts)"
      "\<forall>m \<ge> l. \<forall>n \<ge> l. block_loop m (run_compiler strtod n) stops s2 = Some s3" by blast
  have e: "ext (block_size p) s1 s3 c2" using s3(1) m(4) by simp
  have "stmt_code (cs_heap s3) (pool s3) st c1" by (rule keeps_code(2) [OF ext_keeps [OF e] s1(2)])
  then have c: "block_code (cs_heap s3) (pool s3) (st # p) (c1 @ c2)" using s3(2) by auto
  have ex: "ext (block_size (st # p)) s s3 (c1 @ c2)" using ext_trans [OF s1(1) e] by simp
  have stop: "cur_type s \<notin> stops"
  proof -
    obtain u us where "stmt_toks st = u # us" "snd u \<in> {Literal TOKEN_IDENTIFIER, Keyword TOKEN_IF, Keyword TOKEN_WHILE}"
      using stmt_toks_hd by blast
    then show ?thesis using at a(6) by auto
  qed
  have "block_loop m (run_compiler strtod n) stops s = Some s3"
    if mk: "m \<ge> Suc (max k l)" and nk: "n \<ge> Suc (max k l)" for m n
  proof -
    obtain m' where m': "m = Suc m'" "l \<le> m'" using mk by (cases m) auto
    have "k \<le> n" "l \<le> n" using nk by simp_all
    then show ?thesis using stop s1(4) [of n] s2(1) s3(4) m' by simp
  qed
  then have "\<exists>k. \<forall>m \<ge> k. \<forall>n \<ge> k. block_loop m (run_compiler strtod n) stops s = Some s3" by blast  then show "\<exists>s' code k. ext (block_size (st # p)) s s' code \<and> block_code (cs_heap s') (pool s') (st # p) code \<and> at_toks s' (t # ts) \<and>
      (\<forall>m \<ge> k. \<forall>n \<ge> k. block_loop m (run_compiler strtod n) stops s = Some s')"
    using ex c s3(3) by blast
qed

subsection \<open>Assignments\<close>

lemma script_compilers:
  "script s \<Longrightarrow> cp_scope_depth (cur s) = 0 \<and> \<not> cs_created_local s \<and> \<not> cs_panic_mode s \<and> \<not> cs_had_error s \<and> \<not> cs_undefined s"
  by (auto simp: script_def cur_def)

lemma created_same: "\<not> cs_created_local s \<Longrightarrow> s\<lparr>cs_created_local := False\<rparr> = s"
  by (cases s) simp

lemma assign_compiles: "stmt_compiles strtod (Assign x e)"
  unfolding stmt_compiles_def
proof (intro allI impI)
  fix s ts
  assume a: "stmt_ok (Assign x e)" "script s" "room (stmt_size (Assign x e)) s" "at_toks s (stmt_toks (Assign x e) @ newline # ts)"
  have ok: "x \<noteq> []" "names_ok e" using a(1) by (auto simp: is_name_def)
  let ?rest = "expr_toks 1 e @ newline # ts"
  have at: "at_toks s ((x, Literal TOKEN_IDENTIFIER) # (''='', Single TOKEN_EQUAL) # ?rest)" using a(4) by simp
  from advance_moves [OF at] obtain s1 where
    s1: "advance s = Some s1" "moved s s1" "at_toks s1 ((''='', Single TOKEN_EQUAL) # ?rest)" "cs_previous s1 = cs_current s" .
  have prev: "prev_type s1 = Literal TOKEN_IDENTIFIER" "tok_text (cs_previous s1) = x" using at s1(4) by simp_all
  have sc1: "script s1" and r1: "room (stmt_size (Assign x e)) s1" using a(2,3) moved_same [OF s1(2)] by simp_all
  from resolve_global [OF sc1 ok(1) room_pool [OF r1]] obtain c :: u16 and s2 where
    s2: "resolve_variable x s1 = (OP_GET_GLOBAL, OP_SET_GLOBAL, unat c, s2)" "ext 2 s1 s2 []" "same_toks s1 s2"
      "name_is (cs_heap s2) (pool s2) (lo_byte (uint c)) (hi_byte (uint c)) x" .
  have at2: "at_toks s2 ((''='', Single TOKEN_EQUAL) # ?rest)" using s1(3) unfolding same_toks_at [OF s2(3)] .
  from match_moves [OF at2] obtain s3 where
    s3: "match (Single TOKEN_EQUAL) s2 = Some (True, s3)" "moved s2 s3" "at_toks s3 ?rest" by auto
  note m3 = moved_same [OF s3(2)]
  have sc3: "script s3" using ext_script [OF s2(2) sc1] m3(1) by simp
  have r3: "room (expr_size e) s3" unfolding m3(2) by (rule ext_room [OF r1 s2(2)]) simp_all
  have nl: "ends_at 1 newline" "prec_of (snd newline) < 1" by (simp_all add: ends_at_def other_rules)
  from operand_parses [OF expr_parses ok(2) _ _ sc3 r3 s3(3) nl] obtain s4 where
    s4: "produces s3 s4 e (newline # ts)" "parses_to strtod 1 s3 s4" by auto
  from producesE [OF s4(1)] obtain ce where
    ce: "ext (expr_size e) s3 s4 ce" "expr_code (cs_heap s4) (pool s4) e ce" "at_toks s4 (newline # ts)" .
  note sc4 = ext_script [OF ce(1) sc3]
  let ?b = "[OP_SET_GLOBAL, lo_byte (uint c), hi_byte (uint c)]"
  let ?s5 = "emit_short (of_nat (unat c)) (emit_byte OP_SET_GLOBAL s4)"
  let ?s6 = "emit_byte OP_POP ?s5"
  have e4: "ext (2 + expr_size e) s s4 ce"
    using ext_trans [OF s2(2), of "expr_size e" s4 ce] ce(1) moved_same [OF s1(2)] m3 by simp
  have e5: "ext (2 + expr_size e) s ?s5 (ce @ ?b)" using emit_name_ext [OF e4 a(2), of c OP_SET_GLOBAL] by simp
  have e6: "ext (stmt_size (Assign x e)) s ?s6 (ce @ ?b @ [OP_POP])"
    using ext_weaken [OF ext_emit [OF e5 a(2), of OP_POP], of "stmt_size (Assign x e)"] by simp
  have b5: "ext 0 s4 ?s5 ?b" using emit_name_ext [OF ext_refl [OF sc4] sc4, of c OP_SET_GLOBAL] by simp
  have b6: "ext 0 s4 ?s6 (?b @ [OP_POP])" by (rule ext_emit [OF b5 sc4])
  have "name_is (cs_heap s4) (pool s4) (lo_byte (uint c)) (hi_byte (uint c)) x"
    using ext_name_mono [OF ce(1)] s2(4) m3(5,6) by simp
  then have code: "stmt_code (cs_heap ?s6) (pool ?s6) (Assign x e) (ce @ ?b @ [OP_POP])"
    using ext_mono [OF b6 ce(2)] ext_name_mono [OF b6] by auto
  obtain k where k: "\<forall>n \<ge> k. run_compiler strtod n (Parse_Precedence 1) s3 = Some s4" using s4(2) by (auto simp: parses_to_def)
  have "variable (run_compiler strtod n) True s1 = Some ?s5" if "n \<ge> k" for n
    unfolding variable_def prev(2) named_variable_def s2(1) expression_def
    using spec [OF k, of n] that s3(1) skip_newlines_no [OF at_expr_not_newline(2) [OF s3(3)]] script_compilers [OF sc4] by simp
  then have "applies_to strtod 1 Fn_variable s1 ?s5" by (auto simp: applies_to_def apply_parse_fn_def)
  moreover have c5: "cur_type ?s5 = Special TOKEN_NEWLINE" using ce(3) by simp
  then have "loops_to strtod 1 ?s5 ?s5" by (intro loops_stop) (simp add: other_rules)
  moreover have "cur_type s \<noteq> Special TOKEN_NEWLINE" using at by simp
  ultimately have "reads_to strtod 1 s ?s5" unfolding reads_to_def using s1(1) prev(1) other_rules(6) by fastforce
  then have "parses_to strtod 1 s ?s5" by (rule parses_reads) (use ce(3) in simp)
  then obtain l where l: "\<forall>n \<ge> l. run_compiler strtod n (Parse_Precedence 1) s = Some ?s5" by (auto simp: parses_to_def)
  have cr: "\<not> cs_created_local s" "\<not> cs_created_local ?s5" "\<not> cs_created_local ?s6"
    using script_compilers [OF a(2)] script_compilers [OF ext_script [OF e5 a(2)]] script_compilers [OF ext_script [OF e6 a(2)]]
    by simp_all
  have "statement n (run_compiler strtod n) s = Some ?s6" if "n \<ge> l" for n
  proof -
    have "cur_type s \<noteq> Keyword z" for z using at by simp
    then have "statement n (run_compiler strtod n) s = expression_statement (run_compiler strtod n) s"
      by (simp add: statement_def check_def)
    also have "\<dots> = Some ?s6"
      unfolding expression_statement_def expression_def created_same [OF cr(1)]
      using spec [OF l, of n] that cr(2) created_same [OF cr(3)] by simp
    finally show ?thesis .
  qed
  moreover have "at_toks ?s6 (newline # ts)" using ce(3) by (simp del: at_toks.simps)
  ultimately show "\<exists>s' code k. ext (stmt_size (Assign x e)) s s' code \<and> stmt_code (cs_heap s') (pool s') (Assign x e) code \<and>
      at_toks s' (newline # ts) \<and> (\<forall>n \<ge> k. statement n (run_compiler strtod n) s = Some s')"
    using e6 code by blast
qed

subsection \<open>Conditions and bodies\<close>

text \<open>\<open>if\<close> and \<open>while\<close> start alike: a condition up to the end of the line, a jump over a body, the body.\<close>

lemma condition_parses:
  assumes "names_ok c" and "script s" and "room (expr_size c) s" and "at_toks s (expr_toks 1 c @ newline # ts)" and "no_newline ts"
  obtains s2 cc s1 k where "ext (expr_size c) s s2 cc" "expr_code (cs_heap s2) (pool s2) c cc" "at_toks s2 ts"
    "length cc = expr_size c" "skip_newlines s = Some s" "skip_newlines s1 = Some s2"
    "\<forall>n \<ge> k. run_compiler strtod n (Parse_Precedence 1) s = Some s1"
proof -
  have nl: "ends_at 1 newline" "prec_of (snd newline) < 1" by (simp_all add: ends_at_def other_rules)
  from operand_parses [OF expr_parses assms(1) _ _ assms(2,3,4) nl] obtain s1 where
    s1: "produces s s1 c (newline # ts)" "parses_to strtod 1 s s1" by auto
  from producesE [OF s1(1)] obtain cc where
    cc: "ext (expr_size c) s s1 cc" "expr_code (cs_heap s1) (pool s1) c cc" "at_toks s1 (newline # ts)" "length cc = expr_size c" .
  from skip_one [OF cc(3) assms(5)] obtain s2 where s2: "skip_newlines s1 = Some s2" "moved s1 s2" "at_toks s2 ts" .
  obtain k where "\<forall>n \<ge> k. run_compiler strtod n (Parse_Precedence 1) s = Some s1" using s1(2) by (auto simp: parses_to_def)
  then show ?thesis
    using that [of s2 cc s1 k] cc(1,2,4) s2 moved_same [OF s2(2)] skip_newlines_no [OF at_expr_not_newline(2) [OF assms(4)]] by simp
qed

lemma body_compiles:
  assumes b: "block_compiles strtod a" "block_ok a" "snd t \<in> stops" "stops \<subseteq> else_stops"
    and s: "script s0" "ext k0 s0 s pre" "room n0 s0" "k0 + block_size a \<le> n0" "length pre + 4 + block_size a \<le> n0"
    and at: "at_toks s (block_toks a @ t # ts)"
  obtains s1 s2 ca k where "emit_jump OP_JUMP_IF_FALSE s = (code_count s0 + length pre + 1, s1)"
    "ext (k0 + block_size a) s0 s2 (pre @ [OP_JUMP_IF_FALSE, 0xFF, 0xFF, OP_POP] @ ca)"
    "block_code (cs_heap s2) (pool s2) a ca" "at_toks s2 (t # ts)" "length ca = block_size a"
    "keeps s s2"
    "\<forall>m \<ge> k. \<forall>n \<ge> k. block_loop m (run_compiler strtod n) stops (emit_byte OP_POP s1) = Some s2"
proof -
  from emit_jump_ext [OF s(1,2), of OP_JUMP_IF_FALSE] obtain s1 where
    j: "emit_jump OP_JUMP_IF_FALSE s = (code_count s0 + length pre + 1, s1)" "ext k0 s0 s1 (pre @ [OP_JUMP_IF_FALSE, 0xFF, 0xFF])"
      "ext 0 s s1 [OP_JUMP_IF_FALSE, 0xFF, 0xFF]" "same_toks s s1" .
  let ?s = "emit_byte OP_POP s1"
  have sc: "script s" by (rule ext_script [OF s(2,1)])
  have e: "ext k0 s0 ?s (pre @ [OP_JUMP_IF_FALSE, 0xFF, 0xFF, OP_POP])" using ext_emit [OF j(2) s(1), of OP_POP] by simp
  have e0: "ext 0 s ?s [OP_JUMP_IF_FALSE, 0xFF, 0xFF, OP_POP]" using ext_emit [OF j(3) sc, of OP_POP] by simp
  note sc1 = ext_script [OF e s(1)]
  have r: "room (block_size a) ?s" by (rule ext_room [OF s(3) e s(4)]) (use s(5) in simp)
  have at1: "at_toks ?s (block_toks a @ t # ts)" using at same_toks_at [OF j(4)] by (simp del: at_toks.simps)
  from b(1) [unfolded block_compiles_def, rule_format, OF b(2) sc1 r at1 b(3,4)] obtain s2 ca k where
    s2: "ext (block_size a) ?s s2 ca" "block_code (cs_heap s2) (pool s2) a ca" "at_toks s2 (t # ts)"
      "\<forall>m \<ge> k. \<forall>n \<ge> k. block_loop m (run_compiler strtod n) stops ?s = Some s2" by blast
  have "ext (k0 + block_size a) s0 s2 (pre @ [OP_JUMP_IF_FALSE, 0xFF, 0xFF, OP_POP] @ ca)" using ext_trans [OF e s2(1)] by simp
  then show ?thesis
    using that [OF j(1) _ s2(2,3) block_code_length [OF s2(2)], of k] s2(4) ext_keeps [OF ext_trans [OF e0 s2(1)]] by blast
qed

text \<open>Patching the jump over a body.\<close>

lemma patch_keeps:
  assumes "script s0" and "ext k s0 s (c1 @ op # x # y # c2)" and "length c2 \<le> 65535"
  obtains s' lo hi where "patch_jump (code_count s0 + length c1 + 1) s = s'" "short_is lo hi (length c2)"
    "ext k s0 s' (c1 @ op # lo # hi # c2)" "same_toks s s'"
    "keeps s s'"
proof -
  let ?s = "patch_jump (code_count s0 + length c1 + 1) s"
  from patch_jump_ext [OF assms refl] obtain lo hi where
    pj: "short_is lo hi (length c2)" "ext k s0 ?s (c1 @ op # lo # hi # c2)" "same_toks s ?s" "pool ?s = pool s"
      "heap_le (\<lambda>i. i \<noteq> fn_of s) (cs_heap s) (cs_heap ?s)" .
  have "keeps s ?s" using pj(4,5) unfolding keeps_def by (metis append_Nil2)
  then show ?thesis using that [OF refl pj(1-3)] by blast
qed

subsection \<open>while\<close>

lemma emit_loop_ext:
  assumes "script s0" and "ext k s0 s code" and "length code + 3 \<le> 65535"
  obtains lo hi s' where "emit_loop (code_count s0) s = s'" "ext k s0 s' (code @ [OP_LOOP, lo, hi])"
    "ext 0 s s' [OP_LOOP, lo, hi]" "short_is lo hi (length code + 3)" "same_toks s s'"
proof -
  let ?o = "int (length code + 3)"
  let ?s = "emit_byte (hi_byte ?o) (emit_byte (lo_byte ?o) (emit_byte OP_LOOP s))"
  have sc: "script s" by (rule ext_script [OF assms(2,1)])
  have e: "ext j s1 ?s (c @ [OP_LOOP, lo_byte ?o, hi_byte ?o])" if "ext j s1 s c" "script s1" for j s1 c
    using ext_emit [OF ext_emit [OF ext_emit [OF that, of OP_LOOP] that(2), of "lo_byte ?o"] that(2), of "hi_byte ?o"] by simp
  have "code_count (emit_byte OP_LOOP s) = code_count s0 + length code + 1"
    using ext_emit [OF assms(2,1), of OP_LOOP] by (simp add: ext_def)
  then have "emit_loop (code_count s0) s = ?s"
    using assms(3) by (simp add: emit_loop_def Let_def add.commute)
  then show ?thesis
    using that [of ?s "lo_byte ?o" "hi_byte ?o"] e [OF assms(2,1)] e [OF ext_refl [OF sc] sc] short_bytes [OF assms(3)]
    by (simp add: same_toks_def)
qed

lemma push_loop_fields [simp]:
  "cs_heap (push_loop s) = cs_heap s" "cs_compilers (push_loop s) = cs_compilers s" "cs_had_error (push_loop s) = cs_had_error s"
  "cs_panic_mode (push_loop s) = cs_panic_mode s" "cs_undefined (push_loop s) = cs_undefined s"
  "cs_created_local (push_loop s) = cs_created_local s" "cur (push_loop s) = cur s" "fn_of (push_loop s) = fn_of s"
  "cs_loops (push_loop s) = \<lparr>lp_start = code_count s, lp_breaks = [], lp_scope_depth = cp_scope_depth (cur s)\<rparr> # cs_loops s"
  by (simp_all add: push_loop_def cur_def fn_of_def)

lemma pop_loop_fields [simp]:
  "cs_heap (pop_loop s) = cs_heap s" "cs_compilers (pop_loop s) = cs_compilers s" "cs_had_error (pop_loop s) = cs_had_error s"
  "cs_panic_mode (pop_loop s) = cs_panic_mode s" "cs_undefined (pop_loop s) = cs_undefined s"
  "cs_created_local (pop_loop s) = cs_created_local s" "cur (pop_loop s) = cur s" "fn_of (pop_loop s) = fn_of s"
  "cs_loops (pop_loop s) = tl (cs_loops s)"
  by (simp_all add: pop_loop_def cur_def fn_of_def)

lemma loop_chunk [simp]: "current_chunk (push_loop s) = current_chunk s" "current_chunk (pop_loop s) = current_chunk s"
  by (simp_all add: current_chunk_fn)

lemma loop_same [simp]:
  "script (push_loop s) = script s" "room n (push_loop s) = room n s"
  "at_toks (push_loop s) ts = at_toks s ts" "at_toks (pop_loop s) ts = at_toks s ts"
  by (simp_all add: script_def room_def) (cases ts; simp add: push_loop_def pop_loop_def)+

lemma ext_push_pop: "ext k (push_loop s) s' code \<Longrightarrow> ext k s (pop_loop s') code"
  by (simp add: ext_def)

lemma while_compiles:
  assumes "block_compiles strtod a" shows "stmt_compiles strtod (While c a)"
  unfolding stmt_compiles_def
proof (intro allI impI)
  fix s ts
  assume a: "stmt_ok (While c a)" "script s" "room (stmt_size (While c a)) s" "at_toks s (stmt_toks (While c a) @ newline # ts)"
  have ok: "names_ok c" "block_ok a" using a(1) by simp_all
  let ?rest = "block_toks a @ end_word # newline # ts"
  have at: "at_toks s ((''while'', Keyword TOKEN_WHILE) # expr_toks 1 c @ newline # ?rest)" using a(4) by simp
  from advance_moves [OF at] obtain s1 where
    s1: "advance s = Some s1" "moved s s1" "at_toks s1 (expr_toks 1 c @ newline # ?rest)" by blast
  note m1 = moved_same [OF s1(2)]
  let ?p = "push_loop s1"
  have p: "script ?p" "room (stmt_size (While c a)) ?p" using a(2,3) m1(1,2) by simp_all
  have rc: "room (expr_size c) ?p" using p(2) by (simp add: room_def)
  have nn: "no_newline ?rest" by (rule block_no_newline) simp
  have at1: "at_toks ?p (expr_toks 1 c @ newline # ?rest)" using s1(3) by (simp only: loop_same)
  from condition_parses [where strtod = strtod, OF ok(1) p(1) rc at1 nn] obtain t2 cc t1 k1 where
    t2: "ext (expr_size c) ?p t2 cc" "expr_code (cs_heap t2) (pool t2) c cc" "at_toks t2 ?rest" "length cc = expr_size c"
      "skip_newlines ?p = Some ?p" "skip_newlines t1 = Some t2"
      "\<forall>n \<ge> k1. run_compiler strtod n (Parse_Precedence 1) ?p = Some t1" .
  have en: "snd end_word \<in> end_stops" "end_stops \<subseteq> else_stops" by auto
  have sz: "expr_size c + block_size a \<le> stmt_size (While c a)" "length cc + 4 + block_size a \<le> stmt_size (While c a)"
    by (simp_all add: t2(4))
  from body_compiles [OF assms ok(2) en p(1) t2(1) p(2) sz t2(3)] obtain t3 t4 ca k2 where
    t4: "emit_jump OP_JUMP_IF_FALSE t2 = (code_count ?p + length cc + 1, t3)"
      "ext (expr_size c + block_size a) ?p t4 (cc @ [OP_JUMP_IF_FALSE, 0xFF, 0xFF, OP_POP] @ ca)"
      "block_code (cs_heap t4) (pool t4) a ca" "at_toks t4 (end_word # newline # ts)" "length ca = block_size a"
      "keeps t2 t4"
      "\<forall>m \<ge> k2. \<forall>n \<ge> k2. block_loop m (run_compiler strtod n) end_stops (emit_byte OP_POP t3) = Some t4" by blast
  have l: "length (cc @ [OP_JUMP_IF_FALSE, 0xFF, 0xFF, OP_POP] @ ca) + 3 \<le> 65535"
    using a(3) t2(4) t4(5) by (simp add: room_def)
  from emit_loop_ext [OF p(1) t4(2) l] obtain lo' hi' t5 where
    t5: "emit_loop (code_count ?p) t4 = t5" "ext (expr_size c + block_size a) ?p t5
        ((cc @ [OP_JUMP_IF_FALSE, 0xFF, 0xFF, OP_POP] @ ca) @ [OP_LOOP, lo', hi'])" "ext 0 t4 t5 [OP_LOOP, lo', hi']"
      "short_is lo' hi' (length (cc @ [OP_JUMP_IF_FALSE, 0xFF, 0xFF, OP_POP] @ ca) + 3)" "same_toks t4 t5" .
  have e5: "ext (expr_size c + block_size a) ?p t5 (cc @ OP_JUMP_IF_FALSE # 0xFF # 0xFF # OP_POP # ca @ [OP_LOOP, lo', hi'])"
    using t5(2) by simp
  have l5: "length (OP_POP # ca @ [OP_LOOP, lo', hi']) \<le> 65535" using l by simp
  from patch_keeps [OF p(1) e5 l5] obtain t6 lo hi where
    t6: "patch_jump (code_count ?p + length cc + 1) t5 = t6" "short_is lo hi (length (OP_POP # ca @ [OP_LOOP, lo', hi']))"
      "ext (expr_size c + block_size a) ?p t6 (cc @ OP_JUMP_IF_FALSE # lo # hi # OP_POP # ca @ [OP_LOOP, lo', hi'])" "same_toks t5 t6"
      "keeps t5 t6" .
  let ?t7 = "emit_byte OP_POP t6"
  let ?code = "cc @ [OP_JUMP_IF_FALSE, lo, hi, OP_POP] @ ca @ [OP_LOOP, lo', hi', OP_POP]"
  have e7: "ext (expr_size c + block_size a) ?p ?t7 ?code" using ext_emit [OF t6(3) p(1), of OP_POP] by simp
  note em = ext_emit_byte [OF ext_script [OF t6(3) p(1)], of OP_POP]
  have k47: "keeps t4 ?t7" using ext_keeps [OF t5(3)] t6(5) ext_keeps [OF em] keeps_trans by blast
  have "expr_code (cs_heap ?t7) (pool ?t7) c cc" by (rule keeps_code(1) [OF keeps_trans [OF t4(6) k47] t2(2)])
  moreover have "block_code (cs_heap ?t7) (pool ?t7) a ca" by (rule keeps_code(3) [OF k47 t4(3)])
  moreover have "short_is lo hi (length ca + 4)" "short_is lo' hi' (length cc + length ca + 7)"
    using t6(2) t5(4) by (simp_all add: short_is_def)
  ultimately have code: "stmt_code (cs_heap ?t7) (pool ?t7) (While c a) ?code" by (simp only: stmt_code.simps) blast
  have at7: "at_toks ?t7 (end_word # newline # ts)"
    using t4(4) same_toks_at [OF t5(5)] same_toks_at [OF t6(4)] by (simp del: at_toks.simps)
  from consume_moves [OF at7, of "''Expected 'end' after while loop.''"] obtain t8 where
    t8: "consume (Keyword TOKEN_END) ''Expected 'end' after while loop.'' ?t7 = Some t8" "moved ?t7 t8" "at_toks t8 (newline # ts)"
    by auto
  note m8 = moved_same [OF t8(2)]
  have loops: "cs_loops t4 = cs_loops ?p" "cs_loops ?t7 = cs_loops ?p" using t4(2) e7 by (simp_all add: ext_def)
  have "cond_loop n (run_compiler strtod n) False ''Expected 'end' after while loop.'' s1 = Some (pop_loop t8)"
    if "n \<ge> max k1 k2" for n
    unfolding cond_loop_def Let_def expression_def
    using that t2(5,6) spec [OF t2(7), of n] t4(1,7) t5(1) t6(1) t8(1) loops by simp
  moreover have "cur_type s = Keyword TOKEN_WHILE" using at by simp
  ultimately have st: "statement n (run_compiler strtod n) s = Some (pop_loop t8)" if "n \<ge> max k1 k2" for n
    using that s1(1) by (simp add: statement_def check_def while_statement_def)
  have "ext (expr_size c + block_size a) s (pop_loop t8) ?code" using ext_push_pop [of _ s1 t8 ?code] e7 m8(3) m1(4) by simp
  then have "ext (stmt_size (While c a)) s (pop_loop t8) ?code" by (rule ext_weaken) simp
  moreover have "stmt_code (cs_heap (pop_loop t8)) (pool (pop_loop t8)) (While c a) ?code"
    using code m8(5,6) by (simp del: stmt_code.simps)
  ultimately show "\<exists>s' code k. ext (stmt_size (While c a)) s s' code \<and> stmt_code (cs_heap s') (pool s') (While c a) code \<and>
      at_toks s' (newline # ts) \<and> (\<forall>n \<ge> k. statement n (run_compiler strtod n) s = Some s')"
    using st t8(3) loop_same(4) by blast
qed

subsection \<open>if\<close>

definition else_part :: "stmt list \<Rightarrow> tok list" where
  "else_part b = (if b = [] then [] else (''else'', Keyword TOKEN_ELSE) # newline # block_toks b)"

lemma else_compiles:
  assumes b: "block_compiles strtod b" "block_ok b" and s: "script s" "room (block_size b) s"
    and at: "at_toks s (else_part b @ end_word # newline # ts)"
  obtains s' cb k where "ext (block_size b) s s' cb" "block_code (cs_heap s') (pool s') b cb" "at_toks s' (end_word # newline # ts)"
    "\<forall>n \<ge> k. (do {
       (b, s) \<leftarrow> match (Keyword TOKEN_ELSE) s;
       if b then do { s \<leftarrow> skip_newlines s; block_loop n (run_compiler strtod n) end_stops s } else Some s }) = Some s'"
proof (cases "b = []")
  case True
  then have "match (Keyword TOKEN_ELSE) s = Some (False, s)" using at by (intro match_no) (simp add: else_part_def)
  then show ?thesis using that [of s "[]" 0] True at ext_refl [OF s(1)] by (simp add: else_part_def)
next
  case False
  let ?rest = "block_toks b @ end_word # newline # ts"
  have at0: "at_toks s ((''else'', Keyword TOKEN_ELSE) # newline # ?rest)" using at False by (simp add: else_part_def)
  from match_moves [OF at0] obtain s1 where s1: "match (Keyword TOKEN_ELSE) s = Some (True, s1)" "moved s s1" "at_toks s1 (newline # ?rest)"
    by auto
  have nn: "no_newline ?rest" by (rule block_no_newline) simp
  from skip_one [OF s1(3) nn] obtain s2 where s2: "skip_newlines s1 = Some s2" "moved s1 s2" "at_toks s2 ?rest" .
  note m = moved_same [OF moved_trans [OF s1(2) s2(2)]]
  have sc: "script s2" "room (block_size b) s2" using s m by simp_all
  have en: "snd end_word \<in> end_stops" "end_stops \<subseteq> else_stops" by auto
  from b(1) [unfolded block_compiles_def, rule_format, OF b(2) sc s2(3) en] obtain s3 cb k where
    s3: "ext (block_size b) s2 s3 cb" "block_code (cs_heap s3) (pool s3) b cb" "at_toks s3 (end_word # newline # ts)"
      "\<forall>m \<ge> k. \<forall>n \<ge> k. block_loop m (run_compiler strtod n) end_stops s2 = Some s3" by blast
  show ?thesis using that [of s3 cb k] s3 m(4) s1(1) s2(1) by simp
qed

lemma if_compiles:
  assumes "block_compiles strtod a" and "block_compiles strtod b" shows "stmt_compiles strtod (If_Else c a b)"
  unfolding stmt_compiles_def
proof (intro allI impI)
  fix s ts
  assume a: "stmt_ok (If_Else c a b)" "script s" "room (stmt_size (If_Else c a b)) s"
    "at_toks s (stmt_toks (If_Else c a b) @ newline # ts)"
  have ok: "names_ok c" "block_ok a" "block_ok b" using a(1) by simp_all
  obtain t us where t: "else_part b @ end_word # newline # ts = t # us" "snd t \<in> else_stops" "snd t \<noteq> Special TOKEN_NEWLINE"
      "snd t \<noteq> Keyword TOKEN_THEN" "snd t \<noteq> Keyword TOKEN_ELSIF"
    by (cases "b = []") (simp_all add: else_part_def)
  let ?rest = "block_toks a @ t # us"
  have at: "at_toks s ((''if'', Keyword TOKEN_IF) # expr_toks 1 c @ newline # ?rest)"
    using a(4) t(1) [symmetric] by (auto simp: else_part_def)
  from advance_moves [OF at] obtain s1 where
    s1: "advance s = Some s1" "moved s s1" "at_toks s1 (expr_toks 1 c @ newline # ?rest)" by blast
  note m1 = moved_same [OF s1(2)]
  have p: "script s1" "room (stmt_size (If_Else c a b)) s1" using a(2,3) m1(1,2) by simp_all
  have rc: "room (expr_size c) s1" using p(2) by (simp add: room_def)
  have nn: "no_newline ?rest" by (rule block_no_newline [OF t(3)])
  from condition_parses [where strtod = strtod, OF ok(1) p(1) rc s1(3) nn] obtain t2 cc t1 k1 where
    t2: "ext (expr_size c) s1 t2 cc" "expr_code (cs_heap t2) (pool t2) c cc" "at_toks t2 ?rest" "length cc = expr_size c"
      "skip_newlines s1 = Some s1" "skip_newlines t1 = Some t2"
      "\<forall>n \<ge> k1. run_compiler strtod n (Parse_Precedence 1) s1 = Some t1" .
  have no_then: "match (Keyword TOKEN_THEN) t2 = Some (False, t2)"
  proof (rule match_no)
    show "cur_type t2 \<noteq> Keyword TOKEN_THEN"
      using t2(3) t(4) stmt_toks_hd [of "hd a"] by (cases a) auto
  qed
  have cond: "condition_then (run_compiler strtod n) s1 = Some t2" if "n \<ge> k1" for n
    unfolding condition_then_def expression_def
    using spec [OF t2(7), of n] that t2(5,6) no_then skip_none [OF t2(3) nn] by simp
  have sz: "expr_size c + block_size a \<le> stmt_size (If_Else c a b)" "length cc + 4 + block_size a \<le> stmt_size (If_Else c a b)"
    by (simp_all add: t2(4))
  from body_compiles [OF assms(1) ok(2) t(2) order_refl p(1) t2(1) p(2) sz t2(3)] obtain t3 t4 ca k2 where
    t4: "emit_jump OP_JUMP_IF_FALSE t2 = (code_count s1 + length cc + 1, t3)"
      "ext (expr_size c + block_size a) s1 t4 (cc @ [OP_JUMP_IF_FALSE, 0xFF, 0xFF, OP_POP] @ ca)"
      "block_code (cs_heap t4) (pool t4) a ca" "at_toks t4 (t # us)" "length ca = block_size a" "keeps t2 t4"
      "\<forall>m \<ge> k2. \<forall>n \<ge> k2. block_loop m (run_compiler strtod n) else_stops (emit_byte OP_POP t3) = Some t4" by blast
  from emit_jump_ext [OF p(1) t4(2), of OP_JUMP] obtain t5 where
    t5: "emit_jump OP_JUMP t4 = (code_count s1 + length (cc @ [OP_JUMP_IF_FALSE, 0xFF, 0xFF, OP_POP] @ ca) + 1, t5)"
      "ext (expr_size c + block_size a) s1 t5 ((cc @ [OP_JUMP_IF_FALSE, 0xFF, 0xFF, OP_POP] @ ca) @ [OP_JUMP, 0xFF, 0xFF])"
      "ext 0 t4 t5 [OP_JUMP, 0xFF, 0xFF]" "same_toks t4 t5" .
  have e5: "ext (expr_size c + block_size a) s1 t5 (cc @ OP_JUMP_IF_FALSE # 0xFF # 0xFF # OP_POP # ca @ [OP_JUMP, 0xFF, 0xFF])"
    using t5(2) by simp
  have l5: "length (OP_POP # ca @ [OP_JUMP, 0xFF, 0xFF]) \<le> 65535" using a(3) t4(5) by (simp add: room_def)
  from patch_keeps [OF p(1) e5 l5] obtain t6 lo hi where
    t6: "patch_jump (code_count s1 + length cc + 1) t5 = t6" "short_is lo hi (length (OP_POP # ca @ [OP_JUMP, 0xFF, 0xFF]))"
      "ext (expr_size c + block_size a) s1 t6 (cc @ OP_JUMP_IF_FALSE # lo # hi # OP_POP # ca @ [OP_JUMP, 0xFF, 0xFF])"
      "same_toks t5 t6" "keeps t5 t6" .
  let ?t7 = "emit_byte OP_POP t6"
  let ?pre = "cc @ [OP_JUMP_IF_FALSE, lo, hi, OP_POP] @ ca"
  have e7: "ext (expr_size c + block_size a) s1 ?t7 (?pre @ [OP_JUMP, 0xFF, 0xFF, OP_POP])"
    using ext_emit [OF t6(3) p(1), of OP_POP] by simp
  have sc7: "script ?t7" by (rule ext_script [OF e7 p(1)])
  have r7: "room (block_size b) ?t7" by (rule ext_room [OF p(2) e7]) (simp_all add: t2(4) t4(5))
  have at7: "at_toks ?t7 (else_part b @ end_word # newline # ts)"
    using t4(4) same_toks_at [OF t5(4)] same_toks_at [OF t6(4)] t(1) by (simp del: at_toks.simps)
  from else_compiles [OF assms(2) ok(3) sc7 r7 at7] obtain t8 cb k3 where
    t8: "ext (block_size b) ?t7 t8 cb" "block_code (cs_heap t8) (pool t8) b cb" "at_toks t8 (end_word # newline # ts)"
      "\<forall>n \<ge> k3. (do {
       (b, s) \<leftarrow> match (Keyword TOKEN_ELSE) ?t7;
       if b then do { s \<leftarrow> skip_newlines s; block_loop n (run_compiler strtod n) end_stops s } else Some s }) = Some t8" by blast
  have lcb: "length cb = block_size b" by (rule block_code_length [OF t8(2)])
  have e8: "ext (expr_size c + block_size a + block_size b) s1 t8 (?pre @ OP_JUMP # 0xFF # 0xFF # OP_POP # cb)"
    using ext_trans [OF e7 t8(1)] by simp
  have l8: "length (OP_POP # cb) \<le> 65535" using a(3) lcb by (simp add: room_def)
  from patch_keeps [OF p(1) e8 l8] obtain t9 lo' hi' where
    t9: "patch_jump (code_count s1 + length ?pre + 1) t8 = t9" "short_is lo' hi' (length (OP_POP # cb))"
      "ext (expr_size c + block_size a + block_size b) s1 t9 (?pre @ OP_JUMP # lo' # hi' # OP_POP # cb)"
      "same_toks t8 t9" "keeps t8 t9" .
  let ?code = "cc @ [OP_JUMP_IF_FALSE, lo, hi, OP_POP] @ ca @ [OP_JUMP, lo', hi', OP_POP] @ cb"
  have k49: "keeps t4 t9"
    using ext_keeps [OF t5(3)] t6(5) ext_keeps [OF ext_emit_byte [OF ext_script [OF t6(3) p(1)], of OP_POP]] ext_keeps [OF t8(1)]
      t9(5) keeps_trans by blast
  have "expr_code (cs_heap t9) (pool t9) c cc" by (rule keeps_code(1) [OF keeps_trans [OF t4(6) k49] t2(2)])
  moreover have "block_code (cs_heap t9) (pool t9) a ca" by (rule keeps_code(3) [OF k49 t4(3)])
  moreover have "block_code (cs_heap t9) (pool t9) b cb" by (rule keeps_code(3) [OF t9(5) t8(2)])
  moreover have "short_is lo hi (length ca + 4)" "short_is lo' hi' (length cb + 1)"
    using t6(2) t9(2) by (simp_all add: short_is_def)
  ultimately have code: "stmt_code (cs_heap t9) (pool t9) (If_Else c a b) ?code" by (simp only: stmt_code.simps) blast
  have at9: "at_toks t9 (end_word # newline # ts)" using t8(3) same_toks_at [OF t9(4)] by (simp del: at_toks.simps)
  from consume_moves [OF at9, of "''Expected 'end' after if statement.''"] obtain t10 where
    t10: "consume (Keyword TOKEN_END) ''Expected 'end' after if statement.'' t9 = Some t10" "moved t9 t10" "at_toks t10 (newline # ts)"
    by auto
  note m10 = moved_same [OF t10(2)]
  have elsif: "elsif_loop n n rec js ?t7 = Some (js, ?t7)" if "n \<ge> 1" for n rec js
  proof -
    have "cur_type ?t7 \<noteq> Keyword TOKEN_ELSIF" using at7 t(1,5) by simp
    then show ?thesis using that match_no by (cases n) simp_all
  qed
  have skip9: "skip_newlines t9 = Some t9" by (rule skip_none [OF at9]) simp
  have "if_statement n (run_compiler strtod n) s1 = Some t10" if n: "n \<ge> Suc (max k1 (max k2 k3))" for n
  proof -
    have n1: "n \<ge> k1" "n \<ge> k2" "n \<ge> k3" "n \<ge> 1" using n by simp_all
    obtain bb u where u: "match (Keyword TOKEN_ELSE) ?t7 = Some (bb, u)"
      "(if bb then do { s \<leftarrow> skip_newlines u; block_loop n (run_compiler strtod n) end_stops s } else Some u) = Some t8"
      using spec [OF t8(4), of n] n1(3) by (auto simp: bind_eq_Some_conv)
    show ?thesis
      unfolding if_statement_def cond [OF n1(1)] Let_def bind.bind_lunit t4(1) case_prod_conv
      using t4(7) n1(2) t5(1) t6(1) t9(1) t10(1) elsif [OF n1(4)] skip9 u by simp
  qed
  then have st: "statement n (run_compiler strtod n) s = Some t10" if "n \<ge> Suc (max k1 (max k2 k3))" for n
    using that s1(1) at by (simp add: statement_def check_def)
  have "ext (stmt_size (If_Else c a b)) s t10 ?code"
    using ext_weaken [OF t9(3), of "stmt_size (If_Else c a b)"] m1(4) m10(3) by simp
  moreover have "stmt_code (cs_heap t10) (pool t10) (If_Else c a b) ?code"
    using code m10(5,6) by (simp del: stmt_code.simps)
  ultimately show "\<exists>s' code k. ext (stmt_size (If_Else c a b)) s s' code \<and> stmt_code (cs_heap s') (pool s') (If_Else c a b) code \<and>
      at_toks s' (newline # ts) \<and> (\<forall>n \<ge> k. statement n (run_compiler strtod n) s = Some s')"
    using st t10(3) by blast
qed

lemma stmt_compiles_all: "stmt_compiles strtod st" and block_compiles_all: "block_compiles strtod p"
proof (induction st and p rule: stmt_size_block_size.induct)
qed (blast intro: assign_compiles if_compiles while_compiles empty_block block_step)+

subsection \<open>Programs\<close>

lemma declaration_skips:
  assumes "skip_newlines s = Some s'" and "skip_newlines s' = Some s'"
  shows "run_compiler strtod n Declaration s = run_compiler strtod n Declaration s'"
  using assms by (cases n) (simp_all add: declaration_stmt_def)

lemma program_end:
  assumes "at_toks s []" and "script s"
  obtains s' where "ext 0 s s' []" "\<forall>m n. m \<ge> 1 \<longrightarrow> program_loop strtod m n s = Some s'"
proof -
  have "feeds (cs_lexer s) []" "cur_type s = Special TOKEN_EOF" using assms(1) by simp_all
  from advance_at [OF this(1)] obtain tk lx where
    "advance s = Some (s\<lparr>cs_previous := cs_current s, cs_lexer := lx, cs_current := tk\<rparr>)" .
  then have "match (Special TOKEN_EOF) s = Some (True, s\<lparr>cs_previous := cs_current s, cs_lexer := lx, cs_current := tk\<rparr>)"
    using \<open>cur_type s = Special TOKEN_EOF\<close> by (simp add: match_def check_def)
  then have "program_loop strtod m n s = Some (s\<lparr>cs_previous := cs_current s, cs_lexer := lx, cs_current := tk\<rparr>)" if "m \<ge> 1" for m n
    using that by (cases m) simp_all
  then show ?thesis using that [of "s\<lparr>cs_previous := cs_current s, cs_lexer := lx, cs_current := tk\<rparr>"] ext_refl [OF assms(2)] by simp
qed

text \<open>The loop is entered with or without the line end of the last statement.\<close>

lemma program_loop_compiles:
  assumes "block_ok p" and "script s" and "room (block_size p) s" and "at_toks s (block_toks p) \<or> at_toks s (newline # block_toks p)"
  shows "\<exists>s' code k. ext (block_size p) s s' code \<and> block_code (cs_heap s') (pool s') p code \<and>
    (\<forall>m \<ge> k. \<forall>n \<ge> k. program_loop strtod m n s = Some s')"
  using assms
proof (induction p arbitrary: s)
  case Nil
  show ?case
  proof (cases "at_toks s []")
    case True
    from program_end [where strtod = strtod, OF True Nil.prems(2)] obtain s' where "ext 0 s s' []" "\<forall>m n. m \<ge> 1 \<longrightarrow> program_loop strtod m n s = Some s'" .
    then show ?thesis by (intro exI [of _ s'] exI [of _ "[]"] exI [of _ 1]) simp
  next
    case False
    then have at: "at_toks s (newline # [])" using Nil.prems(4) by (simp only: block_toks.simps simp_thms)
    from skip_one [OF at] obtain s1 where s1: "skip_newlines s = Some s1" "moved s s1" "at_toks s1 []" by auto
    have sc: "script s1" using Nil.prems(2) moved_same [OF s1(2)] by simp
    from program_end [where strtod = strtod, OF s1(3) sc] obtain s' where s': "ext 0 s1 s' []" "\<forall>m n. m \<ge> 1 \<longrightarrow> program_loop strtod m n s1 = Some s'" .
    have "program_loop strtod m n s = Some s'" if mk: "m \<ge> 2" and nk: "n \<ge> 2" for m n
    proof -
      obtain m' where m: "m = Suc m'" "m' \<ge> 1" using mk by (cases m) auto
      obtain n' where n: "n = Suc n'" using nk by (cases n) auto
      have "run_compiler strtod n Declaration s = Some s1"
        using s1(1,3) by (simp add: n declaration_stmt_def check_def)
      moreover have "match (Special TOKEN_EOF) s = Some (False, s)" using at by (intro match_no) simp
      ultimately show ?thesis using s'(2) m(2) by (simp add: m(1))
    qed
    moreover have "ext 0 s s' []" using s'(1) moved_same [OF s1(2)] by simp
    ultimately show ?thesis by (intro exI [of _ s'] exI [of _ "[]"] exI [of _ 2]) simp
  qed
next
  case (Cons st p)
  obtain s1 where s1: "skip_newlines s = Some s1" "moved s s1" "at_toks s1 (stmt_toks st @ newline # block_toks p)"
    "skip_newlines s1 = Some s1" "cur_type s \<noteq> Special TOKEN_EOF"
  proof -
    obtain t us where t: "stmt_toks st = t # us" "snd t \<in> {Literal TOKEN_IDENTIFIER, Keyword TOKEN_IF, Keyword TOKEN_WHILE}"
      using stmt_toks_hd by blast
    have nn: "no_newline (block_toks (st # p))" using t by auto
    show ?thesis
    proof (cases "at_toks s (block_toks (st # p))")
      case True
      then show ?thesis using that [of s] skip_none [OF True nn] t by auto
    next
      case False
      then have at: "at_toks s (newline # block_toks (st # p))" using Cons.prems(4) by simp
      from skip_one [OF at nn] obtain s1 where "skip_newlines s = Some s1" "moved s s1" "at_toks s1 (block_toks (st # p))" .
      then show ?thesis using that [of s1] skip_none [OF _ nn] at by simp
    qed
  qed
  note m1 = moved_same [OF s1(2)]
  have ok: "stmt_ok st" "block_ok p" using Cons.prems(1) by simp_all
  have sc: "script s1" "room (stmt_size st) s1" "room (block_size (st # p)) s1"
    using Cons.prems(2,3) m1(1,2) by (simp_all add: room_def)
  from declaration_compiles [OF stmt_compiles_all ok(1) sc(1,2) s1(3), of strtod] obtain s2 c1 k where
    s2: "ext (stmt_size st) s1 s2 c1" "stmt_code (cs_heap s2) (pool s2) st c1" "at_toks s2 (newline # block_toks p)"
      "\<And>n. n \<ge> k \<Longrightarrow> run_compiler strtod n Declaration s1 = Some s2" by blast
  have sc2: "script s2" by (rule ext_script [OF s2(1) sc(1)])
  have r2: "room (block_size p) s2" by (rule ext_room [OF sc(3) s2(1)]) (simp_all add: stmt_code_length [OF s2(2)])
  from Cons.IH [OF ok(2) sc2 r2 disjI2 [OF s2(3)]] obtain s3 c2 l where
    s3: "ext (block_size p) s2 s3 c2" "block_code (cs_heap s3) (pool s3) p c2"
      "\<forall>m \<ge> l. \<forall>n \<ge> l. program_loop strtod m n s2 = Some s3" by blast
  have code: "block_code (cs_heap s3) (pool s3) (st # p) (c1 @ c2)" using keeps_code(2) [OF ext_keeps [OF s3(1)] s2(2)] s3(2) by auto
  have ex: "ext (block_size (st # p)) s s3 (c1 @ c2)" using ext_trans [OF s2(1) s3(1)] m1(4) by simp
  have "program_loop strtod m n s = Some s3" if mk: "m \<ge> Suc (max k l)" and nk: "n \<ge> Suc (max k l)" for m n
  proof -
    obtain m' where m: "m = Suc m'" "l \<le> m'" using mk by (cases m) auto
    have n: "k \<le> n" "l \<le> n" using nk by simp_all
    show ?thesis
      using s2(4) [OF n(1)] s3(3) m(2) n(2) match_no [OF s1(5)] declaration_skips [OF s1(1,4)] by (simp add: m(1))
  qed
  then show ?case using code ex by blast
qed

lemma show_nat_spells: "spells (show_nat n) (Literal TOKEN_INT)"
  using show_nat_digits [of n] by (auto simp: spells_def is_digit_char_def is_digit_def Let_def)

lemma names_spell: "is_name x \<Longrightarrow> spells x (Literal TOKEN_IDENTIFIER)"
  by (auto simp: is_name_def spells_def)

lemma op_spells: "tok_ok (unop_tok op)" "tok_ok (binop_tok bop)"
  by (cases op; simp add: tok_ok_def spells_def operator_table_def) (cases bop; simp add: tok_ok_def spells_def operator_table_def)

lemma fixed_toks: "tok_ok (''('', Single TOKEN_LPAREN)" "tok_ok ('')'', Single TOKEN_RPAREN)" "tok_ok (''&&'', Multi TOKEN_AMP_AMP)"
  "tok_ok (''||'', Multi TOKEN_PIPE_PIPE)" "tok_ok (''='', Single TOKEN_EQUAL)" "tok_ok newline"
  "tok_ok (''nil'', Keyword TOKEN_NIL)" "tok_ok (''true'', Keyword TOKEN_TRUE)" "tok_ok (''false'', Keyword TOKEN_FALSE)"
  "tok_ok (''if'', Keyword TOKEN_IF)" "tok_ok (''while'', Keyword TOKEN_WHILE)" "tok_ok (''else'', Keyword TOKEN_ELSE)" "tok_ok end_word"
  by (simp_all add: tok_ok_def spells_def operator_table_def keyword_table_def)

lemma expr_toks_ok: "names_ok e \<Longrightarrow> t \<in> set (expr_body e) \<Longrightarrow> tok_ok t"
proof (induction e)
  case (Int_Lit n)
  then show ?case using show_nat_spells by (simp add: tok_ok_def)
next
  case (Var x)
  then show ?case using names_spell by (simp add: tok_ok_def)
qed (auto simp: parens_def op_spells fixed_toks split: if_splits)

lemma level_toks_ok: "names_ok e \<Longrightarrow> t \<in> set (expr_toks q e) \<Longrightarrow> tok_ok t"
  using expr_toks_ok [of e t] by (auto simp: parens_def fixed_toks split: if_splits)

lemma stmt_toks_ok: "stmt_ok st \<Longrightarrow> t \<in> set (stmt_toks st) \<Longrightarrow> tok_ok t"
  and block_toks_ok: "block_ok p \<Longrightarrow> t \<in> set (block_toks p) \<Longrightarrow> tok_ok t"
proof (induction st and p rule: stmt_size_block_size.induct)
  case (1 x e)
  then show ?case
    using names_spell [of x] level_toks_ok [of e t 1] by (auto simp: fixed_toks tok_ok_def [of "(x, _)"] simp del: expr_toks.simps)
next
  case (2 c a b)
  then show ?case using level_toks_ok [of c t 1] by (auto simp: fixed_toks simp del: expr_toks.simps split: if_splits)
next
  case (3 c a)
  then show ?case using level_toks_ok [of c t 1] by (auto simp: fixed_toks simp del: expr_toks.simps)
qed (auto simp: fixed_toks)

text \<open>The function that \<open>compile\<close> returns, and the heap it leaves.\<close>

definition program_function :: "heap \<Rightarrow> stmt list \<Rightarrow> ptr \<Rightarrow> bool" where
  "program_function h p fn \<longleftrightarrow> fn < length h \<and> (\<exists>f code. h ! fn = OBJ_FUNCTION f \<and> fn_arity f = 0 \<and> fn_upvalue_count f = 0 \<and>
     ck_code (fn_chunk f) = code @ [OP_NIL, OP_RETURN] \<and> block_code h (ck_constants (fn_chunk f)) p code)"

lemma program_compiles:
  assumes "block_ok p" and "block_size p \<le> 65000" and "length h + block_size p + 1 < 2 ^ 43"
  obtains s k where "\<forall>n \<ge> k. compile strtod n h (program_text p) = Some (Some (length h), s)"
    "program_function (cs_heap s) p (length h)" "heap_le (\<lambda>_. True) h (cs_heap s)" "\<not> cs_undefined s"
    "length (cs_heap s) \<le> length h + block_size p + 1"
proof -
  let ?s0 = "init_compiler TYPE_SCRIPT (init_state h (program_text p))"
  let ?f = "\<lparr>fn_arity = 0, fn_upvalue_count = 0, fn_chunk = chunk_init, fn_name = None\<rparr> :: obj_function"
  have h0: "cs_heap ?s0 = h @ [OBJ_FUNCTION ?f]"
    and c0: "cs_compilers ?s0 = [\<lparr>cp_function = length h, cp_type = TYPE_SCRIPT,
       cp_locals = [\<lparr>lc_name = [], lc_depth = 0, lc_is_captured = False\<rparr>], cp_upvalues = [], cp_scope_depth = 0\<rparr>]"
    and l0: "cs_lexer ?s0 = lexer_init (program_text p)"
    and fl: "\<not> cs_had_error ?s0" "\<not> cs_panic_mode ?s0" "\<not> cs_undefined ?s0" "\<not> cs_created_local ?s0"
    by (simp_all add: init_compiler_def init_state_def obj_function_new_def alloc_object_def update_cur_def cur_def)
  have fn0: "fn_of ?s0 = length h" by (simp add: fn_of_def cur_def c0)
  have sc0: "script ?s0" unfolding script_def fn0 by (simp add: h0 c0 fl)
  have ch0: "current_chunk ?s0 = chunk_init" by (simp add: current_chunk_fn fn0 h0 the_function_def)
  have r0: "room (block_size p) ?s0" using assms(2,3) by (simp add: room_def ch0 h0 chunk_init_def)
  have "feeds (cs_lexer ?s0) (block_toks p)"
    unfolding l0 by (rule feeds_print) (use block_toks_ok [OF assms(1)] in \<open>auto simp: lexer_init_def program_text_def\<close>)
  from advance_at [OF this] obtain tk lx where
    adv: "advance ?s0 = Some (?s0\<lparr>cs_previous := cs_current ?s0, cs_lexer := lx, cs_current := tk\<rparr>)"
      "at_toks (?s0\<lparr>cs_previous := cs_current ?s0, cs_lexer := lx, cs_current := tk\<rparr>) (block_toks p)" .
  let ?s1 = "?s0\<lparr>cs_previous := cs_current ?s0, cs_lexer := lx, cs_current := tk\<rparr>"
  have sc1: "script ?s1" "room (block_size p) ?s1" using sc0 r0 by simp_all
  from program_loop_compiles [OF assms(1) sc1 disjI1 [OF adv(2)], of strtod] obtain s2 code k where
    s2: "ext (block_size p) ?s1 s2 code" "block_code (cs_heap s2) (pool s2) p code"
      "\<forall>m \<ge> k. \<forall>n \<ge> k. program_loop strtod m n ?s1 = Some s2" by blast
  let ?s3 = "emit_return s2"
  have e3: "ext (block_size p) ?s0 ?s3 (code @ [OP_NIL, OP_RETURN])"
    using ext_emit [OF ext_emit [OF s2(1) sc1(1), of OP_NIL] sc1(1), of OP_RETURN] by (simp add: emit_return_def)
  have "ext 0 s2 ?s3 [OP_NIL, OP_RETURN]"
    using ext_emit [OF ext_emit_byte [OF ext_script [OF s2(1) sc1(1)], of OP_NIL], of OP_RETURN] ext_script [OF s2(1) sc1(1)]
    by (simp add: emit_return_def)
  then have code3: "block_code (cs_heap ?s3) (pool ?s3) p code" by (rule keeps_code(3) [OF ext_keeps s2(2)])
  note sc3 = ext_script [OF e3 sc0]
  have f3: "fn_of ?s3 = length h" using ext_fn [OF e3] fn0 by simp
  let ?s4 = "?s3\<lparr>cs_compilers := butlast (cs_compilers ?s3)\<rparr>"
  have "\<not> cs_had_error ?s3" "\<not> cs_undefined ?s3" using sc3 by (auto simp: script_def)
  then have res: "\<forall>n \<ge> k. compile strtod n h (program_text p) = Some (Some (length h), ?s4)"
    using s2(3) adv(1) f3 by (simp add: compile_def end_compiler_def Let_def fn_of_def)
  obtain ch where ch: "cs_heap ?s3 ! length h = OBJ_FUNCTION (?f\<lparr>fn_chunk := ch\<rparr>)"
    using e3 fn0 h0 by (auto simp: ext_def the_function_def)
  have cc: "current_chunk ?s3 = ch" using ch by (simp add: current_chunk_fn f3 the_function_def)
  have "ck_code ch = code @ [OP_NIL, OP_RETURN]" using e3 by (simp add: ext_def ch0 chunk_init_def cc)
  moreover have "length h < length (cs_heap ?s3)" using script_fn [OF sc3] f3 by simp
  ultimately have pf: "program_function (cs_heap ?s4) p (length h)"
    unfolding program_function_def using code3 cc ch
    by (intro conjI exI [of _ "?f\<lparr>fn_chunk := ch\<rparr>"] exI [of _ code]) simp_all
  have "heap_le (\<lambda>i. i \<noteq> length h) (cs_heap ?s0) (cs_heap ?s3)" using e3 fn0 by (simp add: ext_def)
  then have hl: "heap_le (\<lambda>_. True) h (cs_heap ?s4)"
    using heap_le_trans [OF heap_le_append [of "\<lambda>_. True" h "[OBJ_FUNCTION ?f]"], of _ "cs_heap ?s3" "\<lambda>_. True"] h0 by simp
  show ?thesis
    by (rule that [OF res pf hl]) (use e3 h0 \<open>\<not> cs_undefined ?s3\<close> in \<open>simp_all add: ext_def\<close>)
qed

end
