(* ===== verification/Execute_Correct.thy ===== *)
theory Execute_Correct
  imports Core_Code Vm
begin

section \<open>The machine runs the code of the core language\<close>

text \<open>
  A value of the core is boxed by \<open>enc\<close>; the globals of the machine hold an environment when the map
  object binds the interned names to the boxed values.  Running the code of an expression pushes its
  value or ends with its error; running the code of a program follows the big-step semantics.
\<close>

unbundle bit_operations_syntax

subsection \<open>Boxed values\<close>

fun enc :: "val \<Rightarrow> val64" where
  "enc VNil = VAL_NIL"
| "enc (VBool b) = BOOL_VAL b"
| "enc (VInt i) = INT_VAL (sint i)"

lemma int_val_payload: "take_bit 48 a = take_bit 48 b \<Longrightarrow> int_val a = int_val b"
  by (simp add: int_val_def mask_forms flip: take_bit_eq_mask)

lemma INT_VAL_word: "INT_VAL i = enc (VInt (word_of_int i))"
proof -
  have "take_bit 48 (signed_take_bit 47 i) = take_bit 48 i" by (simp add: take_bit_signed_take_bit)
  then have "take_bit 48 (word_of_int (signed_take_bit 47 i) :: 64 word) = take_bit 48 (word_of_int i)"
    by (simp flip: of_int_take_bit)
  then show ?thesis by (simp add: INT_VAL_def signed_of_int) (rule int_val_payload, simp)
qed

lemma int_val_word: "int_val (word_of_int i) = enc (VInt (word_of_int i))"
  using INT_VAL_word [of i] by (simp add: INT_VAL_def)

lemma enc_int: "IS_INT (enc (VInt i))" "AS_INT (enc (VInt i)) = sint i" "value_as_int (enc (VInt i)) = word_of_int (sint i)"
proof -
  have r: "- (2 ^ 47) \<le> sint i" "sint i < 2 ^ 47"
    using sint_greater_eq [of i] sint_less [of i] by simp_all
  show "IS_INT (enc (VInt i))" "AS_INT (enc (VInt i)) = sint i" using INT_VAL_int [OF r] by simp_all
  have "value_as_int (enc (VInt i)) = word_of_int (sint (value_as_int (enc (VInt i))))" by (simp del: enc.simps)
  then show "value_as_int (enc (VInt i)) = word_of_int (sint i)"
    using \<open>AS_INT (enc (VInt i)) = sint i\<close> unfolding AS_INT_def by (simp only:)
qed

lemma enc_others:
  "\<not> IS_INT VAL_NIL" "\<not> IS_INT (BOOL_VAL b)" "\<not> IS_FLOAT VAL_NIL" "\<not> IS_FLOAT (BOOL_VAL b)" "\<not> IS_PTR VAL_NIL" "\<not> IS_PTR (BOOL_VAL b)"
  by (simp_all add: vek_defs)

lemma enc_not:
  "\<not> IS_FLOAT (enc v)" "\<not> IS_PTR (enc v)" "IS_INT (enc v) \<longleftrightarrow> (\<exists>i. v = VInt i)"
proof -
  have "\<not> IS_FLOAT (enc (VInt i)) \<and> \<not> IS_PTR (enc (VInt i))" for i
    using value_tags_exclusive [of "enc (VInt i)"] enc_int(1) [of i] by (auto split: if_splits)
  then show "\<not> IS_FLOAT (enc v)" "\<not> IS_PTR (enc v)" by (cases v; simp add: enc_others)+
  show "IS_INT (enc v) \<longleftrightarrow> (\<exists>i. v = VInt i)" using enc_int(1) by (cases v) (simp_all add: enc_others)
qed

lemma enc_inj: "enc v = enc w \<longleftrightarrow> v = w"
proof
  assume e: "enc v = enc w"
  show "v = w"
  proof (cases v)
    case (VInt i)
    then obtain j where w: "w = VInt j" using e enc_not(3) [of v] enc_not(3) [of w] by auto
    have "sint i = sint j" using e enc_int(2) [of i] enc_int(2) [of j] by (simp only: VInt w)
    then show ?thesis using VInt w signed_word_eqI by blast
  next
    case VNil
    then show ?thesis using e enc_not(3) [of v] enc_not(3) [of w] by (cases w) (auto simp: vek_defs split: if_splits)
  next
    case (VBool b)
    then show ?thesis using e enc_not(3) [of v] enc_not(3) [of w] by (cases w) (auto simp: vek_defs split: if_splits)
  qed
qed simp

lemma enc_falsy: "IS_FALSY (enc v) \<longleftrightarrow> \<not> truthy v"
proof -
  have "IS_FALSY (enc v) \<longleftrightarrow> enc v = enc VNil \<or> enc v = enc (VBool False)" by (simp add: IS_FALSY_def BOOL_VAL_def)
  also have "\<dots> \<longleftrightarrow> \<not> truthy v" unfolding enc_inj by (cases v) auto
  finally show ?thesis .
qed

lemma enc_checks:
  "obj_of h (enc v) = None" "IS_STRING h (enc v) = False"
  "number_as_double L (enc v) = (case v of VInt i \<Rightarrow> Some (fp_of_int L (sint i)) | _ \<Rightarrow> None)"
  "vals_equal L (enc v) (enc w) \<longleftrightarrow> v = w"
proof -
  show o: "obj_of h (enc v) = None" using enc_not(2) by (simp add: obj_of_def)
  show "IS_STRING h (enc v) = False" by (simp add: IS_STRING_def o)
  show "number_as_double L (enc v) = (case v of VInt i \<Rightarrow> Some (fp_of_int L (sint i)) | _ \<Rightarrow> None)"
    unfolding number_as_double_def enc_not(3) using enc_not(1) [of v] enc_int(2) by (cases v) (auto simp del: enc.simps)
  show "vals_equal L (enc v) (enc w) \<longleftrightarrow> v = w" using enc_not(1) enc_inj by (simp add: vals_equal_def value_equal_def)
qed

lemma of_nat_enc: "int_val (of_nat n) = enc (VInt (of_nat n))"
  using int_val_word [of "int n"] by simp

subsection \<open>Operators\<close>

definition opcode_step :: "libc \<Rightarrow> u8 \<Rightarrow> vm \<Rightarrow> outcome option" where
  "opcode_step L b = dispatch_table L ! unat b"

lemma opcode_steps:
  "opcode_step L OP_CONSTANT = op_constant" "opcode_step L OP_NIL = op_nil" "opcode_step L OP_TRUE = op_true"
  "opcode_step L OP_FALSE = op_false" "opcode_step L OP_POP = op_pop" "opcode_step L OP_GET_GLOBAL = op_get_global"
  "opcode_step L OP_SET_GLOBAL = op_set_global" "opcode_step L OP_JUMP = op_jump" "opcode_step L OP_JUMP_IF_FALSE = op_jump_if_false"
  "opcode_step L OP_LOOP = op_loop" "opcode_step L OP_RETURN = op_return"
  by (simp_all add: opcode_step_def dispatch_table_def)

text \<open>What the machine does with the result of an operator.\<close>

fun deliver :: "eval_result \<Rightarrow> vm \<Rightarrow> outcome option" where
  "deliver (Yields v) m = continue_push (enc v) m"
| "deliver (Fails msg) m = fail msg m"
| "deliver Overflows m = None"

lemma binop_steps:
  "opcode_step L OP_ADD = op_add L" "opcode_step L OP_SUB = op_sub L" "opcode_step L OP_MUL = op_mul L"
  "opcode_step L OP_MOD = op_mod L" "opcode_step L OP_EQUAL = op_equal L" "opcode_step L OP_NOT_EQUAL = op_not_equal L"
  "opcode_step L OP_LESS = op_less L" "opcode_step L OP_LESS_EQUAL = op_less_equal L" "opcode_step L OP_GREATER = op_greater L"
  "opcode_step L OP_GREATER_EQUAL = op_greater_equal L" "opcode_step L OP_BAND = op_band" "opcode_step L OP_BOR = op_bor"
  "opcode_step L OP_BXOR = op_bxor" "opcode_step L OP_SHL = op_shl" "opcode_step L OP_SHR = op_shr"
  "opcode_step L OP_NEG = op_neg" "opcode_step L OP_NOT = op_not" "opcode_step L OP_BNOT = op_bnot"
  by (simp_all add: opcode_step_def dispatch_table_def)

lemma push_int: "continue_push (INT_VAL i) m = deliver (Yields (VInt (word_of_int i))) m"
  "continue_push (int_val (word_of_int i)) m = deliver (Yields (VInt (word_of_int i))) m"
  "continue_push (BOOL_VAL b) m = deliver (Yields (VBool b)) m" "fail msg m = deliver (Fails msg) m"
  by (simp_all only: INT_VAL_word int_val_word deliver.simps enc.simps(2))

lemma word_of_sint: "word_of_int (sint (x :: 48 word)) = x"
  by simp

lemma bits_enc:
  fixes i j :: "48 word"
  shows "int_val (word_of_int (sint i) AND word_of_int (sint j)) = enc (VInt (i AND j))"
    and "int_val (word_of_int (sint i) OR word_of_int (sint j)) = enc (VInt (i OR j))"
    and "int_val (word_of_int (sint i) XOR word_of_int (sint j)) = enc (VInt (i XOR j))"
    and "int_val (NOT (word_of_int (sint i))) = enc (VInt (NOT i))"
    and "int_val (push_bit n (word_of_int (sint i))) = enc (VInt (push_bit n i))"
  using int_val_word [of "sint i AND sint j"] int_val_word [of "sint i OR sint j"] int_val_word [of "sint i XOR sint j"]
    int_val_word [of "NOT (sint i)"] int_val_word [of "push_bit n (sint i)"]
  unfolding of_int_and_eq of_int_or_eq of_int_xor_eq of_int_not_eq of_int_push_bit word_of_sint
  by (simp_all only:)

lemma arith_enc:
  "INT_VAL (sint (i :: 48 word) + sint (j :: 48 word)) = enc (VInt (i + j))"
  "INT_VAL (sint i - sint j) = enc (VInt (i - j))" "INT_VAL (sint i * sint j) = enc (VInt (i * j))"
  "INT_VAL (- sint i) = enc (VInt (- i))"
  unfolding INT_VAL_word of_int_add of_int_diff of_int_mult of_int_minus word_of_sint by (rule refl)+

lemma int_binop_delivers:
  assumes "pop2 m = Some (enc (VInt i), enc (VInt j), m1)"
  shows "opcode_step L (binop_code op) m = deliver (int_binop op i j) m1"
proof -
  note e = assms enc_int [of i] enc_int [of j] enc_checks(4) [of L "VInt i" "VInt j"]
  have z: "sint j = 0 \<longleftrightarrow> j = 0" using signed_word_eqI [of j 0] by auto
  note b = binop_code.simps binop_steps bind.bind_lunit case_prod_conv e simp_thms if_True if_False int_binop.simps deliver.simps
    bits_enc arith_enc z val.inject
  show ?thesis
  proof (cases op)
    case Add then show ?thesis by (simp only: b op_add_def)
  next
    case Sub then show ?thesis by (simp only: b op_sub_def)
  next
    case Mul then show ?thesis by (simp only: b op_mul_def in_int64_def split: if_split) blast
  next
    case Mod then show ?thesis by (simp only: b op_mod_def INT_VAL_word split: if_split) blast
  next
    case Eq then show ?thesis by (simp only: b op_equal_def enc.simps(2))
  next
    case Not_Eq then show ?thesis by (simp only: b op_not_equal_def enc.simps(2))
  next
    case Less then show ?thesis by (simp only: b op_less_def order_op_def enc.simps(2))
  next
    case Less_Eq then show ?thesis by (simp only: b op_less_equal_def order_op_def enc.simps(2))
  next
    case Greater then show ?thesis by (simp only: b op_greater_def order_op_def enc.simps(2))
  next
    case Greater_Eq then show ?thesis by (simp only: b op_greater_equal_def order_op_def enc.simps(2))
  next
    case Bit_And then show ?thesis by (simp only: b op_band_def bit_op_def)
  next
    case Bit_Or then show ?thesis by (simp only: b op_bor_def bit_op_def)
  next
    case Bit_Xor then show ?thesis by (simp only: b op_bxor_def bit_op_def)
  next
    case Shl then show ?thesis by (simp only: b op_shl_def shift_op_def split: if_split) blast
  next
    case Shr then show ?thesis by (simp only: b op_shr_def shift_op_def INT_VAL_word split: if_split) blast
  qed
qed

lemma binop_delivers:
  assumes "pop2 m = Some (enc v, enc w, m1)"
  shows "opcode_step L (binop_code op) m = deliver (binop_result op v w) m1"
proof (cases "\<exists>i j. v = VInt i \<and> w = VInt j")
  case True
  then obtain i j where v: "v = VInt i" "w = VInt j" by blast
  show ?thesis using int_binop_delivers [of m i j m1 L op] assms by (simp add: v binop_result_def del: enc.simps)
next
  case False
  then have i: "(IS_INT (enc v) \<and> IS_INT (enc w)) = False" "(\<not> IS_INT (enc v) \<or> \<not> IS_INT (enc w)) = True"
    by (simp_all add: enc_not(3))
  have r: "binop_result op v w = (if op = Eq then Yields (VBool (v = w)) else if op = Not_Eq then Yields (VBool (v \<noteq> w))
      else Fails (operand_error op))"
    using False by (auto simp: binop_result_def split: val.split)
  have f: "float_op L f (enc v) (enc w) = None" for f using False by (auto simp: float_op_def enc_checks(3) split: val.split)
  have n: "(case number_as_double L (enc v) of None \<Rightarrow> B
      | Some x \<Rightarrow> (case number_as_double L (enc w) of None \<Rightarrow> B | Some y \<Rightarrow> A x y)) = B"
    for A :: "64 word \<Rightarrow> 64 word \<Rightarrow> outcome option" and B
    using False by (auto simp: enc_checks(3) split: val.split)
  note d = op_add_def op_sub_def op_mul_def op_mod_def op_equal_def op_not_equal_def op_less_def op_less_equal_def
    op_greater_def op_greater_equal_def order_op_def op_band_def op_bor_def op_bxor_def bit_op_def op_shl_def op_shr_def shift_op_def
  show ?thesis
    unfolding r
    by (cases op)
      (simp_all only: binop_code.simps binop_steps d bind.bind_lunit case_prod_conv assms i f n enc_checks(2,4) simp_thms if_True
        if_False option.case operand_error.simps deliver.simps enc.simps(2) binop.distinct append.simps)
qed

lemma unop_delivers:
  assumes "vm_pop m = Some (enc v, m1)"
  shows "opcode_step L (unop_code op) m = deliver (unop_result op v) m1"
proof (cases op)
  case Neg
  then show ?thesis
    using enc_not [of v] by (cases v) (simp_all add: binop_steps op_neg_def assms enc_int arith_enc del: enc.simps OP_NEG_def)
next
  case Logic_Not
  then show ?thesis using enc_falsy [of v] by (simp add: binop_steps op_not_def assms del: OP_NOT_def)
next
  case Bit_Not
  then show ?thesis
    using enc_not [of v] by (cases v) (simp_all add: binop_steps op_bnot_def assms enc_int bits_enc [unfolded of_int_sint] del: enc.simps OP_BNOT_def)
qed

subsection \<open>The state of the machine while it runs a script\<close>

text \<open>What stays the same: the closure, the map of globals and the output so far.\<close>

type_synonym script_ctx = "ptr \<times> ptr \<times> string"

definition conf :: "script_ctx \<Rightarrow> vm \<Rightarrow> heap \<Rightarrow> nat \<Rightarrow> val64 list \<Rightarrow> bool" where
  "conf ctx m h ip st \<longleftrightarrow> (case ctx of (cl, g, out) \<Rightarrow>
     vm_heap m = h \<and> vm_frames m = [\<lparr>cf_closure = cl, cf_ip = ip, cf_slots = 0\<rparr>] \<and> vm_top m = length st \<and>
     (\<forall>i < length st. vm_stack m i = st ! i) \<and> vm_globals m = g \<and> vm_open_upvalues m = [] \<and> \<not> vm_had_error m \<and>
     vm_call_depth m = 0 \<and> vm_out m = out)"

definition loaded :: "script_ctx \<Rightarrow> heap \<Rightarrow> chunk \<Rightarrow> bool" where
  "loaded ctx h ch \<longleftrightarrow> (case ctx of (cl, g, out) \<Rightarrow> \<exists>c f. cl < length h \<and> h ! cl = OBJ_CLOSURE c \<and>
     cl_function c < length h \<and> h ! cl_function c = OBJ_FUNCTION f \<and> fn_chunk f = ch)"

lemma loaded_chunk: "loaded ctx h ch \<Longrightarrow> conf ctx m h ip st \<Longrightarrow> frame_chunk m = ch"
  by (auto simp: conf_def loaded_def frame_chunk_def frame_closure_def the_closure_def the_function_def split: prod.splits)

definition code_at :: "chunk \<Rightarrow> nat \<Rightarrow> u8 list \<Rightarrow> bool" where
  "code_at ch ip code \<longleftrightarrow> (\<exists>pre post. ck_code ch = pre @ code @ post \<and> length pre = ip)"

lemma code_at_append: "code_at ch ip (c1 @ c2) \<Longrightarrow> code_at ch ip c1 \<and> code_at ch (ip + length c1) c2"
proof -
  assume "code_at ch ip (c1 @ c2)"
  then obtain pre post where "ck_code ch = pre @ (c1 @ c2) @ post" "length pre = ip" by (auto simp: code_at_def)
  then have "ck_code ch = pre @ c1 @ (c2 @ post)" "ck_code ch = (pre @ c1) @ c2 @ post" "length (pre @ c1) = ip + length c1"
    "length pre = ip" by simp_all
  then show ?thesis unfolding code_at_def by blast
qed

lemma code_at_skip: "code_at ch ip (bs @ c) \<Longrightarrow> length bs = n \<Longrightarrow> code_at ch (ip + n) c"
  using code_at_append by blast

lemma code_at_Cons: "code_at ch ip (b # c) \<Longrightarrow> code_at ch (Suc ip) c"
  using code_at_append [of ch ip "[b]" c] by simp

lemma code_at_byte: "code_at ch ip (b # c) \<Longrightarrow> ip < length (ck_code ch) \<and> ck_code ch ! ip = b"
  by (auto simp: code_at_def)

lemma conf_push:
  assumes "conf ctx m h ip st" and "length st < 65536"
  shows "conf ctx (vm_push v m) h ip (st @ [v])"
  using assms by (auto simp: conf_def vm_push_def nth_append split: prod.splits)

lemma conf_pop:
  assumes "conf ctx m h ip (st @ [v])"
  obtains m' where "vm_pop m = Some (v, m')" "conf ctx m' h ip st"
  using assms by (auto simp: conf_def vm_pop_def nth_append split: prod.splits)

lemma conf_pop2:
  assumes "conf ctx m h ip (st @ [a, b])"
  obtains m' where "pop2 m = Some (a, b, m')" "conf ctx m' h ip st"
proof -
  have "conf ctx m h ip ((st @ [a]) @ [b])" using assms by simp
  from conf_pop [OF this] obtain m1 where m1: "vm_pop m = Some (b, m1)" "conf ctx m1 h ip (st @ [a])" .
  from conf_pop [OF m1(2)] obtain m2 where "vm_pop m1 = Some (a, m2)" "conf ctx m2 h ip st" .
  then show ?thesis using that m1(1) by (simp add: pop2_def)
qed

lemma conf_peek: "conf ctx m h ip (st @ [v]) \<Longrightarrow> vm_peek 0 m = Some v"
  by (auto simp: conf_def vm_peek_def nth_append split: prod.splits)

lemma conf_read_byte:
  assumes "conf ctx m h ip st" and "loaded ctx h ch" and "code_at ch ip (b # rest)"
  obtains m' where "read_byte m = Some (b, m')" "conf ctx m' h (ip + 1) st"
proof
  have "frame_chunk m = ch" by (rule loaded_chunk [OF assms(2,1)])
  moreover have "cf_ip (hd (vm_frames m)) = ip" using assms(1) by (auto simp: conf_def split: prod.splits)
  ultimately show "read_byte m = Some (b, set_ip (ip + 1) m)"
    using code_at_byte [OF assms(3)] by (simp add: read_byte_def Let_def)
  show "conf ctx (set_ip (ip + 1) m) h (ip + 1) st" using assms(1) by (auto simp: conf_def set_ip_def split: prod.splits)
qed

lemma conf_read_short:
  assumes "conf ctx m h ip st" and "loaded ctx h ch" and "code_at ch ip (lo # hi # rest)" and "short_is lo hi n"
  obtains m' where "read_short m = Some (n, m')" "conf ctx m' h (ip + 2) st"
proof -
  from conf_read_byte [OF assms(1-3)] obtain m1 where m1: "read_byte m = Some (lo, m1)" "conf ctx m1 h (ip + 1) st" .
  have "code_at ch (ip + 1) (hi # rest)" using code_at_Cons [OF assms(3)] by simp
  from conf_read_byte [OF m1(2) assms(2) this] obtain m2 where m2: "read_byte m1 = Some (hi, m2)" "conf ctx m2 h (ip + 1 + 1) st" .
  show ?thesis using that [of m2] m1(1) m2 assms(4) by (simp add: read_short_def short_is_def)
qed

lemma conf_read_constant:
  assumes "conf ctx m h ip st" and "loaded ctx h ch" and "code_at ch ip (lo # hi # rest)" and "const_is (ck_constants ch) lo hi v"
  obtains m' where "read_constant m = Some (v, m')" "conf ctx m' h (ip + 2) st"
proof -
  obtain i where i: "i < length (ck_constants ch)" "short_is lo hi i" "ck_constants ch ! i = v" using assms(4) by (auto simp: const_is_def)
  from conf_read_short [OF assms(1-3) i(2)] obtain m' where m': "read_short m = Some (i, m')" "conf ctx m' h (ip + 2) st" .
  have "frame_chunk m' = ch" by (rule loaded_chunk [OF assms(2) m'(2)])
  then show ?thesis using that [of m'] m' i by (simp add: read_constant_def Let_def)
qed

lemma conf_read_string:
  assumes "conf ctx m h ip st" and "loaded ctx h ch" and "code_at ch ip (lo # hi # rest)" and "name_is h (ck_constants ch) lo hi x"
    and "length h < 2 ^ 43"
  obtains m' p where "read_string m = Some (p, m')" "conf ctx m' h (ip + 2) st" "find_string h x 0 = Some p" "str_at m' p = x"
proof -
  obtain p where p: "find_string h x 0 = Some p" "const_is (ck_constants ch) lo hi (OBJ_VAL p)" using assms(4) by (auto simp: name_is_def)
  from conf_read_constant [OF assms(1-3) p(2)] obtain m' where m': "read_constant m = Some (OBJ_VAL p, m')" "conf ctx m' h (ip + 2) st" .
  have q: "p < length h" "h ! p = OBJ_STRING x" using p(1) by (simp_all add: find_string_iff)
  have a: "obj_of h (OBJ_VAL p) = Some (OBJ_STRING x)" "AS_PTR (OBJ_VAL p) = p"
    using obj_of_OBJ_VAL [OF q(1) assms(5)] OBJ_VAL_ptr [of p] q assms(5) by simp_all
  have "vm_heap m' = h" using m'(2) by (auto simp: conf_def split: prod.splits)
  then show ?thesis
    using that [of p m'] m' p(1) a q(2) by (simp add: read_string_def IS_STRING_def str_at_def AS_STRING_def)
qed

text \<open>One turn of the dispatch loop.\<close>

lemma conf_fetch:
  assumes "conf ctx m h ip st" and "loaded ctx h ch" and "code_at ch ip (b # rest)" and "unat b < 49"
  obtains m' where "dispatch L m = opcode_step L b m'" "conf ctx m' h (ip + 1) st"
proof -
  let ?c = "vm_gc_countdown m - 1"
  let ?m = "m\<lparr>vm_gc_countdown := (if ?c \<le> 0 then GC_CHECK_INTERVAL else ?c)\<rparr>"
  have "conf ctx ?m h ip st" "\<not> vm_had_error m" using assms(1) by (auto simp: conf_def split: prod.splits)
  from conf_read_byte [OF this(1) assms(2,3)] obtain m' where "read_byte ?m = Some (b, m')" "conf ctx m' h (ip + 1) st" .
  then show ?thesis
    using that [of m'] \<open>\<not> vm_had_error m\<close> assms(4) by (simp add: dispatch_def opcode_step_def Let_def)
qed

subsection \<open>Globals\<close>

text \<open>The names in \<open>X\<close> have the values of \<open>env\<close>, the others those of \<open>base\<close>; the last conjunct leaves room for
  the names that are still unset.\<close>

type_synonym scope = "string set \<times> (string \<Rightarrow> val64 option)"

definition globals_hold :: "scope \<Rightarrow> script_ctx \<Rightarrow> heap \<Rightarrow> env \<Rightarrow> bool" where
  "globals_hold sc ctx h env \<longleftrightarrow> (case (sc, ctx) of ((X, base), (cl, g, out)) \<Rightarrow>
     finite X \<and> g < length h \<and> length h < 2 ^ 43 \<and> (\<exists>mp. h ! g = OBJ_MAP mp \<and> map_ok h mp \<and>
       key_map h mp = (\<lambda>x. if x \<in> X then map_option enc (env x) else base x) \<and>
       unat (om_length mp) + card {x \<in> X. env x = None} < 2 ^ 29))"

lemma globals_get:
  assumes "globals_hold (X, base) ctx h env" and "conf ctx m h ip st" and "find_string h x 0 = Some p" and "x \<in> X"
  shows "get_global p m = Some (map_option enc (env x))"
proof -
  obtain cl g out where ctx: "ctx = (cl, g, out)" by (cases ctx)
  obtain mp where mp: "g < length h" "length h < 2 ^ 43" "h ! g = OBJ_MAP mp" "map_ok h mp"
    "key_map h mp x = map_option enc (env x)" using assms(1,4) by (auto simp: globals_hold_def ctx)
  have v: "vm_globals m = g" "vm_heap m = h" "AS_MAP h (OBJ_VAL g) = mp"
    using set_map_map(1) [OF mp(1-3)] assms(2) by (auto simp: conf_def ctx)
  have "obj_map_get (key_hash h) mp p = Some (om_abs mp p)" using obj_map.get_law [of "key_hash h" mp p] mp(4) by (auto simp: map_ok_def)
  then show ?thesis using mp(5) assms(3) by (simp add: get_global_def v key_map_def)
qed

lemma card_unset:
  assumes "finite X" and "x \<in> X"
  shows "card {y \<in> X. (env(x \<mapsto> v)) y = None} + of_bool (env x = None) = card {y \<in> X. env y = None}"
proof (cases "env x")
  case None
  have e: "{y \<in> X. (env(x \<mapsto> v)) y = None} = {y \<in> X. env y = None} - {x}" by auto
  have "x \<in> {y \<in> X. env y = None}" "finite {y \<in> X. env y = None}" using None assms by simp_all
  then have "Suc (card ({y \<in> X. env y = None} - {x})) = card {y \<in> X. env y = None}" by (intro card_Suc_Diff1)
  then show ?thesis using None by (simp only: e) simp
next
  case (Some w)
  have "{y \<in> X. (env(x \<mapsto> v)) y = None} = {y \<in> X. env y = None}" using Some by auto
  then show ?thesis using Some by (simp del: fun_upd_apply)
qed

lemma globals_set:
  assumes "globals_hold (X, base) ctx h env" and "conf ctx m h ip st" and "find_string h x 0 = Some p" and "x \<in> X" and "loaded ctx h ch"
  obtains m' h' where "set_global p (enc v) m = Some m'" "conf ctx m' h' ip st" "globals_hold (X, base) ctx h' (env(x \<mapsto> v))"
    "loaded ctx h' ch" "heap_le (\<lambda>i. i \<noteq> fst (snd ctx)) h h'"
proof -
  obtain cl g out where ctx: "ctx = (cl, g, out)" by (cases ctx)
  obtain mp where mp: "finite X" "g < length h" "length h < 2 ^ 43" "h ! g = OBJ_MAP mp" "map_ok h mp"
    "key_map h mp = (\<lambda>x. if x \<in> X then map_option enc (env x) else base x)"
    "unat (om_length mp) + card {x \<in> X. env x = None} < 2 ^ 29" using assms(1) by (auto simp: globals_hold_def ctx)
  have c: "vm_globals m = g" "vm_heap m = h" using assms(2) by (auto simp: conf_def ctx)
  have v: "vmap m g = mp" using set_map_map(1) [OF mp(2-4)] by (simp add: c)
  have abs: "om_abs mp p = map_option enc (env x)" using mp(6) assms(3,4) by (auto simp: key_map_def dest: fun_cong [of _ _ x])
  from obj_map.store_law [of "key_hash h" mp p "enc v"] mp(5,7) obtain mp' b where
    s: "obj_map_set (key_hash h) mp p (enc v) = Some (mp', b)" "om_inv (key_hash h) mp'" "om_clean mp'"
      "om_abs mp' = (om_abs mp)(p \<mapsto> enc v)" "b \<longleftrightarrow> om_abs mp p = None" "unat (om_length mp') = unat (om_length mp) + of_bool b"
    by (auto simp: map_ok_def)
  have ok: "map_ok h mp'" using s(2-4) keys_ok_update [OF s(4) _ assms(3)] mp(5) by (simp add: map_ok_def)
  let ?h = "h[g := OBJ_MAP mp']"
  have le: "heap_le (\<lambda>i. i \<noteq> g) h ?h" by (rule set_map_map(3) [OF mp(2-4)])
  have km: "key_map ?h mp' = (key_map h mp)(x \<mapsto> enc v)"
    using keys_heap_le(2) [OF _ le, of mp'] ok key_map_update [OF s(4) assms(3)] by (simp add: map_ok_def)
  have "key_map ?h mp' = (\<lambda>y. if y \<in> X then map_option enc ((env(x \<mapsto> v)) y) else base y)"
    unfolding km mp(6) using assms(4) by auto
  moreover have "map_ok ?h mp'" by (rule map_ok_heap_le [OF ok le])
  moreover have "unat (om_length mp') + card {y \<in> X. (env(x \<mapsto> v)) y = None} < 2 ^ 29"
    using card_unset [OF mp(1) assms(4), of env v] mp(7) s(5,6) abs by (simp del: fun_upd_apply)
  ultimately have gh: "globals_hold (X, base) ctx ?h (env(x \<mapsto> v))" using mp(1-3) by (simp add: globals_hold_def ctx del: fun_upd_apply)
  obtain c f where cf: "cl < length h" "h ! cl = OBJ_CLOSURE c" "cl_function c < length h" "h ! cl_function c = OBJ_FUNCTION f"
    "fn_chunk f = ch" using assms(5) by (auto simp: loaded_def ctx)
  have "g \<noteq> cl" "g \<noteq> cl_function c" using cf(2,4) mp(4) by auto
  then have ld: "loaded ctx ?h ch" using cf by (auto simp: loaded_def ctx)
  show ?thesis
    by (rule that [of "m\<lparr>vm_heap := ?h\<rparr>" ?h]) (use s(1) v c gh ld le assms(2) in \<open>auto simp: set_global_def conf_def ctx\<close>)
qed

subsection \<open>Runs\<close>

definition goes :: "libc \<Rightarrow> vm \<Rightarrow> vm \<Rightarrow> bool" where
  "goes L = (\<lambda>m m'. dispatch L m = Some (Continue m'))\<^sup>*\<^sup>*"

lemma goes_refl [simp]: "goes L m m"
  by (simp add: goes_def)

lemma goes_step: "dispatch L m = Some (Continue m') \<Longrightarrow> goes L m' m'' \<Longrightarrow> goes L m m''"
  unfolding goes_def by (rule converse_rtranclp_into_rtranclp)

lemma goes_one: "dispatch L m = Some (Continue m') \<Longrightarrow> goes L m m'"
  by (rule goes_step [OF _ goes_refl])

lemma goes_trans: "goes L m m' \<Longrightarrow> goes L m' m'' \<Longrightarrow> goes L m m''"
  unfolding goes_def by (rule rtranclp_trans)

lemma run_goes: "goes L m m' \<Longrightarrow> run L m = run L m'"
  unfolding goes_def
proof (induction rule: rtranclp_induct)
  case (step m' m'')
  then show ?case using run.simps [of L m'] by simp
qed simp

text \<open>The machine has stopped with an error.\<close>

definition failed :: "script_ctx \<Rightarrow> vm \<Rightarrow> heap \<Rightarrow> string \<Rightarrow> bool" where
  "failed ctx m h msg \<longleftrightarrow> (case ctx of (cl, g, out) \<Rightarrow> vm_heap m = h \<and> vm_globals m = g \<and> vm_out m = out \<and>
     vm_error_msg m = take 511 (c_str msg) \<and> vm_had_error m)"

fun result_of :: "libc \<Rightarrow> script_ctx \<Rightarrow> heap \<Rightarrow> nat \<Rightarrow> val64 list \<Rightarrow> eval_result \<Rightarrow> vm \<Rightarrow> bool" where
  "result_of L ctx h ip st (Yields v) m = (\<exists>m'. goes L m m' \<and> conf ctx m' h ip (st @ [enc v]))"
| "result_of L ctx h ip st (Fails msg) m = (\<exists>m'. run L m = Some (INTERPRET_RUNTIME_ERROR, m') \<and> failed ctx m' h msg)"
| "result_of L ctx h ip st Overflows m = (run L m = None)"

lemma result_goes: "goes L m m1 \<Longrightarrow> result_of L ctx h ip st r m1 \<Longrightarrow> result_of L ctx h ip st r m"
  using goes_trans [of L m m1] run_goes [of L m m1] by (cases r) auto

lemma result_deliver:
  assumes "dispatch L m = deliver r m1" and "conf ctx m1 h ip st" and "length st < 65536"
  shows "result_of L ctx h ip st r m"
proof (cases r)
  case (Yields v)
  then have "dispatch L m = Some (Continue (vm_push (enc v) m1))" using assms(1) by (simp add: continue_push_def)
  then have "goes L m (vm_push (enc v) m1)" "conf ctx (vm_push (enc v) m1) h ip (st @ [enc v])"
    using goes_one conf_push [OF assms(2,3)] by blast+
  then show ?thesis unfolding Yields result_of.simps by blast
next
  case (Fails msg)
  have "run L m = Some (INTERPRET_RUNTIME_ERROR, runtime_error msg m1)"
    using assms(1) run.simps [of L m] by (simp add: Fails fail_def)
  moreover have "failed ctx (runtime_error msg m1) h msg"
    using assms(2) by (auto simp: failed_def conf_def runtime_error_def split: prod.splits)
  ultimately show ?thesis by (simp add: Fails)
next
  case Overflows
  then show ?thesis using assms(1) run.simps [of L m] by simp
qed

subsection \<open>Single instructions\<close>

lemma result_and_then:
  assumes "result_of L ctx h ip1 st1 r m"
    and "\<And>v m1. r = Yields v \<Longrightarrow> conf ctx m1 h ip1 (st1 @ [enc v]) \<Longrightarrow> result_of L ctx h ip2 st2 (f v) m1"
  shows "result_of L ctx h ip2 st2 (and_then r f) m"
proof (cases r)
  case (Yields v)
  then obtain m1 where m1: "goes L m m1" "conf ctx m1 h ip1 (st1 @ [enc v])" using assms(1) by auto
  show ?thesis using result_goes [OF m1(1) assms(2) [OF Yields m1(2)]] by (simp add: Yields)
qed (use assms(1) in simp_all)

lemma conf_ip: "conf ctx m h ip st \<Longrightarrow> vm_ip m = ip \<and> conf ctx (set_ip ip' m) h ip' st"
  by (auto simp: conf_def set_ip_def split: prod.splits)

lemma pop_steps:
  assumes "conf ctx m h ip (st @ [v])" and "loaded ctx h ch" and "code_at ch ip (OP_POP # rest)"
  obtains m' where "dispatch L m = Some (Continue m')" "conf ctx m' h (ip + 1) st"
proof -
  from conf_fetch [OF assms] obtain m1 where m1: "dispatch L m = opcode_step L OP_POP m1" "conf ctx m1 h (ip + 1) (st @ [v])" by auto
  from conf_pop [OF m1(2)] obtain m2 where "vm_pop m1 = Some (v, m2)" "conf ctx m2 h (ip + 1) st" .
  then show ?thesis using that m1(1) by (simp add: opcode_steps op_pop_def del: OP_POP_def)
qed

lemma conf_operand:
  assumes "conf ctx m h (ip + 1) st" and "loaded ctx h ch" and "code_at ch ip (b # lo # hi # rest)" and "short_is lo hi n"
  obtains m' where "read_short m = Some (n, m')" "conf ctx m' h (ip + 3) st"
proof -
  have "code_at ch (ip + 1) (lo # hi # rest)" "ip + 1 + 2 = ip + 3" using code_at_Cons [OF assms(3)] by simp_all
  with conf_read_short [OF assms(1,2) _ assms(4)] that show ?thesis by metis
qed

lemma jump_if_false_steps:
  assumes "conf ctx m h ip (st @ [enc v])" and "loaded ctx h ch" and "code_at ch ip (OP_JUMP_IF_FALSE # lo # hi # rest)"
    and "short_is lo hi n"
  obtains m' where "dispatch L m = Some (Continue m')" "conf ctx m' h (if truthy v then ip + 3 else ip + 3 + n) (st @ [enc v])"
proof -
  from conf_fetch [OF assms(1-3)] obtain m1 where
    m1: "dispatch L m = opcode_step L OP_JUMP_IF_FALSE m1" "conf ctx m1 h (ip + 1) (st @ [enc v])" by auto
  from conf_operand [OF m1(2) assms(2-4)] obtain m2 where m2: "read_short m1 = Some (n, m2)" "conf ctx m2 h (ip + 3) (st @ [enc v])" .
  show ?thesis
    using that [of "if truthy v then m2 else set_ip (ip + 3 + n) m2"] m1(1) m2 conf_peek [OF m2(2)] conf_ip [OF m2(2)]
    by (simp add: opcode_steps op_jump_if_false_def enc_falsy del: OP_JUMP_IF_FALSE_def)
qed

lemma jump_steps:
  assumes "conf ctx m h ip st" and "loaded ctx h ch" and "code_at ch ip (OP_JUMP # lo # hi # rest)" and "short_is lo hi n"
  obtains m' where "dispatch L m = Some (Continue m')" "conf ctx m' h (ip + 3 + n) st"
proof -
  from conf_fetch [OF assms(1-3)] obtain m1 where m1: "dispatch L m = opcode_step L OP_JUMP m1" "conf ctx m1 h (ip + 1) st" by auto
  from conf_operand [OF m1(2) assms(2-4)] obtain m2 where m2: "read_short m1 = Some (n, m2)" "conf ctx m2 h (ip + 3) st" .
  show ?thesis using that [of "set_ip (ip + 3 + n) m2"] m1(1) m2(1) conf_ip [OF m2(2)]
    by (simp add: opcode_steps op_jump_def del: OP_JUMP_def)
qed

lemma loop_steps:
  assumes "conf ctx m h ip st" and "loaded ctx h ch" and "code_at ch ip (OP_LOOP # lo # hi # rest)" and "short_is lo hi n"
    and "n \<le> ip + 3"
  obtains m' where "dispatch L m = Some (Continue m')" "conf ctx m' h (ip + 3 - n) st"
proof -
  from conf_fetch [OF assms(1-3)] obtain m1 where m1: "dispatch L m = opcode_step L OP_LOOP m1" "conf ctx m1 h (ip + 1) st" by auto
  from conf_operand [OF m1(2) assms(2-4)] obtain m2 where m2: "read_short m1 = Some (n, m2)" "conf ctx m2 h (ip + 3) st" .
  show ?thesis using that [of "set_ip (ip + 3 - n) m2"] m1(1) m2(1) conf_ip [OF m2(2)] assms(5)
    by (simp add: opcode_steps op_loop_def del: OP_LOOP_def)
qed

subsection \<open>Expressions\<close>

lemma binop_runs:
  assumes "conf ctx m h ip (st @ [enc v, enc w])" and "loaded ctx h ch" and "code_at ch ip (binop_code op # rest)" and "length st < 65536"
  shows "result_of L ctx h (ip + 1) st (binop_result op v w) m"
proof -
  have "unat (binop_code op) < 49" by (cases op) simp_all
  from conf_fetch [OF assms(1-3) this] obtain m1 where
    m1: "dispatch L m = opcode_step L (binop_code op) m1" "conf ctx m1 h (ip + 1) (st @ [enc v, enc w])" .
  from conf_pop2 [OF m1(2)] obtain m2 where m2: "pop2 m1 = Some (enc v, enc w, m2)" "conf ctx m2 h (ip + 1) st" .
  show ?thesis by (rule result_deliver [OF _ m2(2) assms(4)]) (simp only: m1(1) binop_delivers [OF m2(1)])
qed

lemma unop_runs:
  assumes "conf ctx m h ip (st @ [enc v])" and "loaded ctx h ch" and "code_at ch ip (unop_code op # rest)" and "length st < 65536"
  shows "result_of L ctx h (ip + 1) st (unop_result op v) m"
proof -
  have "unat (unop_code op) < 49" by (cases op) simp_all
  from conf_fetch [OF assms(1-3) this] obtain m1 where
    m1: "dispatch L m = opcode_step L (unop_code op) m1" "conf ctx m1 h (ip + 1) (st @ [enc v])" .
  from conf_pop [OF m1(2)] obtain m2 where m2: "vm_pop m1 = Some (enc v, m2)" "conf ctx m2 h (ip + 1) st" .
  show ?thesis by (rule result_deliver [OF _ m2(2) assms(4)]) (simp only: m1(1) unop_delivers [OF m2(1)])
qed

lemma literal_runs:
  assumes "conf ctx m h ip st" and "loaded ctx h ch" and "code_at ch ip [b]" and "length st < 65536"
    and "(b, v) \<in> {(OP_NIL, VNil), (OP_TRUE, VBool True), (OP_FALSE, VBool False)}"
  shows "result_of L ctx h (ip + 1) st (Yields v) m"
proof -
  have "unat b < 49" using assms(5) by auto
  from conf_fetch [OF assms(1-3) this] obtain m1 where m1: "dispatch L m = opcode_step L b m1" "conf ctx m1 h (ip + 1) st" .
  have "opcode_step L b m1 = deliver (Yields v) m1"
    using assms(5) by (elim insertE) (simp_all add: opcode_steps op_nil_def op_true_def op_false_def BOOL_VAL_def
      del: OP_NIL_def OP_TRUE_def OP_FALSE_def)
  then show ?thesis using m1 result_deliver [OF _ m1(2) assms(4)] by (simp only:)
qed

lemma constant_runs:
  assumes "conf ctx m h ip st" and "loaded ctx h ch" and "code_at ch ip (OP_CONSTANT # lo # hi # rest)" and "length st < 65536"
    and "const_is (ck_constants ch) lo hi (enc v)"
  shows "result_of L ctx h (ip + 3) st (Yields v) m"
proof -
  from conf_fetch [OF assms(1-3)] obtain m1 where m1: "dispatch L m = opcode_step L OP_CONSTANT m1" "conf ctx m1 h (ip + 1) st" by auto
  have "code_at ch (ip + 1) (lo # hi # rest)" using code_at_Cons [OF assms(3)] by simp
  from conf_read_constant [OF m1(2) assms(2) this assms(5)] obtain m2 where
    m2: "read_constant m1 = Some (enc v, m2)" "conf ctx m2 h (ip + 1 + 2) st" .
  have "opcode_step L OP_CONSTANT m1 = deliver (Yields v) m2"
    by (simp only: opcode_steps op_constant_def m2(1) bind.bind_lunit case_prod_conv deliver.simps)
  moreover have "ip + 1 + 2 = ip + 3" by simp
  ultimately show ?thesis using result_deliver [OF _ m2(2) assms(4), of L m "Yields v"] m1(1) by (simp only:)
qed

lemma variable_runs:
  assumes "conf ctx m h ip st" and "loaded ctx h ch" and "code_at ch ip (OP_GET_GLOBAL # lo # hi # rest)" and "length st < 65536"
    and "name_is h (ck_constants ch) lo hi x" and "globals_hold (X, base) ctx h env" and "x \<in> X"
  shows "result_of L ctx h (ip + 3) st (eval env (Var x)) m"
proof -
  from conf_fetch [OF assms(1-3)] obtain m1 where m1: "dispatch L m = opcode_step L OP_GET_GLOBAL m1" "conf ctx m1 h (ip + 1) st" by auto
  have "code_at ch (ip + 1) (lo # hi # rest)" "length h < 2 ^ 43"
    using code_at_Cons [OF assms(3)] assms(6) by (auto simp: globals_hold_def split: prod.splits)
  from conf_read_string [OF m1(2) assms(2) this(1) assms(5) this(2)] obtain m2 p where
    m2: "read_string m1 = Some (p, m2)" "conf ctx m2 h (ip + 1 + 2) st" "find_string h x 0 = Some p" "str_at m2 p = x" .
  have g: "get_global p m2 = Some (map_option enc (env x))" by (rule globals_get [OF assms(6) m2(2,3) assms(7)])
  have "opcode_step L OP_GET_GLOBAL m1 = deliver (eval env (Var x)) m2"
    using m2(1,4) g by (cases "env x") (simp_all add: opcode_steps op_get_global_def del: enc.simps OP_GET_GLOBAL_def)
  moreover have "ip + 1 + 2 = ip + 3" by simp
  ultimately show ?thesis using result_deliver [OF _ m2(2) assms(4), of L m "eval env (Var x)"] m1(1) by (simp only:)
qed

text \<open>Running the code of an expression pushes its value or ends with its error.\<close>

lemma expr_runs:
  assumes "loaded ctx h ch" and "globals_hold (X, base) ctx h env"
    and "expr_code h (ck_constants ch) e code" and "code_at ch ip code" and "conf ctx m h ip st"
    and "expr_vars e \<subseteq> X" and "length st + expr_size e \<le> 65536"
  shows "result_of L ctx h (ip + length code) st (eval env e) m"
  using assms(3-)
proof (induction e arbitrary: code ip m st)
  case Nil_Lit
  then show ?case using literal_runs [OF _ assms(1), of m ip st OP_NIL VNil L] by simp
next
  case (Bool_Lit b)
  then show ?case using literal_runs [OF _ assms(1), of m ip st "if b then OP_TRUE else OP_FALSE" "VBool b" L] by simp
next
  case (Int_Lit n)
  then obtain lo hi where c: "code = [OP_CONSTANT, lo, hi]" "const_is (ck_constants ch) lo hi (int_val (of_nat n))" by auto
  have "length st < 65536" using Int_Lit.prems(5) by simp
  from constant_runs [OF Int_Lit.prems(3) assms(1) Int_Lit.prems(2) [unfolded c(1)] this c(2) [unfolded of_nat_enc]]
  have "result_of L ctx h (ip + 3) st (Yields (VInt (of_nat n))) m" .
  moreover have "ip + length code = ip + 3" by (simp add: c(1))
  ultimately show ?case by (simp only: eval.simps)
next
  case (Var x)
  then obtain lo hi where c: "code = [OP_GET_GLOBAL, lo, hi]" "name_is h (ck_constants ch) lo hi x" by auto
  have x: "length st < 65536" "x \<in> X" using Var.prems(4,5) by simp_all
  from variable_runs [OF Var.prems(3) assms(1) Var.prems(2) [unfolded c(1)] x(1) c(2) assms(2) x(2)]
  have "result_of L ctx h (ip + 3) st (eval env (Var x)) m" .
  moreover have "ip + length code = ip + 3" by (simp add: c(1))
  ultimately show ?case by (simp only:)
next
  case (Unary op a)
  then obtain ca where c: "code = ca @ [unop_code op]" "expr_code h (ck_constants ch) a ca" by auto
  note at = code_at_append [OF Unary.prems(2) [unfolded c(1)]]
  have l: "expr_vars a \<subseteq> X" "length st + expr_size a \<le> 65536" "length st < 65536" using Unary.prems(4,5) by simp_all
  have "result_of L ctx h (ip + length ca + 1) st (and_then (eval env a) (unop_result op)) m"
    by (rule result_and_then [OF Unary.IH [OF c(2) conjunct1 [OF at] Unary.prems(3) l(1,2)]])
      (rule unop_runs [OF _ assms(1) conjunct2 [OF at] l(3)])
  moreover have "ip + length code = ip + length ca + 1" by (simp add: c(1))
  ultimately show ?case by (simp only: eval.simps)
next
  case (Binary op a b)
  then obtain ca cb where c: "code = ca @ cb @ [binop_code op]" "expr_code h (ck_constants ch) a ca" "expr_code h (ck_constants ch) b cb"
    by auto
  note at = code_at_append [OF Binary.prems(2) [unfolded c(1)]]
  note at2 = code_at_append [OF conjunct2 [OF at]]
  have l: "expr_vars a \<subseteq> X" "expr_vars b \<subseteq> X" "length st + expr_size a \<le> 65536" "length (st @ [enc v]) + expr_size b \<le> 65536"
    "length st < 65536" for v using Binary.prems(4,5) by (cases a; simp)+
  have "result_of L ctx h (ip + length ca + length cb + 1) st
      (and_then (eval env a) (\<lambda>v. and_then (eval env b) (binop_result op v))) m"
  proof (rule result_and_then [OF Binary.IH(1) [OF c(2) conjunct1 [OF at] Binary.prems(3) l(1,3)]])
    fix v m1
    assume m1: "conf ctx m1 h (ip + length ca) (st @ [enc v])"
    show "result_of L ctx h (ip + length ca + length cb + 1) st (and_then (eval env b) (binop_result op v)) m1"
      by (rule result_and_then [OF Binary.IH(2) [OF c(3) conjunct1 [OF at2] m1 l(2,4)]])
        (rule binop_runs [OF _ assms(1) conjunct2 [OF at2] l(5)], simp)
  qed
  moreover have "ip + length code = ip + length ca + length cb + 1" by (simp add: c(1))
  ultimately show ?case by (simp only: eval.simps)
next
  case (And_Then a b)
  then obtain ca cb lo hi where c: "code = ca @ [OP_JUMP_IF_FALSE, lo, hi, OP_POP] @ cb" "short_is lo hi (length cb + 1)"
    "expr_code h (ck_constants ch) a ca" "expr_code h (ck_constants ch) b cb" by auto
  note at = code_at_append [OF And_Then.prems(2) [unfolded c(1)]]
  have at2: "code_at ch (ip + length ca) (OP_JUMP_IF_FALSE # lo # hi # OP_POP # cb)" using conjunct2 [OF at] by simp
  have at3: "code_at ch (ip + length ca + 3) (OP_POP # cb)" "code_at ch (ip + length ca + 4) cb"
    using code_at_skip [of ch "ip + length ca" "[OP_JUMP_IF_FALSE, lo, hi]" "OP_POP # cb" 3]
      code_at_skip [of ch "ip + length ca" "[OP_JUMP_IF_FALSE, lo, hi, OP_POP]" "cb" 4] at2 by simp_all
  have l: "expr_vars a \<subseteq> X" "expr_vars b \<subseteq> X" "length st + expr_size a \<le> 65536" "length st + expr_size b \<le> 65536"
    using And_Then.prems(4,5) by simp_all
  have ip: "ip + length code = ip + length ca + 4 + length cb" by (simp add: c(1))
  show ?case unfolding eval.simps ip
  proof (rule result_and_then [OF And_Then.IH(1) [OF c(3) conjunct1 [OF at] And_Then.prems(3) l(1,3)]])
    fix v m1
    assume m1: "conf ctx m1 h (ip + length ca) (st @ [enc v])"
    from jump_if_false_steps [OF m1 assms(1) at2 c(2)] obtain m2 where m2: "dispatch L m1 = Some (Continue m2)"
      "conf ctx m2 h (if truthy v then ip + length ca + 3 else ip + length ca + 3 + (length cb + 1)) (st @ [enc v])" .
    show "result_of L ctx h (ip + length ca + 4 + length cb) st (if truthy v then eval env b else Yields v) m1"
    proof (cases "truthy v")
      case True
      with m2(2) have "conf ctx m2 h (ip + length ca + 3) (st @ [enc v])" by simp
      from pop_steps [OF this assms(1) at3(1)] obtain m3 where m3: "dispatch L m2 = Some (Continue m3)" "conf ctx m3 h (ip + length ca + 4) st"
        by (auto simp: numeral_eq_Suc)
      show ?thesis
        using result_goes [OF goes_step [OF m2(1) goes_one [OF m3(1)]] And_Then.IH(2) [OF c(4) at3(2) m3(2) l(2,4)]] True
        by (simp only: if_True)
    next
      case False
      then show ?thesis using goes_one [OF m2(1)] m2(2) by (auto simp: numeral_eq_Suc)
    qed
  qed
next
  case (Or_Else a b)
  then obtain ca cb lo hi lo' hi' where c: "code = ca @ [OP_JUMP_IF_FALSE, lo, hi, OP_JUMP, lo', hi', OP_POP] @ cb"
    "short_is lo hi 3" "short_is lo' hi' (length cb + 1)"
    "expr_code h (ck_constants ch) a ca" "expr_code h (ck_constants ch) b cb" by auto
  note at = code_at_append [OF Or_Else.prems(2) [unfolded c(1)]]
  have at2: "code_at ch (ip + length ca) (OP_JUMP_IF_FALSE # lo # hi # OP_JUMP # lo' # hi' # OP_POP # cb)" using conjunct2 [OF at] by simp
  have at3: "code_at ch (ip + length ca + 3) (OP_JUMP # lo' # hi' # OP_POP # cb)" "code_at ch (ip + length ca + 6) (OP_POP # cb)"
    "code_at ch (ip + length ca + 7) cb"
    using code_at_skip [of ch "ip + length ca" "[OP_JUMP_IF_FALSE, lo, hi]" "OP_JUMP # lo' # hi' # OP_POP # cb" 3]
      code_at_skip [of ch "ip + length ca" "[OP_JUMP_IF_FALSE, lo, hi, OP_JUMP, lo', hi']" "OP_POP # cb" 6]
      code_at_skip [of ch "ip + length ca" "[OP_JUMP_IF_FALSE, lo, hi, OP_JUMP, lo', hi', OP_POP]" "cb" 7] at2 by simp_all
  have l: "expr_vars a \<subseteq> X" "expr_vars b \<subseteq> X" "length st + expr_size a \<le> 65536" "length st + expr_size b \<le> 65536"
    using Or_Else.prems(4,5) by simp_all
  have ip: "ip + length code = ip + length ca + 7 + length cb" by (simp add: c(1))
  show ?case unfolding eval.simps ip
  proof (rule result_and_then [OF Or_Else.IH(1) [OF c(4) conjunct1 [OF at] Or_Else.prems(3) l(1,3)]])
    fix v m1
    assume m1: "conf ctx m1 h (ip + length ca) (st @ [enc v])"
    from jump_if_false_steps [OF m1 assms(1) at2 c(2)] obtain m2 where m2: "dispatch L m1 = Some (Continue m2)"
      "conf ctx m2 h (if truthy v then ip + length ca + 3 else ip + length ca + 3 + 3) (st @ [enc v])" .
    show "result_of L ctx h (ip + length ca + 7 + length cb) st (if truthy v then Yields v else eval env b) m1"
    proof (cases "truthy v")
      case True
      with m2(2) have "conf ctx m2 h (ip + length ca + 3) (st @ [enc v])" by simp
      from jump_steps [OF this assms(1) at3(1) c(3)] obtain m3 where
        m3: "dispatch L m2 = Some (Continue m3)" "conf ctx m3 h (ip + length ca + 3 + 3 + (length cb + 1)) (st @ [enc v])" .
      have "ip + length ca + 3 + 3 + (length cb + 1) = ip + length ca + 7 + length cb" by simp
      then have "conf ctx m3 h (ip + length ca + 7 + length cb) (st @ [enc v])" using m3(2) by (simp only:)
      then show ?thesis using goes_step [OF m2(1) goes_one [OF m3(1)]] True by auto
    next
      case False
      with m2(2) have "conf ctx m2 h (ip + length ca + 6) (st @ [enc v])" by (simp add: ac_simps)
      from pop_steps [OF this assms(1) at3(2)] obtain m3 where m3: "dispatch L m2 = Some (Continue m3)" "conf ctx m3 h (ip + length ca + 7) st"
        by (auto simp: numeral_eq_Suc)
      show ?thesis
        using result_goes [OF goes_step [OF m2(1) goes_one [OF m3(1)]] Or_Else.IH(2) [OF c(5) at3(3) m3(2) l(2,4)]] False
        by (simp only: if_False)
    qed
  qed
qed

end
