(* ===== verification/Program_Correct.thy ===== *)
theory Program_Correct
  imports Compile_Program Execute_Correct
begin

section \<open>Interpreting a program of the core language\<close>

text \<open>
  The code of a program follows the big-step semantics, statement by statement; with the correctness of
  the compiler this gives the contract of \<open>vm_interpret\<close> on the text of a program.
\<close>

subsection \<open>Statements\<close>

text \<open>From \<open>m\<close> the machine arrives at \<open>ip\<close> with the stack \<open>st\<close>, or it stops with the error \<open>r\<close>; the globals
  are those of \<open>env\<close>.\<close>

definition ends :: "libc \<Rightarrow> scope \<Rightarrow> script_ctx \<Rightarrow> chunk \<Rightarrow> heap \<Rightarrow> nat \<Rightarrow> val64 list \<Rightarrow> env \<Rightarrow> string option \<Rightarrow> vm \<Rightarrow> bool" where
  "ends L sc ctx ch h ip st env r m \<longleftrightarrow> (\<exists>m' h'. loaded ctx h' ch \<and> globals_hold sc ctx h' env \<and>
     heap_le (\<lambda>i. i \<noteq> fst (snd ctx)) h h' \<and>
     (case r of None \<Rightarrow> goes L m m' \<and> conf ctx m' h' ip st
      | Some msg \<Rightarrow> run L m = Some (INTERPRET_RUNTIME_ERROR, m') \<and> failed ctx m' h' msg))"

lemma ends_goes: "goes L m m1 \<Longrightarrow> ends L sc ctx ch h ip st env r m1 \<Longrightarrow> ends L sc ctx ch h ip st env r m"
  using goes_trans [of L m m1] run_goes [of L m m1] unfolding ends_def by (cases r) auto

lemma ends_heap_le: "heap_le (\<lambda>i. i \<noteq> fst (snd ctx)) h h1 \<Longrightarrow> ends L sc ctx ch h1 ip st env r m \<Longrightarrow> ends L sc ctx ch h ip st env r m"
  unfolding ends_def by (meson heap_le_trans)

lemma ends_here: "loaded ctx h ch \<Longrightarrow> globals_hold sc ctx h env \<Longrightarrow> conf ctx m h ip st \<Longrightarrow> ends L sc ctx ch h ip st env None m"
  unfolding ends_def by (intro exI [of _ m] exI [of _ h]) (simp add: heap_le_refl)

lemma ends_seq:
  assumes "ends L sc ctx ch h ip1 st1 env1 None m"
    and "\<And>m1 h1. loaded ctx h1 ch \<Longrightarrow> globals_hold sc ctx h1 env1 \<Longrightarrow> heap_le (\<lambda>i. i \<noteq> fst (snd ctx)) h h1 \<Longrightarrow> conf ctx m1 h1 ip1 st1 \<Longrightarrow>
      ends L sc ctx ch h1 ip2 st2 env2 r m1"
  shows "ends L sc ctx ch h ip2 st2 env2 r m"
proof -
  from assms(1) obtain m1 h1 where m1: "loaded ctx h1 ch" "globals_hold sc ctx h1 env1" "heap_le (\<lambda>i. i \<noteq> fst (snd ctx)) h h1"
    "goes L m m1" "conf ctx m1 h1 ip1 st1" unfolding ends_def by auto
  show ?thesis by (rule ends_goes [OF m1(4) ends_heap_le [OF m1(3) assms(2) [OF m1(1,2,3,5)]]])
qed

lemma ends_fails: "ends L sc ctx ch h ip1 st1 env (Some msg) m \<Longrightarrow> ends L sc ctx ch h ip2 st2 env (Some msg) m"
  unfolding ends_def by auto

lemma ends_result:
  assumes "loaded ctx h ch" and "globals_hold sc ctx h env" and "result_of L ctx h ip st (Fails msg) m"
  shows "ends L sc ctx ch h ip' st' env (Some msg) m"
  using assms heap_le_refl unfolding ends_def by auto

text \<open>A condition and the branch after it.\<close>

lemma branch_runs:
  assumes ld: "loaded ctx h ch" and "globals_hold (X, base) ctx h env"
    and code: "code_at ch ip (cc @ [OP_JUMP_IF_FALSE, lo, hi, OP_POP] @ ca @ [b, lo', hi', OP_POP] @ rest)"
    and "expr_code h (ck_constants ch) c cc" and sh: "short_is lo hi (length ca + 4)" and "conf ctx m h ip st"
    and "expr_vars c \<subseteq> X" and "length st + expr_size c \<le> 65536" and "eval env c = Yields v"
  obtains m' where "goes L m m'" "conf ctx m' h (if truthy v then ip + length cc + 4 else ip + length cc + length ca + 8) st"
proof -
  have "code_at ch ip cc" "code_at ch (ip + length cc) (OP_JUMP_IF_FALSE # lo # hi # OP_POP # ca @ [b, lo', hi', OP_POP] @ rest)"
    using code_at_append [OF code] by simp_all
  note at = this
  have at2: "code_at ch (ip + length cc + 3) (OP_POP # ca @ [b, lo', hi', OP_POP] @ rest)"
    using code_at_skip [of ch "ip + length cc" "[OP_JUMP_IF_FALSE, lo, hi]" "OP_POP # ca @ [b, lo', hi', OP_POP] @ rest" 3] at(2) by simp
  have at3: "code_at ch (ip + length cc + length ca + 7) (OP_POP # rest)"
    using code_at_skip [of ch ip "cc @ [OP_JUMP_IF_FALSE, lo, hi, OP_POP] @ ca @ [b, lo', hi']" "OP_POP # rest" "length cc + length ca + 7"] code
    by (simp add: add.assoc)
  have "result_of L ctx h (ip + length cc) st (Yields v) m"
    using expr_runs [OF assms(1,2,4) at(1) assms(6-8)] assms(9) by (simp only:)
  then obtain m1 where m1: "goes L m m1" "conf ctx m1 h (ip + length cc) (st @ [enc v])" by auto
  from jump_if_false_steps [OF m1(2) ld at(2) sh] obtain m2 where m2: "dispatch L m1 = Some (Continue m2)"
    "conf ctx m2 h (if truthy v then ip + length cc + 3 else ip + length cc + 3 + (length ca + 4)) (st @ [enc v])" .
  show ?thesis
  proof (cases "truthy v")
    case True
    then have "conf ctx m2 h (ip + length cc + 3) (st @ [enc v])" using m2(2) by simp
    from pop_steps [OF this ld at2] obtain m3 where m3: "dispatch L m2 = Some (Continue m3)" "conf ctx m3 h (ip + length cc + 3 + 1) st" .
    have "ip + length cc + 3 + 1 = ip + length cc + 4" by simp
    then show ?thesis using that [OF goes_trans [OF m1(1) goes_step [OF m2(1) goes_one [OF m3(1)]]]] m3(2) True by (simp only: if_True)
  next
    case False
    have "ip + length cc + 3 + (length ca + 4) = ip + length cc + length ca + 7" by simp
    then have "conf ctx m2 h (ip + length cc + length ca + 7) (st @ [enc v])" using m2(2) False by (simp only: if_False)
    from pop_steps [OF this ld at3] obtain m3 where m3: "dispatch L m2 = Some (Continue m3)" "conf ctx m3 h (ip + length cc + length ca + 7 + 1) st" .
    have "ip + length cc + length ca + 7 + 1 = ip + length cc + length ca + 8" by simp
    then show ?thesis using that [OF goes_trans [OF m1(1) goes_step [OF m2(1) goes_one [OF m3(1)]]]] m3(2) False by (simp only: if_False)
  qed
qed

lemma assign_runs:
  assumes ld: "loaded ctx h ch" and gh: "globals_hold (X, base) ctx h env"
    and "stmt_code h (ck_constants ch) (Assign x e) code" and code: "code_at ch ip code" and "conf ctx m h ip st"
    and "stmt_vars (Assign x e) \<subseteq> X" and "length st + expr_size e \<le> 65536" and "eval env e = Yields v"
  shows "ends L (X, base) ctx ch h (ip + length code) st (env(x \<mapsto> v)) None m"
proof -
  obtain ce lo hi where c: "code = ce @ [OP_SET_GLOBAL, lo, hi, OP_POP]" "expr_code h (ck_constants ch) e ce"
    "name_is h (ck_constants ch) lo hi x" using assms(3) by auto
  have at: "code_at ch ip ce" "code_at ch (ip + length ce) [OP_SET_GLOBAL, lo, hi, OP_POP]" "code_at ch (ip + length ce + 1) [lo, hi, OP_POP]"
    "code_at ch (ip + length ce + 3) [OP_POP]"
    using code_at_append [OF code [unfolded c(1)]] code_at_skip [of ch "ip + length ce" "[OP_SET_GLOBAL]" "[lo, hi, OP_POP]" 1]
      code_at_skip [of ch "ip + length ce" "[OP_SET_GLOBAL, lo, hi]" "[OP_POP]" 3] by simp_all
  have X: "expr_vars e \<subseteq> X" "x \<in> X" "length h < 2 ^ 43" using assms(6) gh by (auto simp: globals_hold_def split: prod.splits)
  have "result_of L ctx h (ip + length ce) st (Yields v) m"
    using expr_runs [OF ld gh c(2) at(1) assms(5) X(1) assms(7)] assms(8) by (simp only:)
  then obtain m1 where m1: "goes L m m1" "conf ctx m1 h (ip + length ce) (st @ [enc v])" by auto
  from conf_fetch [OF m1(2) ld at(2)] obtain m2 where
    m2: "dispatch L m1 = opcode_step L OP_SET_GLOBAL m2" "conf ctx m2 h (ip + length ce + 1) (st @ [enc v])" by auto
  from conf_read_string [OF m2(2) ld at(3) c(3) X(3)] obtain m3 p where
    m3: "read_string m2 = Some (p, m3)" "conf ctx m3 h (ip + length ce + 1 + 2) (st @ [enc v])" "find_string h x 0 = Some p" .
  from globals_set [OF gh m3(2,3) X(2) ld, of v] obtain m4 h' where
    m4: "set_global p (enc v) m3 = Some m4" "conf ctx m4 h' (ip + length ce + 1 + 2) (st @ [enc v])"
      "globals_hold (X, base) ctx h' (env(x \<mapsto> v))" "loaded ctx h' ch" "heap_le (\<lambda>i. i \<noteq> fst (snd ctx)) h h'" .
  have d4: "dispatch L m1 = Some (Continue m4)"
    using m2(1) m3(1) m4(1) globals_get [OF gh m3(2,3) X(2)] conf_peek [OF m3(2)]
    by (simp add: opcode_steps op_set_global_def del: OP_SET_GLOBAL_def)
  have e: "ip + length ce + 1 + 2 = ip + length ce + 3" by simp
  from pop_steps [OF m4(2) [unfolded e] m4(4) at(4)] obtain m5 where
    m5: "dispatch L m4 = Some (Continue m5)" "conf ctx m5 h' (ip + length ce + 3 + 1) st" .
  have "ip + length ce + 3 + 1 = ip + length code" by (simp add: c(1))
  then show ?thesis
    using ends_goes [OF goes_trans [OF m1(1) goes_step [OF d4 goes_one [OF m5(1)]]] ends_heap_le [OF m4(5) ends_here [OF m4(4,3) m5(2)]]]
    by (simp only:)
qed

text \<open>The statements with blocks, given that the blocks run as they should.\<close>

lemma if_enters:
  assumes ld: "loaded ctx h ch" and gh: "globals_hold (X, base) ctx h env"
    and "stmt_code h (ck_constants ch) (If_Else c a b) code" and code: "code_at ch ip code" and "conf ctx m h ip st"
    and "expr_vars c \<subseteq> X" and "length st + expr_size c \<le> 65536" and v: "eval env c = Yields v"
  obtains m' i cp where "goes L m m'" "conf ctx m' h i st" "block_code h (ck_constants ch) (if truthy v then a else b) cp" "code_at ch i cp"
proof -
  obtain cc ca cb lo hi lo' hi' where c: "code = cc @ [OP_JUMP_IF_FALSE, lo, hi, OP_POP] @ ca @ [OP_JUMP, lo', hi', OP_POP] @ cb"
    "short_is lo hi (length ca + 4)" "expr_code h (ck_constants ch) c cc"
    "block_code h (ck_constants ch) a ca" "block_code h (ck_constants ch) b cb" using assms(3) by auto
  have at: "code_at ch (ip + length cc + 4) (ca @ [OP_JUMP, lo', hi', OP_POP] @ cb)" "code_at ch (ip + length cc + length ca + 8) cb"
    using code_at_skip [of ch ip "cc @ [OP_JUMP_IF_FALSE, lo, hi, OP_POP]" "ca @ [OP_JUMP, lo', hi', OP_POP] @ cb" "length cc + 4"]
      code_at_skip [of ch ip "cc @ [OP_JUMP_IF_FALSE, lo, hi, OP_POP] @ ca @ [OP_JUMP, lo', hi', OP_POP]" cb "length cc + length ca + 8"]
      code c(1) by (simp_all add: add.assoc)
  note at2 = code_at_append [OF at(1)]
  from branch_runs [OF ld gh code [unfolded c(1)] c(3,2) assms(5-8), of L] obtain m1 where m1: "goes L m m1"
    "conf ctx m1 h (if truthy v then ip + length cc + 4 else ip + length cc + length ca + 8) st" .
  show ?thesis
    by (rule that [OF m1, of "if truthy v then ca else cb"]) (use c(4,5) at2 at(2) in simp_all)
qed

lemma if_runs:
  assumes ld: "loaded ctx h ch" and gh: "globals_hold (X, base) ctx h env"
    and "stmt_code h (ck_constants ch) (If_Else c a b) code" and code: "code_at ch ip code" and "conf ctx m h ip st"
    and "expr_vars c \<subseteq> X" and "length st + expr_size c \<le> 65536" and v: "eval env c = Yields v"
    and block: "\<And>cp i m. block_code h (ck_constants ch) (if truthy v then a else b) cp \<Longrightarrow> code_at ch i cp \<Longrightarrow> conf ctx m h i st \<Longrightarrow>
      ends L (X, base) ctx ch h (i + length cp) st env' r m"
  shows "ends L (X, base) ctx ch h (ip + length code) st env' r m"
proof -
  obtain cc ca cb lo hi lo' hi' where c: "code = cc @ [OP_JUMP_IF_FALSE, lo, hi, OP_POP] @ ca @ [OP_JUMP, lo', hi', OP_POP] @ cb"
    "short_is lo hi (length ca + 4)" "short_is lo' hi' (length cb + 1)" "expr_code h (ck_constants ch) c cc"
    "block_code h (ck_constants ch) a ca" "block_code h (ck_constants ch) b cb" using assms(3) by auto
  have at: "code_at ch (ip + length cc + 4) (ca @ [OP_JUMP, lo', hi', OP_POP] @ cb)" "code_at ch (ip + length cc + length ca + 8) cb"
    using code_at_skip [of ch ip "cc @ [OP_JUMP_IF_FALSE, lo, hi, OP_POP]" "ca @ [OP_JUMP, lo', hi', OP_POP] @ cb" "length cc + 4"]
      code_at_skip [of ch ip "cc @ [OP_JUMP_IF_FALSE, lo, hi, OP_POP] @ ca @ [OP_JUMP, lo', hi', OP_POP]" cb "length cc + length ca + 8"]
      code c(1) by (simp_all add: add.assoc)
  note at2 = code_at_append [OF at(1)]
  have jump: "code_at ch (ip + length cc + 4 + length ca) (OP_JUMP # lo' # hi' # OP_POP # cb)" using conjunct2 [OF at2] by simp
  have ip: "ip + length code = ip + length cc + length ca + 8 + length cb" by (simp add: c(1))
  from branch_runs [OF ld gh code [unfolded c(1)] c(4,2) assms(5-8), of L] obtain m1 where m1: "goes L m m1"
    "conf ctx m1 h (if truthy v then ip + length cc + 4 else ip + length cc + length ca + 8) st" .
  show ?thesis unfolding ip
  proof (rule ends_goes [OF m1(1)], cases "truthy v")
    case True
    have i: "ip + length cc + 4 + length ca + 3 + (length cb + 1) = ip + length cc + length ca + 8 + length cb" by simp
    have "ends L (X, base) ctx ch h (ip + length cc + 4 + length ca) st env' r m1"
      by (rule block) (use True c(5) at2 m1(2) in simp_all)
    then show "ends L (X, base) ctx ch h (ip + length cc + length ca + 8 + length cb) st env' r m1"
    proof (cases r)
      case None
      with \<open>ends L (X, base) ctx ch h (ip + length cc + 4 + length ca) st env' r m1\<close>
      have "ends L (X, base) ctx ch h (ip + length cc + 4 + length ca) st env' None m1" by (simp only:)
      then show ?thesis unfolding None
      proof (rule ends_seq)
        fix m2 h2
        assume h2: "loaded ctx h2 ch" "globals_hold (X, base) ctx h2 env'" "conf ctx m2 h2 (ip + length cc + 4 + length ca) st"
        from jump_steps [OF h2(3,1) jump c(3)] obtain m3 where m3: "dispatch L m2 = Some (Continue m3)"
          "conf ctx m3 h2 (ip + length cc + 4 + length ca + 3 + (length cb + 1)) st" .
        show "ends L (X, base) ctx ch h2 (ip + length cc + length ca + 8 + length cb) st env' None m2"
          by (rule ends_goes [OF goes_one [OF m3(1)] ends_here [OF h2(1,2) m3(2) [unfolded i]]])
      qed
    qed (simp add: ends_fails)
  next
    case False
    show "ends L (X, base) ctx ch h (ip + length cc + length ca + 8 + length cb) st env' r m1"
      by (rule block) (use False c(6) at(2) m1(2) in simp_all)
  qed
qed

lemma while_leaves:
  assumes "loaded ctx h ch" and "globals_hold (X, base) ctx h env"
    and "stmt_code h (ck_constants ch) (While c a) code" and code: "code_at ch ip code" and "conf ctx m h ip st"
    and "expr_vars c \<subseteq> X" and "length st + expr_size c \<le> 65536" and "eval env c = Yields v" and "\<not> truthy v"
  obtains m' where "goes L m m'" "conf ctx m' h (ip + length code) st"
proof -
  obtain cc ca lo hi lo' hi' where c: "code = cc @ [OP_JUMP_IF_FALSE, lo, hi, OP_POP] @ ca @ [OP_LOOP, lo', hi', OP_POP] @ []"
    "short_is lo hi (length ca + 4)" "expr_code h (ck_constants ch) c cc" using assms(3) by auto
  have ip: "ip + length code = ip + length cc + length ca + 8" by (simp add: c(1))
  from branch_runs [OF assms(1,2) code [unfolded c(1)] c(3,2) assms(5-8), of L] obtain m1 where m1: "goes L m m1"
    "conf ctx m1 h (if truthy v then ip + length cc + 4 else ip + length cc + length ca + 8) st" .
  show ?thesis by (rule that [OF m1(1)]) (use m1(2) assms(9) in \<open>simp only: ip if_False\<close>)
qed

lemma while_enters:
  assumes ld: "loaded ctx h ch" and gh: "globals_hold (X, base) ctx h env"
    and "stmt_code h (ck_constants ch) (While c a) code" and code: "code_at ch ip code" and "conf ctx m h ip st"
    and "expr_vars c \<subseteq> X" and "length st + expr_size c \<le> 65536" and "eval env c = Yields v" and "truthy v"
  obtains m' ca where "goes L m m'" "conf ctx m' h (ip + expr_size c + 4) st"
    "block_code h (ck_constants ch) a ca" "code_at ch (ip + expr_size c + 4) ca"
proof -
  obtain cc ca lo hi lo' hi' where c: "code = cc @ [OP_JUMP_IF_FALSE, lo, hi, OP_POP] @ ca @ [OP_LOOP, lo', hi', OP_POP] @ []"
    "short_is lo hi (length ca + 4)" "expr_code h (ck_constants ch) c cc" "block_code h (ck_constants ch) a ca" using assms(3) by auto
  note l = expr_code_length [OF c(3)]
  have at: "code_at ch (ip + length cc + 4) (ca @ [OP_LOOP, lo', hi', OP_POP])"
    using code_at_skip [of ch ip "cc @ [OP_JUMP_IF_FALSE, lo, hi, OP_POP]" "ca @ [OP_LOOP, lo', hi', OP_POP]" "length cc + 4"]
      code c(1) by (simp add: add.assoc)
  from branch_runs [OF ld gh code [unfolded c(1)] c(3,2) assms(5-8), of L] obtain m1 where m1: "goes L m m1"
    "conf ctx m1 h (if truthy v then ip + length cc + 4 else ip + length cc + length ca + 8) st" .
  show ?thesis
    by (rule that [OF m1(1) _ c(4)]) (use m1(2) assms(9) code_at_append [OF at] in \<open>simp_all only: l if_True\<close>)
qed

lemma while_body:
  assumes "stmt_code h (ck_constants ch) (While c a) code" and code: "code_at ch ip code" and "conf ctx m h (ip + expr_size c + 4) st"
    and block: "\<And>cp i m. block_code h (ck_constants ch) a cp \<Longrightarrow> code_at ch i cp \<Longrightarrow> conf ctx m h i st \<Longrightarrow>
      ends L (X, base) ctx ch h (i + length cp) st env' r m"
  shows "ends L (X, base) ctx ch h ip st env' r m"
proof -
  obtain cc ca lo hi lo' hi' where c: "code = cc @ [OP_JUMP_IF_FALSE, lo, hi, OP_POP] @ ca @ [OP_LOOP, lo', hi', OP_POP]"
    "short_is lo' hi' (length cc + length ca + 7)" "expr_code h (ck_constants ch) c cc"
    "block_code h (ck_constants ch) a ca" using assms(1) by auto
  note l = expr_code_length [OF c(3)]
  have at: "code_at ch (ip + length cc + 4) (ca @ [OP_LOOP, lo', hi', OP_POP])"
    using code_at_skip [of ch ip "cc @ [OP_JUMP_IF_FALSE, lo, hi, OP_POP]" "ca @ [OP_LOOP, lo', hi', OP_POP]" "length cc + 4"]
      code c(1) by (simp add: add.assoc)
  note at2 = code_at_append [OF at]
  have e: "ends L (X, base) ctx ch h (ip + length cc + 4 + length ca) st env' r m"
    by (rule block) (use c(4) at2 assms(3) in \<open>simp_all add: l\<close>)
  show ?thesis
  proof (cases r)
    case None
    show ?thesis unfolding None
    proof (rule ends_seq [OF e [unfolded None]])
      fix m2 h2
      assume h2: "loaded ctx h2 ch" "globals_hold (X, base) ctx h2 env'" "conf ctx m2 h2 (ip + length cc + 4 + length ca) st"
      have "length cc + length ca + 7 \<le> ip + length cc + 4 + length ca + 3" by simp
      from loop_steps [OF h2(3,1) conjunct2 [OF at2] c(2) this] obtain m3 where m3: "dispatch L m2 = Some (Continue m3)"
        "conf ctx m3 h2 (ip + length cc + 4 + length ca + 3 - (length cc + length ca + 7)) st" .
      have i: "ip + length cc + 4 + length ca + 3 - (length cc + length ca + 7) = ip" by simp
      show "ends L (X, base) ctx ch h2 ip st env' None m2"
        by (rule ends_goes [OF goes_one [OF m3(1)] ends_here [OF h2(1,2) m3(2) [unfolded i]]])
    qed
  next
    case (Some msg)
    then show ?thesis using ends_fails [OF e [unfolded Some]] by simp
  qed
qed

lemma while_runs:
  assumes ld: "loaded ctx h ch" and gh: "globals_hold (X, base) ctx h env"
    and sc: "stmt_code h (ck_constants ch) (While c a) code" and code: "code_at ch ip code" and "conf ctx m h ip st"
    and "expr_vars c \<subseteq> X" and "length st + expr_size c \<le> 65536" and "eval env c = Yields v" and "truthy v"
    and block: "\<And>cp i m. block_code h (ck_constants ch) a cp \<Longrightarrow> code_at ch i cp \<Longrightarrow> conf ctx m h i st \<Longrightarrow>
      ends L (X, base) ctx ch h (i + length cp) st env' r m"
  shows "ends L (X, base) ctx ch h ip st env' r m"
proof -
  from while_enters [OF assms(1-9), of L] obtain m1 where m1: "goes L m m1" "conf ctx m1 h (ip + expr_size c + 4) st" .
  show ?thesis by (rule ends_goes [OF m1(1) while_body [OF sc code m1(2) block]])
qed

text \<open>A whole program.\<close>

lemma block_code_heap_le: "block_code h cs p code \<Longrightarrow> heap_le P h h' \<Longrightarrow> block_code h' cs p code"
  using block_code_mono [of h cs p code P h' "[]"] by simp

lemma block_code_Cons:
  assumes "block_code h cs (s # p) code" and "code_at ch ip code"
  obtains c1 c2 where "code = c1 @ c2" "stmt_code h cs s c1" "block_code h cs p c2" "code_at ch ip c1" "code_at ch (ip + length c1) c2"
proof -
  obtain c1 c2 where c: "code = c1 @ c2" "stmt_code h cs s c1" "block_code h cs p c2" using assms(1) by auto
  show ?thesis using that [OF c] code_at_append [OF assms(2) [unfolded c(1)]] by blast
qed

lemma block_runs:
  assumes "exec env p env' r"
    and "loaded ctx h ch" and "globals_hold (X, base) ctx h env" and "block_code h (ck_constants ch) p code" and "code_at ch ip code"
    and "conf ctx m h ip st" and "block_vars p \<subseteq> X" and "length st + block_size p \<le> 65536"
  shows "ends L (X, base) ctx ch h (ip + length code) st env' r m"
  using assms
proof (induction arbitrary: h code ip m rule: exec.induct)
  case (exec_end env)
  then show ?case using ends_here by simp
next
  case (exec_assign env e v x p env' r)
  obtain c1 c2 where c: "code = c1 @ c2" "stmt_code h (ck_constants ch) (Assign x e) c1" "block_code h (ck_constants ch) p c2"
    "code_at ch ip c1" "code_at ch (ip + length c1) c2" by (rule block_code_Cons [OF exec_assign.prems(3,4)])
  have l: "stmt_vars (Assign x e) \<subseteq> X" "length st + expr_size e \<le> 65536" "block_vars p \<subseteq> X" "length st + block_size p \<le> 65536"
    using exec_assign.prems(6,7) by simp_all
  have ip: "ip + length code = ip + length c1 + length c2" by (simp add: c(1))
  show ?case unfolding ip
  proof (rule ends_seq [OF assign_runs [OF exec_assign.prems(1,2) c(2,4) exec_assign.prems(5) l(1,2) exec_assign.hyps(1)]])
    fix m1 h1
    assume h1: "loaded ctx h1 ch" "globals_hold (X, base) ctx h1 (env(x \<mapsto> v))" "heap_le (\<lambda>i. i \<noteq> fst (snd ctx)) h h1"
      "conf ctx m1 h1 (ip + length c1) st"
    show "ends L (X, base) ctx ch h1 (ip + length c1 + length c2) st env' r m1"
      by (rule exec_assign.IH [OF h1(1,2) block_code_heap_le [OF c(3) h1(3)] c(5) h1(4) l(3,4)])
  qed
next
  case (exec_assign_fails env e msg x p)
  obtain c1 c2 where c: "stmt_code h (ck_constants ch) (Assign x e) c1" "code_at ch ip c1"
    by (rule block_code_Cons [OF exec_assign_fails.prems(3,4)])
  obtain ce c3 where e: "c1 = ce @ c3" "expr_code h (ck_constants ch) e ce" using c(1) by auto
  have l: "expr_vars e \<subseteq> X" "length st + expr_size e \<le> 65536" using exec_assign_fails.prems(6,7) by simp_all
  have at: "code_at ch ip ce" using code_at_append [OF c(2) [unfolded e(1)]] by blast
  from expr_runs [OF exec_assign_fails.prems(1,2) e(2) at exec_assign_fails.prems(5) l, of L]
  show ?case unfolding exec_assign_fails.hyps by (rule ends_result [OF exec_assign_fails.prems(1,2)])
next
  case (exec_if env c v a b env' p env'' r)
  obtain c1 c2 where c: "code = c1 @ c2" "stmt_code h (ck_constants ch) (If_Else c a b) c1" "block_code h (ck_constants ch) p c2"
    "code_at ch ip c1" "code_at ch (ip + length c1) c2" by (rule block_code_Cons [OF exec_if.prems(3,4)])
  have l: "expr_vars c \<subseteq> X" "length st + expr_size c \<le> 65536" "block_vars (if truthy v then a else b) \<subseteq> X"
    "length st + block_size (if truthy v then a else b) \<le> 65536" "block_vars p \<subseteq> X" "length st + block_size p \<le> 65536"
    using exec_if.prems(6,7) by simp_all
  have ip: "ip + length code = ip + length c1 + length c2" by (simp add: c(1))
  note runs = if_runs [OF exec_if.prems(1,2) c(2,4) exec_if.prems(5) l(1,2) exec_if.hyps(1) exec_if.IH(1) [OF exec_if.prems(1,2) _ _ _ l(3,4)]]
  show ?case unfolding ip
  proof (rule ends_seq [OF runs])
    fix m1 h1
    assume h1: "loaded ctx h1 ch" "globals_hold (X, base) ctx h1 env'" "heap_le (\<lambda>i. i \<noteq> fst (snd ctx)) h h1"
      "conf ctx m1 h1 (ip + length c1) st"
    show "ends L (X, base) ctx ch h1 (ip + length c1 + length c2) st env'' r m1"
      by (rule exec_if.IH(2) [OF h1(1,2) block_code_heap_le [OF c(3) h1(3)] c(5) h1(4) l(5,6)])
  qed
next
  case (exec_if_fails env c v a b env' msg p)
  obtain c1 c2 where c: "stmt_code h (ck_constants ch) (If_Else c a b) c1" "code_at ch ip c1"
    by (rule block_code_Cons [OF exec_if_fails.prems(3,4)])
  have l: "expr_vars c \<subseteq> X" "length st + expr_size c \<le> 65536" "block_vars (if truthy v then a else b) \<subseteq> X"
    "length st + block_size (if truthy v then a else b) \<le> 65536" using exec_if_fails.prems(6,7) by simp_all
  show ?case
    by (rule ends_fails, rule if_runs [OF exec_if_fails.prems(1,2) c exec_if_fails.prems(5) l(1,2) exec_if_fails.hyps(1)
      exec_if_fails.IH [OF exec_if_fails.prems(1,2) _ _ _ l(3,4)]])
next
  case (exec_if_cond env c msg a b p)
  obtain c1 c2 where c: "stmt_code h (ck_constants ch) (If_Else c a b) c1" "code_at ch ip c1"
    by (rule block_code_Cons [OF exec_if_cond.prems(3,4)])
  obtain ce c3 where e: "c1 = ce @ c3" "expr_code h (ck_constants ch) c ce" using c(1) by auto
  have l: "expr_vars c \<subseteq> X" "length st + expr_size c \<le> 65536" using exec_if_cond.prems(6,7) by simp_all
  have at: "code_at ch ip ce" using code_at_append [OF c(2) [unfolded e(1)]] by blast
  from expr_runs [OF exec_if_cond.prems(1,2) e(2) at exec_if_cond.prems(5) l, of L]
  show ?case unfolding exec_if_cond.hyps by (rule ends_result [OF exec_if_cond.prems(1,2)])
next
  case (exec_while_end env c v p env' r a)
  obtain c1 c2 where c: "code = c1 @ c2" "stmt_code h (ck_constants ch) (While c a) c1" "block_code h (ck_constants ch) p c2"
    "code_at ch ip c1" "code_at ch (ip + length c1) c2" by (rule block_code_Cons [OF exec_while_end.prems(3,4)])
  have l: "expr_vars c \<subseteq> X" "length st + expr_size c \<le> 65536" "block_vars p \<subseteq> X" "length st + block_size p \<le> 65536"
    using exec_while_end.prems(6,7) by simp_all
  have ip: "ip + length code = ip + length c1 + length c2" by (simp add: c(1))
  from while_leaves [OF exec_while_end.prems(1,2) c(2,4) exec_while_end.prems(5) l(1,2) exec_while_end.hyps(1,2), of L] obtain m1 where
    m1: "goes L m m1" "conf ctx m1 h (ip + length c1) st" .
  show ?case unfolding ip
    by (rule ends_goes [OF m1(1) exec_while_end.IH [OF exec_while_end.prems(1,2) c(3,5) m1(2) l(3,4)]])
next
  case (exec_while env c v a env' p env'' r)
  obtain c1 c2 where c: "stmt_code h (ck_constants ch) (While c a) c1" "code_at ch ip c1"
    by (rule block_code_Cons [OF exec_while.prems(3,4)])
  have l: "expr_vars c \<subseteq> X" "length st + expr_size c \<le> 65536" "block_vars a \<subseteq> X" "length st + block_size a \<le> 65536"
    using exec_while.prems(6,7) by simp_all
  note runs = while_runs [OF exec_while.prems(1,2) c exec_while.prems(5) l(1,2) exec_while.hyps(1,2) exec_while.IH(1) [OF exec_while.prems(1,2) _ _ _ l(3,4)]]
  show ?case
  proof (rule ends_seq [OF runs])
    fix m1 h1
    assume h1: "loaded ctx h1 ch" "globals_hold (X, base) ctx h1 env'" "heap_le (\<lambda>i. i \<noteq> fst (snd ctx)) h h1" "conf ctx m1 h1 ip st"
    show "ends L (X, base) ctx ch h1 (ip + length code) st env'' r m1"
      by (rule exec_while.IH(2) [OF h1(1,2) block_code_heap_le [OF exec_while.prems(3) h1(3)] exec_while.prems(4) h1(4) exec_while.prems(6,7)])
  qed
next
  case (exec_while_fails env c v a env' msg p)
  obtain c1 c2 where c: "stmt_code h (ck_constants ch) (While c a) c1" "code_at ch ip c1"
    by (rule block_code_Cons [OF exec_while_fails.prems(3,4)])
  have l: "expr_vars c \<subseteq> X" "length st + expr_size c \<le> 65536" "block_vars a \<subseteq> X" "length st + block_size a \<le> 65536"
    using exec_while_fails.prems(6,7) by simp_all
  show ?case
    by (rule ends_fails, rule while_runs [OF exec_while_fails.prems(1,2) c exec_while_fails.prems(5) l(1,2) exec_while_fails.hyps(1,2)
      exec_while_fails.IH [OF exec_while_fails.prems(1,2) _ _ _ l(3,4)]])
next
  case (exec_while_cond env c msg a p)
  obtain c1 c2 where c: "stmt_code h (ck_constants ch) (While c a) c1" "code_at ch ip c1"
    by (rule block_code_Cons [OF exec_while_cond.prems(3,4)])
  obtain ce c3 where e: "c1 = ce @ c3" "expr_code h (ck_constants ch) c ce" using c(1) by auto
  have l: "expr_vars c \<subseteq> X" "length st + expr_size c \<le> 65536" using exec_while_cond.prems(6,7) by simp_all
  have at: "code_at ch ip ce" using code_at_append [OF c(2) [unfolded e(1)]] by blast
  from expr_runs [OF exec_while_cond.prems(1,2) e(2) at exec_while_cond.prems(5) l, of L]
  show ?case unfolding exec_while_cond.hyps by (rule ends_result [OF exec_while_cond.prems(1,2)])
qed

subsection \<open>Runs that end\<close>

text \<open>The machine stops after \<open>n\<close> further instructions.\<close>

inductive halts :: "libc \<Rightarrow> nat \<Rightarrow> vm \<Rightarrow> bool" for L where
  halts_now: "dispatch L m = Some o' \<Longrightarrow> \<forall>m'. o' \<noteq> Continue m' \<Longrightarrow> halts L 0 m"
| halts_later: "dispatch L m = Some (Continue m') \<Longrightarrow> halts L n m' \<Longrightarrow> halts L (Suc n) m"

lemma run_halts: "run L m = Some x \<Longrightarrow> \<exists>n. halts L n m"
proof (rule run.raw_induct [of "\<lambda>L m x. \<exists>n. halts L n m" L m x])
  fix run :: "libc \<Rightarrow> vm \<Rightarrow> (interpret_result \<times> vm) option" and L m x
  assume 1: "\<And>L m x. run L m = Some x \<Longrightarrow> \<exists>n. halts L n m"
    "do { r \<leftarrow> dispatch L m; case r of Continue m \<Rightarrow> run L m | Return m \<Rightarrow> Some (INTERPRET_OK, m)
        | Fail m \<Rightarrow> Some (INTERPRET_RUNTIME_ERROR, m) } = Some x"
  from 1(2) obtain o' where o': "dispatch L m = Some o'" by (auto split: bind_splits)
  show "\<exists>n. halts L n m"
  proof (cases o')
    case (Continue m')
    then obtain n where "halts L n m'" using 1(1) [of L m'] 1(2) o' by auto
    then show ?thesis using halts_later o' Continue by blast
  qed (use halts_now o' in blast)+
qed assumption

lemma halts_runs: "halts L n m \<Longrightarrow> run L m \<noteq> None"
proof (induction rule: halts.induct)
  case (halts_now m o')
  then show ?case by (cases o') (simp_all add: run.simps [of L m])
next
  case (halts_later m m' n)
  then show ?case by (simp add: run.simps [of L m])
qed

lemma halts_goes:
  assumes "goes L m m'" and "halts L n m"
  obtains n' where "halts L n' m'" "n' \<le> n" "m \<noteq> m' \<Longrightarrow> n' < n"
proof -
  have "\<exists>n'. halts L n' m' \<and> n' \<le> n \<and> (m \<noteq> m' \<longrightarrow> n' < n)"
    using assms unfolding goes_def
  proof (induction arbitrary: n rule: converse_rtranclp_induct)
    case base
    then show ?case by blast
  next
    case (step y z)
    obtain n1 where "n = Suc n1" "halts L n1 z" using step.hyps(1) step.prems by (auto elim: halts.cases)
    then show ?case using step.IH [of n1] by (metis le_SucI le_imp_less_Suc)
  qed
  then show ?thesis using that by blast
qed

lemma ends_halts:
  assumes "ends L sc ctx ch h ip st env None m" and "halts L n m"
  obtains m' h' n' where "loaded ctx h' ch" "globals_hold sc ctx h' env" "heap_le (\<lambda>i. i \<noteq> fst (snd ctx)) h h'"
    "conf ctx m' h' ip st" "halts L n' m'" "n' \<le> n"
proof -
  from assms(1) obtain m' h' where m': "loaded ctx h' ch" "globals_hold sc ctx h' env" "heap_le (\<lambda>i. i \<noteq> fst (snd ctx)) h h'"
    "goes L m m'" "conf ctx m' h' ip st" unfolding ends_def by auto
  from halts_goes [OF m'(4) assms(2)] obtain n' where "halts L n' m'" "n' \<le> n" .
  then show ?thesis using that m' by blast
qed

lemma result_halts: "result_of L ctx h ip st r m \<Longrightarrow> halts L n m \<Longrightarrow> (\<exists>v. r = Yields v) \<or> (\<exists>msg. r = Fails msg)"
  using halts_runs [of L n m] by (cases r) auto

lemma cond_halts:
  assumes "loaded ctx h ch" and "globals_hold (X, base) ctx h env" and "code_at ch ip (ce @ rest)"
    and "expr_code h (ck_constants ch) e ce" and "conf ctx m h ip st" and "expr_vars e \<subseteq> X" and "length st + expr_size e \<le> 65536"
    and "halts L n m"
  shows "(\<exists>v. eval env e = Yields v) \<or> (\<exists>msg. eval env e = Fails msg)"
  by (rule result_halts [OF expr_runs [OF assms(1,2,4) conjunct1 [OF code_at_append [OF assms(3)]] assms(5-7)] assms(8)])

text \<open>When the machine stops, the semantics has a derivation.\<close>

lemma halts_exec:
  assumes "halts L n m" and "loaded ctx h ch" and "globals_hold (X, base) ctx h env" and "block_code h (ck_constants ch) p code"
    and "code_at ch ip code" and "conf ctx m h ip st" and "block_vars p \<subseteq> X" and "length st + block_size p \<le> 65536"
  shows "\<exists>env' r. exec env p env' r"
  using assms
proof (induction "(n, block_size p)" arbitrary: n p m h env code ip rule: wf_induct_rule [OF wf_lex_prod [OF wf_less_than wf_less_than]])
  case (1 n p m h env code ip)
  note halts = 1(2) and ld = 1(3) and gh = 1(4) and code = 1(5) and at = 1(6) and cf = 1(7) and X = 1(8) and sz = 1(9)
  have IH: "\<exists>env' r. exec env1 q env' r"
    if "halts L n1 m1" "loaded ctx h1 ch" "globals_hold (X, base) ctx h1 env1" "block_code h1 (ck_constants ch) q c1"
      "code_at ch i c1" "conf ctx m1 h1 i st" "n1 \<le> n" "block_vars q \<subseteq> X" "block_size q < block_size p" for n1 m1 h1 env1 q c1 i
    using 1(1) [OF _ that(1-6,8)] that(7,9) sz by (simp add: le_less)
  show ?case
  proof (cases p)
    case Nil
    then show ?thesis using exec_end by blast
  next
    case (Cons s q)
    obtain c1 c2 where c: "code = c1 @ c2" "stmt_code h (ck_constants ch) s c1" "block_code h (ck_constants ch) q c2"
      "code_at ch ip c1" "code_at ch (ip + length c1) c2" by (rule block_code_Cons [OF code [unfolded Cons] at])
    have s0: "0 < stmt_size s" by (cases s) simp_all
    have rest: "\<exists>env2 r. exec env1 q env2 r" if "ends L (X, base) ctx ch h (ip + length c1) st env1 None m" for env1
    proof -
      from ends_halts [OF that halts] obtain m1 h1 n1 where m1: "loaded ctx h1 ch" "globals_hold (X, base) ctx h1 env1"
        "heap_le (\<lambda>i. i \<noteq> fst (snd ctx)) h h1" "conf ctx m1 h1 (ip + length c1) st" "halts L n1 m1" "n1 \<le> n" .
      show ?thesis
        by (rule IH [OF m1(5,1,2) block_code_heap_le [OF c(3) m1(3)] c(5) m1(4,6)]) (use X s0 in \<open>simp_all add: Cons\<close>)
    qed
    show ?thesis
    proof (cases s)
      case (Assign x e)
      have l: "stmt_vars (Assign x e) \<subseteq> X" "length st + expr_size e \<le> 65536" using X sz by (simp_all add: Cons Assign)
      obtain ce c3 where e: "c1 = ce @ c3" "expr_code h (ck_constants ch) e ce" using c(2) by (auto simp: Assign)
      have "(\<exists>v. eval env e = Yields v) \<or> (\<exists>msg. eval env e = Fails msg)"
        by (rule cond_halts [OF ld gh c(4) [unfolded e(1)] e(2) cf _ l(2) halts]) (use l(1) in simp)
      then show ?thesis
      proof (elim disjE exE)
        fix v
        assume v: "eval env e = Yields v"
        from rest [OF assign_runs [OF ld gh c(2,4) [unfolded Assign] cf l v]] show ?thesis
          using exec_assign [OF v] unfolding Cons Assign by blast
      qed (unfold Cons Assign, blast intro: exec_assign_fails)
    next
      case (If_Else b a1 a2)
      have l: "expr_vars b \<subseteq> X" "length st + expr_size b \<le> 65536" "block_vars (if truthy v then a1 else a2) \<subseteq> X"
        "length st + block_size (if truthy v then a1 else a2) \<le> 65536"
        "block_size (if truthy v then a1 else a2) < block_size p" for v using X sz by (simp_all add: Cons If_Else)
      obtain ce c3 where e: "c1 = ce @ c3" "expr_code h (ck_constants ch) b ce" using c(2) by (auto simp: If_Else)
      have "(\<exists>v. eval env b = Yields v) \<or> (\<exists>msg. eval env b = Fails msg)"
        by (rule cond_halts [OF ld gh c(4) [unfolded e(1)] e(2) cf l(1,2) halts])
      then show ?thesis
      proof (elim disjE exE)
        fix v
        assume v: "eval env b = Yields v"
        from if_enters [OF ld gh c(2,4) [unfolded If_Else] cf l(1,2) v] obtain m1 i cp where m1: "goes L m m1" "conf ctx m1 h i st"
          "block_code h (ck_constants ch) (if truthy v then a1 else a2) cp" "code_at ch i cp" .
        from halts_goes [OF m1(1) halts] obtain n1 where n1: "halts L n1 m1" "n1 \<le> n" .
        from IH [OF n1(1) ld gh m1(3,4,2) n1(2) l(3,5)] obtain env1 r1 where
          r1: "exec env (if truthy v then a1 else a2) env1 r1" by blast
        show ?thesis
        proof (cases r1)
          case None
          from rest [OF if_runs [OF ld gh c(2,4) [unfolded If_Else] cf l(1,2) v block_runs [OF r1 [unfolded None] ld gh _ _ _ l(3,4)]]]
          show ?thesis using exec_if [OF v r1 [unfolded None]] unfolding Cons If_Else by blast
        next
          case (Some msg)
          then show ?thesis using exec_if_fails [OF v r1 [unfolded Some]] unfolding Cons If_Else by blast
        qed
      qed (unfold Cons If_Else, blast intro: exec_if_cond)
    next
      case (While b a)
      have l: "expr_vars b \<subseteq> X" "length st + expr_size b \<le> 65536" "block_vars a \<subseteq> X" "length st + block_size a \<le> 65536"
        "block_size a < block_size p" using X sz by (simp_all add: Cons While)
      obtain ce c3 where e: "c1 = ce @ c3" "expr_code h (ck_constants ch) b ce" using c(2) by (auto simp: While)
      have "(\<exists>v. eval env b = Yields v) \<or> (\<exists>msg. eval env b = Fails msg)"
        by (rule cond_halts [OF ld gh c(4) [unfolded e(1)] e(2) cf l(1,2) halts])
      then show ?thesis
      proof (elim disjE exE)
        fix v
        assume v: "eval env b = Yields v"
        show ?thesis
        proof (cases "truthy v")
          case True
          from while_enters [OF ld gh c(2,4) [unfolded While] cf l(1,2) v True, of L] obtain m1 ca where
            m1: "goes L m m1" "conf ctx m1 h (ip + expr_size b + 4) st" "block_code h (ck_constants ch) a ca"
              "code_at ch (ip + expr_size b + 4) ca" .
          have "m \<noteq> m1" using conf_ip [OF cf] conf_ip [OF m1(2)] by auto
          with halts_goes [OF m1(1) halts] obtain n1 where n1: "halts L n1 m1" "n1 \<le> n" "n1 < n" by metis
          from IH [OF n1(1) ld gh m1(3,4,2) n1(2) l(3,5)] obtain env1 r1 where r1: "exec env a env1 r1" by blast
          show ?thesis
          proof (cases r1)
            case None
            note again = while_body [OF c(2,4) [unfolded While] m1(2) block_runs [OF r1 [unfolded None] ld gh _ _ _ l(3,4)]]
            from ends_halts [OF again n1(1)] obtain m2 h2 n2 where
              m2: "loaded ctx h2 ch" "globals_hold (X, base) ctx h2 env1" "heap_le (\<lambda>i. i \<noteq> fst (snd ctx)) h h2"
                "conf ctx m2 h2 ip st" "halts L n2 m2" "n2 \<le> n1" .
            have "((n2, block_size p), (n, block_size p)) \<in> less_than <*lex*> less_than" using n1(3) m2(6) by simp
            from 1(1) [OF this m2(5,1,2) block_code_heap_le [OF code m2(3)] at m2(4) X sz] have "\<exists>env' r. exec env1 p env' r" .
            then show ?thesis using exec_while [OF v True r1 [unfolded None]] unfolding Cons While by blast
          next
            case (Some msg)
            then show ?thesis using exec_while_fails [OF v True r1 [unfolded Some]] unfolding Cons While by blast
          qed
        next
          case False
          from while_leaves [OF ld gh c(2,4) [unfolded While] cf l(1,2) v False, of L] obtain m1 where
            m1: "goes L m m1" "conf ctx m1 h (ip + length c1) st" .
          from rest [OF ends_goes [OF m1(1) ends_here [OF ld gh m1(2)]]]
          show ?thesis using exec_while_end [OF v False] unfolding Cons While by blast
        qed
      qed (unfold Cons While, blast intro: exec_while_cond)
    qed
  qed
qed

end
