(* ===== verification/Interpret_Correct.thy ===== *)
theory Interpret_Correct
  imports Program_Correct
begin

section \<open>The contract of the interpreter\<close>

text \<open>
  What \<open>vm_interpret\<close> does with the text of a core program on a machine whose stack is empty, and the
  machine that \<open>vm_init\<close> makes.
\<close>

subsection \<open>Machines that can run a program\<close>

definition vm_global :: "vm \<Rightarrow> string \<Rightarrow> val64 option" where
  "vm_global m = key_map (vm_heap m) (vmap m (vm_globals m))"

text \<open>The globals are a well-formed map of interned names; \<open>n\<close> more bindings and objects fit.\<close>

definition vm_ready :: "nat \<Rightarrow> vm \<Rightarrow> bool" where
  "vm_ready n m \<longleftrightarrow> vm_top m = 0 \<and> vm_frames m = [] \<and> vm_open_upvalues m = [] \<and> \<not> vm_had_error m \<and>
     vm_globals m < length (vm_heap m) \<and> length (vm_heap m) + n < 2 ^ 43 \<and>
     (\<exists>g. vm_heap m ! vm_globals m = OBJ_MAP g \<and> map_ok (vm_heap m) g \<and> unat (om_length g) + n < 2 ^ 29)"

lemma finite_vars: "finite (expr_vars e)" "finite (stmt_vars s)" "finite (block_vars p)"
proof -
  show e: "finite (expr_vars e)" for e by (induction e) simp_all
  show "finite (stmt_vars s)" "finite (block_vars p)" by (induction s and p rule: stmt_size_block_size.induct) (simp_all add: e)
qed

lemma card_vars: "card (expr_vars e) \<le> expr_size e" "card (stmt_vars s) \<le> stmt_size s" "card (block_vars p) \<le> block_size p"
proof -
  have u: "card A \<le> i \<Longrightarrow> card B \<le> j \<Longrightarrow> card (A \<union> B) \<le> i + j" for A B :: "string set" and i j
    using card_Un_le [of A B] by linarith
  show e: "card (expr_vars e) \<le> expr_size e" for e by (induction e) (auto intro: le_trans [OF u] simp del: card_Un_le)
  show "card (stmt_vars s) \<le> stmt_size s" "card (block_vars p) \<le> block_size p"
  proof (induction s and p rule: stmt_size_block_size.induct)
    case (1 x e)
    then show ?case using e [of e] card_insert_le_m1 [of "expr_size e + 1" "expr_vars e" x] by simp
  next
    case (2 c a b)
    then show ?case using u [OF u [OF e [of c] 2(1)] 2(2)] by simp
  next
    case (3 c a)
    then show ?case using u [OF e [of c] 3] by simp
  next
    case (5 s p)
    then show ?case using u [OF 5] by simp
  qed simp
qed

definition result_code :: "string option \<Rightarrow> interpret_result" where
  "result_code r = (case r of None \<Rightarrow> INTERPRET_OK | Some msg \<Rightarrow> INTERPRET_RUNTIME_ERROR)"

text \<open>What is left on the stack, and the message.\<close>

fun leaves :: "string option \<Rightarrow> vm \<Rightarrow> bool" where
  "leaves None m \<longleftrightarrow> \<not> vm_had_error m \<and> vm_frames m = [] \<and> vm_top m = 1 \<and> vm_stack m 0 = VAL_NIL"
| "leaves (Some msg) m \<longleftrightarrow> vm_had_error m \<and> vm_error_msg m = take 511 (c_str msg)"

lemma return_runs:
  assumes "conf ctx m h ip [v]" and "loaded ctx h ch" and "code_at ch ip [OP_NIL, OP_RETURN]"
  obtains m' where "run L m = Some (INTERPRET_OK, m')" "vm_heap m' = h" "vm_globals m' = vm_globals m" "vm_out m' = vm_out m" "leaves None m'"
proof -
  have "result_of L ctx h (ip + 1) [v] (Yields VNil) m"
    by (rule literal_runs [OF assms(1,2)]) (use code_at_append [of ch ip "[OP_NIL]" "[OP_RETURN]"] assms(3) in simp_all)
  then obtain m1 where m1: "goes L m m1" "conf ctx m1 h (ip + 1) [v, VAL_NIL]" by auto
  have "code_at ch (ip + 1) [OP_RETURN]" using code_at_Cons [OF assms(3)] by simp
  from conf_fetch [OF m1(2) assms(2) this] obtain m2 where
    m2: "dispatch L m1 = opcode_step L OP_RETURN m2" "conf ctx m2 h (ip + 1 + 1) ([v] @ [VAL_NIL])" by auto
  from conf_pop [OF m2(2)] obtain m3 where m3: "vm_pop m2 = Some (VAL_NIL, m3)" "conf ctx m3 h (ip + 1 + 1) ([] @ [v])" by auto
  have "conf ctx m4 h i st \<Longrightarrow> vm_heap m4 = h \<and> vm_globals m4 = fst (snd ctx) \<and> vm_out m4 = snd (snd ctx)" for m4 i st
    by (auto simp: conf_def split: prod.splits)
  note keep = this [OF assms(1)] this [OF m3(2)]
  let ?m = "vm_push VAL_NIL (m3\<lparr>vm_open_upvalues := [], vm_frames := [], vm_top := 0\<rparr>)"
  have fr: "vm_open_upvalues m3 = []" "length (vm_frames m3) = 1" "vm_call_depth m3 = 0" "vm_top m3 = 1" "\<not> vm_had_error m3"
    using m3(2) by (auto simp: conf_def split: prod.splits)
  then have "tl (vm_frames m3) = []" by (cases "vm_frames m3") auto
  then have "opcode_step L OP_RETURN m2 = Some (Return ?m)"
    using m3(1) fr by (simp add: opcode_steps op_return_def close_upvalues_def vm_pop_def Let_def del: OP_RETURN_def)
  then have "run L m = Some (INTERPRET_OK, ?m)" using run_goes [OF m1(1)] m2(1) run.simps [of L m1] by simp
  then show ?thesis using that [of ?m] keep fr by (simp add: vm_push_def)
qed

lemma program_starts:
  assumes ok: "block_ok p" and size: "block_size p \<le> 65000" and m: "vm_ready (block_size p + 2) m"
    and env: "\<forall>x \<in> block_vars p. vm_global m x = map_option enc (env x)"
  obtains k m1 h ch cl code where "\<forall>n \<ge> k. vm_interpret L n (program_text p) m = run L m1"
    "conf (cl, vm_globals m, vm_out m) m1 h 0 [OBJ_VAL cl]" "loaded (cl, vm_globals m, vm_out m) h ch"
    "globals_hold (block_vars p, vm_global m) (cl, vm_globals m, vm_out m) h env"
    "block_code h (ck_constants ch) p code" "code_at ch 0 code" "code_at ch (length code) [OP_NIL, OP_RETURN]"
proof -
  let ?h = "vm_heap m" and ?g = "vm_globals m" and ?X = "block_vars p" and ?base = "vm_global m"
  obtain g where g: "?g < length ?h" "length ?h + (block_size p + 2) < 2 ^ 43" "?h ! ?g = OBJ_MAP g" "map_ok ?h g"
    "unat (om_length g) + (block_size p + 2) < 2 ^ 29" using m by (auto simp: vm_ready_def)
  have base: "?base = key_map ?h g" using set_map_map(1) [OF g(1) _ g(3)] g(2) by (simp add: vm_global_def)
  have "length ?h + block_size p + 1 < 2 ^ 43" using g(2) by simp
  from program_compiles [OF ok size this, of "\<lambda>src. fst (c_strtod L src)"] obtain s k where
    s: "\<forall>n \<ge> k. compile (\<lambda>src. fst (c_strtod L src)) n ?h (program_text p) = Some (Some (length ?h), s)"
      "program_function (cs_heap s) p (length ?h)" "heap_le (\<lambda>_. True) ?h (cs_heap s)" "\<not> cs_undefined s"
      "length (cs_heap s) \<le> length ?h + block_size p + 1" .
  obtain f code where f: "length ?h < length (cs_heap s)" "cs_heap s ! length ?h = OBJ_FUNCTION f" "fn_arity f = 0"
    "fn_upvalue_count f = 0" "ck_code (fn_chunk f) = code @ [OP_NIL, OP_RETURN]" "block_code (cs_heap s) (ck_constants (fn_chunk f)) p code"
    using s(2) by (auto simp: program_function_def)
  let ?ch = "fn_chunk f" and ?cl = "length (cs_heap s)"
  let ?c = "\<lparr>cl_function = length ?h, cl_upvalues = []\<rparr>"
  let ?h2 = "cs_heap s @ [OBJ_CLOSURE ?c]" and ?ctx = "(?cl, ?g, vm_out m)"
  let ?m1 = "(vm_push (OBJ_VAL ?cl) (m\<lparr>vm_heap := ?h2\<rparr>))\<lparr>vm_frames := [\<lparr>cf_closure = ?cl, cf_ip = 0, cf_slots = 0\<rparr>], vm_call_depth := 0\<rparr>"
  have rd: "vm_top m = 0" "vm_frames m = []" "vm_open_upvalues m = []" "\<not> vm_had_error m" using m by (simp_all add: vm_ready_def)
  have new: "obj_closure_new (cs_heap s) (length ?h) = (?cl, ?h2)"
    using f(2,4) by (simp add: obj_closure_new_def alloc_object_def the_function_def)
  have cc: "call_closure ?cl 0 (vm_push (OBJ_VAL ?cl) (m\<lparr>vm_heap := ?h2\<rparr>)) = Some (True, ?m1\<lparr>vm_call_depth := vm_call_depth m\<rparr>)"
    using f(1-3) rd by (simp add: call_closure_def the_closure_def the_function_def nth_append vm_push_def FRAMES_MAX_def)
  have int: "\<forall>n \<ge> k. vm_interpret L n (program_text p) m = run L ?m1"
    using s(1,4) new cc by (simp add: vm_interpret_def)
  have conf: "conf ?ctx ?m1 ?h2 0 [OBJ_VAL ?cl]" using rd by (simp add: conf_def vm_push_def)
  have ld: "loaded ?ctx ?h2 ?ch" using f(1,2) by (simp add: loaded_def nth_append)
  have le: "heap_le (\<lambda>_. True) ?h ?h2" using heap_le_trans [OF s(3) heap_le_append] by simp
  have "?h2 ! ?g = OBJ_MAP g" "?g < length ?h2" using le g(1,3) by (auto simp: heap_le_def)
  moreover have "map_ok ?h2 g" by (rule map_ok_heap_le [OF g(4) le])
  moreover have "key_map ?h2 g = (\<lambda>x. if x \<in> ?X then map_option enc (env x) else ?base x)"
    using keys_heap_le(2) [OF _ le, of g] g(4) env by (auto simp: map_ok_def base)
  moreover have "card {x \<in> ?X. env x = None} \<le> block_size p"
    using card_mono [OF finite_vars(3), of "{x \<in> ?X. env x = None}" p] card_vars(3) [of p] by auto
  ultimately have gh: "globals_hold (?X, ?base) ?ctx ?h2 env"
    using finite_vars(3) [of p] s(5) g(2,5) by (simp add: globals_hold_def)
  have code: "code_at ?ch 0 code" "code_at ?ch (length code) [OP_NIL, OP_RETURN]"
    using code_at_append [of ?ch 0 code "[OP_NIL, OP_RETURN]"] f(5) by (auto simp: code_at_def)
  show ?thesis by (rule that [OF int conf ld gh block_code_heap_le [OF f(6) heap_le_append] code])
qed

lemma program_interpreted:
  assumes "block_ok p" and size: "block_size p \<le> 65000" and "vm_ready (block_size p + 2) m"
    and "\<forall>x \<in> block_vars p. vm_global m x = map_option enc (env x)" and ex: "exec env p env' r"
  obtains k m' where "\<forall>n \<ge> k. vm_interpret L n (program_text p) m = Some (result_code r, m')"
    "vm_global m' = (\<lambda>x. if x \<in> block_vars p then map_option enc (env' x) else vm_global m x)"
    "vm_out m' = vm_out m" "leaves r m'"
proof -
  let ?g = "vm_globals m" and ?X = "block_vars p" and ?base = "vm_global m"
  from program_starts [OF assms(1-4), of L] obtain k m1 h ch cl code where
    s: "\<forall>n \<ge> k. vm_interpret L n (program_text p) m = run L m1" "conf (cl, ?g, vm_out m) m1 h 0 [OBJ_VAL cl]"
      "loaded (cl, ?g, vm_out m) h ch" "globals_hold (?X, ?base) (cl, ?g, vm_out m) h env" "block_code h (ck_constants ch) p code"
      "code_at ch 0 code" "code_at ch (length code) [OP_NIL, OP_RETURN]" .
  let ?ctx = "(cl, ?g, vm_out m)"
  have "length [OBJ_VAL cl] + block_size p \<le> 65536" using size by simp
  from block_runs [OF ex s(3-6,2) subset_refl this, of L]
  obtain m2 h' where m2: "loaded ?ctx h' ch" "globals_hold (?X, ?base) ?ctx h' env'"
    "case r of None \<Rightarrow> goes L m1 m2 \<and> conf ?ctx m2 h' (length code) [OBJ_VAL cl]
     | Some msg \<Rightarrow> run L m1 = Some (INTERPRET_RUNTIME_ERROR, m2) \<and> failed ?ctx m2 h' msg"
    unfolding ends_def add_0 by blast
  have globals: "vm_global m3 = (\<lambda>x. if x \<in> ?X then map_option enc (env' x) else ?base x)" if "vm_heap m3 = h'" "vm_globals m3 = ?g" for m3
  proof -
    obtain g' where "?g < length h'" "length h' < 2 ^ 43" "h' ! ?g = OBJ_MAP g'"
      "key_map h' g' = (\<lambda>x. if x \<in> ?X then map_option enc (env' x) else ?base x)" using m2(2) by (auto simp: globals_hold_def)
    then show ?thesis using set_map_map(1) [of ?g h' g'] that by (simp add: vm_global_def)
  qed
  show ?thesis
  proof (cases r)
    case None
    then have r: "goes L m1 m2" "conf ?ctx m2 h' (length code) [OBJ_VAL cl]" using m2(3) by simp_all
    from return_runs [OF r(2) m2(1) s(7)] obtain m3 where
      m3: "run L m2 = Some (INTERPRET_OK, m3)" "vm_heap m3 = h'" "vm_globals m3 = vm_globals m2" "vm_out m3 = vm_out m2" "leaves None m3" .
    have keep: "vm_globals m2 = ?g" "vm_out m2 = vm_out m" using r(2) by (simp_all add: conf_def)
    show ?thesis
      by (rule that [of k m3]) (use s(1) m3 keep globals run_goes [OF r(1)] None in \<open>simp_all add: result_code_def\<close>)
  next
    case (Some msg)
    then show ?thesis
      using that [of k m2] s(1) m2(3) globals by (auto simp: result_code_def failed_def)
  qed
qed

lemma program_returns:
  assumes "block_ok p" and size: "block_size p \<le> 65000" and "vm_ready (block_size p + 2) m"
    and "\<forall>x \<in> block_vars p. vm_global m x = map_option enc (env x)"
  obtains k where "\<forall>n \<ge> k. vm_interpret L n (program_text p) m \<noteq> None \<longleftrightarrow> (\<exists>env' r. exec env p env' r)"
proof -
  from program_starts [OF assms(1-4), of L] obtain k m1 h ch cl code where
    s: "\<forall>n \<ge> k. vm_interpret L n (program_text p) m = run L m1" "conf (cl, vm_globals m, vm_out m) m1 h 0 [OBJ_VAL cl]"
      "loaded (cl, vm_globals m, vm_out m) h ch" "globals_hold (block_vars p, vm_global m) (cl, vm_globals m, vm_out m) h env"
      "block_code h (ck_constants ch) p code" "code_at ch 0 code" .
  have l: "length [OBJ_VAL cl] + block_size p \<le> 65536" using size by simp
  show ?thesis
  proof (cases "\<exists>env' r. exec env p env' r")
    case True
    then obtain env' r where "exec env p env' r" by blast
    from program_interpreted [OF assms(1-4) this, of L] obtain j m' where
      "\<forall>n \<ge> j. vm_interpret L n (program_text p) m = Some (result_code r, m')" .
    then show ?thesis using True that [of j] by auto
  next
    case False
    have "run L m1 = None"
    proof (rule ccontr)
      assume "run L m1 \<noteq> None"
      then obtain n where "halts L n m1" using run_halts [of L m1] by auto
      from halts_exec [OF this s(3-6,2) subset_refl l] False show False by blast
    qed
    then show ?thesis using False s(1) that [of k] by auto
  qed
qed

subsection \<open>The machine at start-up\<close>

lemma define_native_ready:
  assumes "vm_ready (n + 2) m"
  obtains m' where "define_native name f a m = Some m'" "vm_ready n m'" "dom (vm_global m') = insert name (dom (vm_global m))"
    "vm_out m' = vm_out m"
proof -
  let ?g = "vm_globals m" and ?h = "vm_heap m"
  obtain g where g: "?g < length ?h" "length ?h + (n + 2) < 2 ^ 43" "?h ! ?g = OBJ_MAP g" "map_ok ?h g" "unat (om_length g) + (n + 2) < 2 ^ 29"
    using assms by (auto simp: vm_ready_def)
  let ?h1 = "?h @ [OBJ_NATIVE \<lparr>nt_function = f, nt_name = name, nt_arity = a\<rparr>]"
  obtain s h2 where i: "intern_string ?h1 name = (s, h2)" by (cases "intern_string ?h1 name")
  have h2: "heap_le (\<lambda>_. True) ?h1 h2" "length h2 \<le> length ?h1 + 1" "find_string h2 name 0 = Some s"
    using i intern_string_found_first [OF i] heap_le_refl [of "\<lambda>_. True" ?h1] heap_le_append [of "\<lambda>_. True" ?h1 "[OBJ_STRING name]"]
    by (auto simp: intern_string_def alloc_object_def split: option.splits)
  have le: "heap_le (\<lambda>_. True) ?h h2" using heap_le_trans [OF heap_le_append [of "\<lambda>_. True" ?h] h2(1)] by simp
  have p: "?g < length h2" "h2 ! ?g = OBJ_MAP g" "length h2 < 2 ^ 43" using le g(1-3) h2(2) by (auto simp: heap_le_def)
  have "unat (om_length g) < 2 ^ 29" using g(5) by simp
  from map_ok_store [OF map_ok_heap_le [OF g(4) le] this h2(3), of "OBJ_VAL (length ?h)"] obtain g' b where
    s: "obj_map_set (key_hash h2) g s (OBJ_VAL (length ?h)) = Some (g', b)" "map_ok h2 g'"
      "key_map h2 g' = (key_map h2 g)(name \<mapsto> OBJ_VAL (length ?h))" "unat (om_length g') \<le> unat (om_length g) + 1" .
  let ?h3 = "h2[?g := OBJ_MAP g']" and ?m = "m\<lparr>vm_heap := h2[?g := OBJ_MAP g']\<rparr>"
  note up = set_map_map(1,3) [OF p(1,3,2)]
  have set: "define_native name f a m = Some ?m"
    using i s(1) up(1) by (simp add: define_native_def alloc_object_def set_global_def)
  have ok: "map_ok ?h3 g'" by (rule map_ok_heap_le [OF s(2) up(2)])
  have "key_map ?h3 g' = (key_map ?h g)(name \<mapsto> OBJ_VAL (length ?h))"
    using keys_heap_le(2) [OF _ up(2), of g'] keys_heap_le(2) [OF _ le, of g] s(2,3) g(4) by (simp add: map_ok_def)
  then have "vm_global ?m = (vm_global m)(name \<mapsto> OBJ_VAL (length ?h))"
    using set_map_map(1) [of ?g ?h3 g'] set_map_map(1) [OF g(1) _ g(3)] p g(2) by (simp add: vm_global_def)
  then show ?thesis
    by (intro that [OF set]) (use assms p g ok h2(2) s(4) in \<open>auto simp: vm_ready_def\<close>)
qed

definition native_names :: "string set" where
  "native_names = {''len'', ''to_f'', ''to_i'', ''to_s'', ''type_of'', ''puts'', ''print''}"

lemma init_ready:
  obtains m where "vm_init = Some m" "vm_ready (2 ^ 29 - 15) m" "dom (vm_global m) = native_names" "vm_out m = []"
proof -
  let ?N = "2 ^ 29 - 15 :: nat"
  let ?m = "\<lparr>vm_heap = [OBJ_MAP obj_map_new], vm_stack = (\<lambda>_. 0), vm_top = 0, vm_frames = [], vm_globals = 0,
       vm_open_upvalues = [], vm_had_error = False, vm_error_msg = [], vm_gc_countdown = 512, vm_call_depth = 0, vm_out = []\<rparr>"
  have n: "?N + 14 = ?N + 12 + 2" "?N + 12 = ?N + 10 + 2" "?N + 10 = ?N + 8 + 2" "?N + 8 = ?N + 6 + 2" "?N + 6 = ?N + 4 + 2"
    "?N + 4 = ?N + 2 + 2" by simp_all
  have "om_length obj_map_new = 0" by (simp add: obj_map_new_def)
  then have r0: "vm_ready (?N + 14) ?m" using map_ok_new(1) by (simp add: vm_ready_def)
  have d0: "dom (vm_global ?m) = {}" using set_map_map(1) [of 0 "[OBJ_MAP obj_map_new]" obj_map_new] by (simp add: vm_global_def map_ok_new(2))
  from define_native_ready [OF r0 [unfolded n(1)], of "''print''" native_print "- 1"] obtain m1 where
    m1: "define_native ''print'' native_print (- 1) ?m = Some m1" "vm_ready (?N + 12) m1"
      "dom (vm_global m1) = insert ''print'' (dom (vm_global ?m))" "vm_out m1 = vm_out ?m" .
  from define_native_ready [OF m1(2) [unfolded n(2)], of "''puts''" native_puts "- 1"] obtain m2 where
    m2: "define_native ''puts'' native_puts (- 1) m1 = Some m2" "vm_ready (?N + 10) m2"
      "dom (vm_global m2) = insert ''puts'' (dom (vm_global m1))" "vm_out m2 = vm_out m1" .
  from define_native_ready [OF m2(2) [unfolded n(3)], of "''type_of''" native_type_of 1] obtain m3 where
    m3: "define_native ''type_of'' native_type_of 1 m2 = Some m3" "vm_ready (?N + 8) m3"
      "dom (vm_global m3) = insert ''type_of'' (dom (vm_global m2))" "vm_out m3 = vm_out m2" .
  from define_native_ready [OF m3(2) [unfolded n(4)], of "''to_s''" native_to_s 1] obtain m4 where
    m4: "define_native ''to_s'' native_to_s 1 m3 = Some m4" "vm_ready (?N + 6) m4"
      "dom (vm_global m4) = insert ''to_s'' (dom (vm_global m3))" "vm_out m4 = vm_out m3" .
  from define_native_ready [OF m4(2) [unfolded n(5)], of "''to_i''" native_to_i 1] obtain m5 where
    m5: "define_native ''to_i'' native_to_i 1 m4 = Some m5" "vm_ready (?N + 4) m5"
      "dom (vm_global m5) = insert ''to_i'' (dom (vm_global m4))" "vm_out m5 = vm_out m4" .
  from define_native_ready [OF m5(2) [unfolded n(6)], of "''to_f''" native_to_f 1] obtain m6 where
    m6: "define_native ''to_f'' native_to_f 1 m5 = Some m6" "vm_ready (?N + 2) m6"
      "dom (vm_global m6) = insert ''to_f'' (dom (vm_global m5))" "vm_out m6 = vm_out m5" .
  from define_native_ready [OF m6(2), of "''len''" native_len 1] obtain m7 where
    m7: "define_native ''len'' native_len 1 m6 = Some m7" "vm_ready ?N m7"
      "dom (vm_global m7) = insert ''len'' (dom (vm_global m6))" "vm_out m7 = vm_out m6" .
  have i: "vm_init = Some m7"
    unfolding vm_init_def alloc_object_def Let_def by (simp add: m1(1) m2(1) m3(1) m4(1) m5(1) m6(1) m7(1))
  have "dom (vm_global m7) = native_names"
    unfolding m7(3) m6(3) m5(3) m4(3) m3(3) m2(3) m1(3) d0 native_names_def by (rule refl)
  moreover have "vm_out m7 = []" using m1(4) m2(4) m3(4) m4(4) m5(4) m6(4) m7(4) by simp
  ultimately show ?thesis using that i m7(2) by blast
qed

lemma vm_ready_le: "vm_ready n m \<Longrightarrow> k \<le> n \<Longrightarrow> vm_ready k m"
  by (auto simp: vm_ready_def)

text \<open>A program that adds up a range, and one that reads a variable before it is set.\<close>

definition sum_program :: "stmt list" where
  "sum_program =
    [Assign ''i'' (Int_Lit 3), Assign ''s'' (Int_Lit 0),
     While (Binary Greater (Var ''i'') (Int_Lit 0))
       [If_Else (Binary Eq (Binary Mod (Var ''i'') (Int_Lit 2)) (Int_Lit 1))
          [Assign ''s'' (Binary Add (Var ''s'') (Binary Mul (Var ''i'') (Int_Lit 2)))] [],
        Assign ''i'' (Binary Sub (Var ''i'') (Int_Lit 1))]]"

definition bad_program :: "stmt list" where
  "bad_program = [Assign ''a'' (Int_Lit 1), If_Else (Or_Else (Var ''b'') (Var ''a'')) [] [], Assign ''a'' Nil_Lit]"

lemma exec_done: "env = env' \<Longrightarrow> exec env [] env' None"
  using exec_end by simp

lemma sum_program_ok: "block_ok sum_program" "block_size sum_program \<le> 65000" "block_vars sum_program = {''i'', ''s''}"
  by (simp add: sum_program_def is_name_def is_alpha_def keyword_table_def) (simp_all add: sum_program_def insert_commute)

lemma sum_program_exec: "exec Map.empty sum_program [''i'' \<mapsto> VInt 0, ''s'' \<mapsto> VInt 8] None"
  unfolding sum_program_def
  apply ((rule exec_assign, (simp add: binop_result_def; fail))
    | (rule exec_while, (simp add: binop_result_def; fail), (simp; fail))
    | (rule exec_while_end, (simp add: binop_result_def; fail), (simp; fail))
    | (rule exec_if, (simp add: binop_result_def signed_modulo_int_def signed_divide_int_def; fail),
        (simp only: truthy.simps if_True if_False))
    | rule exec_end)+
  apply (rule exec_done)
  apply (auto simp: fun_eq_iff)
  done

lemma bad_program_ok: "block_ok bad_program" "block_size bad_program \<le> 65000" "block_vars bad_program = {''a'', ''b''}"
  by (simp add: bad_program_def is_name_def is_alpha_def keyword_table_def) (simp_all add: bad_program_def insert_commute)

lemma bad_program_exec:
  "exec Map.empty bad_program [''a'' \<mapsto> VInt 1] (Some (''Undefined variable '' @ [SQ] @ ''b'' @ [SQ] @ ''.''))"
  unfolding bad_program_def by (rule exec_assign, simp, rule exec_if_cond, simp)

lemma fresh_vars: "dom (vm_global m) = native_names \<Longrightarrow> block_vars p \<inter> native_names = {} \<Longrightarrow>
    \<forall>x \<in> block_vars p. vm_global m x = map_option enc (Map.empty x)"
  by (auto simp: dom_def)

subsection \<open>The contract\<close>







text \<open>An endless loop.\<close>

lemma loop_forever: "exec env p env' r \<Longrightarrow> p = [While (Bool_Lit True) []] \<Longrightarrow> False"
proof (induction rule: exec.induct)
  case (exec_while env c v a env' p env'' r)
  then have "env' = env" "p = []" by (auto elim: exec.cases)
  then show ?case using exec_while by auto
qed (auto elim: exec.cases)


end
