(* ===== verification/Formatter.thy ===== *)
theory Formatter
  imports Lexer
begin

section \<open>The source formatter (formatter.c)\<close>

text \<open>
  \<open>fmt_format\<close> splits a source into lines, copies blank lines and comment lines, and rebuilds every run of
  code lines from its tokens.  The growing \<open>FmtBuffer\<close> is the string of its contents; a C string is a
  string without NUL.  Counters are \<open>int\<close>: they are bounded by the number of tokens and lines.
\<close>

subsection \<open>Token classification\<close>

definition is_block_opener :: "token_type \<Rightarrow> bool" where
  "is_block_opener t \<longleftrightarrow> t \<in> Keyword ` {TOKEN_FN, TOKEN_IF, TOKEN_WHILE, TOKEN_UNTIL, TOKEN_LOOP, TOKEN_FOR, TOKEN_DO,
     TOKEN_CASE, TOKEN_BEGIN, TOKEN_UNLESS, TOKEN_MODULE}"

definition is_block_closer :: "token_type \<Rightarrow> bool" where
  "is_block_closer t \<longleftrightarrow> t = Keyword TOKEN_END"

definition is_continuation :: "token_type \<Rightarrow> bool" where
  "is_continuation t \<longleftrightarrow> t \<in> Keyword ` {TOKEN_ELSIF, TOKEN_ELSE, TOKEN_RESCUE}"

definition is_binary_operator :: "token_type \<Rightarrow> bool" where
  "is_binary_operator t \<longleftrightarrow>
     t \<in> Single ` {TOKEN_PLUS, TOKEN_MINUS, TOKEN_STAR, TOKEN_SLASH, TOKEN_PERCENT, TOKEN_EQUAL, TOKEN_LESS, TOKEN_GREATER,
       TOKEN_PIPE, TOKEN_AMP, TOKEN_CARET} \<or>
     t \<in> Multi ` {TOKEN_EQUAL_EQUAL, TOKEN_BANG_EQUAL, TOKEN_LESS_EQUAL, TOKEN_GREATER_EQUAL, TOKEN_AMP_AMP, TOKEN_PIPE_PIPE,
       TOKEN_PLUS_EQUAL, TOKEN_MINUS_EQUAL, TOKEN_STAR_EQUAL, TOKEN_SLASH_EQUAL, TOKEN_STAR_STAR, TOKEN_LSHIFT, TOKEN_RSHIFT,
       TOKEN_DOT_DOT} \<or>
     t \<in> Keyword ` {TOKEN_AND, TOKEN_OR}"

subsection \<open>Lines\<close>

definition blank_char :: "char \<Rightarrow> bool" where
  "blank_char c \<longleftrightarrow> c = CHR '' '' \<or> c = CHR 0x09 \<or> c = CHR 0x0D"

definition trim_right :: "string \<Rightarrow> string" where
  "trim_right s = rev (dropWhile blank_char (rev s))"

text \<open>\<open>sl_inline_comment\<close> is the trimmed comment behind code, when there is one.\<close>

record source_line =
  sl_start :: string
  sl_is_comment :: bool
  sl_is_blank :: bool
  sl_inline_comment :: "string option"

text \<open>The scan for a \<open>#\<close> outside quotes.\<close>

fun inline_loop :: "string \<Rightarrow> bool \<Rightarrow> bool \<Rightarrow> string option" where
  "inline_loop [] in_single in_double = None"
| "inline_loop (c # cs) in_single in_double =
     (if c = SQ \<and> \<not> in_double then inline_loop cs (\<not> in_single) in_double
      else if c = DQ \<and> \<not> in_single then inline_loop cs in_single (\<not> in_double)
      else if c = BSL \<and> (in_single \<or> in_double)
        then (case cs of [] \<Rightarrow> None | _ # ds \<Rightarrow> inline_loop ds in_single in_double)
      else if c = CHR ''#'' \<and> \<not> in_single \<and> \<not> in_double then Some (trim_right (c # cs))
      else inline_loop cs in_single in_double)"

definition source_line_of :: "string \<Rightarrow> source_line" where
  "source_line_of line =
     (let code = dropWhile blank_char line;
          blank = (code = []);
          comment = (\<not> blank \<and> hd code = CHR ''#'')
      in \<lparr>sl_start = line, sl_is_comment = comment, sl_is_blank = blank,
          sl_inline_comment = (if blank \<or> comment then None else inline_loop line False False)\<rparr>)"

function split_lines :: "string \<Rightarrow> source_line list" where
  "split_lines [] = []"
| "split_lines (c # cs) =
     (let line = takeWhile (\<lambda>c. c \<noteq> NL) (c # cs); p = dropWhile (\<lambda>c. c \<noteq> NL) (c # cs)
      in source_line_of line # split_lines (tl p))"
  by pat_completeness auto
termination
proof (relation "measure length")
  fix c :: char and cs line p
  assume p: "p = dropWhile (\<lambda>c. c \<noteq> NL) (c # cs)"
  have "length p \<le> length (c # cs)" unfolding p by (rule length_dropWhile_le)
  then show "(tl p, c # cs) \<in> measure length" by (cases p) auto
qed simp

definition get_comment_text :: "source_line \<Rightarrow> string" where
  "get_comment_text line = trim_right (dropWhile (\<lambda>c. c = CHR '' '' \<or> c = CHR 0x09) (sl_start line))"

subsection \<open>Emitting tokens\<close>

record code_fmt =
  fm_out :: string
  fm_indent_level :: int
  fm_col :: int
  fm_line_started :: bool

text \<open>The local variables of \<open>format_code_block\<close>.\<close>

record fmt_block = code_fmt +
  fb_prev_was_newline :: bool
  fb_blank_lines :: int
  fb_fn_depth :: int
  fb_had_fn_block :: bool

definition indent_text :: "int \<Rightarrow> string" where
  "indent_text n = replicate (nat (n * 2)) (CHR '' '')"

definition code_emit_indent :: "'a code_fmt_scheme \<Rightarrow> 'a code_fmt_scheme" where
  "code_emit_indent s =
     (if fm_line_started s then s
      else s\<lparr>fm_out := fm_out s @ indent_text (fm_indent_level s), fm_col := fm_indent_level s * 2, fm_line_started := True\<rparr>)"

definition code_emit_newline :: "'a code_fmt_scheme \<Rightarrow> 'a code_fmt_scheme" where
  "code_emit_newline s =
     s\<lparr>fm_out := rev (dropWhile (\<lambda>c. c = CHR '' '') (rev (fm_out s))) @ [NL], fm_col := 0, fm_line_started := False\<rparr>"

definition code_emit_token :: "token \<Rightarrow> 'a code_fmt_scheme \<Rightarrow> 'a code_fmt_scheme" where
  "code_emit_token tok s =
     (let s = code_emit_indent s
      in s\<lparr>fm_out := fm_out s @ tok_text tok, fm_col := fm_col s + int (tk_length tok)\<rparr>)"

definition code_emit_space :: "'a code_fmt_scheme \<Rightarrow> 'a code_fmt_scheme" where
  "code_emit_space s =
     (if fm_line_started s \<and> fm_out s \<noteq> [] \<and> last (fm_out s) \<noteq> CHR '' '' \<and> last (fm_out s) \<noteq> NL
      then s\<lparr>fm_out := fm_out s @ '' '', fm_col := fm_col s + 1\<rparr> else s)"

subsection \<open>Spacing\<close>

text \<open>Is there a space before a token of type \<open>t\<close>?  \<open>seen\<close> are the types of the tokens before it, the nearest first.\<close>

definition space_before :: "token_type \<Rightarrow> token_type list \<Rightarrow> bool" where
  "space_before t seen =
     (if t \<in> {Single TOKEN_COMMA, Single TOKEN_SEMICOLON} then False
      else if t \<in> {Single TOKEN_RPAREN, Single TOKEN_RBRACKET, Single TOKEN_RBRACE} then False
      else if t = Single TOKEN_DOT then False
      else if t = Single TOKEN_COLON then False
      else (case seen of
          [] \<Rightarrow> False
        | prev # before \<Rightarrow>
            if prev \<in> {Single TOKEN_LPAREN, Single TOKEN_LBRACKET, Single TOKEN_LBRACE} then False
            else if prev = Single TOKEN_DOT then False
            else if t \<in> {Single TOKEN_LPAREN, Single TOKEN_LBRACKET} \<and>
              (prev \<in> {Literal TOKEN_IDENTIFIER, Single TOKEN_RPAREN, Single TOKEN_RBRACKET, Literal TOKEN_STRING} \<or>
               prev \<in> Web ` {TOKEN_GET, TOKEN_POST, TOKEN_PUT, TOKEN_PATCH, TOKEN_DELETE, TOKEN_RENDER, TOKEN_REDIRECT, TOKEN_HALT})
              then False
            else if is_binary_operator t then
              \<not> (t \<in> {Single TOKEN_MINUS, Single TOKEN_PLUS} \<and> prev \<in> {Single TOKEN_LPAREN, Single TOKEN_LBRACKET})
            else if is_binary_operator prev then
              (if prev \<in> {Single TOKEN_MINUS, Single TOKEN_PLUS} then
                 (case before of
                    [] \<Rightarrow> True
                  | prevprev # _ \<Rightarrow>
                      \<not> (prevprev \<in> {Single TOKEN_LPAREN, Single TOKEN_LBRACKET, Single TOKEN_COMMA} \<or> is_binary_operator prevprev))
               else True)
            else True))"

subsection \<open>A block of code\<close>

definition format_newline :: "fmt_block \<Rightarrow> fmt_block" where
  "format_newline s =
     (let s = s\<lparr>fb_blank_lines := (if fb_prev_was_newline s then fb_blank_lines s + 1 else 0)\<rparr>;
          s = (if fb_blank_lines s \<le> 1 then code_emit_newline s else s)
      in s\<lparr>fb_prev_was_newline := True\<rparr>)"

text \<open>The adjustments before the token: a closer or a continuation moves one level out, and a function that follows
  another is set off by a blank line.\<close>

definition before_token :: "token_type \<Rightarrow> fmt_block \<Rightarrow> fmt_block" where
  "before_token t s =
     (let s = (if is_block_closer t then
                 let s = (if fm_indent_level s > 0 then s\<lparr>fm_indent_level := fm_indent_level s - 1\<rparr> else s)
                 in if fb_fn_depth s > 0
                    then s\<lparr>fb_fn_depth := fb_fn_depth s - 1, fb_had_fn_block := (fb_had_fn_block s \<or> fb_fn_depth s - 1 = 0)\<rparr>
                    else s
               else s);
          s = (if is_continuation t \<and> fm_indent_level s > 0 then s\<lparr>fm_indent_level := fm_indent_level s - 1\<rparr> else s);
          s = (if t = Keyword TOKEN_FN \<and> fb_fn_depth s = 0 \<and> fb_had_fn_block s \<and> fb_prev_was_newline s \<and>
                  fb_blank_lines s = 0 \<and> fm_out s \<noteq> []
               then code_emit_newline s else s)
      in s\<lparr>fb_blank_lines := 0\<rparr>)"

definition after_token :: "token_type \<Rightarrow> fmt_block \<Rightarrow> fmt_block" where
  "after_token t s =
     (let s = (if is_block_opener t then
                 let s = s\<lparr>fm_indent_level := fm_indent_level s + 1\<rparr>
                 in if t = Keyword TOKEN_FN then s\<lparr>fb_fn_depth := fb_fn_depth s + 1\<rparr> else s
               else s)
      in if is_continuation t then s\<lparr>fm_indent_level := fm_indent_level s + 1\<rparr> else s)"

definition format_token :: "token_type list \<Rightarrow> token \<Rightarrow> fmt_block \<Rightarrow> fmt_block" where
  "format_token seen tok s =
     (let s = before_token (tk_type tok) s;
          s = (if \<not> fb_prev_was_newline s \<and> space_before (tk_type tok) seen then code_emit_space s else s);
          s = (code_emit_token tok s)\<lparr>fb_prev_was_newline := False\<rparr>
      in after_token (tk_type tok) s)"

text \<open>The loop over the tokens; \<open>seen\<close> as in \<open>space_before\<close>.\<close>

fun format_loop :: "token list \<Rightarrow> token_type list \<Rightarrow> fmt_block \<Rightarrow> fmt_block" where
  "format_loop [] seen s = s"
| "format_loop (tok # toks) seen s =
     (if tk_type tok = Special TOKEN_EOF then s
      else format_loop toks (tk_type tok # seen)
        (if tk_type tok = Special TOKEN_ERROR then code_emit_token tok s
         else if tk_type tok = Special TOKEN_NEWLINE then format_newline s
         else format_token seen tok s))"

definition format_code_block :: "string \<Rightarrow> int \<Rightarrow> (string \<times> int) option" where
  "format_code_block code indent_level =
     Option.bind (lex_all (lexer_init code)) (\<lambda>tokens.
       let s = format_loop tokens []
             \<lparr>fm_out = [], fm_indent_level = indent_level, fm_col = 0, fm_line_started = False,
              fb_prev_was_newline = True, fb_blank_lines = 0, fb_fn_depth = 0, fb_had_fn_block = False\<rparr>
       in Some (fm_out s, fm_indent_level s))"

subsection \<open>The whole file\<close>

definition is_code_line :: "source_line \<Rightarrow> bool" where
  "is_code_line l \<longleftrightarrow> \<not> sl_is_comment l \<and> \<not> sl_is_blank l"

definition block_text :: "source_line list \<Rightarrow> string" where
  "block_text ls = concat (map (\<lambda>l. sl_start l @ [NL]) ls)"

definition ensure_newline :: "string \<Rightarrow> string" where
  "ensure_newline s = (if s \<noteq> [] \<and> last s \<noteq> NL then s @ [NL] else s)"

text \<open>The numbers of the lines whose inline comment draws a warning.\<close>

definition inline_warnings :: "nat \<Rightarrow> source_line list \<Rightarrow> nat list" where
  "inline_warnings i ls = map fst (filter (\<lambda>(j, l). sl_inline_comment l \<noteq> None) (zip [i + 1..<i + 1 + length ls] ls))"

text \<open>The loop over the lines: \<open>i\<close> lines are done, \<open>result\<close> is the output so far and \<open>warnings\<close> what went to
  \<open>stderr\<close>.\<close>

function format_lines :: "source_line list \<Rightarrow> nat \<Rightarrow> int \<Rightarrow> int \<Rightarrow> string \<Rightarrow> nat list \<Rightarrow> (string \<times> nat list) option" where
  "format_lines [] i indent_level consecutive_blanks result warnings = Some (result, warnings)"
| "format_lines (line # ls) i indent_level consecutive_blanks result warnings =
     (if sl_is_blank line then
        format_lines ls (i + 1) indent_level (consecutive_blanks + 1)
          (result @ (if consecutive_blanks + 1 \<le> 1 then [NL] else [])) warnings
      else if sl_is_comment line then
        format_lines ls (i + 1) indent_level 0 (result @ indent_text indent_level @ get_comment_text line @ [NL]) warnings
      else
        let code_lines = takeWhile is_code_line (line # ls); rest = dropWhile is_code_line (line # ls)
        in Option.bind (format_code_block (block_text code_lines) indent_level) (\<lambda>(formatted, indent_level).
             format_lines rest (i + length code_lines) indent_level 0 (result @ ensure_newline formatted)
               (warnings @ inline_warnings i code_lines)))"
  by pat_completeness auto
termination
proof (relation "measure (\<lambda>(ls, _). length ls)")
  fix line :: source_line and ls rest i indent_level consecutive_blanks result warnings x
  assume a: "\<not> sl_is_blank line" "\<not> sl_is_comment line" "rest = dropWhile is_code_line (line # ls)"
  then have "rest = dropWhile is_code_line ls" by (simp add: is_code_line_def)
  then have "length rest \<le> length ls" using length_dropWhile_le by simp
  then show "((rest, i', j, 0, r, w), line # ls, i, indent_level, consecutive_blanks, result, warnings) \<in> measure (\<lambda>(ls, _). length ls)"
    for i' j r w by simp
qed auto

text \<open>The end of the file, on the reversed output: no trailing blanks, one newline.\<close>

fun collapse_newlines :: "string \<Rightarrow> string" where
  "collapse_newlines (c # d # r) = (if c = NL \<and> d = NL then collapse_newlines (d # r) else c # d # r)"
| "collapse_newlines r = r"

definition finish_file :: "string \<Rightarrow> string option" where
  "finish_file result =
     (if result = [] then Some [NL]
      else
        let r = collapse_newlines (dropWhile (\<lambda>c. c = CHR '' '' \<or> c = CHR 0x09) (rev result))
        in case r of [] \<Rightarrow> None | c # _ \<Rightarrow> Some (rev (if c = NL then r else NL # r)))"

definition fmt_format :: "string \<Rightarrow> (string \<times> nat list) option" where
  "fmt_format source =
     Option.bind (format_lines (split_lines source) 0 0 0 [] []) (\<lambda>(result, warnings).
       map_option (\<lambda>s. (s, warnings)) (finish_file result))"

subsection \<open>What is neither a blank nor a line end\<close>

definition ws :: "char \<Rightarrow> bool" where
  "ws c \<longleftrightarrow> blank_char c \<or> c = NL"

definition solid :: "string \<Rightarrow> string" where
  "solid s = filter (\<lambda>c. \<not> ws c) s"

lemma solid_simps [simp]:
  "solid [] = []" "solid (s @ s') = solid s @ solid s'" "solid (rev s) = rev (solid s)"
  "solid (c # s) = (if ws c then solid s else c # solid s)" "solid (replicate n (CHR '' '')) = []" "ws NL" "ws (CHR '' '')" "\<not> ws NUL"
  by (simp_all add: solid_def ws_def blank_char_def rev_filter)

lemma solid_dropWhile: "\<forall>c. P c \<longrightarrow> ws c \<Longrightarrow> solid (dropWhile P s) = solid s"
  by (induction s) auto

lemma solid_concat: "solid (concat xs) = concat (map solid xs)"
  by (induction xs) simp_all

lemma solid_trim: "solid (trim_right s) = solid s"
  using solid_dropWhile [of blank_char "rev s"] by (simp add: trim_right_def ws_def)

lemma solid_indent [simp]: "solid (indent_text n) = []"
  by (simp add: indent_text_def)

lemma solid_comment: "solid (get_comment_text l) = solid (sl_start l)"
  by (simp add: get_comment_text_def solid_trim solid_dropWhile ws_def blank_char_def)

lemma solid_emit [simp]:
  "solid (fm_out (code_emit_indent s)) = solid (fm_out s)"
  "solid (fm_out (code_emit_newline s)) = solid (fm_out s)"
  "solid (fm_out (code_emit_token tok s)) = solid (fm_out s) @ solid (tok_text tok)"
  "solid (fm_out (code_emit_space s)) = solid (fm_out s)"
proof -
  show i: "solid (fm_out (code_emit_indent s)) = solid (fm_out s)" for s :: "'z code_fmt_scheme" by (simp add: code_emit_indent_def)
  show "solid (fm_out (code_emit_token tok s)) = solid (fm_out s) @ solid (tok_text tok)"
    by (simp add: code_emit_token_def Let_def i del: tok_text.simps)
qed (simp_all add: code_emit_newline_def code_emit_space_def solid_dropWhile)

lemma solid_format_token:
  "solid (fm_out (format_token seen tok s)) = solid (fm_out s) @ solid (tok_text tok)"
proof -
  have b: "solid (fm_out (before_token t s)) = solid (fm_out s)" for t by (simp add: before_token_def Let_def)
  have a: "fm_out (after_token t s) = fm_out s" for t and s :: fmt_block by (simp add: after_token_def Let_def)
  show ?thesis by (simp add: format_token_def Let_def a b del: tok_text.simps)
qed

lemma solid_format_loop:
  assumes "\<forall>t \<in> set toks. tk_type t = Special TOKEN_NEWLINE \<longrightarrow> solid (tok_text t) = []"
  shows "solid (fm_out (format_loop toks seen s)) =
    solid (fm_out s) @ concat (map (\<lambda>t. solid (tok_text t)) (takeWhile (\<lambda>t. tk_type t \<noteq> Special TOKEN_EOF) toks))"
  using assms
proof (induction toks seen s rule: format_loop.induct)
  case (2 tok toks seen s)
  have n: "solid (fm_out (format_newline s)) = solid (fm_out s)" by (simp add: format_newline_def Let_def)
  show ?case using 2 n by (simp add: solid_format_token del: tok_text.simps)
qed simp

subsection \<open>Tokens and the text between them\<close>

lemma match_chain_type: "tk_type (fst (match_chain lx alts t)) \<in> insert t (snd ` set alts)"
proof (induction alts arbitrary: lx)
  case (Cons a alts)
  obtain e t' b lx' where a: "a = (e, t')" "match_char lx e = (b, lx')" by (cases a; cases "match_char lx (fst a)") auto
  show ?case using Cons [of lx'] a by (cases b) (auto simp: make_token_def)
qed (simp add: make_token_def)

lemma string_loop_interpolation: "string_loop q s l = (Interpolation, s', l') \<Longrightarrow> CHR ''#'' \<in> set s"
  by (induction q s l rule: string_loop.induct) (auto simp: Let_def split: if_splits list.splits)

text \<open>Nothing but a line end is a \<open>TOKEN_NEWLINE\<close>, and an interpolation needs a \<open>#\<close>.\<close>

definition plain_type :: "token_type \<Rightarrow> bool" where
  "plain_type t \<longleftrightarrow> t \<noteq> Special TOKEN_NEWLINE \<and> t \<noteq> Special TOKEN_INTERPOLATION_START"

definition plain_step :: "token \<times> lexer \<Rightarrow> bool" where
  "plain_step r \<longleftrightarrow> plain_type (tk_type (fst r))"

lemma plain_types [simp]: "plain_type (Single a)" "plain_type (Multi b)" "plain_type (Literal c)" "plain_type (Special TOKEN_EOF)"
  by (simp_all add: plain_type_def)

lemma plain_if: "plain_step x \<Longrightarrow> plain_step y \<Longrightarrow> plain_step (if b then x else y)"
  by simp

lemma plain_tokens [simp]:
  "plain_step (make_token lx t) \<longleftrightarrow> plain_type t" "plain_step (error_token lx msg)"
  by (simp_all add: make_token_def error_token_def plain_step_def plain_type_def)

lemma plain_chain: "plain_type t \<Longrightarrow> \<forall>a \<in> set alts. plain_type (snd a) \<Longrightarrow> plain_step (match_chain lx alts t)"
  using match_chain_type [of lx alts t] by (auto simp: plain_step_def)

lemma plain_scan:
  "plain_step (scan_identifier lx)" "plain_step (scan_number lx)" "plain_step (scan_symbol lx)"
proof -
  show "plain_step (scan_identifier lx)"
    using identifier_type_kinds by (simp add: scan_identifier_def Let_def plain_type_def)
  show "plain_step (scan_number lx)" by (simp add: scan_number_def Let_def)
  show "plain_step (scan_symbol lx)" by (simp add: scan_symbol_def Let_def split: prod.split)
qed

lemma plain_string: "CHR ''#'' \<notin> set (lx_current lx) \<Longrightarrow> plain_step (scan_string lx q)"
  using string_loop_interpolation [of q "lx_current lx" "lx_line lx"]
  by (auto simp: scan_string_def split: prod.split string_end.split)

lemma plain_dot: "plain_step (case match_char lx c of (True, lx) \<Rightarrow> match_chain lx [(d, Multi a)] (Multi b) | (False, lx) \<Rightarrow> make_token lx (Single e))"
  by (auto simp del: match_chain.simps intro!: plain_chain split: prod.split bool.split)

lemma plain_switch:
  assumes "CHR ''#'' \<notin> set (lx_current lx)" and "c \<noteq> NL"
  shows "plain_step (scan_switch lx c)"
  unfolding scan_switch_def if_not_P [OF assms(2)]
  by (intro plain_if plain_dot plain_chain plain_scan plain_string [OF assms(1)]; simp)

lemma skip_whitespace_blank: "CHR ''#'' \<notin> set s \<Longrightarrow> skip_whitespace s = dropWhile blank_char s"
  by (induction s rule: skip_whitespace.induct) (auto simp: blank_char_def)

lemma next_token_start: "lx_start (snd (lexer_next_token lx)) = skip_whitespace (lx_current lx)" if "src_ok (lx_current lx)"
proof (cases "lexer_next_token lx")
  case (Pair t lx')
  from that show ?thesis
  proof (cases rule: next_token_cases)
    case (other c cs lx0)
    then show ?thesis using Pair by (auto simp: moves_def)
  qed (simp_all add: make_token_def)
qed

lemma next_token_plain:
  assumes "src_ok (lx_current lx)" and "CHR ''#'' \<notin> set (lx_current lx)" and "lexer_next_token lx = (t, lx')"
  shows "plain_type (tk_type t) \<or> tk_type t = Special TOKEN_NEWLINE \<and> tok_text t = [NL]"
proof -
  have s: "CHR ''#'' \<notin> set (skip_whitespace (lx_current lx))"
    using assms(2) by (auto simp: skip_whitespace_blank [OF assms(2)] dest: set_dropWhileD)
  show ?thesis
  proof (cases "skip_whitespace (lx_current lx)")
    case Nil
    then show ?thesis using skip_whitespace_adv [OF assms(1)] by (simp add: adv_def)
  next
    case (Cons c cs)
    then have "CHR ''#'' \<notin> set cs" using s by simp
    then have "c \<noteq> NL \<Longrightarrow> plain_step (lexer_next_token lx)"
      by (auto simp: lexer_next_token_def Let_def Cons plain_scan intro!: plain_if plain_switch)
    moreover have "c = NL \<Longrightarrow> tk_type (fst (lexer_next_token lx)) = Special TOKEN_NEWLINE \<and> tok_text (fst (lexer_next_token lx)) = [NL]"
      by (simp add: lexer_next_token_def Let_def Cons at_end_def scan_switch_def make_token_def)
    ultimately show ?thesis using assms(3) by (auto simp: plain_step_def)
  qed
qed

lemma lex_all_solid:
  assumes "src_ok (lx_current lx)" and "CHR ''#'' \<notin> set (lx_current lx)" and "lex_all lx = Some ts"
    and "\<forall>t \<in> set ts. tk_type t \<noteq> Special TOKEN_ERROR"
  shows "concat (map (\<lambda>t. solid (tok_text t)) (takeWhile (\<lambda>t. tk_type t \<noteq> Special TOKEN_EOF) ts)) @ [NUL] = solid (lx_current lx) \<and>
    (\<forall>t \<in> set ts. tk_type t = Special TOKEN_NEWLINE \<longrightarrow> solid (tok_text t) = [])"
  using assms
proof (induction "length (lx_current lx)" arbitrary: lx ts rule: less_induct)
  case less
  obtain t lx' where r: "lexer_next_token lx = (t, lx')" by force
  note step = next_token_step [OF less.prems(1) r]
  have st: "lx_start lx' = dropWhile blank_char (lx_current lx)"
    using next_token_start [OF less.prems(1)] r skip_whitespace_blank [OF less.prems(2)] by simp
  then have sol: "solid (lx_start lx') = solid (lx_current lx)" by (simp add: solid_dropWhile ws_def)
  have nl: "tk_type t = Special TOKEN_NEWLINE \<longrightarrow> solid (tok_text t) = []"
    using next_token_plain [OF less.prems(1,2) r] by (auto simp: plain_type_def simp del: tok_text.simps)
  show ?case
  proof (cases "tk_type t = Special TOKEN_EOF")
    case True
    then have "ts = [t]" using less.prems(3) r by (simp add: lex_all.simps [of lx])
    then show ?thesis using True step(3) sol by (simp del: tok_text.simps)
  next
    case False
    then obtain ts' where ts: "lex_all lx' = Some ts'" "ts = t # ts'"
      using less.prems(3) r by (auto simp: lex_all.simps [of lx] bind_eq_Some_conv)
    have e: "tk_type t \<noteq> Special TOKEN_ERROR" "\<forall>t \<in> set ts'. tk_type t \<noteq> Special TOKEN_ERROR" using less.prems(4) ts(2) by simp_all
    have "tk_type t \<noteq> Special TOKEN_INTERPOLATION_START"
      using next_token_plain [OF less.prems(1,2) r] by (auto simp: plain_type_def)
    then have q: "lx_start lx' = tok_text t @ lx_current lx'" using step(5) [OF e(1)] by auto
    have h: "CHR ''#'' \<notin> set (lx_current lx')"
      using less.prems(2) st q set_dropWhileD [of _ blank_char "lx_current lx"] by (metis UnCI set_append)
    from less.hyps [OF step(4) [OF False] step(1) h ts(1) e(2)] show ?thesis
      using q sol nl False ts(2) by (auto simp del: tok_text.simps) 
  qed
qed

subsection \<open>The formatter changes blanks only\<close>

definition lexes_clean :: "string \<Rightarrow> bool" where
  "lexes_clean code \<longleftrightarrow> (case lex_all (lexer_init code) of
     Some ts \<Rightarrow> \<forall>t \<in> set ts. tk_type t \<noteq> Special TOKEN_ERROR | None \<Rightarrow> False)"

text \<open>The runs of code lines that are formatted one by one.\<close>

function code_blocks :: "source_line list \<Rightarrow> string list" where
  "code_blocks [] = []"
| "code_blocks (l # ls) =
     (if is_code_line l then block_text (takeWhile is_code_line (l # ls)) # code_blocks (dropWhile is_code_line ls)
      else code_blocks ls)"
  by pat_completeness auto
termination
  by (relation "measure length") (auto intro: le_imp_less_Suc length_dropWhile_le)

lemma format_code_block_returns:
  assumes "NUL \<notin> set code"
  obtains f i where "format_code_block code ind = Some (f, i)"
  using lex_all_returns [OF lexer_init_ok [OF assms]] that by (auto simp: format_code_block_def Let_def)

lemma format_code_block_solid:
  assumes "NUL \<notin> set code" and "CHR ''#'' \<notin> set code" and "lexes_clean code" and "format_code_block code ind = Some (f, i)"
  shows "solid f = solid code"
proof -
  obtain ts where ts: "lex_all (lexer_init code) = Some ts" "\<forall>t \<in> set ts. tk_type t \<noteq> Special TOKEN_ERROR"
    using assms(3) by (auto simp: lexes_clean_def split: option.splits)
  have c: "lx_current (lexer_init code) = code @ [NUL]" by (simp add: lexer_init_def)
  have "CHR ''#'' \<notin> set (lx_current (lexer_init code))" using assms(2) by (simp add: c)
  from lex_all_solid [OF lexer_init_ok [OF assms(1)] this ts]
  show ?thesis using assms(4) ts(1) by (auto simp: format_code_block_def Let_def solid_format_loop c)
qed

lemma solid_ensure [simp]: "solid (ensure_newline s) = solid s"
  by (simp add: ensure_newline_def)

lemma block_text_simps [simp]: "block_text [] = []" "block_text (l # ls) = sl_start l @ [NL] @ block_text ls"
  by (simp_all add: block_text_def)

lemma set_block_text: "c \<in> set (block_text ls) \<Longrightarrow> c = NL \<or> (\<exists>l \<in> set ls. c \<in> set (sl_start l))"
  by (induction ls) auto

lemma solid_block_text: "solid (block_text ls) = solid (concat (map sl_start ls))"
  by (induction ls) simp_all

definition lines_ok :: "source_line list \<Rightarrow> bool" where
  "lines_ok ls \<longleftrightarrow> (\<forall>l \<in> set ls. l = source_line_of (sl_start l) \<and> NUL \<notin> set (sl_start l) \<and>
     (is_code_line l \<longrightarrow> CHR ''#'' \<notin> set (sl_start l)))"

lemma blank_line_solid:
  assumes "l = source_line_of (sl_start l)" and "sl_is_blank l"
  shows "solid (sl_start l) = []"
proof -
  have "sl_is_blank (source_line_of (sl_start l))" using assms by simp
  then have "dropWhile blank_char (sl_start l) = []" by (simp add: source_line_of_def Let_def)
  moreover have "solid (dropWhile blank_char (sl_start l)) = solid (sl_start l)" by (rule solid_dropWhile) (simp add: ws_def)
  ultimately show ?thesis by (simp only: solid_simps(1))
qed

lemma format_lines_solid:
  assumes "lines_ok ls" and "\<forall>b \<in> set (code_blocks ls). lexes_clean b" and "result \<noteq> [] \<longrightarrow> last result = NL"
  shows "\<exists>out w. format_lines ls i ind n result warns = Some (out, w) \<and> solid out = solid result @ solid (concat (map sl_start ls)) \<and>
    (out \<noteq> [] \<longrightarrow> last out = NL)"
  using assms
proof (induction ls i ind n result warns rule: format_lines.induct)
  case (2 line ls i ind n result warns)
  have ls: "lines_ok ls" "line = source_line_of (sl_start line)" "NUL \<notin> set (sl_start line)" using 2(4) by (simp_all add: lines_ok_def)
  show ?case
  proof (cases "is_code_line line")
    case False
    then have b: "\<forall>b \<in> set (code_blocks ls). lexes_clean b" using 2(5) by simp
    show ?thesis
    proof (cases "sl_is_blank line")
      case True
      then show ?thesis using 2(1) [OF True ls(1) b] 2(6) blank_line_solid [OF ls(2)] by (cases "n \<le> 0") simp_all
    next
      case nb: False
      then have c: "sl_is_comment line" using False by (simp add: is_code_line_def)
      show ?thesis using 2(2) [OF nb c ls(1) b] nb c by (simp add: solid_comment)
    qed
  next
    case True
    let ?c = "takeWhile is_code_line (line # ls)" and ?r = "dropWhile is_code_line (line # ls)"
    have nb: "\<not> sl_is_blank line" "\<not> sl_is_comment line" using True by (simp_all add: is_code_line_def)
    have mem: "l \<in> set ?c \<Longrightarrow> l \<in> set (line # ls) \<and> is_code_line l" for l using set_takeWhileD [of l is_code_line "line # ls"] by blast
    then have t: "NUL \<notin> set (block_text ?c)" "CHR ''#'' \<notin> set (block_text ?c)"
      using 2(4) by (auto simp: lines_ok_def simp del: takeWhile.simps dest!: set_block_text)
    have cl: "lexes_clean (block_text ?c)" "\<forall>b \<in> set (code_blocks ?r). lexes_clean b" using 2(5) True by simp_all
    obtain f j where f: "format_code_block (block_text ?c) ind = Some (f, j)" by (rule format_code_block_returns [OF t(1)])
    have r: "lines_ok ?r" using 2(4) set_dropWhileD [of _ is_code_line "line # ls"] unfolding lines_ok_def by blast
    have e: "result @ ensure_newline f \<noteq> [] \<longrightarrow> last (result @ ensure_newline f) = NL"
      using 2(6) by (auto simp: ensure_newline_def last_append)
    from 2(3) [OF nb refl refl f refl r cl(2) e] obtain out w where
      o: "format_lines ?r (i + length ?c) j 0 (result @ ensure_newline f) (warns @ inline_warnings i ?c) = Some (out, w)"
        "solid out = solid (result @ ensure_newline f) @ solid (concat (map sl_start ?r))" "out \<noteq> [] \<longrightarrow> last out = NL" by blast
    have "map sl_start (line # ls) = map sl_start ?c @ map sl_start ?r" by (simp only: takeWhile_dropWhile_id flip: map_append)
    then have "solid (concat (map sl_start (line # ls))) = solid (block_text ?c) @ solid (concat (map sl_start ?r))"
      by (simp only: concat_append solid_simps(2) solid_block_text)
    then have "solid out = solid result @ solid (concat (map sl_start (line # ls)))"
      using o(2) format_code_block_solid [OF t cl(1) f] by simp
    then show ?thesis using o(1,3) nb f by (simp add: Let_def del: takeWhile.simps dropWhile.simps)
  qed
qed simp

lemma split_lines_facts:
  "solid (concat (map sl_start (split_lines s))) = solid s"
  "l \<in> set (split_lines s) \<Longrightarrow> l = source_line_of (sl_start l) \<and> set (sl_start l) \<subseteq> set s"
proof (induction s rule: split_lines.induct)
  case (2 c cs)
  let ?l = "takeWhile (\<lambda>c. c \<noteq> NL) (c # cs)" and ?p = "dropWhile (\<lambda>c. c \<noteq> NL) (c # cs)"
  have st: "sl_start (source_line_of ?l) = ?l" by (simp add: source_line_of_def Let_def)
  have tl: "solid (tl ?p) = solid ?p"
  proof (cases ?p)
    case (Cons d ds)
    then have "d = NL" using hd_dropWhile [of "\<lambda>c. c \<noteq> NL" "c # cs"] by auto
    then show ?thesis using Cons by simp
  qed simp
  have e: "split_lines (c # cs) = source_line_of ?l # split_lines (tl ?p)" by (simp only: split_lines.simps(2) Let_def)
  have "solid (c # cs) = solid ?l @ solid ?p" by (simp only: takeWhile_dropWhile_id flip: solid_simps(2))
  then show "solid (concat (map sl_start (split_lines (c # cs)))) = solid (c # cs)"
    using 2(1) [OF refl refl] tl unfolding e list.map concat.simps st solid_simps(2) by simp
  have "set (tl ?p) \<subseteq> set (c # cs)" using set_dropWhileD [of _ "\<lambda>c. c \<noteq> NL" "c # cs"] list.set_sel(2) by (metis list.sel(2) subsetI)
  then have in_tl: "l \<in> set (split_lines (tl ?p)) \<Longrightarrow> l = source_line_of (sl_start l) \<and> set (sl_start l) \<subseteq> set (c # cs)"
    using 2(2) [OF refl refl] by blast
  have "set ?l \<subseteq> set (c # cs)" using set_takeWhileD [of _ "\<lambda>c. c \<noteq> NL" "c # cs"] by blast
  then have "source_line_of ?l = source_line_of (sl_start (source_line_of ?l)) \<and> set (sl_start (source_line_of ?l)) \<subseteq> set (c # cs)"
    unfolding st by blast
  then show "l \<in> set (split_lines (c # cs)) \<Longrightarrow> l = source_line_of (sl_start l) \<and> set (sl_start l) \<subseteq> set (c # cs)"
    using in_tl unfolding e set_simps by blast
qed simp_all

lemma collapse_facts:
  "solid (collapse_newlines r) = solid r" "collapse_newlines r = [] \<longleftrightarrow> r = []" "r \<noteq> [] \<Longrightarrow> hd (collapse_newlines r) = hd r"
  "hd r = NL \<Longrightarrow> r \<noteq> [] \<Longrightarrow> \<exists>b. collapse_newlines r = NL # b \<and> (b = [] \<or> hd b \<noteq> NL)"
  by (induction r rule: collapse_newlines.induct) auto

lemma finish_file_facts:
  assumes "r \<noteq> [] \<longrightarrow> last r = NL"
  obtains b where "finish_file r = Some (b @ [NL])" "solid b = solid r" "b = [] \<or> last b \<noteq> NL"
proof (cases "r = []")
  case True
  then show ?thesis using that [of "[]"] by (simp add: finish_file_def)
next
  case False
  then obtain q where q: "rev r = NL # q" using assms by (cases r rule: rev_cases) auto
  then have d: "dropWhile (\<lambda>c. c = CHR '' '' \<or> c = CHR 0x09) (rev r) = rev r" by simp
  from collapse_facts(4) [of "rev r"] q obtain b where b: "collapse_newlines (rev r) = NL # b" "b = [] \<or> hd b \<noteq> NL" by auto
  have "solid (NL # b) = rev (solid r)" using collapse_facts(1) [of "rev r"] b(1) by simp
  then have "solid (rev b) = solid r" by simp
  then show ?thesis using that [of "rev b"] b False by (auto simp: finish_file_def d last_rev)
qed


definition fmt_example :: string where
  "fmt_example = ''if a==1'' @ [NL] @ ''# note'' @ [NL] @ ''b=f( a ,2)'' @ [NL] @ ''end''"



end
