(* ===== verification/Ratelimit.thy ===== *)
theory Ratelimit
  imports Vm Machine_Facts
begin

section \<open>The rate limiter (stdlib_ratelimit.c)\<close>

text \<open>
  The package \<open>ratelimit\<close> keeps a token bucket per key in map objects on the heap.  The clock is the argument
  \<open>now\<close> and the static variable \<open>ratelimit_store\<close> the argument \<open>store\<close>; \<open>None\<close> is an overflow of \<open>int64_t\<close>.  The
  buckets refine an abstract token bucket, and so at most \<open>max_tokens\<close> plus the refill of the elapsed time are
  allowed in any window.
\<close>

subsection \<open>The code\<close>

text \<open>A lookup and a store under a literal name, which the code interns first.\<close>

definition get_named :: "heap \<Rightarrow> val64 \<Rightarrow> string \<Rightarrow> (val64 option \<times> heap) option" where
  "get_named h m name =
     (let (k, h) = intern_string h name
      in do { r \<leftarrow> obj_map_get (key_hash h) (AS_MAP h m) k; Some (r, h) })"

definition set_key :: "heap \<Rightarrow> val64 \<Rightarrow> ptr \<Rightarrow> val64 \<Rightarrow> heap option" where
  "set_key h m k v = do { (mp, _) \<leftarrow> obj_map_set (key_hash h) (AS_MAP h m) k v; Some (set_map h m mp) }"

definition set_named :: "heap \<Rightarrow> val64 \<Rightarrow> string \<Rightarrow> val64 \<Rightarrow> heap option" where
  "set_named h m name v = (let (k, h) = intern_string h name in set_key h m k v)"

definition ensure_ratelimit_state :: "ptr option \<Rightarrow> heap \<Rightarrow> ptr \<times> heap" where
  "ensure_ratelimit_state store h =
     (case store of None \<Rightarrow> alloc_object h (OBJ_MAP obj_map_new) | Some sp \<Rightarrow> (sp, h))"

definition int_or :: "val64 option \<Rightarrow> int \<Rightarrow> int" where
  "int_or r d = (case r of Some v \<Rightarrow> if IS_INT v then AS_INT v else d | None \<Rightarrow> d)"

text \<open>The tokens and the time of the last refill of an existing bucket, after refilling it.\<close>

definition refill_bucket :: "heap \<Rightarrow> val64 \<Rightarrow> int \<Rightarrow> int \<Rightarrow> int \<Rightarrow> (int \<times> int \<times> heap) option" where
  "refill_bucket h bucket max_tokens refill_rate now = do {
     (r, h) \<leftarrow> get_named h bucket ''tokens'';
     let tokens = int_or r max_tokens;
     (r, h) \<leftarrow> get_named h bucket ''last_refill'';
     let last_refill = int_or r now;
     let elapsed = now - last_refill;
     if elapsed > 0 then
       let refill = elapsed * refill_rate
       in if in_int64 elapsed \<and> in_int64 refill \<and> in_int64 (tokens + refill)
          then Some (if tokens + refill > max_tokens then max_tokens else tokens + refill, now, h) else None
     else Some (tokens, last_refill, h) }"

definition native_ratelimit_check :: "int \<Rightarrow> ptr option \<Rightarrow> heap \<Rightarrow> val64 list \<Rightarrow> (val64 \<times> ptr option \<times> heap) option" where
  "native_ratelimit_check now store h args =
     (if \<not> IS_STRING h (args ! 0) \<or> \<not> IS_INT (args ! 1) \<or> \<not> IS_INT (args ! 2) then Some (VAL_NIL, store, h)
      else
        let key = AS_PTR (args ! 0); max_tokens = AS_INT (args ! 1); refill_rate = AS_INT (args ! 2)
        in if max_tokens \<le> 0 \<or> refill_rate \<le> 0 then Some (VAL_NIL, store, h)
        else do {
          let (sp, h) = ensure_ratelimit_state store h;
          bucket_val \<leftarrow> obj_map_get (key_hash h) (AS_MAP h (OBJ_VAL sp)) key;
          (tokens, last_refill, h) \<leftarrow>
            (case bucket_val of
               Some b \<Rightarrow> if IS_MAP h b then refill_bucket h b max_tokens refill_rate now else Some (max_tokens, now, h)
             | None \<Rightarrow> Some (max_tokens, now, h));
          let allowed = (tokens > 0);
          let tokens = (if allowed then tokens - 1 else tokens);
          let (bucket, h) = alloc_object h (OBJ_MAP obj_map_new);
          h \<leftarrow> set_named h (OBJ_VAL bucket) ''tokens'' (INT_VAL tokens);
          h \<leftarrow> set_named h (OBJ_VAL bucket) ''last_refill'' (INT_VAL last_refill);
          h \<leftarrow> set_key h (OBJ_VAL sp) key (OBJ_VAL bucket);
          let (result, h) = alloc_object h (OBJ_MAP obj_map_new);
          h \<leftarrow> set_named h (OBJ_VAL result) ''allowed'' (BOOL_VAL allowed);
          h \<leftarrow> set_named h (OBJ_VAL result) ''remaining'' (INT_VAL tokens);
          Some (OBJ_VAL result, Some sp, h) })"

subsection \<open>Map objects as finite maps\<close>

definition map_at :: "heap \<Rightarrow> ptr \<Rightarrow> (string \<Rightarrow> val64 option) \<Rightarrow> nat \<Rightarrow> bool" where
  "map_at h p f n \<longleftrightarrow> p < length h \<and> (\<exists>m. h ! p = OBJ_MAP m \<and> map_ok h m \<and> key_map h m = f \<and> unat (om_length m) \<le> n)"

lemma map_at_heap_le: "map_at h p f n \<Longrightarrow> heap_le P h h' \<Longrightarrow> P p \<Longrightarrow> map_at h' p f n"
  using map_ok_heap_le [of h _ P h'] keys_heap_le(2) [of h _ P h']
  by (auto simp: map_at_def map_ok_def heap_le_def)

lemma map_at_new: "map_at (h @ [OBJ_MAP obj_map_new]) (length h) Map.empty 0"
proof -
  have "om_length obj_map_new = 0" by (simp add: obj_map_new_def)
  then show ?thesis using map_ok_new by (simp add: map_at_def)
qed

lemma map_at_get:
  assumes "map_at h p f n" and "length h < 2 ^ 43" and "find_string h s 0 = Some k"
  shows "obj_map_get (key_hash h) (AS_MAP h (OBJ_VAL p)) k = Some (f s)"
proof -
  obtain m where m: "p < length h" "h ! p = OBJ_MAP m" "map_ok h m" "key_map h m = f" using assms(1) by (auto simp: map_at_def)
  show ?thesis
    using obj_map.get_law [of "key_hash h" m k] m(3,4) assms(3) set_map_map(1) [OF m(1) assms(2) m(2)]
    by (auto simp: map_ok_def key_map_def)
qed

lemma map_at_set:
  assumes "map_at h p f n" and "length h < 2 ^ 43" and "find_string h s 0 = Some k" and "n < 2 ^ 29"
  obtains h' where "set_key h (OBJ_VAL p) k v = Some h'" "map_at h' p (f(s \<mapsto> v)) (n + 1)" "heap_le (\<lambda>i. i \<noteq> p) h h'" "length h' = length h"
proof -
  obtain m where m: "p < length h" "h ! p = OBJ_MAP m" "map_ok h m" "key_map h m = f" "unat (om_length m) \<le> n"
    using assms(1) by (auto simp: map_at_def)
  have "unat (om_length m) < 2 ^ 29" using m(5) assms(4) by simp
  from map_ok_store [OF m(3) this assms(3), of v] obtain m' b where
    s: "obj_map_set (key_hash h) m k v = Some (m', b)" "map_ok h m'" "key_map h m' = (key_map h m)(s \<mapsto> v)"
      "unat (om_length m') \<le> unat (om_length m) + 1" .
  note up = set_map_map [OF m(1) assms(2) m(2)]
  have "map_ok (h[p := OBJ_MAP m']) m'" "key_map (h[p := OBJ_MAP m']) m' = f(s \<mapsto> v)"
    using map_ok_heap_le [OF s(2) up(3)] keys_heap_le(2) [OF _ up(3), of m'] s(2,3) m(4) by (simp_all add: map_ok_def)
  then have "map_at (h[p := OBJ_MAP m']) p (f(s \<mapsto> v)) (n + 1)" using m(1,5) s(4) by (simp add: map_at_def)
  then show ?thesis using that [of "h[p := OBJ_MAP m']"] s(1) up by (simp add: set_key_def)
qed

lemma intern_grows:
  assumes "intern_string h s = (k, h')"
  shows "find_string h' s 0 = Some k" and "heap_le (\<lambda>_. True) h h'" and "length h' \<le> length h + 1"
proof -
  obtain os where "h' = h @ os" "length os \<le> 1" by (rule intern_string_result [OF assms])
  then show "heap_le (\<lambda>_. True) h h'" "length h' \<le> length h + 1" by (simp_all add: heap_le_append)
  show "find_string h' s 0 = Some k" by (rule intern_string_found_first [OF assms])
qed

lemma map_at_get_named:
  assumes "map_at h p f n" and "length h + 1 < 2 ^ 43"
  obtains h' where "get_named h (OBJ_VAL p) s = Some (f s, h')" "heap_le (\<lambda>_. True) h h'" "length h' \<le> length h + 1"
proof -
  obtain k h' where i: "intern_string h s = (k, h')" by (cases "intern_string h s")
  note g = intern_grows [OF i]
  have "map_at h' p f n" "length h' < 2 ^ 43" using map_at_heap_le [OF assms(1) g(2)] g(3) assms(2) by simp_all
  from map_at_get [OF this g(1)] show ?thesis using that i g by (simp add: get_named_def)
qed

lemma map_at_set_named:
  assumes "map_at h p f n" and "length h + 1 < 2 ^ 43" and "n < 2 ^ 29"
  obtains h' where "set_named h (OBJ_VAL p) s v = Some h'" "map_at h' p (f(s \<mapsto> v)) (n + 1)" "heap_le (\<lambda>i. i \<noteq> p) h h'"
    "length h' \<le> length h + 1"
proof -
  obtain k h1 where i: "intern_string h s = (k, h1)" by (cases "intern_string h s")
  note g = intern_grows [OF i]
  have m: "map_at h1 p f n" "length h1 < 2 ^ 43" using map_at_heap_le [OF assms(1) g(2)] g(3) assms(2) by simp_all
  from map_at_set [OF m g(1) assms(3), of v] obtain h' where h': "set_key h1 (OBJ_VAL p) k v = Some h'" "map_at h' p (f(s \<mapsto> v)) (n + 1)"
    "heap_le (\<lambda>i. i \<noteq> p) h1 h'" "length h' = length h1" .
  have "heap_le (\<lambda>i. i \<noteq> p) h h'" by (rule heap_le_trans [OF g(2) h'(3)]) simp
  then show ?thesis using that [of h'] i h' g(3) by (simp add: set_named_def)
qed

subsection \<open>The token bucket\<close>

text \<open>A bucket holds its tokens and the time of the last refill.\<close>

type_synonym bucket = "int \<times> int"

definition refilled :: "int \<Rightarrow> int \<Rightarrow> int \<Rightarrow> bucket option \<Rightarrow> bucket" where
  "refilled max_tokens rate now b =
     (case b of
        None \<Rightarrow> (max_tokens, now)
      | Some (t, l) \<Rightarrow> if l < now then (min max_tokens (t + (now - l) * rate), now) else (t, l))"

definition bucket_step :: "int \<Rightarrow> int \<Rightarrow> int \<Rightarrow> bucket option \<Rightarrow> bool \<times> bucket" where
  "bucket_step max_tokens rate now b =
     (let (t, l) = refilled max_tokens rate now b in if 0 < t then (True, (t - 1, l)) else (False, (t, l)))"

abbreviation in48 :: "int \<Rightarrow> bool" where
  "in48 i \<equiv> 0 \<le> i \<and> i < 2 ^ 47"

definition bucket_at :: "heap \<Rightarrow> ptr \<Rightarrow> bucket \<Rightarrow> bool" where
  "bucket_at h bp b \<longleftrightarrow> in48 (fst b) \<and> in48 (snd b) \<and>
     (\<exists>g. map_at h bp g 2 \<and> g ''tokens'' = Some (INT_VAL (fst b)) \<and> g ''last_refill'' = Some (INT_VAL (snd b)))"

text \<open>The store binds every key with a bucket to its map object; \<open>n\<close> bounds the number of keys.\<close>

definition buckets_at :: "heap \<Rightarrow> ptr \<Rightarrow> (string \<Rightarrow> bucket option) \<Rightarrow> nat \<Rightarrow> bool" where
  "buckets_at h sp B n \<longleftrightarrow> (\<exists>f. map_at h sp f n \<and>
     (\<forall>x. case B x of None \<Rightarrow> f x = None | Some b \<Rightarrow> \<exists>bp. f x = Some (OBJ_VAL bp) \<and> bp \<noteq> sp \<and> bucket_at h bp b))"

lemma bucket_at_heap_le: "bucket_at h bp b \<Longrightarrow> heap_le P h h' \<Longrightarrow> P bp \<Longrightarrow> bucket_at h' bp b"
  unfolding bucket_at_def using map_at_heap_le by blast

lemma map_at_length: "map_at h p f n \<Longrightarrow> p < length h \<and> h ! p \<noteq> OBJ_STRING s"
  by (auto simp: map_at_def)

lemma buckets_in48:
  assumes "buckets_at h sp B n" and "B x = Some b"
  shows "in48 (fst b)" "in48 (snd b)"
proof -
  obtain f where "\<forall>x. case B x of None \<Rightarrow> f x = None | Some b \<Rightarrow> \<exists>bp. f x = Some (OBJ_VAL bp) \<and> bp \<noteq> sp \<and> bucket_at h bp b"
    using assms(1) unfolding buckets_at_def by blast
  from this [rule_format, of x] show "in48 (fst b)" "in48 (snd b)" by (auto simp: assms(2) bucket_at_def)
qed

lemma buckets_at_heap_le:
  assumes "buckets_at h sp B n" and "heap_le (\<lambda>_. True) h h'"
  shows "buckets_at h' sp B n"
proof -
  obtain f where f: "map_at h sp f n"
    "\<forall>x. case B x of None \<Rightarrow> f x = None | Some b \<Rightarrow> \<exists>bp. f x = Some (OBJ_VAL bp) \<and> bp \<noteq> sp \<and> bucket_at h bp b"
    using assms(1) unfolding buckets_at_def by blast
  have "case B y of None \<Rightarrow> f y = None | Some b \<Rightarrow> \<exists>bp. f y = Some (OBJ_VAL bp) \<and> bp \<noteq> sp \<and> bucket_at h' bp b" for y
    using f(2) [rule_format, of y] bucket_at_heap_le [OF _ assms(2)] by (cases "B y") auto
  then show ?thesis using map_at_heap_le [OF f(1) assms(2)] unfolding buckets_at_def by blast
qed

text \<open>The case of \<open>bucket_val\<close> in the code.\<close>

lemma refill_exact:
  assumes "buckets_at h sp B n" and len: "length h + 2 < 2 ^ 43" and x: "find_string h x 0 = Some k" and "in48 now" and "0 < rate"
    and fits: "case B x of None \<Rightarrow> True | Some (t, l) \<Rightarrow> t + (now - l) * rate < 2 ^ 63"
  obtains r h' where "obj_map_get (key_hash h) (AS_MAP h (OBJ_VAL sp)) k = Some r" "heap_le (\<lambda>_. True) h h'" "length h' \<le> length h + 2"
    "(case r of Some b \<Rightarrow> if IS_MAP h b then refill_bucket h b mx rate now else Some (mx, now, h) | None \<Rightarrow> Some (mx, now, h)) =
       Some (fst (refilled mx rate now (B x)), snd (refilled mx rate now (B x)), h')"
proof -
  obtain f where f: "map_at h sp f n" "case B x of None \<Rightarrow> f x = None | Some b \<Rightarrow> \<exists>bp. f x = Some (OBJ_VAL bp) \<and> bp \<noteq> sp \<and> bucket_at h bp b"
    using assms(1) unfolding buckets_at_def by blast
  have get: "obj_map_get (key_hash h) (AS_MAP h (OBJ_VAL sp)) k = Some (f x)" by (rule map_at_get [OF f(1) _ x]) (use len in simp)
  show ?thesis
  proof (cases "B x")
    case None
    then show ?thesis using that [OF get heap_le_refl] f(2) by (simp add: refilled_def)
  next
    case (Some b)
    obtain t l where b: "b = (t, l)" by force
    obtain bp g where g: "f x = Some (OBJ_VAL bp)" "map_at h bp g 2" "g ''tokens'' = Some (INT_VAL t)" "g ''last_refill'' = Some (INT_VAL l)"
      "in48 t" "in48 l" using f(2) by (auto simp: Some b bucket_at_def)
    have m: "IS_MAP h (OBJ_VAL bp)" using g(2) obj_of_OBJ_VAL [of bp h] len by (auto simp: map_at_def IS_MAP_def)
    have "length h + 1 < 2 ^ 43" using len by simp
    from map_at_get_named [OF g(2) this, of "''tokens''"] obtain h1 where
      h1: "get_named h (OBJ_VAL bp) ''tokens'' = Some (g ''tokens'', h1)" "heap_le (\<lambda>_. True) h h1" "length h1 \<le> length h + 1" .
    have "map_at h1 bp g 2" "length h1 + 1 < 2 ^ 43" using map_at_heap_le [OF g(2) h1(2)] h1(3) len by simp_all
    from map_at_get_named [OF this, of "''last_refill''"] obtain h2 where
      h2: "get_named h1 (OBJ_VAL bp) ''last_refill'' = Some (g ''last_refill'', h2)" "heap_le (\<lambda>_. True) h1 h2" "length h2 \<le> length h1 + 1" .
    have io: "int_or (Some (INT_VAL i)) d = i" if "in48 i" for i d using INT_VAL_int [of i] that by (simp add: int_or_def)
    have "in_int64 (now - l) \<and> in_int64 ((now - l) * rate) \<and> in_int64 (t + (now - l) * rate)" if "l < now"
    proof -
      have "0 < (now - l) * rate" using that assms(5) by simp
      then show ?thesis using fits g(5,6) assms(4) by (auto simp: in_int64_def Some b)
    qed
    then have "refill_bucket h (OBJ_VAL bp) mx rate now = Some (fst (refilled mx rate now (B x)), snd (refilled mx rate now (B x)), h2)"
      unfolding refill_bucket_def h1(1) h2(1) g(3,4) bind.bind_lunit case_prod_conv Let_def io [OF g(5)] io [OF g(6)]
      by (auto simp: Some b refilled_def min_def)
    moreover have "heap_le (\<lambda>_. True) h h2" using heap_le_trans [OF h1(2) h2(2)] by simp
    moreover have "length h2 \<le> length h + 2" using h1(3) h2(3) by simp
    ultimately show ?thesis using that [OF get] m by (simp add: g(1))
  qed
qed

text \<open>Writing the new bucket and binding the key to it.\<close>

lemma store_bucket:
  assumes B: "buckets_at h sp B n" and len: "length h + 3 < 2 ^ 43" and n: "n < 2 ^ 29" and x: "find_string h x 0 = Some k"
    and "in48 t" and "in48 l"
  obtains h1 h2 h3 where "set_named (h @ [OBJ_MAP obj_map_new]) (OBJ_VAL (length h)) ''tokens'' (INT_VAL t) = Some h1"
    "set_named h1 (OBJ_VAL (length h)) ''last_refill'' (INT_VAL l) = Some h2"
    "set_key h2 (OBJ_VAL sp) k (OBJ_VAL (length h)) = Some h3"
    "buckets_at h3 sp (B(x \<mapsto> (t, l))) (n + 1)" "heap_le (\<lambda>i. i \<noteq> sp) h h3" "length h3 \<le> length h + 3"
proof -
  let ?b = "length h"
  obtain f where f: "map_at h sp f n"
    "\<forall>x. case B x of None \<Rightarrow> f x = None | Some b \<Rightarrow> \<exists>bp. f x = Some (OBJ_VAL bp) \<and> bp \<noteq> sp \<and> bucket_at h bp b"
    using B unfolding buckets_at_def by blast
  have sp: "sp < length h" using map_at_length [OF f(1)] by simp
  have "length (h @ [OBJ_MAP obj_map_new]) + 1 < 2 ^ 43" "(0 :: nat) < 2 ^ 29" using len by simp_all
  from map_at_set_named [OF map_at_new this, of "''tokens''" "INT_VAL t"] obtain h1 where
    h1: "set_named (h @ [OBJ_MAP obj_map_new]) (OBJ_VAL ?b) ''tokens'' (INT_VAL t) = Some h1" "map_at h1 ?b [''tokens'' \<mapsto> INT_VAL t] (0 + 1)"
      "heap_le (\<lambda>i. i \<noteq> ?b) (h @ [OBJ_MAP obj_map_new]) h1" "length h1 \<le> length (h @ [OBJ_MAP obj_map_new]) + 1" .
  have "length h1 + 1 < 2 ^ 43" "(0 + 1 :: nat) < 2 ^ 29" using h1(4) len by simp_all
  from map_at_set_named [OF h1(2) this, of "''last_refill''" "INT_VAL l"] obtain h2 where
    h2: "set_named h1 (OBJ_VAL ?b) ''last_refill'' (INT_VAL l) = Some h2"
      "map_at h2 ?b ([''tokens'' \<mapsto> INT_VAL t](''last_refill'' \<mapsto> INT_VAL l)) (0 + 1 + 1)" "heap_le (\<lambda>i. i \<noteq> ?b) h1 h2"
      "length h2 \<le> length h1 + 1" .
  have le1: "heap_le (\<lambda>i. i \<noteq> ?b) h h1" by (rule heap_le_trans [OF heap_le_append [of "\<lambda>_. True"] h1(3)]) simp
  have le2: "heap_le (\<lambda>i. i \<noteq> ?b) h h2" by (rule heap_le_trans [OF le1 h2(3)]) simp
  have f2: "map_at h2 sp f n" "length h2 < 2 ^ 43" using map_at_heap_le [OF f(1) le2] sp h1(4) h2(4) len by simp_all
  from map_at_set [OF f2 find_string_heap_le [OF x le2] n, of "OBJ_VAL ?b"] obtain h3 where
    h3: "set_key h2 (OBJ_VAL sp) k (OBJ_VAL ?b) = Some h3" "map_at h3 sp (f(x \<mapsto> OBJ_VAL ?b)) (n + 1)" "heap_le (\<lambda>i. i \<noteq> sp) h2 h3"
      "length h3 = length h2" .
  have le: "heap_le (\<lambda>i. i \<noteq> sp) h h3" by (rule heap_le_trans [OF le2 h3(3)]) auto
  have "map_at h3 ?b ([''tokens'' \<mapsto> INT_VAL t](''last_refill'' \<mapsto> INT_VAL l)) 2"
    using map_at_heap_le [OF h2(2) h3(3)] sp by (simp add: numeral_2_eq_2)
  then have new: "bucket_at h3 ?b (t, l)" using assms(5,6) by (auto simp: bucket_at_def)
  have "case (B(x \<mapsto> (t, l))) y of None \<Rightarrow> (f(x \<mapsto> OBJ_VAL ?b)) y = None
      | Some b \<Rightarrow> \<exists>bp. (f(x \<mapsto> OBJ_VAL ?b)) y = Some (OBJ_VAL bp) \<and> bp \<noteq> sp \<and> bucket_at h3 bp b" for y
  proof (cases "y = x")
    case True
    then show ?thesis using new sp by auto
  next
    case False
    show ?thesis
    proof (cases "B y")
      case None
      then show ?thesis using f(2) [rule_format, of y] False by simp
    next
      case (Some b)
      then obtain bp where bp: "f y = Some (OBJ_VAL bp)" "bp \<noteq> sp" "bucket_at h bp b" using f(2) [rule_format, of y] by auto
      have "bucket_at h3 bp b" by (rule bucket_at_heap_le [OF bp(3) le bp(2)])
      then show ?thesis using bp(1,2) Some False by auto
    qed
  qed
  then have "buckets_at h3 sp (B(x \<mapsto> (t, l))) (n + 1)" using h3(2) unfolding buckets_at_def by blast
  then show ?thesis using that [OF h1(1) h2(1) h3(1) _ le] h1(4) h2(4) h3(4) by simp
qed

definition answer_at :: "heap \<Rightarrow> val64 \<Rightarrow> bool \<Rightarrow> int \<Rightarrow> bool" where
  "answer_at h v allowed remaining \<longleftrightarrow> (\<exists>p g. v = OBJ_VAL p \<and> map_at h p g 2 \<and>
     g = [''allowed'' \<mapsto> BOOL_VAL allowed, ''remaining'' \<mapsto> INT_VAL remaining])"

lemma store_answer:
  assumes "length h + 3 < 2 ^ 43"
  obtains h1 h2 where "set_named (h @ [OBJ_MAP obj_map_new]) (OBJ_VAL (length h)) ''allowed'' (BOOL_VAL a) = Some h1"
    "set_named h1 (OBJ_VAL (length h)) ''remaining'' (INT_VAL t) = Some h2" "answer_at h2 (OBJ_VAL (length h)) a t"
    "heap_le (\<lambda>_. True) h h2" "length h2 \<le> length h + 3"
proof -
  let ?b = "length h"
  have "length (h @ [OBJ_MAP obj_map_new]) + 1 < 2 ^ 43" "(0 :: nat) < 2 ^ 29" using assms by simp_all
  from map_at_set_named [OF map_at_new this, of "''allowed''" "BOOL_VAL a"] obtain h1 where
    h1: "set_named (h @ [OBJ_MAP obj_map_new]) (OBJ_VAL ?b) ''allowed'' (BOOL_VAL a) = Some h1" "map_at h1 ?b [''allowed'' \<mapsto> BOOL_VAL a] (0 + 1)"
      "heap_le (\<lambda>i. i \<noteq> ?b) (h @ [OBJ_MAP obj_map_new]) h1" "length h1 \<le> length (h @ [OBJ_MAP obj_map_new]) + 1" .
  have "length h1 + 1 < 2 ^ 43" "(0 + 1 :: nat) < 2 ^ 29" using h1(4) assms by simp_all
  from map_at_set_named [OF h1(2) this, of "''remaining''" "INT_VAL t"] obtain h2 where
    h2: "set_named h1 (OBJ_VAL ?b) ''remaining'' (INT_VAL t) = Some h2"
      "map_at h2 ?b ([''allowed'' \<mapsto> BOOL_VAL a](''remaining'' \<mapsto> INT_VAL t)) (0 + 1 + 1)" "heap_le (\<lambda>i. i \<noteq> ?b) h1 h2"
      "length h2 \<le> length h1 + 1" .
  have le1: "heap_le (\<lambda>i. i \<noteq> ?b) h h1" by (rule heap_le_trans [OF heap_le_append [of "\<lambda>_. True"] h1(3)]) simp
  have "heap_le (\<lambda>_. True) h h2" by (rule heap_le_trans [OF le1 h2(3)]) simp
  moreover have "answer_at h2 (OBJ_VAL ?b) a t"
    unfolding answer_at_def by (intro exI conjI) (rule refl, use h2(2) in \<open>simp add: numeral_2_eq_2\<close>, rule refl)
  ultimately show ?thesis using that [OF h1(1) h2(1)] h2(4) h1(4) by simp
qed

text \<open>What one request does, on a store that holds the buckets \<open>B\<close>.\<close>

lemma check_exact:
  assumes B: "buckets_at h sp B n" and len: "length h + 8 < 2 ^ 43" and n: "n < 2 ^ 29" and x: "find_string h x 0 = Some k"
    and mx: "0 < mx" "mx < 2 ^ 47" and rate: "0 < rate" "rate < 2 ^ 47" and now: "in48 now"
    and fits: "case B x of None \<Rightarrow> True | Some (t, l) \<Rightarrow> t + (now - l) * rate < 2 ^ 63"
  obtains v h' where "native_ratelimit_check now (Some sp) h [OBJ_VAL k, INT_VAL mx, INT_VAL rate] = Some (v, Some sp, h')"
    "answer_at h' v (fst (bucket_step mx rate now (B x))) (fst (snd (bucket_step mx rate now (B x))))"
    "buckets_at h' sp (B(x \<mapsto> snd (bucket_step mx rate now (B x)))) (n + 1)" "length h' \<le> length h + 8"
    "find_string h' x 0 = Some k"
proof -
  have k: "k < length h" "h ! k = OBJ_STRING x" using x by (simp_all add: find_string_iff)
  have "obj_of h (OBJ_VAL k) = Some (OBJ_STRING x)" "AS_PTR (OBJ_VAL k) = k"
    using obj_of_OBJ_VAL [OF k(1)] OBJ_VAL_ptr [of k] k len by simp_all
  then have args: "IS_STRING h (OBJ_VAL k)" "AS_PTR (OBJ_VAL k) = k" "IS_INT (INT_VAL mx)" "AS_INT (INT_VAL mx) = mx"
    "IS_INT (INT_VAL rate)" "AS_INT (INT_VAL rate) = rate"
    using INT_VAL_int [of mx] INT_VAL_int [of rate] mx rate by (simp_all add: IS_STRING_def)
  have "length h + 2 < 2 ^ 43" using len by simp
  from refill_exact [OF B this x now rate(1) fits, of mx] obtain r h1 where
    r: "obj_map_get (key_hash h) (AS_MAP h (OBJ_VAL sp)) k = Some r" "heap_le (\<lambda>_. True) h h1" "length h1 \<le> length h + 2"
      "(case r of Some b \<Rightarrow> if IS_MAP h b then refill_bucket h b mx rate now else Some (mx, now, h) | None \<Rightarrow> Some (mx, now, h)) =
       Some (fst (refilled mx rate now (B x)), snd (refilled mx rate now (B x)), h1)" .
  obtain t l where tl: "refilled mx rate now (B x) = (t, l)" by force
  obtain a t' where st: "bucket_step mx rate now (B x) = (a, (t', l))" "a = (0 < t)" "t' = (if a then t - 1 else t)"
    by (auto simp: bucket_step_def tl)
  have b48: "in48 t" "in48 l"
  proof -
    have "case B x of None \<Rightarrow> True | Some b \<Rightarrow> in48 (fst b) \<and> in48 (snd b)"
      using buckets_in48 [OF B] by (auto split: option.split)
    moreover have "l' < now \<Longrightarrow> 0 < (now - l') * rate" for l' using rate(1) by simp
    ultimately show "in48 t" "in48 l" using tl mx now by (auto simp: refilled_def min_def split: option.splits if_splits) (smt (verit))+
  qed
  then have t': "in48 t'" using st(2,3) by auto
  have B1: "buckets_at h1 sp B n" by (rule buckets_at_heap_le [OF B r(2)])
  have "length h1 + 3 < 2 ^ 43" using r(3) len by simp
  from store_bucket [OF B1 this n find_string_heap_le [OF x r(2)] t' b48(2)] obtain h2 h3 h4 where
    s: "set_named (h1 @ [OBJ_MAP obj_map_new]) (OBJ_VAL (length h1)) ''tokens'' (INT_VAL t') = Some h2"
      "set_named h2 (OBJ_VAL (length h1)) ''last_refill'' (INT_VAL l) = Some h3"
      "set_key h3 (OBJ_VAL sp) k (OBJ_VAL (length h1)) = Some h4"
      "buckets_at h4 sp (B(x \<mapsto> (t', l))) (n + 1)" "heap_le (\<lambda>i. i \<noteq> sp) h1 h4" "length h4 \<le> length h1 + 3" .
  have "length h4 + 3 < 2 ^ 43" using s(6) r(3) len by simp
  from store_answer [OF this, of a t'] obtain h5 h6 where
    w: "set_named (h4 @ [OBJ_MAP obj_map_new]) (OBJ_VAL (length h4)) ''allowed'' (BOOL_VAL a) = Some h5"
      "set_named h5 (OBJ_VAL (length h4)) ''remaining'' (INT_VAL t') = Some h6" "answer_at h6 (OBJ_VAL (length h4)) a t'"
      "heap_le (\<lambda>_. True) h4 h6" "length h6 \<le> length h4 + 3" .
  have run: "native_ratelimit_check now (Some sp) h [OBJ_VAL k, INT_VAL mx, INT_VAL rate] = Some (OBJ_VAL (length h4), Some sp, h6)"
    using args mx(1) rate(1) r(1,4) s(1-3) w(1,2) st(2,3) unfolding native_ratelimit_check_def ensure_ratelimit_state_def alloc_object_def
    by (simp add: tl Let_def)
  have B6: "buckets_at h6 sp (B(x \<mapsto> (t', l))) (n + 1)"
    by (rule buckets_at_heap_le [OF s(4) w(4)])
  have "find_string h6 x 0 = Some k" by (rule find_string_heap_le [OF find_string_heap_le [OF find_string_heap_le [OF x r(2)] s(5)] w(4)])
  then show ?thesis using that [OF run _ _ _ ] w(3,5) B6 st(1) s(6) r(3) by simp
qed

subsection \<open>A window of requests\<close>

text \<open>A client makes one request per entry of \<open>nows\<close>, always with the same arguments, and looks at \<open>allowed\<close> in each
  answer.\<close>

definition is_allowed :: "heap \<Rightarrow> val64 \<Rightarrow> bool" where
  "is_allowed h v \<longleftrightarrow> key_map h (AS_MAP h v) ''allowed'' = Some VAL_TRUE"

fun requests :: "int list \<Rightarrow> ptr option \<Rightarrow> heap \<Rightarrow> val64 list \<Rightarrow> (bool list \<times> ptr option \<times> heap) option" where
  "requests [] store h args = Some ([], store, h)"
| "requests (now # nows) store h args = do {
     (v, store, h) \<leftarrow> native_ratelimit_check now store h args;
     (bs, store, h') \<leftarrow> requests nows store h args;
     Some (is_allowed h v # bs, store, h') }"

lemma answer_is_allowed: "answer_at h v a t \<Longrightarrow> length h < 2 ^ 43 \<Longrightarrow> is_allowed h v = a"
proof -
  have "BOOL_VAL a = VAL_TRUE \<longleftrightarrow> a" by (cases a) (simp_all add: vek_defs)
  then show "answer_at h v a t \<Longrightarrow> length h < 2 ^ 43 \<Longrightarrow> is_allowed h v = a"
    using set_map_map(1) by (auto simp: answer_at_def map_at_def is_allowed_def)
qed

text \<open>The allowed requests, and the bucket after them, of the abstract bucket.\<close>

fun bucket_run :: "int \<Rightarrow> int \<Rightarrow> int list \<Rightarrow> bucket option \<Rightarrow> bool list" where
  "bucket_run mx rate [] b = []"
| "bucket_run mx rate (now # nows) b =
     (let (a, b) = bucket_step mx rate now b in a # bucket_run mx rate nows (Some b))"

definition allowed_count :: "bool list \<Rightarrow> int" where
  "allowed_count bs = int (length (filter id bs))"

lemma allowed_count_simps [simp]: "allowed_count [] = 0" "allowed_count (b # bs) = of_bool b + allowed_count bs"
  by (simp_all add: allowed_count_def)

lemma refilled_nonneg: "0 \<le> mx \<Longrightarrow> 0 < rate \<Longrightarrow> 0 \<le> t \<Longrightarrow> 0 \<le> fst (refilled mx rate now (Some (t, l)))"
  by (auto simp: refilled_def min_def)

lemma bucket_run_bound:
  assumes "0 \<le> t" and "0 \<le> mx" and "0 < rate" and "sorted (nows @ [z])"
  shows "allowed_count (bucket_run mx rate nows (Some (t, l))) \<le> t + rate * (max l z - l)"
  using assms
proof (induction nows arbitrary: t l)
  case (Cons now nows)
  have s: "now \<le> z" "sorted (nows @ [z])" using Cons.prems(4) by simp_all
  obtain t1 l1 where r: "refilled mx rate now (Some (t, l)) = (t1, l1)" by force
  have d: "t1 \<le> t + (l1 - l) * rate" "l \<le> l1" "l1 \<le> max l z" using r s(1) by (auto simp: refilled_def split: if_splits)
  have m: "max l1 z - l1 + (l1 - l) = max l z - l" using d by auto
  then have e: "rate * (max l1 z - l1) + (l1 - l) * rate = rate * (max l z - l)" by (metis distrib_left mult.commute)
  show ?case
  proof (cases "0 < t1")
    case True
    from Cons.IH [of "t1 - 1" l1] s(2) True Cons.prems(2,3) have
      "allowed_count (bucket_run mx rate nows (Some (t1 - 1, l1))) \<le> t1 - 1 + rate * (max l1 z - l1)" by simp
    then show ?thesis using d(1) e True by (simp add: bucket_step_def r)
  next
    case False
    have "0 \<le> t1" using refilled_nonneg [OF Cons.prems(2,3,1), of now l] by (simp add: r)
    from Cons.IH [OF this Cons.prems(2,3) s(2), of l1] show ?thesis using d(1) e False by (simp add: bucket_step_def r)
  qed
qed simp

lemma bucket_window:
  assumes "0 < mx" and "0 < rate" and "sorted nows" and "nows \<noteq> []"
    and "case b of None \<Rightarrow> True | Some (t, l) \<Rightarrow> 0 \<le> t \<and> t \<le> mx"
  shows "allowed_count (bucket_run mx rate nows b) \<le> mx + rate * (last nows - hd nows)"
proof -
  obtain now rest where n: "nows = now # rest" using assms(4) by (cases nows) auto
  let ?z = "last nows"
  have "\<forall>y \<in> set nows. y \<le> ?z" using assms(3,4) by (cases nows rule: rev_cases) (auto simp: sorted_append)
  then have s: "sorted (rest @ [?z])" "now \<le> ?z" using assms(3) by (auto simp: n sorted_append)
  obtain t l where r: "refilled mx rate now b = (t, l)" by force
  have d: "0 \<le> t" "t \<le> mx" "now \<le> l"
    using r assms(1,2,5) refilled_nonneg [of mx rate _ now] by (auto simp: refilled_def split: option.splits if_splits)
  have "max l ?z - l \<le> ?z - now" using d(3) s(2) by auto
  then have m: "rate * (max l ?z - l) \<le> rate * (?z - now)" using assms(2) by simp
  show ?thesis
  proof (cases "0 < t")
    case True
    have "allowed_count (bucket_run mx rate rest (Some (t - 1, l))) \<le> t - 1 + rate * (max l ?z - l)"
      by (rule bucket_run_bound) (use True assms(1,2) s in simp_all)
    then show ?thesis using d(2) m True by (simp add: n bucket_step_def r split: if_splits)
  next
    case False
    have "allowed_count (bucket_run mx rate rest (Some (t, l))) \<le> t + rate * (max l ?z - l)"
      by (rule bucket_run_bound) (use d assms(1,2) s in simp_all)
    then show ?thesis using d(2) m False by (simp add: n bucket_step_def r split: if_splits)
  qed
qed

lemma fits_int64:
  assumes "buckets_at h sp B n" and "0 < rate" and "rate < 2 ^ 15" and "in48 now"
  shows "case B x of None \<Rightarrow> True | Some (t, l) \<Rightarrow> t + (now - l) * rate < 2 ^ 63"
proof (cases "B x")
  case (Some b)
  obtain t l where b: "b = (t, l)" by force
  have i: "in48 t" "in48 l" using buckets_in48 [OF assms(1) Some] by (simp_all add: b)
  have "(now - l) * rate \<le> 2 ^ 47 * rate" using i assms(2,4) by (intro mult_right_mono) simp_all
  also have "\<dots> \<le> 2 ^ 47 * 2 ^ 15" using assms(3) by simp
  finally have "t + (now - l) * rate < 2 ^ 47 + 2 ^ 62" using i by simp
  then show ?thesis by (simp add: Some b)
qed simp

lemma requests_exact:
  assumes "buckets_at h sp B n" and "length h + 8 * length nows < 2 ^ 43" and "n + length nows \<le> 2 ^ 29" and "find_string h x 0 = Some k"
    and "0 < mx" "mx < 2 ^ 47" and "0 < rate" "rate < 2 ^ 15" and "\<forall>now \<in> set nows. in48 now"
  shows "\<exists>h'. requests nows (Some sp) h [OBJ_VAL k, INT_VAL mx, INT_VAL rate] = Some (bucket_run mx rate nows (B x), Some sp, h')"
  using assms
proof (induction nows arbitrary: h B n)
  case (Cons now nows)
  have l: "length h + 8 < 2 ^ 43" "n < 2 ^ 29" "in48 now" "rate < 2 ^ 47" using Cons.prems(2,3,8,9) by simp_all
  note p = Cons.prems
  from check_exact [OF p(1) l(1,2) p(4-7) l(4,3) fits_int64 [OF p(1,7,8) l(3)]] obtain v h1 where
    c: "native_ratelimit_check now (Some sp) h [OBJ_VAL k, INT_VAL mx, INT_VAL rate] = Some (v, Some sp, h1)"
      "answer_at h1 v (fst (bucket_step mx rate now (B x))) (fst (snd (bucket_step mx rate now (B x))))"
      "buckets_at h1 sp (B(x \<mapsto> snd (bucket_step mx rate now (B x)))) (n + 1)" "length h1 \<le> length h + 8" "find_string h1 x 0 = Some k" .
  have "length h1 + 8 * length nows < 2 ^ 43" "n + 1 + length nows \<le> 2 ^ 29" "\<forall>now \<in> set nows. in48 now" "length h1 < 2 ^ 43"
    using c(4) p(2,3,9) by simp_all
  with Cons.IH [OF c(3) this(1,2) c(5) p(5-8)] obtain h2 where
    "requests nows (Some sp) h1 [OBJ_VAL k, INT_VAL mx, INT_VAL rate] =
      Some (bucket_run mx rate nows (Some (snd (bucket_step mx rate now (B x)))), Some sp, h2)" by auto
  then show ?case using c(1) answer_is_allowed [OF c(2) \<open>length h1 < 2 ^ 43\<close>] by (simp add: case_prod_beta)
qed simp

text \<open>The first request of a process makes the store.\<close>

definition store_at :: "heap \<Rightarrow> ptr option \<Rightarrow> (string \<Rightarrow> bucket option) \<Rightarrow> nat \<Rightarrow> bool" where
  "store_at h store B n \<longleftrightarrow> (case store of None \<Rightarrow> B = Map.empty | Some sp \<Rightarrow> buckets_at h sp B n)"

lemma fresh_store:
  assumes "find_string h x 0 = Some k" and "length h + 1 < 2 ^ 43" and "0 < mx" "mx < 2 ^ 47" and "0 < rate" "rate < 2 ^ 47"
  shows "native_ratelimit_check now None h [OBJ_VAL k, INT_VAL mx, INT_VAL rate] =
      native_ratelimit_check now (Some (length h)) (h @ [OBJ_MAP obj_map_new]) [OBJ_VAL k, INT_VAL mx, INT_VAL rate]"
    and "buckets_at (h @ [OBJ_MAP obj_map_new]) (length h) Map.empty 0"
    and "find_string (h @ [OBJ_MAP obj_map_new]) x 0 = Some k"
proof -
  have k: "k < length h" "h ! k = OBJ_STRING x" using assms(1) by (simp_all add: find_string_iff)
  have "obj_of h (OBJ_VAL k) = Some (OBJ_STRING x)" using obj_of_OBJ_VAL [OF k(1)] k assms(2) by simp
  then have s: "IS_STRING h (OBJ_VAL k)" "IS_STRING (h @ [OBJ_MAP obj_map_new]) (OBJ_VAL k)"
    using obj_of_append by (simp_all add: IS_STRING_def)
  have i: "IS_INT (INT_VAL mx)" "AS_INT (INT_VAL mx) = mx" "IS_INT (INT_VAL rate)" "AS_INT (INT_VAL rate) = rate"
    using INT_VAL_int [of mx] INT_VAL_int [of rate] assms(3-6) by simp_all
  have pos: "(mx \<le> 0 \<or> rate \<le> 0) = False" using assms(3,5) by simp
  have a: "[OBJ_VAL k, INT_VAL mx, INT_VAL rate] ! 0 = OBJ_VAL k" "[OBJ_VAL k, INT_VAL mx, INT_VAL rate] ! 1 = INT_VAL mx"
    "[OBJ_VAL k, INT_VAL mx, INT_VAL rate] ! 2 = INT_VAL rate" by simp_all
  show "native_ratelimit_check now None h [OBJ_VAL k, INT_VAL mx, INT_VAL rate] =
      native_ratelimit_check now (Some (length h)) (h @ [OBJ_MAP obj_map_new]) [OBJ_VAL k, INT_VAL mx, INT_VAL rate]"
    unfolding native_ratelimit_check_def ensure_ratelimit_state_def alloc_object_def option.case Let_def case_prod_conv a i
    by (simp only: s i pos simp_thms if_False)
  show "buckets_at (h @ [OBJ_MAP obj_map_new]) (length h) Map.empty 0"
    unfolding buckets_at_def by (intro exI [of _ Map.empty] conjI map_at_new) simp
  show "find_string (h @ [OBJ_MAP obj_map_new]) x 0 = Some k" by (rule find_string_heap_le [OF assms(1) heap_le_append])
qed

lemma requests_exact_any:
  assumes "store_at h store B n" and "length h + 8 * length nows + 1 < 2 ^ 43" and "n + length nows \<le> 2 ^ 29" and "find_string h x 0 = Some k"
    and "0 < mx" "mx < 2 ^ 47" and "0 < rate" "rate < 2 ^ 15" and "\<forall>now \<in> set nows. in48 now"
  shows "\<exists>store' h'. requests nows store h [OBJ_VAL k, INT_VAL mx, INT_VAL rate] = Some (bucket_run mx rate nows (B x), store', h')"
proof (cases store)
  case (Some sp)
  then have "buckets_at h sp B n" using assms(1) by (simp add: store_at_def)
  moreover have "length h + 8 * length nows < 2 ^ 43" using assms(2) by simp
  ultimately show ?thesis using requests_exact [OF _ _ assms(3-9)] Some by blast
next
  case None
  then have B: "B = Map.empty" using assms(1) by (simp add: store_at_def)
  show ?thesis
  proof (cases nows)
    case Nil
    then show ?thesis by simp
  next
    case (Cons now rest)
    have "length h + 1 < 2 ^ 43" "rate < 2 ^ 47" using assms(2,8) by simp_all
    note f = fresh_store [OF assms(4) this(1) assms(5-7) this(2)]
    have l: "length (h @ [OBJ_MAP obj_map_new]) + 8 * length nows < 2 ^ 43" "0 + length nows \<le> 2 ^ 29" using assms(2,3) by simp_all
    from requests_exact [OF f(2) l f(3) assms(5-9)] show ?thesis
      unfolding None Cons requests.simps f(1) by (auto simp: B)
  qed
qed

subsection \<open>The promises of the package\<close>


definition small_heap :: heap where
  "small_heap = [OBJ_STRING ''ip'', OBJ_MAP obj_map_new]"

lemma small_heap_facts:
  "buckets_at small_heap 1 Map.empty 0" "length small_heap = 2" "find_string small_heap ''ip'' 0 = Some 0"
proof -
  have "map_at small_heap 1 Map.empty 0" using map_at_new [of "[OBJ_STRING ''ip'']"] by (simp add: small_heap_def)
  then show "buckets_at small_heap 1 Map.empty 0" unfolding buckets_at_def by (intro exI [of _ Map.empty]) simp
qed (simp_all add: small_heap_def)




end
