(* ===== verification/Spec2Isabelle.thy ===== *)
theory Spec2Isabelle
  imports Obj_Map_Correct Interning Router Http_Parser Compiler_Returns Gc_Correct Vebc_Correct Json_Correct Interpret_Correct Formatter Ratelimit
begin

section \<open>Verification of the Vek core\<close>

text \<open>
  Vek is a small language for web programs, written in C (\<open>src/\<close>).  A source text is scanned by
  \<open>lexer.c\<close>, compiled in one pass by \<open>compiler.c\<close> to the bytecode of \<open>chunk.c\<close> and run by the
  machine of \<open>vm.c\<close>.  Values are NaN-boxed words (\<open>value.h\<close>); objects, interned strings and hash maps
  live on a heap (\<open>object.c\<close>) that a mark-and-sweep collector cleans (\<open>gc.c\<close>).  \<open>vebc_writer.c\<close> and
  \<open>vebc_loader.c\<close> store compiled functions in files sealed with \<open>sha256.c\<close>; \<open>formatter.c\<close> rewrites
  sources; \<open>http_parser.c\<close> and \<open>router.c\<close> are the pure part of the web server; \<open>stdlib_json.c\<close> and
  \<open>stdlib_ratelimit.c\<close> are two packages of the standard library.

  \<^bold>\<open>How the program is modelled.\<close>  Each C function is a HOL function with the source's name that takes the
  state it changes and returns it; a struct is a record, an enumeration a datatype.  A fixed-width integer
  is a word or, where the code cannot leave its range, a number.  A C string is a list of characters,
  with the terminating NUL written out where the code looks for it (\<open>Lexer\<close>).  A pointer to an object is an
  index into the heap, which is a list of objects.  \<open>None\<close> is what the code leaves undefined or never returns
  from: a read outside a buffer, a signed overflow, an endless probe; errors that the code reports are
  values.  Loops that may not end are \<open>partial_function (option)\<close>, the mutual recursion of the compiler takes
  fuel, the other loops are structural or have a measure.

  \<^bold>\<open>Theories.\<close>
  \<^item> \<open>Vek_Prelude\<close>: machine types, fact collections, generic lemmas.  \<open>Probing\<close>: the locale \<open>probe_loop\<close> of
    linear probing with tombstones; every probe loop of the two tables below is an interpretation of it.
  \<^item> \<open>Value\<close> (\<open>value.h\<close>): boxing and tags.  \<open>Obj_Map\<close>, \<open>Obj_Map_Correct\<close> (\<open>ObjMap\<close> of \<open>object.c\<close>): the table is a
    finite map; \<open>map_store\<close> is the interface its clients use, interpreted on the code's operations.
    \<open>Interning\<close> (the intern table of \<open>object.c\<close>).  \<open>Objects\<close> (\<open>object.c\<close>, \<open>chunk.c\<close>): objects, chunks,
    allocation.  \<open>Obj_Refs\<close>, \<open>Machine_Facts\<close>: heaps that grow and maps with interned keys.
  \<^item> \<open>Lexer\<close> (\<open>lexer.c\<close>).  \<open>Formatter\<close> (\<open>formatter.c\<close>).
  \<^item> \<open>Compiler\<close> (\<open>compiler.c\<close>); \<open>Compiler_Total\<close>, \<open>Compiler_Fuel\<close>, \<open>Compiler_Returns\<close>: it always returns, more fuel
    changes nothing, and the chunks it emits are within their limits.
  \<^item> \<open>Vm_Values\<close>, \<open>Vm_Methods\<close>, \<open>Vm\<close> (\<open>vm.c\<close>): printing and comparison, the built-in methods, the 49 instructions, calls,
    upvalues, start-up and the dispatch loop.
  \<^item> \<open>Core_Language\<close>: an independent specification, the core of the language (assignments, \<open>if\<close>, \<open>while\<close>, expressions
    over nil, booleans and 48-bit integers) with a big-step semantics and a printer.  \<open>Core_Code\<close>: which
    bytecode is the code of a phrase.  \<open>Compile_Correct\<close>, \<open>Compile_Program\<close>: lexer and compiler produce it.
    \<open>Execute_Correct\<close>, \<open>Program_Correct\<close>: the machine runs it as the semantics says, in both directions.
    \<open>Interpret_Correct\<close>: the contract of \<open>vm_interpret\<close>.
  \<^item> \<open>Gc\<close>, \<open>Gc_Correct\<close> (\<open>gc.c\<close>); \<open>Sha256\<close> (\<open>sha256.c\<close>); \<open>Vebc\<close>, \<open>Vebc_Correct\<close> (bytecode files), with the locale
    \<open>le_codec\<close> of little-endian integers; \<open>Json\<close>, \<open>Json_Correct\<close> (\<open>stdlib_json.c\<close>); \<open>Http_Parser\<close> (\<open>http_parser.c\<close>);
    \<open>Router\<close> (\<open>router.c\<close>); \<open>Ratelimit\<close> (\<open>stdlib_ratelimit.c\<close>), over the map objects of the machine's heap.

  \<^bold>\<open>What the lemmas show.\<close>  The tables behave as finite maps along every history of operations, and which
  states make them hang.  The lexer, the JSON functions, the HTTP parser and the bytecode files have round
  trips.  The compiler terminates on every source; on printed core programs it emits their code, and the
  interpreter then returns exactly when the semantics has a result, and returns that result, run-time
  errors included.  A collection keeps exactly the reachable objects.  SHA-256 is the function of the
  standard.  The router finds the first matching route.  The formatter changes nothing but blanks on clean
  sources.  The rate limiter refines a token bucket, and so bounds the requests of any window.  Where the code does not do what it means to, a theorem exhibits the failing input.

  \<^bold>\<open>Bounds and fuel.\<close>  The compiler gets fuel \<open>n\<close> for the depth of its recursion; twice the length of the
  source plus four is enough (\<open>Compiler_Returns\<close>), and by \<open>Compiler_Fuel\<close> any larger amount gives the same
  result.  The decoder of JSON gets twice the length of the text plus one, which always suffices; the
  encoder's fuel is the depth of the C stack.  The core-language theorems assume at most 65000 bytes of code
  (the code uses 16-bit jumps and constant indices) and a heap below \<open>2\<^sup>43\<close> objects (pointers have 48 bits and
  are 16-byte aligned); a table must stay below \<open>2\<^sup>29\<close> entries for its 32-bit capacity arithmetic.

  \<^bold>\<open>What stands for code outside \<open>src/\<close>.\<close>  The record \<open>libc\<close> has the functions of the C library and the
  floating-point operations that the machine calls; \<open>strtod\<close> is a parameter of the compiler.  No property
  assumes anything of them.

  \<^bold>\<open>Not modelled.\<close>  The interning of the machine's strings is the abstract \<open>intern_string\<close> on the heap;
  \<open>Interning\<close> verifies the table that implements it.  The collector is modelled on the same heap but does
  not interrupt the machine: the machine model only counts down to the next check, so theorems on runs say what
  happens when no reachable object is lost, which is what \<open>Gc_Correct\<close> proves of a collection.  The counters and
  the page heap of \<open>memory.c\<close> (nothing allocates from the latter), the disassembler of \<open>debug.c\<close>, the event loop,
  sockets, SQLite and the command line are calls of the operating system or of libraries.  The other
  packages of the standard library are not part of the language core.
\<close>

end
